(* ===== verification/Prelude.thy ===== *)
theory Prelude
  imports Main "HOL-Library.Word"
begin

text \<open>
  What the components share: named collections of facts for the component proofs,
  and generic lemmas on lists, options and words.
\<close>

named_theorems rtx_simps \<open>evaluation of accessors on constructed expressions\<close>
named_theorems target_simps \<open>unfolding of the register and address macros of the target\<close>

section \<open>Words: unsigned value, sign bit and signed value\<close>

lemma sint_uint_bit: "sint a = uint a - 2 ^ LENGTH('a) * of_bool (bit a (LENGTH('a) - 1))"
  for a :: "'a::len word"
proof -
  have "sint a = signed_take_bit (LENGTH('a) - 1) (uint a)"
    by (simp add: sint_uint)
  also have "\<dots> = take_bit (Suc (LENGTH('a) - 1)) (uint a)
      - 2 ^ Suc (LENGTH('a) - 1) * of_bool (bit (uint a) (LENGTH('a) - 1))"
    by (rule signed_take_bit_eq_take_bit_minus)
  finally show ?thesis
    using uint_lt2p [of a] by (simp add: bit_uint_iff take_bit_int_eq_self)
qed

lemma sint_neg_bit: "(sint a < 0) = bit a (LENGTH('a) - 1)" for a :: "'a::len word"
  using uint_lt2p [of a] by (simp add: sint_uint_bit)

lemma bit_top_uint: "bit a (LENGTH('a) - 1) = (2 ^ (LENGTH('a) - 1) \<le> uint a)" for a :: "'a::len word"
proof -
  let ?p = "2 ^ (LENGTH('a) - 1) :: int"
  have p: "0 < ?p" by simp
  have lt: "uint a < 2 * ?p"
    using uint_lt2p [of a] by (simp flip: power_Suc)
  have "bit a (LENGTH('a) - 1) = bit (uint a) (LENGTH('a) - 1)" by (simp add: bit_uint_iff)
  also have "\<dots> = odd (uint a div ?p)" by (simp add: bit_iff_odd)
  also have "\<dots> = (?p \<le> uint a)"
  proof (cases "?p \<le> uint a")
    case True
    then have "uint a div ?p = (uint a - ?p) div ?p + 1" using p by (simp add: div_pos_geq)
    moreover have "(uint a - ?p) div ?p = 0" using True lt by (intro div_pos_pos_trivial) auto
    ultimately show ?thesis using True by simp
  next
    case False
    then show ?thesis using p by (simp add: div_pos_pos_trivial)
  qed
  finally show ?thesis .
qed

lemma sint_nonneg_uint: "0 \<le> sint a \<Longrightarrow> sint a = uint a" for a :: "'a::len word"
  using sint_neg_bit [of a] by (simp add: sint_uint_bit)

end
