(* ===== verification/Rtl.thy ===== *)
theory Rtl
  imports Prelude
begin

text \<open>
  The register transfer language of the compiler: machine modes (gcc/machmode.def,
  gcc/machmode.h), rtx codes with their formats and classes (gcc/rtl.def, gcc/rtl.h,
  gcc/rtl.c), the expression nodes, their accessor macros, the constructors the
  back end uses and the copying routines of gcc/rtl.c.

  An rtx is a tree. A null pointer is \<open>NULL_RTX\<close>; a node carries its code, its mode,
  its eight flag bits and the list of its fields, one per character of the code's
  format. The enumeration of codes is the position in rtl.def, as in C. A field of
  format \<open>u\<close> (another insn) holds that insn's uid, a field of format \<open>0\<close> a number:
  for a \<open>SCRATCH\<close> it stands for the identity of the object, so that two scratches
  are equal only when they are the same object. With it, the pointer comparisons of
  the source are equality of trees: registers, constants and symbols are unique for
  their contents by the conventions of emit-rtl.c.
\<close>

section \<open>Machine modes\<close>

datatype mode_class =
    MODE_RANDOM | MODE_INT | MODE_FLOAT | MODE_PARTIAL_INT | MODE_CC
    | MODE_COMPLEX_INT | MODE_COMPLEX_FLOAT

datatype machine_mode =
    VOIDmode | PQImode | QImode | PHImode | HImode | PSImode
    | SImode | PDImode | DImode | TImode | OImode | QFmode
    | HFmode | TQFmode | SFmode | DFmode | XFmode | TFmode
    | QCmode | HCmode | SCmode | DCmode | XCmode | TCmode
    | CQImode | CHImode | CSImode | CDImode | CTImode | COImode
    | BLKmode | CCmode

definition all_modes :: "machine_mode list" where
  "all_modes = [VOIDmode, PQImode, QImode, PHImode, HImode, PSImode, SImode, PDImode,
     DImode, TImode, OImode, QFmode, HFmode, TQFmode, SFmode, DFmode,
     XFmode, TFmode, QCmode, HCmode, SCmode, DCmode, XCmode, TCmode,
     CQImode, CHImode, CSImode, CDImode, CTImode, COImode, BLKmode, CCmode]"

fun GET_MODE_CLASS :: "machine_mode \<Rightarrow> mode_class" where
  "GET_MODE_CLASS VOIDmode = MODE_RANDOM"
| "GET_MODE_CLASS PQImode = MODE_PARTIAL_INT"
| "GET_MODE_CLASS QImode = MODE_INT"
| "GET_MODE_CLASS PHImode = MODE_PARTIAL_INT"
| "GET_MODE_CLASS HImode = MODE_INT"
| "GET_MODE_CLASS PSImode = MODE_PARTIAL_INT"
| "GET_MODE_CLASS SImode = MODE_INT"
| "GET_MODE_CLASS PDImode = MODE_PARTIAL_INT"
| "GET_MODE_CLASS DImode = MODE_INT"
| "GET_MODE_CLASS TImode = MODE_INT"
| "GET_MODE_CLASS OImode = MODE_INT"
| "GET_MODE_CLASS QFmode = MODE_FLOAT"
| "GET_MODE_CLASS HFmode = MODE_FLOAT"
| "GET_MODE_CLASS TQFmode = MODE_FLOAT"
| "GET_MODE_CLASS SFmode = MODE_FLOAT"
| "GET_MODE_CLASS DFmode = MODE_FLOAT"
| "GET_MODE_CLASS XFmode = MODE_FLOAT"
| "GET_MODE_CLASS TFmode = MODE_FLOAT"
| "GET_MODE_CLASS QCmode = MODE_COMPLEX_FLOAT"
| "GET_MODE_CLASS HCmode = MODE_COMPLEX_FLOAT"
| "GET_MODE_CLASS SCmode = MODE_COMPLEX_FLOAT"
| "GET_MODE_CLASS DCmode = MODE_COMPLEX_FLOAT"
| "GET_MODE_CLASS XCmode = MODE_COMPLEX_FLOAT"
| "GET_MODE_CLASS TCmode = MODE_COMPLEX_FLOAT"
| "GET_MODE_CLASS CQImode = MODE_COMPLEX_INT"
| "GET_MODE_CLASS CHImode = MODE_COMPLEX_INT"
| "GET_MODE_CLASS CSImode = MODE_COMPLEX_INT"
| "GET_MODE_CLASS CDImode = MODE_COMPLEX_INT"
| "GET_MODE_CLASS CTImode = MODE_COMPLEX_INT"
| "GET_MODE_CLASS COImode = MODE_COMPLEX_INT"
| "GET_MODE_CLASS BLKmode = MODE_RANDOM"
| "GET_MODE_CLASS CCmode = MODE_CC"

fun GET_MODE_SIZE :: "machine_mode \<Rightarrow> nat" where
  "GET_MODE_SIZE VOIDmode = 0"
| "GET_MODE_SIZE PQImode = 1"
| "GET_MODE_SIZE QImode = 1"
| "GET_MODE_SIZE PHImode = 2"
| "GET_MODE_SIZE HImode = 2"
| "GET_MODE_SIZE PSImode = 4"
| "GET_MODE_SIZE SImode = 4"
| "GET_MODE_SIZE PDImode = 8"
| "GET_MODE_SIZE DImode = 8"
| "GET_MODE_SIZE TImode = 16"
| "GET_MODE_SIZE OImode = 32"
| "GET_MODE_SIZE QFmode = 1"
| "GET_MODE_SIZE HFmode = 2"
| "GET_MODE_SIZE TQFmode = 3"
| "GET_MODE_SIZE SFmode = 4"
| "GET_MODE_SIZE DFmode = 8"
| "GET_MODE_SIZE XFmode = 12"
| "GET_MODE_SIZE TFmode = 16"
| "GET_MODE_SIZE QCmode = 2"
| "GET_MODE_SIZE HCmode = 4"
| "GET_MODE_SIZE SCmode = 8"
| "GET_MODE_SIZE DCmode = 16"
| "GET_MODE_SIZE XCmode = 24"
| "GET_MODE_SIZE TCmode = 32"
| "GET_MODE_SIZE CQImode = 2"
| "GET_MODE_SIZE CHImode = 4"
| "GET_MODE_SIZE CSImode = 8"
| "GET_MODE_SIZE CDImode = 16"
| "GET_MODE_SIZE CTImode = 32"
| "GET_MODE_SIZE COImode = 64"
| "GET_MODE_SIZE BLKmode = 0"
| "GET_MODE_SIZE CCmode = 4"

fun GET_MODE_UNIT_SIZE :: "machine_mode \<Rightarrow> nat" where
  "GET_MODE_UNIT_SIZE VOIDmode = 0"
| "GET_MODE_UNIT_SIZE PQImode = 1"
| "GET_MODE_UNIT_SIZE QImode = 1"
| "GET_MODE_UNIT_SIZE PHImode = 2"
| "GET_MODE_UNIT_SIZE HImode = 2"
| "GET_MODE_UNIT_SIZE PSImode = 4"
| "GET_MODE_UNIT_SIZE SImode = 4"
| "GET_MODE_UNIT_SIZE PDImode = 8"
| "GET_MODE_UNIT_SIZE DImode = 8"
| "GET_MODE_UNIT_SIZE TImode = 16"
| "GET_MODE_UNIT_SIZE OImode = 32"
| "GET_MODE_UNIT_SIZE QFmode = 1"
| "GET_MODE_UNIT_SIZE HFmode = 2"
| "GET_MODE_UNIT_SIZE TQFmode = 3"
| "GET_MODE_UNIT_SIZE SFmode = 4"
| "GET_MODE_UNIT_SIZE DFmode = 8"
| "GET_MODE_UNIT_SIZE XFmode = 12"
| "GET_MODE_UNIT_SIZE TFmode = 16"
| "GET_MODE_UNIT_SIZE QCmode = 1"
| "GET_MODE_UNIT_SIZE HCmode = 2"
| "GET_MODE_UNIT_SIZE SCmode = 4"
| "GET_MODE_UNIT_SIZE DCmode = 8"
| "GET_MODE_UNIT_SIZE XCmode = 12"
| "GET_MODE_UNIT_SIZE TCmode = 16"
| "GET_MODE_UNIT_SIZE CQImode = 1"
| "GET_MODE_UNIT_SIZE CHImode = 2"
| "GET_MODE_UNIT_SIZE CSImode = 4"
| "GET_MODE_UNIT_SIZE CDImode = 8"
| "GET_MODE_UNIT_SIZE CTImode = 16"
| "GET_MODE_UNIT_SIZE COImode = 32"
| "GET_MODE_UNIT_SIZE BLKmode = 0"
| "GET_MODE_UNIT_SIZE CCmode = 4"

fun GET_MODE_WIDER_MODE :: "machine_mode \<Rightarrow> machine_mode" where
  "GET_MODE_WIDER_MODE VOIDmode = VOIDmode"
| "GET_MODE_WIDER_MODE PQImode = PHImode"
| "GET_MODE_WIDER_MODE QImode = HImode"
| "GET_MODE_WIDER_MODE PHImode = PSImode"
| "GET_MODE_WIDER_MODE HImode = SImode"
| "GET_MODE_WIDER_MODE PSImode = PDImode"
| "GET_MODE_WIDER_MODE SImode = DImode"
| "GET_MODE_WIDER_MODE PDImode = VOIDmode"
| "GET_MODE_WIDER_MODE DImode = TImode"
| "GET_MODE_WIDER_MODE TImode = OImode"
| "GET_MODE_WIDER_MODE OImode = VOIDmode"
| "GET_MODE_WIDER_MODE QFmode = HFmode"
| "GET_MODE_WIDER_MODE HFmode = TQFmode"
| "GET_MODE_WIDER_MODE TQFmode = SFmode"
| "GET_MODE_WIDER_MODE SFmode = DFmode"
| "GET_MODE_WIDER_MODE DFmode = XFmode"
| "GET_MODE_WIDER_MODE XFmode = TFmode"
| "GET_MODE_WIDER_MODE TFmode = VOIDmode"
| "GET_MODE_WIDER_MODE QCmode = HCmode"
| "GET_MODE_WIDER_MODE HCmode = SCmode"
| "GET_MODE_WIDER_MODE SCmode = DCmode"
| "GET_MODE_WIDER_MODE DCmode = XCmode"
| "GET_MODE_WIDER_MODE XCmode = TCmode"
| "GET_MODE_WIDER_MODE TCmode = VOIDmode"
| "GET_MODE_WIDER_MODE CQImode = CHImode"
| "GET_MODE_WIDER_MODE CHImode = CSImode"
| "GET_MODE_WIDER_MODE CSImode = CDImode"
| "GET_MODE_WIDER_MODE CDImode = CTImode"
| "GET_MODE_WIDER_MODE CTImode = COImode"
| "GET_MODE_WIDER_MODE COImode = VOIDmode"
| "GET_MODE_WIDER_MODE BLKmode = VOIDmode"
| "GET_MODE_WIDER_MODE CCmode = VOIDmode"

fun mode_num :: "machine_mode \<Rightarrow> nat" where
  "mode_num VOIDmode = 0"
| "mode_num PQImode = 1"
| "mode_num QImode = 2"
| "mode_num PHImode = 3"
| "mode_num HImode = 4"
| "mode_num PSImode = 5"
| "mode_num SImode = 6"
| "mode_num PDImode = 7"
| "mode_num DImode = 8"
| "mode_num TImode = 9"
| "mode_num OImode = 10"
| "mode_num QFmode = 11"
| "mode_num HFmode = 12"
| "mode_num TQFmode = 13"
| "mode_num SFmode = 14"
| "mode_num DFmode = 15"
| "mode_num XFmode = 16"
| "mode_num TFmode = 17"
| "mode_num QCmode = 18"
| "mode_num HCmode = 19"
| "mode_num SCmode = 20"
| "mode_num DCmode = 21"
| "mode_num XCmode = 22"
| "mode_num TCmode = 23"
| "mode_num CQImode = 24"
| "mode_num CHImode = 25"
| "mode_num CSImode = 26"
| "mode_num CDImode = 27"
| "mode_num CTImode = 28"
| "mode_num COImode = 29"
| "mode_num BLKmode = 30"
| "mode_num CCmode = 31"

section \<open>Codes\<close>

text \<open>The enumeration \<open>enum rtx_code\<close>: the line of a code in rtl.def.\<close>

datatype rtx_code = RC nat

abbreviation UNKNOWN :: rtx_code where "UNKNOWN \<equiv> RC 0"
abbreviation NIL :: rtx_code where "NIL \<equiv> RC 1"
abbreviation EXPR_LIST :: rtx_code where "EXPR_LIST \<equiv> RC 2"
abbreviation INSN_LIST :: rtx_code where "INSN_LIST \<equiv> RC 3"
abbreviation MATCH_OPERAND :: rtx_code where "MATCH_OPERAND \<equiv> RC 4"
abbreviation MATCH_SCRATCH :: rtx_code where "MATCH_SCRATCH \<equiv> RC 5"
abbreviation MATCH_DUP :: rtx_code where "MATCH_DUP \<equiv> RC 6"
abbreviation MATCH_OPERATOR :: rtx_code where "MATCH_OPERATOR \<equiv> RC 7"
abbreviation MATCH_PARALLEL :: rtx_code where "MATCH_PARALLEL \<equiv> RC 8"
abbreviation MATCH_OP_DUP :: rtx_code where "MATCH_OP_DUP \<equiv> RC 9"
abbreviation MATCH_PAR_DUP :: rtx_code where "MATCH_PAR_DUP \<equiv> RC 10"
abbreviation MATCH_INSN :: rtx_code where "MATCH_INSN \<equiv> RC 11"
abbreviation MATCH_INSN2 :: rtx_code where "MATCH_INSN2 \<equiv> RC 12"
abbreviation DEFINE_INSN :: rtx_code where "DEFINE_INSN \<equiv> RC 13"
abbreviation DEFINE_PEEPHOLE :: rtx_code where "DEFINE_PEEPHOLE \<equiv> RC 14"
abbreviation DEFINE_SPLIT :: rtx_code where "DEFINE_SPLIT \<equiv> RC 15"
abbreviation DEFINE_COMBINE :: rtx_code where "DEFINE_COMBINE \<equiv> RC 16"
abbreviation DEFINE_EXPAND :: rtx_code where "DEFINE_EXPAND \<equiv> RC 17"
abbreviation DEFINE_DELAY :: rtx_code where "DEFINE_DELAY \<equiv> RC 18"
abbreviation DEFINE_FUNCTION_UNIT :: rtx_code where "DEFINE_FUNCTION_UNIT \<equiv> RC 19"
abbreviation DEFINE_ASM_ATTRIBUTES :: rtx_code where "DEFINE_ASM_ATTRIBUTES \<equiv> RC 20"
abbreviation SEQUENCE :: rtx_code where "SEQUENCE \<equiv> RC 21"
abbreviation ADDRESS :: rtx_code where "ADDRESS \<equiv> RC 22"
abbreviation DEFINE_ATTR :: rtx_code where "DEFINE_ATTR \<equiv> RC 23"
abbreviation ATTR :: rtx_code where "ATTR \<equiv> RC 24"
abbreviation SET_ATTR :: rtx_code where "SET_ATTR \<equiv> RC 25"
abbreviation SET_ATTR_ALTERNATIVE :: rtx_code where "SET_ATTR_ALTERNATIVE \<equiv> RC 26"
abbreviation EQ_ATTR :: rtx_code where "EQ_ATTR \<equiv> RC 27"
abbreviation ATTR_FLAG :: rtx_code where "ATTR_FLAG \<equiv> RC 28"
abbreviation INSN :: rtx_code where "INSN \<equiv> RC 29"
abbreviation JUMP_INSN :: rtx_code where "JUMP_INSN \<equiv> RC 30"
abbreviation CALL_INSN :: rtx_code where "CALL_INSN \<equiv> RC 31"
abbreviation BARRIER :: rtx_code where "BARRIER \<equiv> RC 32"
abbreviation CODE_LABEL :: rtx_code where "CODE_LABEL \<equiv> RC 33"
abbreviation NOTE :: rtx_code where "NOTE \<equiv> RC 34"
abbreviation INLINE_HEADER :: rtx_code where "INLINE_HEADER \<equiv> RC 35"
abbreviation PARALLEL :: rtx_code where "PARALLEL \<equiv> RC 36"
abbreviation ASM_INPUT :: rtx_code where "ASM_INPUT \<equiv> RC 37"
abbreviation ASM_OPERANDS :: rtx_code where "ASM_OPERANDS \<equiv> RC 38"
abbreviation UNSPEC :: rtx_code where "UNSPEC \<equiv> RC 39"
abbreviation UNSPEC_VOLATILE :: rtx_code where "UNSPEC_VOLATILE \<equiv> RC 40"
abbreviation ADDR_VEC :: rtx_code where "ADDR_VEC \<equiv> RC 41"
abbreviation ADDR_DIFF_VEC :: rtx_code where "ADDR_DIFF_VEC \<equiv> RC 42"
abbreviation SET :: rtx_code where "SET \<equiv> RC 43"
abbreviation USE :: rtx_code where "USE \<equiv> RC 44"
abbreviation CLOBBER :: rtx_code where "CLOBBER \<equiv> RC 45"
abbreviation CALL :: rtx_code where "CALL \<equiv> RC 46"
abbreviation RETURN :: rtx_code where "RETURN \<equiv> RC 47"
abbreviation TRAP_IF :: rtx_code where "TRAP_IF \<equiv> RC 48"
abbreviation CONST_INT :: rtx_code where "CONST_INT \<equiv> RC 49"
abbreviation CONST_DOUBLE :: rtx_code where "CONST_DOUBLE \<equiv> RC 50"
abbreviation CONST_STRING :: rtx_code where "CONST_STRING \<equiv> RC 51"
abbreviation CONST_rtx :: rtx_code where "CONST_rtx \<equiv> RC 52"
abbreviation PC :: rtx_code where "PC \<equiv> RC 53"
abbreviation REG :: rtx_code where "REG \<equiv> RC 54"
abbreviation SCRATCH :: rtx_code where "SCRATCH \<equiv> RC 55"
abbreviation SUBREG :: rtx_code where "SUBREG \<equiv> RC 56"
abbreviation STRICT_LOW_PART :: rtx_code where "STRICT_LOW_PART \<equiv> RC 57"
abbreviation CONCAT :: rtx_code where "CONCAT \<equiv> RC 58"
abbreviation MEM :: rtx_code where "MEM \<equiv> RC 59"
abbreviation LABEL_REF :: rtx_code where "LABEL_REF \<equiv> RC 60"
abbreviation SYMBOL_REF :: rtx_code where "SYMBOL_REF \<equiv> RC 61"
abbreviation CC0 :: rtx_code where "CC0 \<equiv> RC 62"
abbreviation ADDRESSOF :: rtx_code where "ADDRESSOF \<equiv> RC 63"
abbreviation QUEUED :: rtx_code where "QUEUED \<equiv> RC 64"
abbreviation IF_THEN_ELSE :: rtx_code where "IF_THEN_ELSE \<equiv> RC 65"
abbreviation COND :: rtx_code where "COND \<equiv> RC 66"
abbreviation COMPARE :: rtx_code where "COMPARE \<equiv> RC 67"
abbreviation PLUS :: rtx_code where "PLUS \<equiv> RC 68"
abbreviation MINUS :: rtx_code where "MINUS \<equiv> RC 69"
abbreviation NEG :: rtx_code where "NEG \<equiv> RC 70"
abbreviation MULT :: rtx_code where "MULT \<equiv> RC 71"
abbreviation DIV :: rtx_code where "DIV \<equiv> RC 72"
abbreviation MOD :: rtx_code where "MOD \<equiv> RC 73"
abbreviation UDIV :: rtx_code where "UDIV \<equiv> RC 74"
abbreviation UMOD :: rtx_code where "UMOD \<equiv> RC 75"
abbreviation AND :: rtx_code where "AND \<equiv> RC 76"
abbreviation IOR :: rtx_code where "IOR \<equiv> RC 77"
abbreviation XOR :: rtx_code where "XOR \<equiv> RC 78"
abbreviation NOT :: rtx_code where "NOT \<equiv> RC 79"
abbreviation ASHIFT :: rtx_code where "ASHIFT \<equiv> RC 80"
abbreviation ROTATE :: rtx_code where "ROTATE \<equiv> RC 81"
abbreviation ASHIFTRT :: rtx_code where "ASHIFTRT \<equiv> RC 82"
abbreviation LSHIFTRT :: rtx_code where "LSHIFTRT \<equiv> RC 83"
abbreviation ROTATERT :: rtx_code where "ROTATERT \<equiv> RC 84"
abbreviation SMIN :: rtx_code where "SMIN \<equiv> RC 85"
abbreviation SMAX :: rtx_code where "SMAX \<equiv> RC 86"
abbreviation UMIN :: rtx_code where "UMIN \<equiv> RC 87"
abbreviation UMAX :: rtx_code where "UMAX \<equiv> RC 88"
abbreviation PRE_DEC :: rtx_code where "PRE_DEC \<equiv> RC 89"
abbreviation PRE_INC :: rtx_code where "PRE_INC \<equiv> RC 90"
abbreviation POST_DEC :: rtx_code where "POST_DEC \<equiv> RC 91"
abbreviation POST_INC :: rtx_code where "POST_INC \<equiv> RC 92"
abbreviation PRE_MODIFY :: rtx_code where "PRE_MODIFY \<equiv> RC 93"
abbreviation POST_MODIFY :: rtx_code where "POST_MODIFY \<equiv> RC 94"
abbreviation NE :: rtx_code where "NE \<equiv> RC 95"
abbreviation EQ :: rtx_code where "EQ \<equiv> RC 96"
abbreviation GE :: rtx_code where "GE \<equiv> RC 97"
abbreviation GT :: rtx_code where "GT \<equiv> RC 98"
abbreviation LE :: rtx_code where "LE \<equiv> RC 99"
abbreviation LT :: rtx_code where "LT \<equiv> RC 100"
abbreviation GEU :: rtx_code where "GEU \<equiv> RC 101"
abbreviation GTU :: rtx_code where "GTU \<equiv> RC 102"
abbreviation LEU :: rtx_code where "LEU \<equiv> RC 103"
abbreviation LTU :: rtx_code where "LTU \<equiv> RC 104"
abbreviation SIGN_EXTEND :: rtx_code where "SIGN_EXTEND \<equiv> RC 105"
abbreviation ZERO_EXTEND :: rtx_code where "ZERO_EXTEND \<equiv> RC 106"
abbreviation TRUNCATE :: rtx_code where "TRUNCATE \<equiv> RC 107"
abbreviation FLOAT_EXTEND :: rtx_code where "FLOAT_EXTEND \<equiv> RC 108"
abbreviation FLOAT_TRUNCATE :: rtx_code where "FLOAT_TRUNCATE \<equiv> RC 109"
abbreviation FLOAT :: rtx_code where "FLOAT \<equiv> RC 110"
abbreviation FIX :: rtx_code where "FIX \<equiv> RC 111"
abbreviation UNSIGNED_FLOAT :: rtx_code where "UNSIGNED_FLOAT \<equiv> RC 112"
abbreviation UNSIGNED_FIX :: rtx_code where "UNSIGNED_FIX \<equiv> RC 113"
abbreviation ABS :: rtx_code where "ABS \<equiv> RC 114"
abbreviation SQRT :: rtx_code where "SQRT \<equiv> RC 115"
abbreviation FFS :: rtx_code where "FFS \<equiv> RC 116"
abbreviation SIGN_EXTRACT :: rtx_code where "SIGN_EXTRACT \<equiv> RC 117"
abbreviation ZERO_EXTRACT :: rtx_code where "ZERO_EXTRACT \<equiv> RC 118"
abbreviation HIGH :: rtx_code where "HIGH \<equiv> RC 119"
abbreviation LO_SUM :: rtx_code where "LO_SUM \<equiv> RC 120"
abbreviation RANGE_INFO :: rtx_code where "RANGE_INFO \<equiv> RC 121"
abbreviation RANGE_REG :: rtx_code where "RANGE_REG \<equiv> RC 122"
abbreviation RANGE_VAR :: rtx_code where "RANGE_VAR \<equiv> RC 123"
abbreviation RANGE_LIVE :: rtx_code where "RANGE_LIVE \<equiv> RC 124"
abbreviation CONSTANT_P_RTX :: rtx_code where "CONSTANT_P_RTX \<equiv> RC 125"
abbreviation CALL_PLACEHOLDER :: rtx_code where "CALL_PLACEHOLDER \<equiv> RC 126"

definition rtx_table :: "(string \<times> char) list" where
  "rtx_table = [
  (''*'', CHR ''x''), (''*'', CHR ''x''), (''ee'', CHR ''x''), (''ue'', CHR ''x''),
  (''iss'', CHR ''m''), (''is'', CHR ''m''), (''i'', CHR ''m''), (''isE'', CHR ''m''),
  (''isE'', CHR ''m''), (''iE'', CHR ''m''), (''iE'', CHR ''m''), (''s'', CHR ''m''),
  (''is'', CHR ''m''), (''sEssV'', CHR ''x''), (''EssV'', CHR ''x''), (''EsES'', CHR ''x''),
  (''Ess'', CHR ''x''), (''sEss'', CHR ''x''), (''eE'', CHR ''x''), (''siieiiV'', CHR ''x''),
  (''V'', CHR ''x''), (''E'', CHR ''x''), (''e'', CHR ''m''), (''sse'', CHR ''x''),
  (''s'', CHR ''x''), (''ss'', CHR ''x''), (''sE'', CHR ''x''), (''ss'', CHR ''x''),
  (''s'', CHR ''x''), (''iuueiee'', CHR ''i''), (''iuueiee0'', CHR ''i''), (''iuueieee'', CHR ''i''),
  (''iuu'', CHR ''x''), (''iuuis00'', CHR ''x''), (''iuusn'', CHR ''x''), (''iuuuiiiiiieeiiEeEssE'', CHR ''x''),
  (''E'', CHR ''x''), (''s'', CHR ''x''), (''ssiEEsi'', CHR ''x''), (''Ei'', CHR ''x''),
  (''Ei'', CHR ''x''), (''E'', CHR ''x''), (''eEeei'', CHR ''x''), (''ee'', CHR ''x''),
  (''e'', CHR ''x''), (''e'', CHR ''x''), (''ee'', CHR ''x''), ('''', CHR ''x''),
  (''ee'', CHR ''x''), (''w'', CHR ''o''), (''e0ww'', CHR ''o''), (''s'', CHR ''o''),
  (''e'', CHR ''o''), ('''', CHR ''o''), (''i0'', CHR ''o''), (''0'', CHR ''o''),
  (''ei'', CHR ''x''), (''e'', CHR ''x''), (''ee'', CHR ''o''), (''e0'', CHR ''o''),
  (''u00'', CHR ''o''), (''s'', CHR ''o''), ('''', CHR ''o''), (''ei0'', CHR ''o''),
  (''eeeee'', CHR ''x''), (''eee'', CHR ''3''), (''Ee'', CHR ''x''), (''ee'', CHR ''2''),
  (''ee'', CHR ''c''), (''ee'', CHR ''2''), (''e'', CHR ''1''), (''ee'', CHR ''c''),
  (''ee'', CHR ''2''), (''ee'', CHR ''2''), (''ee'', CHR ''2''), (''ee'', CHR ''2''),
  (''ee'', CHR ''c''), (''ee'', CHR ''c''), (''ee'', CHR ''c''), (''e'', CHR ''1''),
  (''ee'', CHR ''2''), (''ee'', CHR ''2''), (''ee'', CHR ''2''), (''ee'', CHR ''2''),
  (''ee'', CHR ''2''), (''ee'', CHR ''c''), (''ee'', CHR ''c''), (''ee'', CHR ''c''),
  (''ee'', CHR ''c''), (''e'', CHR ''x''), (''e'', CHR ''x''), (''e'', CHR ''x''),
  (''e'', CHR ''x''), (''ee'', CHR ''x''), (''ee'', CHR ''x''), (''ee'', CHR ''<''),
  (''ee'', CHR ''<''), (''ee'', CHR ''<''), (''ee'', CHR ''<''), (''ee'', CHR ''<''),
  (''ee'', CHR ''<''), (''ee'', CHR ''<''), (''ee'', CHR ''<''), (''ee'', CHR ''<''),
  (''ee'', CHR ''<''), (''e'', CHR ''1''), (''e'', CHR ''1''), (''e'', CHR ''1''),
  (''e'', CHR ''1''), (''e'', CHR ''1''), (''e'', CHR ''1''), (''e'', CHR ''1''),
  (''e'', CHR ''1''), (''e'', CHR ''1''), (''e'', CHR ''1''), (''e'', CHR ''1''),
  (''e'', CHR ''1''), (''eee'', CHR ''b''), (''eee'', CHR ''b''), (''e'', CHR ''o''),
  (''ee'', CHR ''o''), (''uuEiiiiiibbii'', CHR ''x''), (''iiiiiiiitt'', CHR ''x''), (''eti'', CHR ''x''),
  (''bi'', CHR ''x''), (''e'', CHR ''x''), (''uuuu'', CHR ''x'')]"

definition GET_RTX_FORMAT :: "rtx_code \<Rightarrow> string" where
  "GET_RTX_FORMAT c = (case c of RC n \<Rightarrow> if n < length rtx_table then fst (rtx_table ! n) else ''*'')"

definition GET_RTX_CLASS :: "rtx_code \<Rightarrow> char" where
  "GET_RTX_CLASS c = (case c of RC n \<Rightarrow> if n < length rtx_table then snd (rtx_table ! n) else CHR ''x'')"

section \<open>Expressions\<close>

record rtx_flags =
  fl_jump :: bool
  fl_call :: bool
  fl_unchanging :: bool
  fl_volatil :: bool
  fl_in_struct :: bool
  fl_used :: bool
  fl_integrated :: bool
  fl_frame_related :: bool

definition no_flags :: rtx_flags where
  "no_flags = \<lparr>fl_jump = False, fl_call = False, fl_unchanging = False, fl_volatil = False,
     fl_in_struct = False, fl_used = False, fl_integrated = False, fl_frame_related = False\<rparr>"

datatype rtx = NULL_RTX | Rtx rtx_code machine_mode rtx_flags "fld list"
  and fld =
    FInt int              \<comment> \<open>\<open>i\<close> and \<open>n\<close>\<close>
  | FWide int             \<comment> \<open>\<open>w\<close>\<close>
  | FStr string           \<comment> \<open>\<open>s\<close> and \<open>S\<close>\<close>
  | FExp rtx              \<comment> \<open>\<open>e\<close>\<close>
  | FVec "rtx list"       \<comment> \<open>\<open>E\<close> and \<open>V\<close>\<close>
  | FInsn "nat option"    \<comment> \<open>\<open>u\<close>: the uid of an insn\<close>
  | FNone nat             \<comment> \<open>\<open>0\<close>: no field, or a phase-dependent number\<close>

fun GET_CODE :: "rtx \<Rightarrow> rtx_code" where
  "GET_CODE NULL_RTX = UNKNOWN"
| "GET_CODE (Rtx c m f fs) = c"

fun GET_MODE :: "rtx \<Rightarrow> machine_mode" where
  "GET_MODE NULL_RTX = VOIDmode"
| "GET_MODE (Rtx c m f fs) = m"

fun rtx_flags_of :: "rtx \<Rightarrow> rtx_flags" where
  "rtx_flags_of NULL_RTX = no_flags"
| "rtx_flags_of (Rtx c m f fs) = f"

fun rtx_flds :: "rtx \<Rightarrow> fld list" where
  "rtx_flds NULL_RTX = []"
| "rtx_flds (Rtx c m f fs) = fs"

fun fld_exp :: "fld \<Rightarrow> rtx" where
  "fld_exp (FExp x) = x"
| "fld_exp _ = NULL_RTX"

fun fld_int :: "fld \<Rightarrow> int" where
  "fld_int (FInt i) = i"
| "fld_int (FWide i) = i"
| "fld_int _ = 0"

fun fld_str :: "fld \<Rightarrow> string" where
  "fld_str (FStr s) = s"
| "fld_str _ = []"

fun fld_vec :: "fld \<Rightarrow> rtx list" where
  "fld_vec (FVec xs) = xs"
| "fld_vec _ = []"

fun fld_insn :: "fld \<Rightarrow> nat option" where
  "fld_insn (FInsn u) = u"
| "fld_insn _ = None"

text \<open>The access macros. Reading a field that the node does not have gives the null
  value of its type; the formats of rtl.def rule such a read out.\<close>

definition fld_at :: "rtx \<Rightarrow> nat \<Rightarrow> fld" where
  "fld_at x n = (if n < length (rtx_flds x) then rtx_flds x ! n else FNone 0)"

definition XEXP :: "rtx \<Rightarrow> nat \<Rightarrow> rtx" where
  "XEXP x n = fld_exp (fld_at x n)"

definition XINT :: "rtx \<Rightarrow> nat \<Rightarrow> int" where
  "XINT x n = fld_int (fld_at x n)"

definition XWINT :: "rtx \<Rightarrow> nat \<Rightarrow> int" where
  "XWINT x n = fld_int (fld_at x n)"

definition XSTR :: "rtx \<Rightarrow> nat \<Rightarrow> string" where
  "XSTR x n = fld_str (fld_at x n)"

definition XVEC :: "rtx \<Rightarrow> nat \<Rightarrow> rtx list" where
  "XVEC x n = fld_vec (fld_at x n)"

definition XVECLEN :: "rtx \<Rightarrow> nat \<Rightarrow> nat" where
  "XVECLEN x n = length (XVEC x n)"

definition XVECEXP :: "rtx \<Rightarrow> nat \<Rightarrow> nat \<Rightarrow> rtx" where
  "XVECEXP x n m = (if m < XVECLEN x n then XVEC x n ! m else NULL_RTX)"

definition XINSN :: "rtx \<Rightarrow> nat \<Rightarrow> nat option" where
  "XINSN x n = fld_insn (fld_at x n)"

lemmas fld_access = XEXP_def XINT_def XWINT_def XSTR_def XVEC_def XVECLEN_def XVECEXP_def
  XINSN_def fld_at_def

text \<open>Particular fields.\<close>

definition REGNO :: "rtx \<Rightarrow> int" where "REGNO x = XINT x 0"
definition INTVAL :: "rtx \<Rightarrow> int" where "INTVAL x = XWINT x 0"
definition SUBREG_REG :: "rtx \<Rightarrow> rtx" where "SUBREG_REG x = XEXP x 0"
definition SUBREG_WORD :: "rtx \<Rightarrow> int" where "SUBREG_WORD x = XINT x 1"
definition SET_DEST :: "rtx \<Rightarrow> rtx" where "SET_DEST x = XEXP x 0"
definition SET_SRC :: "rtx \<Rightarrow> rtx" where "SET_SRC x = XEXP x 1"
definition CONST_DOUBLE_LOW :: "rtx \<Rightarrow> int" where "CONST_DOUBLE_LOW x = XWINT x 2"
definition CONST_DOUBLE_HIGH :: "rtx \<Rightarrow> int" where "CONST_DOUBLE_HIGH x = XWINT x 3"
definition INSN_UID :: "rtx \<Rightarrow> int" where "INSN_UID x = XINT x 0"
definition PATTERN :: "rtx \<Rightarrow> rtx" where "PATTERN x = XEXP x 3"
definition REG_NOTES :: "rtx \<Rightarrow> rtx" where "REG_NOTES x = XEXP x 6"
definition MEM_VOLATILE_P :: "rtx \<Rightarrow> bool" where "MEM_VOLATILE_P x = fl_volatil (rtx_flags_of x)"
definition SYMBOL_REF_FLAG :: "rtx \<Rightarrow> bool" where "SYMBOL_REF_FLAG x = fl_volatil (rtx_flags_of x)"
definition RTX_UNCHANGING_P :: "rtx \<Rightarrow> bool" where
  "RTX_UNCHANGING_P x = fl_unchanging (rtx_flags_of x)"
definition REG_FUNCTION_VALUE_P :: "rtx \<Rightarrow> bool" where
  "REG_FUNCTION_VALUE_P x = fl_integrated (rtx_flags_of x)"

lemmas fld_names = REGNO_def INTVAL_def SUBREG_REG_def SUBREG_WORD_def SET_DEST_def SET_SRC_def
  CONST_DOUBLE_LOW_def CONST_DOUBLE_HIGH_def INSN_UID_def PATTERN_def REG_NOTES_def

text \<open>The kind of a register note is the number of the mode of its \<open>EXPR_LIST\<close>.\<close>

definition REG_NOTE_KIND :: "rtx \<Rightarrow> nat" where
  "REG_NOTE_KIND link = mode_num (GET_MODE link)"

definition REG_DEAD :: nat where "REG_DEAD = 1"
definition REG_INC :: nat where "REG_INC = 2"

definition note_mode :: "nat \<Rightarrow> machine_mode" where
  "note_mode k = (if k < length all_modes then all_modes ! k else VOIDmode)"

definition REG_P :: "rtx \<Rightarrow> bool" where
  "REG_P x \<longleftrightarrow> GET_CODE x = REG"

definition CONSTANT_P :: "rtx \<Rightarrow> bool" where
  "CONSTANT_P x \<longleftrightarrow> GET_CODE x = LABEL_REF \<or> GET_CODE x = SYMBOL_REF
     \<or> GET_CODE x = CONST_INT \<or> GET_CODE x = CONST_DOUBLE
     \<or> GET_CODE x = CONST_rtx \<or> GET_CODE x = HIGH
     \<or> GET_CODE x = CONSTANT_P_RTX"

subsection \<open>Sizes, for the recursions over expressions\<close>

lemma size_fld_exp: "size (fld_exp f) \<le> size f"
  by (cases f) auto

lemma size_XEXP: "x \<noteq> NULL_RTX \<Longrightarrow> size (XEXP x n) < size x"
proof (cases x)
  case (Rtx c m f fs)
  show ?thesis
  proof (cases "n < length fs")
    case True
    then have "size (fs ! n) \<le> size_list size fs"
      by (metis nth_mem size_list_estimation' order_refl)
    with size_fld_exp [of "fs ! n"] have "size (fld_exp (fs ! n)) \<le> size_list size fs"
      by (rule le_trans)
    with Rtx True show ?thesis by (simp add: fld_access)
  qed (simp add: Rtx fld_access)
qed simp

lemma code_not_null: "GET_CODE x \<noteq> UNKNOWN \<Longrightarrow> x \<noteq> NULL_RTX"
  by (cases x) auto

lemma size_XEXP_code [termination_simp]: "GET_CODE x = RC (Suc c) \<Longrightarrow> size (XEXP x n) < size x"
  by (intro size_XEXP) auto


section \<open>Constructors (gcc/emit-rtl.c, genrtl)\<close>

text \<open>The null pointer of \<open>rtx_alloc\<close>'s flags is \<open>no_flags\<close>: a fresh node has every flag
  clear. \<open>gen_rtx_REG\<close> returns the shared frame or stack pointer node for the numbers
  of these registers in \<open>Pmode\<close>; the shared nodes are built with the same contents, so
  sharing is not visible in the tree.\<close>

definition gen_rtx_REG :: "machine_mode \<Rightarrow> int \<Rightarrow> rtx" where
  "gen_rtx_REG mode regno = Rtx REG mode no_flags [FInt regno, FNone 0]"

definition gen_rtx_MEM :: "machine_mode \<Rightarrow> rtx \<Rightarrow> rtx" where
  "gen_rtx_MEM mode addr = Rtx MEM mode no_flags [FExp addr, FNone 0]"

definition GEN_INT :: "int \<Rightarrow> rtx" where
  "GEN_INT i = Rtx CONST_INT VOIDmode no_flags [FWide i]"

definition gen_rtx_CONST_DOUBLE :: "machine_mode \<Rightarrow> rtx \<Rightarrow> int \<Rightarrow> int \<Rightarrow> rtx" where
  "gen_rtx_CONST_DOUBLE mode arg0 arg1 arg2 =
     Rtx CONST_DOUBLE mode no_flags [FExp arg0, FNone 0, FWide arg1, FWide arg2]"

definition gen_rtx_SUBREG :: "machine_mode \<Rightarrow> rtx \<Rightarrow> int \<Rightarrow> rtx" where
  "gen_rtx_SUBREG mode x word = Rtx SUBREG mode no_flags [FExp x, FInt word]"

definition gen_rtx_SYMBOL_REF :: "machine_mode \<Rightarrow> string \<Rightarrow> rtx" where
  "gen_rtx_SYMBOL_REF mode s = Rtx SYMBOL_REF mode no_flags [FStr s]"

definition gen_rtx_LABEL_REF :: "machine_mode \<Rightarrow> nat \<Rightarrow> rtx" where
  "gen_rtx_LABEL_REF mode u = Rtx LABEL_REF mode no_flags [FInsn (Some u), FNone 0, FNone 0]"

definition gen_rtx_fmt_e :: "rtx_code \<Rightarrow> machine_mode \<Rightarrow> rtx \<Rightarrow> rtx" where
  "gen_rtx_fmt_e c mode a = Rtx c mode no_flags [FExp a]"

definition gen_rtx_fmt_ee :: "rtx_code \<Rightarrow> machine_mode \<Rightarrow> rtx \<Rightarrow> rtx \<Rightarrow> rtx" where
  "gen_rtx_fmt_ee c mode a b = Rtx c mode no_flags [FExp a, FExp b]"

definition gen_rtx_IF_THEN_ELSE :: "machine_mode \<Rightarrow> rtx \<Rightarrow> rtx \<Rightarrow> rtx \<Rightarrow> rtx" where
  "gen_rtx_IF_THEN_ELSE mode a b c = Rtx IF_THEN_ELSE mode no_flags [FExp a, FExp b, FExp c]"

definition pc_rtx :: rtx where "pc_rtx = Rtx PC VOIDmode no_flags []"
definition cc0_rtx :: rtx where "cc0_rtx = Rtx CC0 VOIDmode no_flags []"
definition const0_rtx :: rtx where "const0_rtx = GEN_INT 0"

lemmas gen_rtx_defs = gen_rtx_REG_def gen_rtx_MEM_def GEN_INT_def gen_rtx_CONST_DOUBLE_def
  gen_rtx_SUBREG_def gen_rtx_SYMBOL_REF_def gen_rtx_LABEL_REF_def gen_rtx_fmt_e_def
  gen_rtx_fmt_ee_def gen_rtx_IF_THEN_ELSE_def pc_rtx_def cc0_rtx_def const0_rtx_def

text \<open>The accessors on the constructed nodes.\<close>

lemma gen_code [simp]:
  "GET_CODE (gen_rtx_REG m n) = REG" "GET_CODE (gen_rtx_MEM m a) = MEM"
  "GET_CODE (GEN_INT i) = CONST_INT" "GET_CODE (gen_rtx_SUBREG m x w) = SUBREG"
  "GET_CODE (gen_rtx_SYMBOL_REF m s) = SYMBOL_REF" "GET_CODE (gen_rtx_LABEL_REF m u) = LABEL_REF"
  "GET_CODE (gen_rtx_fmt_e c m a) = c" "GET_CODE (gen_rtx_fmt_ee c m a b) = c"
  "GET_CODE (gen_rtx_IF_THEN_ELSE m a b d) = IF_THEN_ELSE"
  "GET_CODE pc_rtx = PC" "GET_CODE cc0_rtx = CC0" "GET_CODE const0_rtx = CONST_INT"
  "GET_CODE (gen_rtx_CONST_DOUBLE m x l h) = CONST_DOUBLE"
  by (simp_all add: gen_rtx_defs)

lemma gen_mode [simp]:
  "GET_MODE (gen_rtx_REG m n) = m" "GET_MODE (gen_rtx_MEM m a) = m"
  "GET_MODE (GEN_INT i) = VOIDmode" "GET_MODE (gen_rtx_SUBREG m x w) = m"
  "GET_MODE (gen_rtx_SYMBOL_REF m s) = m" "GET_MODE (gen_rtx_LABEL_REF m u) = m"
  "GET_MODE (gen_rtx_fmt_e c m a) = m" "GET_MODE (gen_rtx_fmt_ee c m a b) = m"
  "GET_MODE (gen_rtx_IF_THEN_ELSE m a b d) = m"
  "GET_MODE pc_rtx = VOIDmode" "GET_MODE cc0_rtx = VOIDmode" "GET_MODE const0_rtx = VOIDmode"
  "GET_MODE (gen_rtx_CONST_DOUBLE m x l h) = m"
  by (simp_all add: gen_rtx_defs)

lemma gen_fields [simp]:
  "REGNO (gen_rtx_REG m n) = n" "XEXP (gen_rtx_MEM m a) 0 = a"
  "INTVAL (GEN_INT i) = i" "INTVAL const0_rtx = 0"
  "SUBREG_REG (gen_rtx_SUBREG m x w) = x" "SUBREG_WORD (gen_rtx_SUBREG m x w) = w"
  "XSTR (gen_rtx_SYMBOL_REF m s) 0 = s" "XINSN (gen_rtx_LABEL_REF m u) 0 = Some u"
  "XEXP (gen_rtx_fmt_e c m a) 0 = a"
  "XEXP (gen_rtx_fmt_ee c m a b) 0 = a" "XEXP (gen_rtx_fmt_ee c m a b) (Suc 0) = b"
  "SET_DEST (gen_rtx_fmt_ee c m a b) = a" "SET_SRC (gen_rtx_fmt_ee c m a b) = b"
  "CONST_DOUBLE_LOW (gen_rtx_CONST_DOUBLE m x l h) = l"
  "CONST_DOUBLE_HIGH (gen_rtx_CONST_DOUBLE m x l h) = h"
  "XEXP (gen_rtx_IF_THEN_ELSE m a b d) 0 = a" "XEXP (gen_rtx_IF_THEN_ELSE m a b d) (Suc 0) = b"
  "XEXP (gen_rtx_IF_THEN_ELSE m a b d) 2 = d"
  by (simp_all add: gen_rtx_defs fld_access fld_names)

section \<open>Formats\<close>

text \<open>A node is well formed when its fields follow the format of its code, all the way
  down: the shape \<open>rtx_alloc\<close> and \<open>gen_rtx\<close> give it.\<close>

fun fmt_ok :: "char \<Rightarrow> fld \<Rightarrow> bool" where
  "fmt_ok c (FInt i) = (c \<in> {CHR ''i'', CHR ''n''})"
| "fmt_ok c (FWide i) = (c = CHR ''w'')"
| "fmt_ok c (FStr s) = (c \<in> {CHR ''s'', CHR ''S''})"
| "fmt_ok c (FExp x) = (c = CHR ''e'')"
| "fmt_ok c (FVec xs) = (c \<in> {CHR ''E'', CHR ''V''})"
| "fmt_ok c (FInsn u) = (c = CHR ''u'')"
| "fmt_ok c (FNone n) = (c = CHR ''0'')"

fun wf_rtx :: "rtx \<Rightarrow> bool" and wf_fld :: "fld \<Rightarrow> bool" where
  "wf_rtx NULL_RTX = True"
| "wf_rtx (Rtx c m f fs) = (list_all2 fmt_ok (GET_RTX_FORMAT c) fs \<and> (\<forall>x \<in> set fs. wf_fld x))"
| "wf_fld (FExp x) = wf_rtx x"
| "wf_fld (FVec xs) = (\<forall>x \<in> set xs. wf_rtx x)"
| "wf_fld _ = True"

section \<open>Copying (gcc/rtl.c)\<close>

text \<open>\<open>copy_rtx\<close>: the sharable codes come back as they are, every other node is copied
  with its \<open>used\<close> mark cleared, and an insn without its jump, call and frame marks.\<close>

fun copy_rtx :: "rtx \<Rightarrow> rtx" and copy_fld :: "fld \<Rightarrow> fld" where
  "copy_rtx NULL_RTX = NULL_RTX"
| "copy_rtx (Rtx c m f fs) =
     (if c \<in> {REG, QUEUED, CONST_INT, CONST_DOUBLE, SYMBOL_REF, CODE_LABEL, PC, CC0, SCRATCH,
             ADDRESSOF}
      then Rtx c m f fs
      else if c = CONST_rtx
        \<and> GET_CODE (XEXP (Rtx c m f fs) 0) = PLUS
        \<and> GET_CODE (XEXP (XEXP (Rtx c m f fs) 0) 0) = SYMBOL_REF
        \<and> GET_CODE (XEXP (XEXP (Rtx c m f fs) 0) 1) = CONST_INT
      then Rtx c m f fs
      else Rtx c m
        (if GET_RTX_CLASS c = CHR ''i''
         then f\<lparr>fl_used := False, fl_jump := False, fl_call := False, fl_frame_related := False\<rparr>
         else f\<lparr>fl_used := False\<rparr>)
        (map copy_fld fs))"
| "copy_fld (FExp x) = FExp (copy_rtx x)"
| "copy_fld (FVec xs) = FVec (map copy_rtx xs)"
| "copy_fld x = x"

text \<open>\<open>shallow_copy_rtx\<close> copies one level, with four of the flags.\<close>

definition shallow_copy_rtx :: "rtx \<Rightarrow> rtx" where
  "shallow_copy_rtx orig = (case orig of NULL_RTX \<Rightarrow> NULL_RTX
     | Rtx c m f fs \<Rightarrow> Rtx c m
         (no_flags\<lparr>fl_in_struct := fl_in_struct f, fl_volatil := fl_volatil f,
           fl_unchanging := fl_unchanging f, fl_integrated := fl_integrated f\<rparr>) fs)"

end
