(* ===== verification/Z80_Regs.thy ===== *)
theory Z80_Regs
  imports Rtl
begin

text \<open>
  The register file of the Z80 port: the register numbers, register predicates, register
  classes and the mode and constraint macros of gcc/config/z80/z80.h, and
  \<open>hard_regno_mode_ok\<close> of gcc/config/z80/z80.c. A register number is an \<open>int\<close>, as in C.
  The lemmas relate the class tables to the register predicates and to what the
  compiler's documentation asks of them.
\<close>

section \<open>Storage layout\<close>

abbreviation (input) BITS_PER_UNIT :: nat where "BITS_PER_UNIT \<equiv> 8"
abbreviation (input) BITS_PER_WORD :: nat where "BITS_PER_WORD \<equiv> 16"
abbreviation (input) UNITS_PER_WORD :: nat where "UNITS_PER_WORD \<equiv> 2"
abbreviation (input) HARD_REG_SIZE :: nat where "HARD_REG_SIZE \<equiv> UNITS_PER_WORD"
abbreviation (input) Pmode :: machine_mode where "Pmode \<equiv> HImode"

section \<open>Register numbers\<close>

abbreviation (input) HARD_A_REGNUM :: int where "HARD_A_REGNUM \<equiv> 0"
abbreviation (input) HARD_HL_REGNUM :: int where "HARD_HL_REGNUM \<equiv> 1"
abbreviation (input) HARD_DE_REGNUM :: int where "HARD_DE_REGNUM \<equiv> 2"
abbreviation (input) HARD_BC_REGNUM :: int where "HARD_BC_REGNUM \<equiv> 3"
abbreviation (input) HARD_IY_REGNUM :: int where "HARD_IY_REGNUM \<equiv> 4"
abbreviation (input) HARD_IX_REGNUM :: int where "HARD_IX_REGNUM \<equiv> 5"
abbreviation (input) HARD_SP_REGNUM :: int where "HARD_SP_REGNUM \<equiv> 6"
abbreviation (input) HARD_PC_REGNUM :: int where "HARD_PC_REGNUM \<equiv> 7"
abbreviation (input) HARD_H_REGNUM :: int where "HARD_H_REGNUM \<equiv> 8"
abbreviation (input) HARD_L_REGNUM :: int where "HARD_L_REGNUM \<equiv> 9"
abbreviation (input) HARD_D_REGNUM :: int where "HARD_D_REGNUM \<equiv> 10"
abbreviation (input) HARD_E_REGNUM :: int where "HARD_E_REGNUM \<equiv> 11"
abbreviation (input) HARD_B_REGNUM :: int where "HARD_B_REGNUM \<equiv> 12"
abbreviation (input) HARD_C_REGNUM :: int where "HARD_C_REGNUM \<equiv> 13"
abbreviation (input) HARD_F_REGNUM :: int where "HARD_F_REGNUM \<equiv> 14"
abbreviation (input) HARD_IXL_REGNUM :: int where "HARD_IXL_REGNUM \<equiv> 15"
abbreviation (input) HARD_IXH_REGNUM :: int where "HARD_IXH_REGNUM \<equiv> 16"
abbreviation (input) HARD_IYL_REGNUM :: int where "HARD_IYL_REGNUM \<equiv> 17"
abbreviation (input) HARD_IYH_REGNUM :: int where "HARD_IYH_REGNUM \<equiv> 18"
abbreviation (input) FIRST_PSEUDO_REGISTER :: int where "FIRST_PSEUDO_REGISTER \<equiv> 19"

abbreviation (input) STACK_POINTER_REGNUM :: int where "STACK_POINTER_REGNUM \<equiv> HARD_SP_REGNUM"
abbreviation (input) FRAME_POINTER_REGNUM :: int where "FRAME_POINTER_REGNUM \<equiv> HARD_IX_REGNUM"
abbreviation (input) ARG_POINTER_REGNUM :: int where "ARG_POINTER_REGNUM \<equiv> FRAME_POINTER_REGNUM"

definition hard_regs :: "int list" where
  "hard_regs = [0..FIRST_PSEUDO_REGISTER - 1]"

lemma hard_regs_list: "hard_regs = [0, 1, 2, 3, 4, 5, 6, 7, 8, 9, 10, 11, 12, 13, 14, 15, 16, 17, 18]"
  by (simp add: hard_regs_def upto.simps)

lemma in_hard_regs [simp]: "r \<in> set hard_regs \<longleftrightarrow> 0 \<le> r \<and> r < FIRST_PSEUDO_REGISTER"
  by (auto simp: hard_regs_def)

definition FIXED_REGISTERS :: "bool list" where
  "FIXED_REGISTERS = [False, False, False, False, False, False, True, True, True, True, True,
     True, True, True, True, True, True, True, True]"

definition CALL_USED_REGISTERS :: "bool list" where
  "CALL_USED_REGISTERS = [True, True, True, True, True, True, True, True, True, True, True,
     True, True, True, True, True, True, True, True]"

definition REG_ALLOC_ORDER :: "int list" where
  "REG_ALLOC_ORDER = [HARD_A_REGNUM, HARD_HL_REGNUM, HARD_BC_REGNUM, HARD_DE_REGNUM,
     HARD_IY_REGNUM, HARD_IX_REGNUM, HARD_SP_REGNUM, HARD_PC_REGNUM, HARD_H_REGNUM,
     HARD_L_REGNUM, HARD_B_REGNUM, HARD_C_REGNUM, HARD_D_REGNUM, HARD_E_REGNUM,
     HARD_F_REGNUM, HARD_IXL_REGNUM, HARD_IXH_REGNUM, HARD_IYL_REGNUM, HARD_IYH_REGNUM]"

definition REGISTER_NAMES :: "string list" where
  "REGISTER_NAMES = [''a'', ''hl'', ''de'', ''bc'', ''iy'', ''ix'', ''sp'', ''pc'', ''h'',
     ''l'', ''d'', ''e'', ''b'', ''c'', ''f'', ''ixl'', ''ixh'', ''iyl'', ''iyh'']"

section \<open>Register predicates\<close>

definition Q_REGNO_P :: "int \<Rightarrow> bool" where [target_simps]:
  "Q_REGNO_P regno \<longleftrightarrow> regno = HARD_A_REGNUM \<or> regno = HARD_B_REGNUM
     \<or> regno = HARD_C_REGNUM \<or> regno = HARD_D_REGNUM \<or> regno = HARD_E_REGNUM
     \<or> regno = HARD_H_REGNUM \<or> regno = HARD_L_REGNUM \<or> regno = HARD_IXH_REGNUM
     \<or> regno = HARD_IXL_REGNUM \<or> regno = HARD_IYH_REGNUM \<or> regno = HARD_IYL_REGNUM"

definition HL_REGNO_P :: "int \<Rightarrow> bool" where [target_simps]: "HL_REGNO_P r \<longleftrightarrow> r = HARD_HL_REGNUM"
definition BC_REGNO_P :: "int \<Rightarrow> bool" where [target_simps]: "BC_REGNO_P r \<longleftrightarrow> r = HARD_BC_REGNUM"
definition DE_REGNO_P :: "int \<Rightarrow> bool" where [target_simps]: "DE_REGNO_P r \<longleftrightarrow> r = HARD_DE_REGNUM"
definition IX_REGNO_P :: "int \<Rightarrow> bool" where [target_simps]: "IX_REGNO_P r \<longleftrightarrow> r = HARD_IX_REGNUM"
definition IY_REGNO_P :: "int \<Rightarrow> bool" where [target_simps]: "IY_REGNO_P r \<longleftrightarrow> r = HARD_IY_REGNUM"
definition DA_REGNO_P :: "int \<Rightarrow> bool" where [target_simps]: "DA_REGNO_P r \<longleftrightarrow> r = HARD_A_REGNUM"
definition SP_REGNO_P :: "int \<Rightarrow> bool" where [target_simps]: "SP_REGNO_P r \<longleftrightarrow> r = HARD_SP_REGNUM"

definition A_REGNO_P :: "int \<Rightarrow> bool" where [target_simps]:
  "A_REGNO_P r \<longleftrightarrow> r = HARD_IX_REGNUM \<or> r = HARD_IY_REGNUM"

definition HL_OR_DE_REGNO_P :: "int \<Rightarrow> bool" where [target_simps]:
  "HL_OR_DE_REGNO_P r \<longleftrightarrow> HL_REGNO_P r \<or> DE_REGNO_P r"

definition BC_OR_IY_REGNO_P :: "int \<Rightarrow> bool" where [target_simps]:
  "BC_OR_IY_REGNO_P r \<longleftrightarrow> BC_REGNO_P r \<or> IY_REGNO_P r"

definition H_REGNO_P :: "int \<Rightarrow> bool" where [target_simps]:
  "H_REGNO_P r \<longleftrightarrow> HL_REGNO_P r \<or> A_REGNO_P r \<or> BC_REGNO_P r \<or> DE_REGNO_P r \<or> SP_REGNO_P r"

definition G_REGNO_P :: "int \<Rightarrow> bool" where [target_simps]:
  "G_REGNO_P r \<longleftrightarrow> H_REGNO_P r \<or> SP_REGNO_P r \<or> Q_REGNO_P r \<or> r = HARD_PC_REGNUM"

definition Q_REG_P :: "rtx \<Rightarrow> bool" where [target_simps]: "Q_REG_P x \<longleftrightarrow> REG_P x \<and> Q_REGNO_P (REGNO x)"
definition HL_REG_P :: "rtx \<Rightarrow> bool" where [target_simps]: "HL_REG_P x \<longleftrightarrow> REG_P x \<and> HL_REGNO_P (REGNO x)"
definition BC_REG_P :: "rtx \<Rightarrow> bool" where [target_simps]: "BC_REG_P x \<longleftrightarrow> REG_P x \<and> BC_REGNO_P (REGNO x)"
definition DE_REG_P :: "rtx \<Rightarrow> bool" where [target_simps]: "DE_REG_P x \<longleftrightarrow> REG_P x \<and> DE_REGNO_P (REGNO x)"
definition IX_REG_P :: "rtx \<Rightarrow> bool" where [target_simps]: "IX_REG_P x \<longleftrightarrow> REG_P x \<and> IX_REGNO_P (REGNO x)"
definition IY_REG_P :: "rtx \<Rightarrow> bool" where [target_simps]: "IY_REG_P x \<longleftrightarrow> REG_P x \<and> IY_REGNO_P (REGNO x)"
definition A_REG_P :: "rtx \<Rightarrow> bool" where [target_simps]: "A_REG_P x \<longleftrightarrow> REG_P x \<and> A_REGNO_P (REGNO x)"
definition SP_REG_P :: "rtx \<Rightarrow> bool" where [target_simps]: "SP_REG_P x \<longleftrightarrow> REG_P x \<and> SP_REGNO_P (REGNO x)"
definition H_REG_P :: "rtx \<Rightarrow> bool" where [target_simps]: "H_REG_P x \<longleftrightarrow> REG_P x \<and> H_REGNO_P (REGNO x)"
definition G_REG_P :: "rtx \<Rightarrow> bool" where [target_simps]: "G_REG_P x \<longleftrightarrow> REG_P x \<and> G_REGNO_P (REGNO x)"

section \<open>Register classes\<close>

datatype reg_class =
    NO_REGS | DA_REGS | HL_REGS | DE_REGS | BC_REGS | IY_REGS | IX_REGS | HL_OR_DE_REGS
  | BC_OR_IY_REGS | A_REGS | RR_REGS | SP_REGS | SS_REGS | Q_REGS | H_REGS | G_REGS | ALL_REGS

definition all_classes :: "reg_class list" where
  "all_classes = [NO_REGS, DA_REGS, HL_REGS, DE_REGS, BC_REGS, IY_REGS, IX_REGS, HL_OR_DE_REGS,
     BC_OR_IY_REGS, A_REGS, RR_REGS, SP_REGS, SS_REGS, Q_REGS, H_REGS, G_REGS, ALL_REGS]"

lemma in_all_classes [simp]: "c \<in> set all_classes"
  by (cases c) (simp_all add: all_classes_def)

fun REG_CLASS_CONTENTS :: "reg_class \<Rightarrow> 32 word" where
  "REG_CLASS_CONTENTS NO_REGS = 0x00000000"
| "REG_CLASS_CONTENTS DA_REGS = 0x00000001"
| "REG_CLASS_CONTENTS HL_REGS = 0x00000002"
| "REG_CLASS_CONTENTS DE_REGS = 0x00000004"
| "REG_CLASS_CONTENTS BC_REGS = 0x00000008"
| "REG_CLASS_CONTENTS IY_REGS = 0x00000010"
| "REG_CLASS_CONTENTS IX_REGS = 0x00000020"
| "REG_CLASS_CONTENTS HL_OR_DE_REGS = 0x00000006"
| "REG_CLASS_CONTENTS BC_OR_IY_REGS = 0x00000018"
| "REG_CLASS_CONTENTS A_REGS = 0x00000030"
| "REG_CLASS_CONTENTS RR_REGS = 0x00000032"
| "REG_CLASS_CONTENTS SP_REGS = 0x00000040"
| "REG_CLASS_CONTENTS SS_REGS = 0x0000004E"
| "REG_CLASS_CONTENTS Q_REGS = 0x0007BF00"
| "REG_CLASS_CONTENTS H_REGS = 0x0000007E"
| "REG_CLASS_CONTENTS G_REGS = 0x0007FFFF"
| "REG_CLASS_CONTENTS ALL_REGS = 0x0007FFFF"

text \<open>Register \<open>r\<close> is in the class when \<open>MASK & (1 << R)\<close> is not zero.\<close>

definition in_class :: "int \<Rightarrow> reg_class \<Rightarrow> bool" where
  "in_class r c \<longleftrightarrow> 0 \<le> r \<and> and (REG_CLASS_CONTENTS c) (push_bit (nat r) 1) \<noteq> 0"

definition REGNO_REG_CLASS :: "int \<Rightarrow> reg_class" where
  "REGNO_REG_CLASS regno =
     (if DA_REGNO_P regno then DA_REGS
      else if HL_REGNO_P regno then HL_REGS
      else if DE_REGNO_P regno then DE_REGS
      else if BC_REGNO_P regno then BC_REGS
      else if IY_REGNO_P regno then IY_REGS
      else if IX_REGNO_P regno then IX_REGS
      else if HL_OR_DE_REGNO_P regno then HL_OR_DE_REGS
      else if BC_OR_IY_REGNO_P regno then BC_OR_IY_REGS
      else if SP_REGNO_P regno then SP_REGS
      else if H_REGNO_P regno then H_REGS
      else if G_REGNO_P regno then G_REGS
      else ALL_REGS)"

definition REG_CLASS_FROM_LETTER :: "char \<Rightarrow> reg_class" where
  "REG_CLASS_FROM_LETTER c =
     (if c = CHR ''a'' then DA_REGS
      else if c = CHR ''A'' then A_REGS
      else if c = CHR ''h'' then HL_REGS
      else if c = CHR ''b'' then BC_REGS
      else if c = CHR ''d'' then DE_REGS
      else if c = CHR ''D'' then HL_OR_DE_REGS
      else if c = CHR ''u'' then BC_OR_IY_REGS
      else if c = CHR ''q'' then Q_REGS
      else if c = CHR ''z'' then RR_REGS
      else if c = CHR ''t'' then H_REGS
      else if c = CHR ''w'' then SP_REGS
      else if c = CHR ''x'' then IX_REGS
      else if c = CHR ''y'' then IY_REGS else NO_REGS)"

definition CLASS_LIKELY_SPILLED_P :: "reg_class \<Rightarrow> bool" where
  "CLASS_LIKELY_SPILLED_P c \<longleftrightarrow> c = DA_REGS \<or> c = HL_REGS \<or> c = BC_REGS \<or> c = DE_REGS
     \<or> c = A_REGS \<or> c = SP_REGS \<or> c = HL_OR_DE_REGS \<or> c = BC_OR_IY_REGS \<or> c = IX_REGS
     \<or> c = IY_REGS"

section \<open>Modes and registers\<close>

definition HARD_REGNO_NREGS :: "int \<Rightarrow> machine_mode \<Rightarrow> int" where
  "HARD_REGNO_NREGS regno mode =
     (if Q_REGNO_P regno then int (GET_MODE_SIZE mode)
      else (int (GET_MODE_SIZE mode) + int HARD_REG_SIZE - 1) div int HARD_REG_SIZE)"

text \<open>\<open>hard_regno_mode_ok\<close>: a 4-byte mode other than \<open>SImode\<close> and \<open>SFmode\<close> falls through
  to the case of a 2-byte mode.\<close>

definition hard_regno_mode_ok :: "int \<Rightarrow> machine_mode \<Rightarrow> bool" where
  "hard_regno_mode_ok regno mode =
     (if GET_MODE_SIZE mode = 4 \<and> (mode = SImode \<or> mode = SFmode)
      then HL_REGNO_P regno \<or> BC_REGNO_P regno
      else if GET_MODE_SIZE mode = 4 \<or> GET_MODE_SIZE mode = 2
      then H_REGNO_P regno
      else if GET_MODE_SIZE mode = 1
      then G_REGNO_P regno \<and> \<not> SP_REGNO_P regno \<and> \<not> A_REGNO_P regno
      else False)"

definition MODES_TIEABLE_P :: "machine_mode \<Rightarrow> machine_mode \<Rightarrow> bool" where
  "MODES_TIEABLE_P mode1 mode2 \<longleftrightarrow> mode1 = mode2
     \<or> (mode1 = SImode \<and> mode2 = HImode) \<or> (mode1 = HImode \<and> mode2 = SImode)"

definition CLASS_MAX_NREGS :: "reg_class \<Rightarrow> machine_mode \<Rightarrow> int" where
  "CLASS_MAX_NREGS c mode =
     (if c = DA_REGS \<or> c = Q_REGS then int (GET_MODE_SIZE mode)
      else (int (GET_MODE_SIZE mode) + int UNITS_PER_WORD - 1) div int UNITS_PER_WORD)"

definition CONST_OK_FOR_LETTER_P :: "int \<Rightarrow> char \<Rightarrow> bool" where
  "CONST_OK_FOR_LETTER_P value c =
     (if c = CHR ''L'' then - 65536 \<le> value \<and> value \<le> 65535
      else if c = CHR ''M'' then and value 0xffff = 0
      else if c = CHR ''N'' then value = 1 \<or> value = - 1
      else False)"

text \<open>Argument passing: every argument is pushed, in whole words.\<close>

definition PUSH_ROUNDING :: "int \<Rightarrow> int" where
  "PUSH_ROUNDING bytes = and (bytes + 1) (- 2)"

definition FUNCTION_ARG_ADVANCE :: "int \<Rightarrow> machine_mode \<Rightarrow> int" where
  "FUNCTION_ARG_ADVANCE cum mode = cum + and (int (GET_MODE_SIZE mode) + 1) (- 2)"

definition RETURN_IN_MEMORY :: "machine_mode \<Rightarrow> int \<Rightarrow> bool" where
  "RETURN_IN_MEMORY type_mode size_in_bytes =
     (if type_mode = BLKmode then size_in_bytes > 4 else GET_MODE_SIZE type_mode > 4)"

definition LIBCALL_VALUE :: "machine_mode \<Rightarrow> rtx" where
  "LIBCALL_VALUE mode = gen_rtx_REG mode HARD_HL_REGNUM"

definition FUNCTION_VALUE_REGNO_P :: "int \<Rightarrow> bool" where
  "FUNCTION_VALUE_REGNO_P n \<longleftrightarrow> n = HARD_HL_REGNUM"

section \<open>Facts about the register file\<close>

lemma all_hard_regs: "(\<forall>r. 0 \<le> r \<and> r < FIRST_PSEUDO_REGISTER \<longrightarrow> P r) \<longleftrightarrow> list_all P hard_regs"
  by (simp add: list_all_iff) (metis in_hard_regs)

lemma in_class_bit: "in_class r c \<longleftrightarrow> 0 \<le> r \<and> bit (REG_CLASS_CONTENTS c) (nat r)"
  by (auto simp: in_class_def bit_iff_and_push_bit_not_eq_0)

lemma in_class_hard: "in_class r c \<Longrightarrow> 0 \<le> r \<and> r < FIRST_PSEUDO_REGISTER"
proof -
  assume r: "in_class r c"
  have "take_bit 19 (REG_CLASS_CONTENTS c) = REG_CLASS_CONTENTS c" by (cases c) simp_all
  with r have "bit (take_bit 19 (REG_CLASS_CONTENTS c)) (nat r)" by (simp add: in_class_bit)
  with r show ?thesis by (simp add: in_class_bit bit_take_bit_iff)
qed

lemma byte_classes:
  "in_class r c \<Longrightarrow> Q_REGNO_P r \<Longrightarrow> c \<in> {DA_REGS, Q_REGS, G_REGS, ALL_REGS}"
proof (rule ccontr)
  assume r: "in_class r c" and q: "Q_REGNO_P r"
    and c: "c \<notin> {DA_REGS, Q_REGS, G_REGS, ALL_REGS}"
  from q have "bit (0x7BF01 :: 32 word) (nat r)" by (auto simp: Q_REGNO_P_def)
  with r have "bit (and (REG_CLASS_CONTENTS c) 0x7BF01) (nat r)"
    by (simp add: in_class_bit bit_and_iff)
  moreover from c have "and (REG_CLASS_CONTENTS c) 0x7BF01 = 0" by (cases c) simp_all
  ultimately show False by simp
qed

text \<open>In every class but \<open>G_REGS\<close> and \<open>ALL_REGS\<close>, no register of the class needs
  more registers for a mode than \<open>CLASS_MAX_NREGS\<close> of the class says.\<close>

theorem class_max_nregs_bound:
  assumes "in_class r c" and "c \<noteq> G_REGS" and "c \<noteq> ALL_REGS"
  shows "HARD_REGNO_NREGS r m \<le> CLASS_MAX_NREGS c m"
proof (cases "Q_REGNO_P r")
  case True
  with byte_classes [OF assms(1)] assms(2,3) show ?thesis
    by (auto simp: HARD_REGNO_NREGS_def CLASS_MAX_NREGS_def)
next
  case False
  then show ?thesis by (auto simp: HARD_REGNO_NREGS_def CLASS_MAX_NREGS_def)
qed
theorem class_max_nregs_bound_witness:
  "in_class HARD_H_REGNUM Q_REGS \<and> HARD_REGNO_NREGS HARD_H_REGNUM HImode \<le> CLASS_MAX_NREGS Q_REGS HImode"
proof -
  have h: "in_class HARD_H_REGNUM Q_REGS" by (simp add: in_class_def)
  show ?thesis using h class_max_nregs_bound [OF h, of HImode] by simp
qed

lemma and_minus_2: "and x (- 2) = x - x mod (2::int)"
proof -
  have "and x (- 2) = 2 * (x div 2)" by (subst and_rec) simp
  then show ?thesis by (simp add: minus_mod_eq_mult_div)
qed

text \<open>\<open>PUSH_ROUNDING\<close> rounds up to the next even number of bytes, and
  \<open>FUNCTION_ARG_ADVANCE\<close> counts a pushed argument as that many bytes.\<close>

theorem push_rounding_sound: "n \<le> PUSH_ROUNDING n \<and> PUSH_ROUNDING n \<le> n + 1 \<and> even (PUSH_ROUNDING n)
  \<and> FUNCTION_ARG_ADVANCE cum m = cum + PUSH_ROUNDING (int (GET_MODE_SIZE m))"
proof -
  have "PUSH_ROUNDING n = n + 1 - (n + 1) mod 2" by (simp add: PUSH_ROUNDING_def and_minus_2)
  moreover have "0 \<le> (n + 1) mod 2" "(n + 1) mod 2 \<le> 1" by simp_all
  moreover have "even (n + 1 - (n + 1) mod 2)" by presburger
  ultimately show ?thesis by (simp add: FUNCTION_ARG_ADVANCE_def PUSH_ROUNDING_def)
qed

text \<open>The bytes a register of the numbering holds.\<close>

definition reg_bytes :: "int \<Rightarrow> nat" where
  "reg_bytes r = (if Q_REGNO_P r then 1 else HARD_REG_SIZE)"

lemma word_reg_not_byte: "H_REGNO_P r \<Longrightarrow> \<not> Q_REGNO_P r"
  by (auto simp: H_REGNO_P_def Q_REGNO_P_def target_simps)

lemma mode_ok_range: "hard_regno_mode_ok r m \<Longrightarrow> 0 \<le> r \<and> r < FIRST_PSEUDO_REGISTER"
  by (simp add: hard_regno_mode_ok_def target_simps split: if_splits) linarith+

lemma hard_regno_nregs_word:
  "H_REGNO_P r \<Longrightarrow> HARD_REGNO_NREGS r m = (int (GET_MODE_SIZE m) + 1) div 2"
  by (simp add: HARD_REGNO_NREGS_def word_reg_not_byte)

lemma hard_regno_nregs_QI [simp]: "HARD_REGNO_NREGS r QImode = 1"
  by (simp add: HARD_REGNO_NREGS_def)

text \<open>When \<open>hard_regno_mode_ok\<close> accepts a value of an integer or float mode in a
  register, each register the value takes is a hard register, word registers for everything
  wider than a byte, never the stack pointer but for a word, and together they have room
  for the value.\<close>

theorem hard_regno_mode_ok_sound:
  assumes ok: "hard_regno_mode_ok r m" and m: "m \<in> {QImode, HImode, SImode, SFmode}"
    and k: "0 \<le> k" "k < HARD_REGNO_NREGS r m"
  shows "0 \<le> r + k \<and> r + k < FIRST_PSEUDO_REGISTER
    \<and> (m = QImode \<or> H_REGNO_P (r + k))
    \<and> (r + k = STACK_POINTER_REGNUM \<longrightarrow> m = HImode)
    \<and> int (GET_MODE_SIZE m) \<le> HARD_REGNO_NREGS r m * int (reg_bytes r)"
proof -
  consider "m = QImode" | "m = HImode" | "m \<in> {SImode, SFmode}" using m by auto
  then show ?thesis
  proof cases
    case 1
    with k have "k = 0" by simp
    moreover have "r \<noteq> STACK_POINTER_REGNUM" using ok 1 by (auto simp: hard_regno_mode_ok_def target_simps)
    ultimately show ?thesis using 1 mode_ok_range [OF ok] by (simp add: reg_bytes_def)
  next
    case 2
    then have h: "H_REGNO_P r" using ok by (simp add: hard_regno_mode_ok_def)
    then have "HARD_REGNO_NREGS r m = 1" using 2 by (simp add: hard_regno_nregs_word)
    moreover from this k have "k = 0" by simp
    ultimately show ?thesis
      using 2 h mode_ok_range [OF ok] word_reg_not_byte [OF h] by (simp add: reg_bytes_def)
  next
    case 3
    then have r: "r = HARD_HL_REGNUM \<or> r = HARD_BC_REGNUM"
      using ok by (auto simp: hard_regno_mode_ok_def target_simps)
    then have h: "H_REGNO_P r" by (auto simp: target_simps)
    have n: "HARD_REGNO_NREGS r m = 2" using 3 h by (auto simp: hard_regno_nregs_word)
    then have "k = 0 \<or> k = 1" using k by auto
    with r 3 n word_reg_not_byte [OF h] show ?thesis by (auto simp: reg_bytes_def target_simps)
  qed
qed

theorem hard_regno_mode_ok_sound_witness:
  "hard_regno_mode_ok HARD_BC_REGNUM SImode \<and> HARD_REGNO_NREGS HARD_BC_REGNUM SImode = 2
     \<and> H_REGNO_P (HARD_BC_REGNUM + 1)"
proof -
  have ok: "hard_regno_mode_ok HARD_BC_REGNUM SImode" by (simp add: hard_regno_mode_ok_def target_simps)
  have n: "HARD_REGNO_NREGS HARD_BC_REGNUM SImode = 2" by (simp add: HARD_REGNO_NREGS_def target_simps)
  show ?thesis using ok n hard_regno_mode_ok_sound [OF ok, of 1] by simp
qed

text \<open>The register macros do not satisfy their documented contract everywhere:
  \<open>HImode\<close> and \<open>SImode\<close> are tieable while \<open>DE\<close> holds only one of them; the accumulator counts
  as a byte register but is not in \<open>Q_REGS\<close>; a complex value in \<open>IX\<close> takes the stack pointer;
  and a word in the accumulator needs more registers than \<open>CLASS_MAX_NREGS\<close> allows for
  \<open>G_REGS\<close>.\<close>

theorem register_contract_violations:
  "MODES_TIEABLE_P HImode SImode \<and> hard_regno_mode_ok HARD_DE_REGNUM HImode
     \<and> \<not> hard_regno_mode_ok HARD_DE_REGNUM SImode
   \<and> Q_REGNO_P HARD_A_REGNUM \<and> \<not> in_class HARD_A_REGNUM Q_REGS
   \<and> hard_regno_mode_ok HARD_IX_REGNUM CHImode
     \<and> HARD_REGNO_NREGS HARD_IX_REGNUM CHImode = 2 \<and> HARD_IX_REGNUM + 1 = STACK_POINTER_REGNUM
   \<and> in_class HARD_A_REGNUM G_REGS
     \<and> HARD_REGNO_NREGS HARD_A_REGNUM HImode > CLASS_MAX_NREGS G_REGS HImode"
  by (simp add: MODES_TIEABLE_P_def hard_regno_mode_ok_def target_simps in_class_def
      HARD_REGNO_NREGS_def CLASS_MAX_NREGS_def)
end
