(* ===== verification/Rtlanal.thy ===== *)
theory Rtlanal
  imports Z80_Regs
begin

text \<open>
  Analysis of expressions (gcc/rtlanal.c), compiled against the register macros of the
  target: equality of expressions, occurrence of registers, overlap of a store with an
  expression, side effects, volatility, traps, and the notes attached to insns. The
  recursions over the format of a node are recursions over its list of fields.

  The reference semantics of an expression is its value in a machine state,
  \<open>rtx_value\<close>, in the fragment of 16-bit integer expressions; the lemmas show that
  the occurrence tests are sound for it.
\<close>

section \<open>Equality\<close>

text \<open>\<open>rtx_equal_p\<close>: \<open>fvm\<close> is the global \<open>rtx_equal_function_value_matters\<close>. The back
  pointers (\<open>u\<close>) and the fields of format \<open>0\<close> do not matter, except in \<open>LABEL_REF\<close>.\<close>

fun rtx_equal_p :: "bool \<Rightarrow> rtx \<Rightarrow> rtx \<Rightarrow> bool"
  and flds_equal :: "bool \<Rightarrow> fld list \<Rightarrow> fld list \<Rightarrow> bool"
  and fld_equal :: "bool \<Rightarrow> fld \<Rightarrow> fld \<Rightarrow> bool"
  and vec_equal :: "bool \<Rightarrow> rtx list \<Rightarrow> rtx list \<Rightarrow> bool" where
  "rtx_equal_p fvm NULL_RTX y = (y = NULL_RTX)"
| "rtx_equal_p fvm (Rtx c m f fs) y =
     (if y = Rtx c m f fs then True
      else if y = NULL_RTX then False
      else if c \<noteq> GET_CODE y then False
      else if m \<noteq> GET_MODE y then False
      else if c = REG then
        REGNO (Rtx c m f fs) = REGNO y
        \<and> (\<not> fvm \<or> REG_FUNCTION_VALUE_P (Rtx c m f fs) = REG_FUNCTION_VALUE_P y)
      else if c = LABEL_REF then XINSN (Rtx c m f fs) 0 = XINSN y 0
      else if c = SYMBOL_REF then XSTR (Rtx c m f fs) 0 = XSTR y 0
      else if c = SCRATCH \<or> c = CONST_DOUBLE then False
      else flds_equal fvm fs (rtx_flds y))"
| "flds_equal fvm [] gs = (gs = [])"
| "flds_equal fvm (f # fs) gs =
     (case gs of [] \<Rightarrow> False | g # gs' \<Rightarrow> fld_equal fvm f g \<and> flds_equal fvm fs gs')"
| "fld_equal fvm (FWide i) g = (g = FWide i)"
| "fld_equal fvm (FInt i) g = (g = FInt i)"
| "fld_equal fvm (FVec xs) g = (case g of FVec ys \<Rightarrow> vec_equal fvm xs ys | _ \<Rightarrow> False)"
| "fld_equal fvm (FExp x) g = (case g of FExp y \<Rightarrow> rtx_equal_p fvm x y | _ \<Rightarrow> False)"
| "fld_equal fvm (FStr s) g = (g = FStr s)"
| "fld_equal fvm (FInsn u) g = (case g of FInsn _ \<Rightarrow> True | _ \<Rightarrow> False)"
| "fld_equal fvm (FNone n) g = (case g of FNone _ \<Rightarrow> True | _ \<Rightarrow> False)"
| "vec_equal fvm [] ys = (ys = [])"
| "vec_equal fvm (x # xs) ys =
     (case ys of [] \<Rightarrow> False | y # ys' \<Rightarrow> rtx_equal_p fvm x y \<and> vec_equal fvm xs ys')"

section \<open>Occurrence of registers\<close>

text \<open>\<open>reg_mentioned_p\<close>. A \<open>LABEL_REF\<close> mentions the label insn it refers to.\<close>

fun reg_mentioned_p :: "bool \<Rightarrow> rtx \<Rightarrow> rtx \<Rightarrow> bool"
  and reg_mentioned_fld :: "bool \<Rightarrow> rtx \<Rightarrow> fld \<Rightarrow> bool" where
  "reg_mentioned_p fvm reg NULL_RTX = False"
| "reg_mentioned_p fvm reg (Rtx c m f fs) =
     (if reg = Rtx c m f fs then True
      else if c = LABEL_REF then
        GET_CODE reg = CODE_LABEL \<and> XINSN (Rtx c m f fs) 0 = Some (nat (INSN_UID reg))
      else if c = REG then GET_CODE reg = REG \<and> REGNO (Rtx c m f fs) = REGNO reg
      else if c = SCRATCH \<or> c = CC0 \<or> c = PC then False
      else if c = CONST_INT then GET_CODE reg = CONST_INT \<and> INTVAL (Rtx c m f fs) = INTVAL reg
      else if c = CONST_DOUBLE then False
      else if GET_CODE reg = c \<and> rtx_equal_p fvm reg (Rtx c m f fs) then True
      else (\<exists>x \<in> set fs. reg_mentioned_fld fvm reg x))"
| "reg_mentioned_fld fvm reg (FVec xs) = (\<exists>x \<in> set xs. reg_mentioned_p fvm reg x)"
| "reg_mentioned_fld fvm reg (FExp x) = reg_mentioned_p fvm reg x"
| "reg_mentioned_fld fvm reg _ = False"

abbreviation (input) FIRST_VIRTUAL_REGISTER :: int where
  "FIRST_VIRTUAL_REGISTER \<equiv> FIRST_PSEUDO_REGISTER"

abbreviation (input) LAST_VIRTUAL_REGISTER :: int where
  "LAST_VIRTUAL_REGISTER \<equiv> FIRST_VIRTUAL_REGISTER + 4"

text \<open>\<open>refers_to_regno_p\<close> with \<open>loc\<close> null, as every caller modelled here passes it. The
  destination of a \<open>SET\<close> or \<open>CLOBBER\<close> counts when it is a \<open>SUBREG\<close> of a pseudo or not
  a register; the call on the pseudo inside the \<open>SUBREG\<close> is written out as the test
  of its \<open>REG\<close> case. The number of registers of a \<open>SUBREG\<close> of a hard register is taken for
  \<open>regno\<close>, as in the source.\<close>

fun refers_to_regno_p :: "int \<Rightarrow> int \<Rightarrow> rtx \<Rightarrow> bool"
  and refers_to_regno_fld :: "int \<Rightarrow> int \<Rightarrow> fld \<Rightarrow> bool" where
  "refers_to_regno_p regno endregno NULL_RTX = False"
| "refers_to_regno_p regno endregno (Rtx c m f fs) =
     (let x = Rtx c m f fs in
      if c = REG then
        (let i = REGNO x in
         if (i = STACK_POINTER_REGNUM \<or> i = FRAME_POINTER_REGNUM)
            \<and> FIRST_VIRTUAL_REGISTER \<le> regno \<and> regno \<le> LAST_VIRTUAL_REGISTER then True
         else endregno > i
           \<and> regno < i + (if i < FIRST_PSEUDO_REGISTER then HARD_REGNO_NREGS i m else 1))
      else if c = SUBREG \<and> GET_CODE (SUBREG_REG x) = REG
           \<and> REGNO (SUBREG_REG x) < FIRST_PSEUDO_REGISTER then
        (let inner_regno = REGNO (SUBREG_REG x) + SUBREG_WORD x;
             inner_endregno = inner_regno
               + (if inner_regno < FIRST_PSEUDO_REGISTER then HARD_REGNO_NREGS regno m else 1)
         in endregno > inner_regno \<and> regno < inner_endregno)
      else if c = CLOBBER \<or> c = SET then
        (case fs of [] \<Rightarrow> False
         | dest # rest \<Rightarrow>
             let d = fld_exp dest in
             if (GET_CODE d = SUBREG \<and> GET_CODE (SUBREG_REG d) = REG
                  \<and> REGNO (SUBREG_REG d) \<ge> FIRST_PSEUDO_REGISTER
                  \<and> endregno > REGNO (SUBREG_REG d) \<and> regno < REGNO (SUBREG_REG d) + 1)
                \<or> (GET_CODE d \<noteq> REG \<and> refers_to_regno_fld regno endregno dest) then True
             else if c = CLOBBER then False
             else (case rest of [] \<Rightarrow> False | src # _ \<Rightarrow> refers_to_regno_fld regno endregno src))
      else (\<exists>x \<in> set fs. refers_to_regno_fld regno endregno x))"
| "refers_to_regno_fld regno endregno (FVec xs) = (\<exists>x \<in> set xs. refers_to_regno_p regno endregno x)"
| "refers_to_regno_fld regno endregno (FExp x) = refers_to_regno_p regno endregno x"
| "refers_to_regno_fld regno endregno _ = False"

section \<open>Overlap of a store with an expression\<close>

text \<open>\<open>reg_overlap_mentioned_p\<close>: whether storing into \<open>x\<close> can change \<open>inn\<close>. For a memory
  destination the operands of \<open>inn\<close> are searched for a memory reference, the operand
  vectors are not. \<open>None\<close> is the \<open>abort\<close> on any other destination.\<close>

fun mem_overlap_p :: "rtx \<Rightarrow> bool" and mem_overlap_fld :: "fld \<Rightarrow> bool" where
  "mem_overlap_p NULL_RTX = False"
| "mem_overlap_p (Rtx c m f fs) =
     (if CONSTANT_P (Rtx c m f fs) then False
      else if c = MEM then True
      else (\<exists>x \<in> set fs. mem_overlap_fld x))"
| "mem_overlap_fld (FExp x) = mem_overlap_p x"
| "mem_overlap_fld _ = False"

text \<open>The first and the last plus one register that a \<open>REG\<close> or \<open>SUBREG\<close> destination
  stores into.\<close>

definition dest_regno :: "rtx \<Rightarrow> int" where
  "dest_regno x =
     (if GET_CODE x = SUBREG then
        (if REGNO (SUBREG_REG x) < FIRST_PSEUDO_REGISTER
         then REGNO (SUBREG_REG x) + SUBREG_WORD x else REGNO (SUBREG_REG x))
      else REGNO x)"

definition dest_endregno :: "rtx \<Rightarrow> int" where
  "dest_endregno x = dest_regno x
     + (if dest_regno x < FIRST_PSEUDO_REGISTER then HARD_REGNO_NREGS (dest_regno x) (GET_MODE x)
        else 1)"

text \<open>One destination, not a \<open>PARALLEL\<close>.\<close>

definition overlap_dest :: "bool \<Rightarrow> rtx \<Rightarrow> rtx \<Rightarrow> bool option" where
  "overlap_dest fvm x inn =
     (if CONSTANT_P x \<or> CONSTANT_P inn then Some False
      else if GET_CODE x = SUBREG \<or> GET_CODE x = REG then
        Some (refers_to_regno_p (dest_regno x) (dest_endregno x) inn)
      else if GET_CODE x = MEM then Some (mem_overlap_p inn)
      else if GET_CODE x = SCRATCH \<or> GET_CODE x = PC \<or> GET_CODE x = CC0 then
        Some (reg_mentioned_p fvm x inn)
      else None)"

text \<open>The destinations in a \<open>BLKmode\<close> \<open>PARALLEL\<close>, searched from the last to the first
  until one overlaps.\<close>

fun overlap_any :: "('a \<Rightarrow> bool option) \<Rightarrow> 'a list \<Rightarrow> bool option" where
  "overlap_any g [] = Some False"
| "overlap_any g (x # xs) =
     (case g x of None \<Rightarrow> None | Some True \<Rightarrow> Some True | Some False \<Rightarrow> overlap_any g xs)"

lemma overlap_any_cong [fundef_cong]:
  "xs = ys \<Longrightarrow> (\<And>x. x \<in> set ys \<Longrightarrow> g x = h x) \<Longrightarrow> overlap_any g xs = overlap_any h ys"
  by (induction xs arbitrary: ys) (auto split: option.splits bool.splits)

lemma size_XVEC: "y \<in> set (XVEC x n) \<Longrightarrow> size y < size x"
proof (cases x)
  case (Rtx c m f fs)
  assume y: "y \<in> set (XVEC x n)"
  then have n: "n < length fs" using Rtx by (simp add: fld_access split: if_splits)
  with y Rtx have "y \<in> set (fld_vec (fs ! n))" by (simp add: fld_access)
  then obtain xs where xs: "fs ! n = FVec xs" "y \<in> set xs" by (cases "fs ! n") auto
  have "size (fs ! n) \<le> size_list size fs"
    using n by (metis nth_mem size_list_estimation' order_refl)
  moreover have "size y \<le> size_list size xs"
    using xs by (metis size_list_estimation' order_refl)
  ultimately show ?thesis using Rtx xs by simp
qed (simp add: fld_access)

lemma size_XEXP_le: "size (XEXP x n) \<le> size x"
  using size_XEXP [of x n] by (cases "x = NULL_RTX") (auto simp: fld_access)

function reg_overlap_mentioned_p :: "bool \<Rightarrow> rtx \<Rightarrow> rtx \<Rightarrow> bool option" where
  "reg_overlap_mentioned_p fvm x0 inn =
     (let x = (if GET_CODE x0 = STRICT_LOW_PART then XEXP x0 0 else x0) in
      if \<not> CONSTANT_P x \<and> \<not> CONSTANT_P inn \<and> GET_CODE x = PARALLEL \<and> GET_MODE x = BLKmode then
        overlap_any (\<lambda>e. reg_overlap_mentioned_p fvm (SET_DEST e) inn) (rev (XVEC x 0))
      else overlap_dest fvm x inn)"
  by pat_completeness auto
termination
proof (relation "measure (\<lambda>(fvm, x, inn). size x)", goal_cases)
  case (2 fvm x0 inn x e)
  then have "size e < size x" by (simp add: size_XVEC)
  moreover have "size x \<le> size x0" using 2(1) size_XEXP_le [of x0 0] by (auto split: if_splits)
  moreover have "size (SET_DEST e) \<le> size e" by (simp add: SET_DEST_def size_XEXP_le)
  ultimately show ?case by simp
qed simp

declare reg_overlap_mentioned_p.simps [simp del]

section \<open>The value of an expression\<close>

text \<open>A machine state: the registers, hard and pseudo, as 16-bit words, the byte-addressed
  memory, and the addresses of symbols and labels.\<close>

record rtl_state =
  rs_regs :: "int \<Rightarrow> 16 word"
  rs_mem :: "16 word \<Rightarrow> 8 word"
  rs_sym :: "string \<Rightarrow> 16 word"
  rs_label :: "nat \<Rightarrow> 16 word"

definition load16 :: "(16 word \<Rightarrow> 8 word) \<Rightarrow> 16 word \<Rightarrow> 16 word" where
  "load16 mem a = or (ucast (mem a)) (push_bit 8 (ucast (mem (a + 1))))"

definition store16 :: "(16 word \<Rightarrow> 8 word) \<Rightarrow> 16 word \<Rightarrow> 16 word \<Rightarrow> 16 word \<Rightarrow> 8 word" where
  "store16 mem a v = mem(a := ucast v, a + 1 := ucast (drop_bit 8 v))"

text \<open>The values of the operands are combined by the code; an operand outside the fragment
  makes the whole expression undefined.\<close>

fun apply_code :: "rtx_code \<Rightarrow> 16 word option list \<Rightarrow> 16 word option" where
  "apply_code c [Some a] =
     (if c = NEG then Some (- a)
      else if c = NOT then Some (not a)
      else if c = CONST_rtx then Some a
      else None)"
| "apply_code c [Some a, Some b] =
     (if c = PLUS then Some (a + b)
      else if c = MINUS then Some (a - b)
      else if c = MULT then Some (a * b)
      else if c = AND then Some (and a b)
      else if c = IOR then Some (or a b)
      else if c = XOR then Some (xor a b)
      else None)"
| "apply_code c _ = None"

fun rtx_value :: "rtl_state \<Rightarrow> rtx \<Rightarrow> 16 word option"
  and fld_value :: "rtl_state \<Rightarrow> fld \<Rightarrow> 16 word option" where
  "rtx_value st NULL_RTX = None"
| "rtx_value st (Rtx c m f fs) =
     (let x = Rtx c m f fs in
      if c = CONST_INT then Some (word_of_int (INTVAL x))
      else if c = SYMBOL_REF then Some (rs_sym st (XSTR x 0))
      else if c = LABEL_REF then map_option (rs_label st) (XINSN x 0)
      else if m \<noteq> HImode then None
      else if c = REG then Some (rs_regs st (REGNO x))
      else if c = MEM then
        (case fs of [] \<Rightarrow> None | a # _ \<Rightarrow> map_option (load16 (rs_mem st)) (fld_value st a))
      else apply_code c (map (fld_value st) fs))"
| "fld_value st (FExp x) = rtx_value st x"
| "fld_value st _ = None"

section \<open>Soundness of the occurrence tests\<close>

lemma apply_code_other:
  "c \<notin> {NEG, NOT, CONST_rtx, PLUS, MINUS, MULT, AND, IOR, XOR} \<Longrightarrow> apply_code c vs = None"
  by (cases "(c, vs)" rule: apply_code.cases) simp_all

definition agree_outside :: "int \<Rightarrow> int \<Rightarrow> rtl_state \<Rightarrow> rtl_state \<Rightarrow> bool" where
  "agree_outside r e st st' \<longleftrightarrow> (\<forall>i. i < r \<or> e \<le> i \<longrightarrow> rs_regs st' i = rs_regs st i)
     \<and> rs_mem st' = rs_mem st \<and> rs_sym st' = rs_sym st \<and> rs_label st' = rs_label st"

lemma agree_outside_simps:
  "agree_outside r e st st' \<Longrightarrow> rs_mem st' = rs_mem st"
  "agree_outside r e st st' \<Longrightarrow> rs_sym st' = rs_sym st"
  "agree_outside r e st st' \<Longrightarrow> rs_label st' = rs_label st"
  "agree_outside r e st st' \<Longrightarrow> i < r \<or> e \<le> i \<Longrightarrow> rs_regs st' i = rs_regs st i"
  by (auto simp: agree_outside_def)

lemma agree_outside_upd: "i \<in> {r..<e} \<Longrightarrow> agree_outside r e st (st\<lparr>rs_regs := (rs_regs st)(i := v)\<rparr>)"
  by (auto simp: agree_outside_def)

lemma HARD_REGNO_NREGS_HI: "1 \<le> HARD_REGNO_NREGS r HImode"
  by (simp add: HARD_REGNO_NREGS_def)

lemma rtx_value_cong:
  assumes "c \<noteq> REG" "map (fld_value st') fs = map (fld_value st) fs"
    and "rs_mem st' = rs_mem st" "rs_sym st' = rs_sym st" "rs_label st' = rs_label st"
  shows "rtx_value st' (Rtx c m f fs) = rtx_value st (Rtx c m f fs)"
  using assms by (cases fs) (simp_all add: Let_def del: map_eq_conv)

lemma not_refers_value:
  "\<not> refers_to_regno_p r e x \<Longrightarrow> agree_outside r e st st' \<Longrightarrow> rtx_value st' x = rtx_value st x"
  and "\<not> refers_to_regno_fld r e f \<Longrightarrow> agree_outside r e st st' \<Longrightarrow> fld_value st' f = fld_value st f"
proof (induction x and f rule: rtx.induct fld.induct)
  case (Rtx c m f fs)
  show ?case
  proof (cases "c \<in> {REG, SUBREG, CLOBBER, SET}")
    case True
    then show ?thesis
      using Rtx.prems HARD_REGNO_NREGS_HI [of "REGNO (Rtx c m f fs)"]
      by (auto simp: apply_code_other agree_outside_def Let_def split: if_splits)
  next
    case False
    with Rtx.prems(1) have "\<not> refers_to_regno_fld r e x" if "x \<in> set fs" for x
      using that by auto
    with Rtx.IH Rtx.prems(2) have "map (fld_value st') fs = map (fld_value st) fs" by simp
    then show ?thesis using False Rtx.prems(2)
      by (intro rtx_value_cong) (simp_all add: agree_outside_simps)
  qed
qed auto

lemma not_mentioned_value:
  "\<not> reg_mentioned_p fvm reg x \<Longrightarrow> GET_CODE reg = REG \<Longrightarrow>
     agree_outside (REGNO reg) (REGNO reg + 1) st st' \<Longrightarrow> rtx_value st' x = rtx_value st x"
  and "\<not> reg_mentioned_fld fvm reg f \<Longrightarrow> GET_CODE reg = REG \<Longrightarrow>
     agree_outside (REGNO reg) (REGNO reg + 1) st st' \<Longrightarrow> fld_value st' f = fld_value st f"
proof (induction x and f rule: rtx.induct fld.induct)
  case (Rtx c m f fs)
  show ?case
  proof (cases "c = REG")
    case True
    with Rtx.prems have "REGNO (Rtx c m f fs) \<noteq> REGNO reg" by (auto split: if_splits)
    then have "rs_regs st' (REGNO (Rtx c m f fs)) = rs_regs st (REGNO (Rtx c m f fs))"
      by (cases rule: linorder_cases) (auto intro: agree_outside_simps(4) [OF Rtx.prems(3)])
    with True show ?thesis by (cases "m = HImode") simp_all
  next
    case False
    show ?thesis
    proof (cases "c \<in> {LABEL_REF, SCRATCH, CC0, PC, CONST_INT, CONST_DOUBLE}")
      case True
      with Rtx.prems(3) show ?thesis
        by (auto simp: apply_code_other agree_outside_simps Let_def)
    next
      case nc: False
      with False Rtx.prems(1) have "\<not> reg_mentioned_fld fvm reg x" if "x \<in> set fs" for x
        using that by (auto split: if_splits)
      with Rtx.IH Rtx.prems(2,3) have "map (fld_value st') fs = map (fld_value st) fs" by simp
      then show ?thesis using False Rtx.prems(3)
        by (intro rtx_value_cong) (simp_all add: agree_outside_simps)
    qed
  qed
qed auto

text \<open>Constants hold no register and no memory reference.\<close>

fun link_time_const :: "rtx \<Rightarrow> bool" and link_time_const_fld :: "fld \<Rightarrow> bool" where
  "link_time_const NULL_RTX = True"
| "link_time_const (Rtx c m f fs) = (c \<noteq> REG \<and> c \<noteq> MEM \<and> (\<forall>x \<in> set fs. link_time_const_fld x))"
| "link_time_const_fld (FExp x) = link_time_const x"
| "link_time_const_fld (FVec xs) = True"
| "link_time_const_fld _ = True"

fun constants_ok :: "rtx \<Rightarrow> bool" and constants_ok_fld :: "fld \<Rightarrow> bool" where
  "constants_ok NULL_RTX = True"
| "constants_ok (Rtx c m f fs) =
     ((CONSTANT_P (Rtx c m f fs) \<longrightarrow> link_time_const (Rtx c m f fs)) \<and> (\<forall>x \<in> set fs. constants_ok_fld x))"
| "constants_ok_fld (FExp x) = constants_ok x"
| "constants_ok_fld (FVec xs) = True"
| "constants_ok_fld _ = True"

lemma link_time_const_value:
  "link_time_const x \<Longrightarrow> rs_sym st' = rs_sym st \<Longrightarrow> rs_label st' = rs_label st \<Longrightarrow>
     rtx_value st' x = rtx_value st x"
  and "link_time_const_fld f \<Longrightarrow> rs_sym st' = rs_sym st \<Longrightarrow> rs_label st' = rs_label st \<Longrightarrow>
     fld_value st' f = fld_value st f"
proof (induction x and f rule: rtx.induct fld.induct)
  case (Rtx c m f fs)
  then have "map (fld_value st') fs = map (fld_value st) fs" by simp
  with Rtx.prems show ?case by (cases fs) (simp_all add: Let_def del: map_eq_conv)
qed auto

lemma not_mem_overlap_value:
  "\<not> mem_overlap_p x \<Longrightarrow> constants_ok x \<Longrightarrow> rtx_value (st\<lparr>rs_mem := mm\<rparr>) x = rtx_value st x"
  and "\<not> mem_overlap_fld f \<Longrightarrow> constants_ok_fld f \<Longrightarrow> fld_value (st\<lparr>rs_mem := mm\<rparr>) f = fld_value st f"
proof (induction x and f rule: rtx.induct fld.induct)
  case (Rtx c m f fs)
  show ?case
  proof (cases "CONSTANT_P (Rtx c m f fs)")
    case True
    with Rtx.prems have "link_time_const (Rtx c m f fs)" by simp
    then show ?thesis by (rule link_time_const_value) simp_all
  next
    case False
    with Rtx.prems Rtx.IH
    have "map (fld_value (st\<lparr>rs_mem := mm\<rparr>)) fs = map (fld_value st) fs" by (auto split: if_splits)
    with False Rtx.prems(1) show ?thesis
      by (cases fs) (simp_all add: Let_def del: map_eq_conv split: if_splits)
  qed
qed auto

text \<open>What a store to a destination may change.\<close>

inductive stores_into :: "rtx \<Rightarrow> rtl_state \<Rightarrow> rtl_state \<Rightarrow> bool" where
  stores_reg: "GET_CODE x = REG \<or> GET_CODE x = SUBREG \<Longrightarrow>
     agree_outside (dest_regno x) (dest_endregno x) st st' \<Longrightarrow> stores_into x st st'"
| stores_mem: "GET_CODE x = MEM \<Longrightarrow> stores_into x st (st\<lparr>rs_mem := mm\<rparr>)"
| stores_strict: "GET_CODE x = STRICT_LOW_PART \<Longrightarrow> GET_CODE (XEXP x 0) \<noteq> STRICT_LOW_PART \<Longrightarrow>
     stores_into (XEXP x 0) st st' \<Longrightarrow> stores_into x st st'"
| stores_parallel: "GET_CODE x = PARALLEL \<Longrightarrow> GET_MODE x = BLKmode \<Longrightarrow> e \<in> set (XVEC x 0) \<Longrightarrow>
     stores_into (SET_DEST e) st st' \<Longrightarrow> stores_into x st st'"

lemma overlap_any_False: "overlap_any g xs = Some False \<Longrightarrow> x \<in> set xs \<Longrightarrow> g x = Some False"
  by (induction xs) (auto split: option.splits bool.splits)

lemma stores_state: "stores_into x st st' \<Longrightarrow> rs_sym st' = rs_sym st \<and> rs_label st' = rs_label st"
  by (induction rule: stores_into.induct) (auto simp: agree_outside_simps)

lemma constant_value:
  "CONSTANT_P x \<Longrightarrow> constants_ok x \<Longrightarrow> stores_into y st st' \<Longrightarrow> rtx_value st' x = rtx_value st x"
  using stores_state [of y st st'] link_time_const_value(1) [of x st' st]
  by (cases x) (simp_all del: rtx_value.simps(2) link_time_const.simps(2))

lemma not_constant:
  "GET_CODE x \<in> {REG, SUBREG, MEM, PARALLEL, STRICT_LOW_PART} \<Longrightarrow> \<not> CONSTANT_P x"
  by (auto simp: CONSTANT_P_def)

text \<open>When \<open>reg_overlap_mentioned_p\<close> answers no for a destination and an
  expression whose constants are link-time constants, a store into the destination, of any
  value, a multi-register store and the members of a \<open>BLKmode\<close> \<open>PARALLEL\<close> included, leaves
  the value of the expression as it was.\<close>

theorem reg_overlap_mentioned_sound:
  assumes "stores_into x st st'" and "reg_overlap_mentioned_p fvm x inn = Some False"
    and "constants_ok inn"
  shows "rtx_value st' inn = rtx_value st inn"
proof (cases "CONSTANT_P inn")
  case True
  then show ?thesis by (rule constant_value [OF _ assms(3,1)])
next
  case nc: False
  from assms(1,2) show ?thesis
  proof (induction rule: stores_into.induct)
    case (stores_reg x st st')
    then have "\<not> refers_to_regno_p (dest_regno x) (dest_endregno x) inn"
      using nc by (auto simp: reg_overlap_mentioned_p.simps [of fvm x inn] overlap_dest_def not_constant)
    then show ?case using stores_reg.hyps(2) by (rule not_refers_value)
  next
    case (stores_mem x st mm)
    then have "\<not> mem_overlap_p inn"
      using nc by (auto simp: reg_overlap_mentioned_p.simps [of fvm x inn] overlap_dest_def not_constant)
    then show ?case using assms(3) by (rule not_mem_overlap_value)
  next
    case (stores_strict x st st')
    then show ?case by (simp add: reg_overlap_mentioned_p.simps [of fvm x] reg_overlap_mentioned_p.simps [of fvm "XEXP x 0"])
  next
    case (stores_parallel x e st st')
    then have "overlap_any (\<lambda>e. reg_overlap_mentioned_p fvm (SET_DEST e) inn) (rev (XVEC x 0)) = Some False"
      using nc by (simp add: reg_overlap_mentioned_p.simps [of fvm x] not_constant)
    with stores_parallel show ?case using overlap_any_False by fastforce
  qed
qed

theorem reg_overlap_mentioned_sound_witness:
  "\<forall>st v. rtx_value (st\<lparr>rs_regs := (rs_regs st)(HARD_HL_REGNUM := v)\<rparr>)
      (gen_rtx_MEM HImode (gen_rtx_fmt_ee PLUS HImode (gen_rtx_REG HImode HARD_IX_REGNUM) (GEN_INT 3)))
   = rtx_value st
      (gen_rtx_MEM HImode (gen_rtx_fmt_ee PLUS HImode (gen_rtx_REG HImode HARD_IX_REGNUM) (GEN_INT 3)))"
proof (intro allI, rule reg_overlap_mentioned_sound [of "gen_rtx_REG HImode HARD_HL_REGNUM" _ _ True])
  fix st v
  show "stores_into (gen_rtx_REG HImode HARD_HL_REGNUM) st (st\<lparr>rs_regs := (rs_regs st)(HARD_HL_REGNUM := v)\<rparr>)"
    by (rule stores_reg) (auto simp: agree_outside_def dest_regno_def dest_endregno_def
        HARD_REGNO_NREGS_def target_simps)
  show "reg_overlap_mentioned_p True (gen_rtx_REG HImode HARD_HL_REGNUM)
      (gen_rtx_MEM HImode (gen_rtx_fmt_ee PLUS HImode (gen_rtx_REG HImode HARD_IX_REGNUM) (GEN_INT 3))) = Some False"
    by (simp add: reg_overlap_mentioned_p.simps overlap_dest_def CONSTANT_P_def dest_regno_def dest_endregno_def)
      (simp add: gen_rtx_defs HARD_REGNO_NREGS_def target_simps REGNO_def fld_access)
  show "constants_ok (gen_rtx_MEM HImode (gen_rtx_fmt_ee PLUS HImode (gen_rtx_REG HImode HARD_IX_REGNUM) (GEN_INT 3)))"
    by (simp add: gen_rtx_defs CONSTANT_P_def)
qed


text \<open>When \<open>refers_to_regno_p\<close> finds no reference to the registers from \<open>r\<close> to
  below \<open>e\<close>, the value of the expression does not depend on them.\<close>

theorem refers_to_regno_sound:
  assumes "\<not> refers_to_regno_p r e x" and "agree_outside r e st st'"
  shows "rtx_value st' x = rtx_value st x"
  using assms by (rule not_refers_value)

theorem refers_to_regno_sound_witness:
  "\<forall>st v. rtx_value (st\<lparr>rs_regs := (rs_regs st)(3 := v)\<rparr>) (gen_rtx_REG HImode 4) = rtx_value st (gen_rtx_REG HImode 4)"
  by (intro allI, rule refers_to_regno_sound [of 3 4])
    (simp_all add: gen_rtx_defs agree_outside_def HARD_REGNO_NREGS_def target_simps REGNO_def fld_access)

text \<open>When \<open>reg_mentioned_p\<close> does not find the register in the expression, the
  value of the expression does not depend on the register.\<close>

theorem reg_mentioned_sound:
  assumes "\<not> reg_mentioned_p fvm reg x" and "GET_CODE reg = REG"
    and "agree_outside (REGNO reg) (REGNO reg + 1) st st'"
  shows "rtx_value st' x = rtx_value st x"
  using assms by (rule not_mentioned_value)

theorem reg_mentioned_sound_witness:
  "\<forall>st v. rtx_value (st\<lparr>rs_regs := (rs_regs st)(3 := v)\<rparr>) (gen_rtx_REG HImode 4) = rtx_value st (gen_rtx_REG HImode 4)"
  by (intro allI, rule reg_mentioned_sound [of True "gen_rtx_REG HImode 3"])
    (simp_all add: gen_rtx_defs agree_outside_def REGNO_def fld_access)

end
