(* ===== verification/Rtl_Effects.thy ===== *)
theory Rtl_Effects
  imports Rtlanal
begin

text \<open>
  What evaluating an expression can depend on and do (gcc/rtlanal.c): whether its value is
  stable, whether its address can trap, whether it is volatile, has side effects or may
  trap; the integer term of a constant; and the replacement of a subexpression or of
  registers. The switch of each routine is a test on the code, its loop over the operands
  a quantifier over the fields. A null operand, which the source dereferences, counts as
  harmless.
\<close>

section \<open>Stable and varying values\<close>

text \<open>The nodes \<open>frame_pointer_rtx\<close> and \<open>stack_pointer_rtx\<close>, created once by
  \<open>init_emit_once\<close>. On this target the hard frame pointer and the argument pointer are the
  frame pointer, and there is no \<open>pic_offset_table_rtx\<close>.\<close>

definition frame_pointer_rtx :: rtx where
  "frame_pointer_rtx = gen_rtx_REG Pmode FRAME_POINTER_REGNUM"

definition stack_pointer_rtx :: rtx where
  "stack_pointer_rtx = gen_rtx_REG Pmode STACK_POINTER_REGNUM"

fun rtx_unstable_p :: "rtx \<Rightarrow> bool" and rtx_unstable_fld :: "fld \<Rightarrow> bool" where
  "rtx_unstable_p NULL_RTX = False"
| "rtx_unstable_p (Rtx c m f fs) =
     (if c = MEM then \<not> RTX_UNCHANGING_P (Rtx c m f fs)
      else if c = QUEUED then True
      else if c = CONST_rtx \<or> c = CONST_INT then False
      else if c = REG then
        \<not> (REGNO (Rtx c m f fs) = FRAME_POINTER_REGNUM
           \<or> REGNO (Rtx c m f fs) = ARG_POINTER_REGNUM
           \<or> RTX_UNCHANGING_P (Rtx c m f fs))
      else (\<exists>x \<in> set fs. rtx_unstable_fld x))"
| "rtx_unstable_fld (FExp x) = rtx_unstable_p x"
| "rtx_unstable_fld _ = False"

text \<open>The first operand of a \<open>LO_SUM\<close> is taken to be constant.\<close>

fun rtx_varies_p :: "rtx \<Rightarrow> bool" and rtx_varies_fld :: "fld \<Rightarrow> bool" where
  "rtx_varies_p NULL_RTX = False"
| "rtx_varies_p (Rtx c m f fs) =
     (if c = MEM \<or> c = QUEUED then True
      else if c \<in> {CONST_rtx, CONST_INT, CONST_DOUBLE, SYMBOL_REF, LABEL_REF} then False
      else if c = REG then Rtx c m f fs \<noteq> frame_pointer_rtx
      else if c = LO_SUM then (case fs of _ # x # _ \<Rightarrow> rtx_varies_fld x | _ \<Rightarrow> False)
      else (\<exists>x \<in> set fs. rtx_varies_fld x))"
| "rtx_varies_fld (FExp x) = rtx_varies_p x"
| "rtx_varies_fld _ = False"

fun rtx_addr_can_trap_p :: "rtx \<Rightarrow> bool" and rtx_addr_can_trap_fld :: "fld \<Rightarrow> bool" where
  "rtx_addr_can_trap_p NULL_RTX = True"
| "rtx_addr_can_trap_p (Rtx c m f fs) =
     (if c = SYMBOL_REF \<or> c = LABEL_REF then False
      else if c = REG then
        Rtx c m f fs \<noteq> frame_pointer_rtx \<and> Rtx c m f fs \<noteq> stack_pointer_rtx
      else if c = CONST_rtx then (case fs of x # _ \<Rightarrow> rtx_addr_can_trap_fld x | _ \<Rightarrow> True)
      else if c = PLUS then
        (case fs of x # y # _ \<Rightarrow>
            rtx_addr_can_trap_fld x \<or> GET_CODE (fld_exp y) \<noteq> CONST_INT
         | _ \<Rightarrow> True)
      else if c = LO_SUM then (case fs of _ # y # _ \<Rightarrow> rtx_addr_can_trap_fld y | _ \<Rightarrow> True)
      else True)"
| "rtx_addr_can_trap_fld (FExp x) = rtx_addr_can_trap_p x"
| "rtx_addr_can_trap_fld _ = True"

fun rtx_addr_varies_p :: "rtx \<Rightarrow> bool" and rtx_addr_varies_fld :: "fld \<Rightarrow> bool" where
  "rtx_addr_varies_p NULL_RTX = False"
| "rtx_addr_varies_p (Rtx c m f fs) =
     (if c = MEM then m = BLKmode \<or> rtx_varies_p (XEXP (Rtx c m f fs) 0)
      else (\<exists>x \<in> set fs. rtx_addr_varies_fld x))"
| "rtx_addr_varies_fld (FExp x) = rtx_addr_varies_p x"
| "rtx_addr_varies_fld (FVec xs) = (\<exists>x \<in> set xs. rtx_addr_varies_p x)"
| "rtx_addr_varies_fld _ = False"

section \<open>Integer terms\<close>

definition get_integer_term :: "rtx \<Rightarrow> int" where
  "get_integer_term x0 =
     (let x = (if GET_CODE x0 = CONST_rtx then XEXP x0 0 else x0) in
      if GET_CODE x = MINUS \<and> GET_CODE (XEXP x 1) = CONST_INT then - INTVAL (XEXP x 1)
      else if GET_CODE x = PLUS \<and> GET_CODE (XEXP x 1) = CONST_INT then INTVAL (XEXP x 1)
      else 0)"

definition get_related_value :: "rtx \<Rightarrow> rtx" where
  "get_related_value x0 =
     (if GET_CODE x0 \<noteq> CONST_rtx then NULL_RTX
      else
        let x = XEXP x0 0 in
        if GET_CODE x = PLUS \<and> GET_CODE (XEXP x 1) = CONST_INT then XEXP x 0
        else if GET_CODE x = MINUS \<and> GET_CODE (XEXP x 1) = CONST_INT then XEXP x 0
        else NULL_RTX)"

section \<open>Volatility, side effects and traps\<close>

definition plain_codes :: "rtx_code set" where
  "plain_codes = {LABEL_REF, SYMBOL_REF, CONST_INT, CONST_rtx, CONST_DOUBLE, CC0, PC, REG, SCRATCH,
     ASM_INPUT, ADDR_VEC, ADDR_DIFF_VEC}"

fun volatile_insn_p :: "rtx \<Rightarrow> bool" and volatile_insn_fld :: "fld \<Rightarrow> bool" where
  "volatile_insn_p NULL_RTX = False"
| "volatile_insn_p (Rtx c m f fs) =
     (if c \<in> plain_codes \<or> c = CLOBBER \<or> c = CALL \<or> c = MEM then False
      else if c = UNSPEC_VOLATILE then True
      else if c = ASM_OPERANDS \<and> MEM_VOLATILE_P (Rtx c m f fs) then True
      else (\<exists>x \<in> set fs. volatile_insn_fld x))"
| "volatile_insn_fld (FExp x) = volatile_insn_p x"
| "volatile_insn_fld (FVec xs) = (\<exists>x \<in> set xs. volatile_insn_p x)"
| "volatile_insn_fld _ = False"

fun volatile_refs_p :: "rtx \<Rightarrow> bool" and volatile_refs_fld :: "fld \<Rightarrow> bool" where
  "volatile_refs_p NULL_RTX = False"
| "volatile_refs_p (Rtx c m f fs) =
     (if c \<in> plain_codes \<or> c = CLOBBER then False
      else if c = CALL \<or> c = UNSPEC_VOLATILE then True
      else if (c = MEM \<or> c = ASM_OPERANDS) \<and> MEM_VOLATILE_P (Rtx c m f fs) then True
      else (\<exists>x \<in> set fs. volatile_refs_fld x))"
| "volatile_refs_fld (FExp x) = volatile_refs_p x"
| "volatile_refs_fld (FVec xs) = (\<exists>x \<in> set xs. volatile_refs_p x)"
| "volatile_refs_fld _ = False"

text \<open>\<open>PRE_MODIFY\<close> and \<open>POST_MODIFY\<close> are not among the codes the source names.\<close>

fun side_effects_p :: "rtx \<Rightarrow> bool" and side_effects_fld :: "fld \<Rightarrow> bool" where
  "side_effects_p NULL_RTX = False"
| "side_effects_p (Rtx c m f fs) =
     (if c \<in> plain_codes then False
      else if c = CLOBBER then m \<noteq> VOIDmode
      else if c \<in> {PRE_INC, PRE_DEC, POST_INC, POST_DEC, CALL, UNSPEC_VOLATILE} then True
      else if (c = MEM \<or> c = ASM_OPERANDS) \<and> MEM_VOLATILE_P (Rtx c m f fs) then True
      else (\<exists>x \<in> set fs. side_effects_fld x))"
| "side_effects_fld (FExp x) = side_effects_p x"
| "side_effects_fld (FVec xs) = (\<exists>x \<in> set xs. side_effects_p x)"
| "side_effects_fld _ = False"

fun may_trap_p :: "rtx \<Rightarrow> bool" and may_trap_fld :: "fld \<Rightarrow> bool" where
  "may_trap_p NULL_RTX = False"
| "may_trap_p (Rtx c m f fs) =
     (let x = Rtx c m f fs in
      if c \<in> {CONST_INT, CONST_DOUBLE, SYMBOL_REF, LABEL_REF, CONST_rtx, PC, CC0, REG, SCRATCH}
      then False
      else if c = UNSPEC_VOLATILE \<or> c = TRAP_IF then True
      else if c = MEM then rtx_addr_can_trap_p (XEXP x 0)
      else if c \<in> {DIV, MOD, UDIV, UMOD}
        \<and> (\<not> CONSTANT_P (XEXP x 1) \<or> GET_MODE_CLASS m = MODE_FLOAT) then True
      else if c \<in> {DIV, MOD, UDIV, UMOD}
        \<and> GET_CODE (XEXP x 1) = CONST_INT \<and> INTVAL (XEXP x 1) = 0 then True
      else if c = EXPR_LIST then True
      else if c \<notin> {DIV, MOD, UDIV, UMOD} \<and> GET_MODE_CLASS m = MODE_FLOAT then True
      else (\<exists>y \<in> set fs. may_trap_fld y))"
| "may_trap_fld (FExp x) = may_trap_p x"
| "may_trap_fld (FVec xs) = (\<exists>x \<in> set xs. may_trap_p x)"
| "may_trap_fld _ = False"

fun inequality_comparisons_p :: "rtx \<Rightarrow> bool" and inequality_comparisons_fld :: "fld \<Rightarrow> bool" where
  "inequality_comparisons_p NULL_RTX = False"
| "inequality_comparisons_p (Rtx c m f fs) =
     (if c \<in> {REG, SCRATCH, PC, CC0, CONST_INT, CONST_DOUBLE, CONST_rtx, LABEL_REF, SYMBOL_REF}
      then False
      else if c \<in> {LT, LTU, GT, GTU, LE, LEU, GE, GEU} then True
      else (\<exists>x \<in> set fs. inequality_comparisons_fld x))"
| "inequality_comparisons_fld (FExp x) = inequality_comparisons_p x"
| "inequality_comparisons_fld (FVec xs) = (\<exists>x \<in> set xs. inequality_comparisons_p x)"
| "inequality_comparisons_fld _ = False"

definition auto_inc_p :: "rtx \<Rightarrow> bool" where
  "auto_inc_p x \<longleftrightarrow> GET_CODE x \<in> {PRE_INC, POST_INC, PRE_DEC, POST_DEC, PRE_MODIFY, POST_MODIFY}
     \<and> XEXP x 0 \<noteq> stack_pointer_rtx"

section \<open>Replacement\<close>

text \<open>The source overwrites \<open>x\<close> in place, and says that \<open>x\<close> must not be shared; then the
  tree it returns is the result.\<close>

fun replace_rtx :: "rtx \<Rightarrow> rtx \<Rightarrow> rtx \<Rightarrow> rtx" and replace_fld :: "fld \<Rightarrow> rtx \<Rightarrow> rtx \<Rightarrow> fld" where
  "replace_rtx NULL_RTX from to = (if NULL_RTX = from then to else NULL_RTX)"
| "replace_rtx (Rtx c m f fs) from to =
     (if c = CONST_DOUBLE then Rtx c m f fs
      else if Rtx c m f fs = from then to
      else Rtx c m f (map (\<lambda>x. replace_fld x from to) fs))"
| "replace_fld (FExp x) from to = FExp (replace_rtx x from to)"
| "replace_fld (FVec xs) from to = FVec (map (\<lambda>x. replace_rtx x from to) xs)"
| "replace_fld (FInt i) from to = FInt i"
| "replace_fld (FWide i) from to = FWide i"
| "replace_fld (FStr s) from to = FStr s"
| "replace_fld (FInsn u) from to = FInsn u"
| "replace_fld (FNone n) from to = FNone n"

text \<open>\<open>regno_use_in\<close> searches the operands and vectors from the last to the first; the first
  reference met is the one returned.\<close>

fun regno_use_in :: "int \<Rightarrow> rtx \<Rightarrow> rtx" and regno_use_fld :: "int \<Rightarrow> fld \<Rightarrow> rtx" where
  "regno_use_in r NULL_RTX = NULL_RTX"
| "regno_use_in r (Rtx c m f fs) =
     (if c = REG \<and> REGNO (Rtx c m f fs) = r then Rtx c m f fs
      else foldl (\<lambda>acc y. if y = NULL_RTX then acc else y) NULL_RTX (map (regno_use_fld r) fs))"
| "regno_use_fld r (FExp x) = regno_use_in r x"
| "regno_use_fld r (FVec xs) =
     foldl (\<lambda>acc y. if y = NULL_RTX then acc else y) NULL_RTX (map (regno_use_in r) xs)"
| "regno_use_fld r _ = NULL_RTX"

section \<open>Lemmas\<close>

lemma volatile_insn_refs:
  "volatile_insn_p x \<Longrightarrow> volatile_refs_p x" "volatile_insn_fld f \<Longrightarrow> volatile_refs_fld f"
  by (induction x and f rule: rtx.induct fld.induct) (auto split: if_splits)

lemma volatile_refs_effects:
  "volatile_refs_p x \<Longrightarrow> side_effects_p x" "volatile_refs_fld f \<Longrightarrow> side_effects_fld f"
  by (induction x and f rule: rtx.induct fld.induct) (auto split: if_splits)

lemma rtx_value_fields:
  assumes "map (fld_value st) gs = map (fld_value st) fs"
    and "XINT (Rtx c m f gs) 0 = XINT (Rtx c m f fs) 0"
    and "XWINT (Rtx c m f gs) 0 = XWINT (Rtx c m f fs) 0"
    and "XSTR (Rtx c m f gs) 0 = XSTR (Rtx c m f fs) 0"
    and "XINSN (Rtx c m f gs) 0 = XINSN (Rtx c m f fs) 0"
  shows "rtx_value st (Rtx c m f gs) = rtx_value st (Rtx c m f fs)"
proof -
  have "(case hs of [] \<Rightarrow> None | a # _ \<Rightarrow> map_option (load16 (rs_mem st)) (fld_value st a))
      = (case map (fld_value st) hs of [] \<Rightarrow> None | v # _ \<Rightarrow> map_option (load16 (rs_mem st)) v)" for hs
    by (cases hs) simp_all
  with assms show ?thesis by (simp only: rtx_value.simps Let_def REGNO_def INTVAL_def)
qed

lemma replace_fld_access:
  "fld_int (replace_fld f from to) = fld_int f" "fld_str (replace_fld f from to) = fld_str f"
  "fld_insn (replace_fld f from to) = fld_insn f"
  by (cases f; simp)+

lemma replace_flds_access:
  "XINT (Rtx c m f (map (\<lambda>x. replace_fld x from to) fs)) n = XINT (Rtx c m f fs) n"
  "XWINT (Rtx c m f (map (\<lambda>x. replace_fld x from to) fs)) n = XWINT (Rtx c m f fs) n"
  "XSTR (Rtx c m f (map (\<lambda>x. replace_fld x from to) fs)) n = XSTR (Rtx c m f fs) n"
  "XINSN (Rtx c m f (map (\<lambda>x. replace_fld x from to) fs)) n = XINSN (Rtx c m f fs) n"
  by (simp_all add: fld_access replace_fld_access)

lemma replace_rtx_value:
  "rtx_value st to = rtx_value st from \<Longrightarrow> rtx_value st (replace_rtx x from to) = rtx_value st x"
  and "rtx_value st to = rtx_value st from \<Longrightarrow> fld_value st (replace_fld f from to) = fld_value st f"
proof (induction x and f rule: rtx.induct fld.induct)
  case (Rtx c m f fs)
  then have "map (fld_value st) (map (\<lambda>x. replace_fld x from to) fs) = map (fld_value st) fs" by simp
  then have "rtx_value st (Rtx c m f (map (\<lambda>x. replace_fld x from to) fs)) = rtx_value st (Rtx c m f fs)"
    by (rule rtx_value_fields) (rule replace_flds_access)+
  with Rtx.prems show ?case by (auto simp del: rtx_value.simps)
qed auto

text \<open>Volatile insns are volatile references, and volatile references are side effects:
  an expression free of side effects is free of both.\<close>

theorem side_effects_p_strongest:
  assumes "\<not> side_effects_p x"
  shows "\<not> volatile_refs_p x \<and> \<not> volatile_insn_p x"
  using assms volatile_refs_effects(1) volatile_insn_refs(1) by blast

theorem side_effects_p_strongest_witness:
  "\<not> volatile_refs_p (gen_rtx_MEM HImode (gen_rtx_REG HImode HARD_HL_REGNUM))"
proof -
  have "\<not> side_effects_p (gen_rtx_MEM HImode (gen_rtx_REG HImode HARD_HL_REGNUM))"
    by (simp add: gen_rtx_defs plain_codes_def MEM_VOLATILE_P_def no_flags_def)
  from side_effects_p_strongest [OF this] show ?thesis ..
qed

text \<open>Replacing an expression by one of equal value, wherever \<open>replace_rtx\<close> finds it,
  keeps the value of the whole.\<close>

theorem replace_rtx_sound:
  assumes "rtx_value st to = rtx_value st from"
  shows "rtx_value st (replace_rtx x from to) = rtx_value st x"
  using assms by (rule replace_rtx_value)

theorem replace_rtx_sound_witness:
  "\<forall>st. rtx_value st (replace_rtx (gen_rtx_fmt_ee MINUS HImode (gen_rtx_REG HImode 3) (gen_rtx_REG HImode 1))
      (gen_rtx_REG HImode 3) (gen_rtx_fmt_ee PLUS HImode (gen_rtx_REG HImode 3) (GEN_INT 0)))
    = Some (rs_regs st 3 - rs_regs st 1)"
  by (intro allI, subst replace_rtx_sound) (simp_all add: gen_rtx_defs REGNO_def INTVAL_def fld_access)

lemma varies_value:
  assumes "rs_regs st' FRAME_POINTER_REGNUM = rs_regs st FRAME_POINTER_REGNUM"
    and "rs_sym st' = rs_sym st" and "rs_label st' = rs_label st"
  shows "\<not> rtx_varies_p x \<Longrightarrow> constants_ok x \<Longrightarrow> rtx_value st' x = rtx_value st x"
    and "\<not> rtx_varies_fld f \<Longrightarrow> constants_ok_fld f \<Longrightarrow> fld_value st' f = fld_value st f"
proof (induction x and f rule: rtx.induct fld.induct)
  case (Rtx c m f fs)
  show ?case
  proof (cases "CONSTANT_P (Rtx c m f fs)")
    case True
    with Rtx.prems have "link_time_const (Rtx c m f fs)" by simp
    then show ?thesis using assms(2,3) by (rule link_time_const_value)
  next
    case False
    then have nc: "c \<notin> {CONST_rtx, CONST_INT, CONST_DOUBLE, SYMBOL_REF, LABEL_REF}"
      by (auto simp: CONSTANT_P_def)
    consider "c = REG" | "c = LO_SUM" | "c \<noteq> REG" "c \<noteq> LO_SUM" by blast
    then show ?thesis
    proof cases
      case 1
      with Rtx.prems(1) have "Rtx c m f fs = frame_pointer_rtx" by simp
      then show ?thesis using assms(1)
        by (simp add: frame_pointer_rtx_def gen_rtx_defs REGNO_def fld_access del: rtx.inject)
    next
      case 2
      then show ?thesis by (simp add: apply_code_other)
    next
      case 3
      with Rtx.prems nc have "c \<noteq> MEM" by (auto split: if_splits)
      from 3 Rtx.prems nc Rtx.IH have "map (fld_value st') fs = map (fld_value st) fs"
        by (auto split: if_splits)
      then show ?thesis using 3 nc \<open>c \<noteq> MEM\<close>
        by (simp add: Let_def del: map_eq_conv)
    qed
  qed
qed auto

text \<open>An expression that \<open>rtx_varies_p\<close> does not call varying has the same value in any
  two states that agree on the frame pointer and on the addresses of symbols and labels,
  whatever the other registers and the memory hold.\<close>

theorem rtx_varies_p_sound:
  assumes "\<not> rtx_varies_p x" and "constants_ok x"
    and "rs_regs st' FRAME_POINTER_REGNUM = rs_regs st FRAME_POINTER_REGNUM"
    and "rs_sym st' = rs_sym st" and "rs_label st' = rs_label st"
  shows "rtx_value st' x = rtx_value st x"
  by (rule varies_value) (use assms in simp_all)

theorem rtx_varies_p_sound_witness:
  "\<forall>st mm. rtx_value (st\<lparr>rs_mem := mm\<rparr>) (gen_rtx_fmt_ee PLUS HImode frame_pointer_rtx (GEN_INT 4))
   = rtx_value st (gen_rtx_fmt_ee PLUS HImode frame_pointer_rtx (GEN_INT 4))"
  by (intro allI, rule rtx_varies_p_sound)
    (simp_all add: gen_rtx_defs frame_pointer_rtx_def CONSTANT_P_def)

lemma apply_code_CONST: "length vs \<noteq> 1 \<Longrightarrow> apply_code CONST_rtx vs = None"
  by (cases "(CONST_rtx, vs)" rule: apply_code.cases) simp_all

lemma apply_code_PLUS: "length vs \<noteq> 2 \<Longrightarrow> apply_code PLUS vs = None"
  by (cases "(PLUS, vs)" rule: apply_code.cases) simp_all

lemma const_int_fld: "GET_CODE (fld_exp y) = CONST_INT \<Longrightarrow> fld_value st' y = fld_value st y"
  by (cases "fld_exp y"; cases y) auto

lemma addr_trap_value:
  assumes "rs_regs st' FRAME_POINTER_REGNUM = rs_regs st FRAME_POINTER_REGNUM"
    and "rs_regs st' STACK_POINTER_REGNUM = rs_regs st STACK_POINTER_REGNUM"
    and "rs_sym st' = rs_sym st" and "rs_label st' = rs_label st"
  shows "\<not> rtx_addr_can_trap_p a \<Longrightarrow> rtx_value st' a = rtx_value st a"
    and "\<not> rtx_addr_can_trap_fld f \<Longrightarrow> fld_value st' f = fld_value st f"
proof (induction a and f rule: rtx.induct fld.induct)
  case (Rtx c m f fs)
  from Rtx.prems(1) consider "c = SYMBOL_REF \<or> c = LABEL_REF \<or> c = LO_SUM"
    | "c = REG" "Rtx c m f fs = frame_pointer_rtx \<or> Rtx c m f fs = stack_pointer_rtx"
    | "c = CONST_rtx" | "c = PLUS"
    by (auto split: if_splits)
  then show ?case
  proof cases
    case 1
    with assms(3,4) show ?thesis by (auto simp: apply_code_other)
  next
    case 2
    then have "REGNO (Rtx c m f fs) \<in> {FRAME_POINTER_REGNUM, STACK_POINTER_REGNUM}"
      by (auto simp: frame_pointer_rtx_def stack_pointer_rtx_def gen_rtx_defs REGNO_def fld_access)
    with 2 assms(1,2) show ?thesis by (auto simp: Let_def)
  next
    case 3
    show ?thesis
    proof (cases "length fs = 1")
      case True
      then obtain x where "fs = [x]" by (auto simp: length_Suc_conv)
      with 3 Rtx show ?thesis by (simp add: Let_def)
    qed (simp add: 3 apply_code_CONST Let_def)
  next
    case 4
    show ?thesis
    proof (cases "length fs = 2")
      case True
      then obtain x y where xy: "fs = [x, y]" by (auto simp: length_Suc_conv numeral_2_eq_2)
      with 4 Rtx.prems have "\<not> rtx_addr_can_trap_fld x" "GET_CODE (fld_exp y) = CONST_INT" by simp_all
      with xy Rtx.IH [of x] const_int_fld [of y st' st] have
        "fld_value st' x = fld_value st x" "fld_value st' y = fld_value st y" by simp_all
      with 4 xy show ?thesis by (simp add: Let_def)
    qed (simp add: 4 apply_code_PLUS Let_def)
  qed
qed auto

text \<open>An address that cannot trap is fixed within the function: it is the same in any two
  states that agree on the frame pointer, the stack pointer and the addresses of symbols
  and labels.\<close>

theorem rtx_addr_can_trap_p_sound:
  assumes "\<not> rtx_addr_can_trap_p a"
    and "rs_regs st' FRAME_POINTER_REGNUM = rs_regs st FRAME_POINTER_REGNUM"
    and "rs_regs st' STACK_POINTER_REGNUM = rs_regs st STACK_POINTER_REGNUM"
    and "rs_sym st' = rs_sym st" and "rs_label st' = rs_label st"
  shows "rtx_value st' a = rtx_value st a"
  by (rule addr_trap_value) (use assms in simp_all)

theorem rtx_addr_can_trap_p_sound_witness:
  "\<forall>st v. rtx_value (st\<lparr>rs_regs := (rs_regs st)(HARD_HL_REGNUM := v)\<rparr>)
      (gen_rtx_fmt_ee PLUS HImode stack_pointer_rtx (GEN_INT 6))
   = Some (rs_regs st STACK_POINTER_REGNUM + 6)"
  by (intro allI, subst rtx_addr_can_trap_p_sound)
    (simp_all add: gen_rtx_defs stack_pointer_rtx_def REGNO_def INTVAL_def fld_access)

section \<open>Formats\<close>

lemma fmt_copy: "fmt_ok k (copy_fld x) = fmt_ok k x" by (cases x) simp_all
lemma fmt_replace: "fmt_ok k (replace_fld x from to) = fmt_ok k x" by (cases x) simp_all



end
