(* ===== verification/Z80_Address.thy ===== *)
theory Z80_Address
  imports Rtl_Effects
begin

text \<open>
  Memory addresses of the Z80 port: the base-register and address macros of
  gcc/config/z80/z80.h and the address recogniser of gcc/config/z80/z80.c. A pseudo register
  stands for the hard register \<open>reg_renumber\<close> gives it; the array is \<open>None\<close> before register
  allocation, as the null pointer of the source, and maps an unallocated pseudo to \<open>- 1\<close>.

  The abstract view is the addressing modes of the processor: an absolute address, the byte
  at a displacement from IX or IY, and the push or pop of the stack. The lemmas show that
  what the strict recogniser accepts can be encoded, for every byte of the object, and that
  the recogniser meets the contract the compiler's operand predicates rely on.
\<close>

type_synonym renumber = "(int \<Rightarrow> int) option"

section \<open>Base registers\<close>

definition REG_VALID_FOR_BASE_P :: "int \<Rightarrow> bool" where [target_simps]:
  "REG_VALID_FOR_BASE_P regno \<longleftrightarrow> regno < FIRST_PSEUDO_REGISTER
     \<and> (regno = HARD_IX_REGNUM \<or> regno = HARD_IY_REGNUM)"

definition renumbered_base :: "renumber \<Rightarrow> int \<Rightarrow> bool" where [target_simps]:
  "renumbered_base rr regno = (case rr of None \<Rightarrow> False | Some f \<Rightarrow> REG_VALID_FOR_BASE_P (f regno))"

definition REGNO_OK_FOR_BASE_P :: "renumber \<Rightarrow> int \<Rightarrow> bool" where [target_simps]:
  "REGNO_OK_FOR_BASE_P rr regno =
     (if regno < FIRST_PSEUDO_REGISTER then REG_VALID_FOR_BASE_P regno else renumbered_base rr regno)"

definition REGNO_OK_FOR_BASE_NONSTRICT_P :: "renumber \<Rightarrow> int \<Rightarrow> bool" where [target_simps]:
  "REGNO_OK_FOR_BASE_NONSTRICT_P rr regno \<longleftrightarrow> regno \<ge> FIRST_PSEUDO_REGISTER
     \<or> REG_VALID_FOR_BASE_P regno \<or> regno = FRAME_POINTER_REGNUM \<or> regno = ARG_POINTER_REGNUM
     \<or> renumbered_base rr regno"

definition REGNO_OK_FOR_BASE_P2 :: "renumber \<Rightarrow> int \<Rightarrow> bool \<Rightarrow> bool" where [target_simps]:
  "REGNO_OK_FOR_BASE_P2 rr regno strict =
     (if strict then REGNO_OK_FOR_BASE_P rr regno else REGNO_OK_FOR_BASE_NONSTRICT_P rr regno)"

section \<open>Addresses\<close>

definition IS_STACK_PUSH :: "rtx \<Rightarrow> bool" where
  "IS_STACK_PUSH operand \<longleftrightarrow> GET_CODE operand = MEM \<and> GET_CODE (XEXP operand 0) = PRE_DEC
     \<and> SP_REG_P (XEXP (XEXP operand 0) 0)"

definition IS_STACK_POP :: "rtx \<Rightarrow> bool" where
  "IS_STACK_POP operand \<longleftrightarrow> GET_CODE operand = MEM \<and> GET_CODE (XEXP operand 0) = POST_INC
     \<and> SP_REG_P (XEXP (XEXP operand 0) 0)"

definition CONSTANT_ADDRESS_P :: "rtx \<Rightarrow> bool" where
  "CONSTANT_ADDRESS_P x \<longleftrightarrow> CONSTANT_P x"

definition z80_min_offset :: int where "z80_min_offset = - 128"
definition z80_max_offset :: int where "z80_max_offset = 127"

lemmas offset_limits = z80_min_offset_def z80_max_offset_def

definition VALID_CONSTANT_OFFSET_P :: "rtx \<Rightarrow> machine_mode \<Rightarrow> bool" where
  "VALID_CONSTANT_OFFSET_P x mode \<longleftrightarrow> GET_CODE x = CONST_INT
     \<and> INTVAL x \<ge> z80_min_offset \<and> INTVAL x \<le> z80_max_offset - (int (GET_MODE_SIZE mode) + 1)"

definition PUSH_POP_ADDRESS_P :: "rtx \<Rightarrow> bool" where
  "PUSH_POP_ADDRESS_P x \<longleftrightarrow> (GET_CODE x = PRE_DEC \<or> GET_CODE x = POST_INC) \<and> SP_REG_P (XEXP x 0)"

text \<open>\<open>mode_dependent_address_p\<close> is the body of \<open>GO_IF_MODE_DEPENDENT_ADDRESS\<close>.\<close>

definition GO_IF_MODE_DEPENDENT_ADDRESS :: "rtx \<Rightarrow> bool" where
  "GO_IF_MODE_DEPENDENT_ADDRESS addr \<longleftrightarrow> GET_CODE addr = PRE_DEC \<or> GET_CODE addr = POST_DEC
     \<or> GET_CODE addr = PRE_INC \<or> GET_CODE addr = POST_INC"

definition register_indirect_p :: "renumber \<Rightarrow> rtx \<Rightarrow> machine_mode \<Rightarrow> bool \<Rightarrow> bool" where
  "register_indirect_p rr operand mode strict =
     (if GET_CODE operand \<in> {POST_INC, PRE_INC, POST_DEC, PRE_DEC} then False
      else if GET_CODE operand = PLUS then
        (if GET_CODE (XEXP operand 0) \<noteq> REG then False
         else if GET_CODE (XEXP operand 1) \<noteq> CONST_INT
           \<or> \<not> VALID_CONSTANT_OFFSET_P (XEXP operand 1) mode then False
         else if \<not> strict then True
         else REGNO_OK_FOR_BASE_P2 rr (REGNO (XEXP operand 0)) strict)
      else if GET_CODE operand = REG then REGNO_OK_FOR_BASE_P2 rr (REGNO operand) strict
      else False)"

definition go_if_legitimate_address_internal :: "renumber \<Rightarrow> rtx \<Rightarrow> machine_mode \<Rightarrow> bool \<Rightarrow> bool" where
  "go_if_legitimate_address_internal rr operand mode strict =
     (if CONSTANT_ADDRESS_P operand then True
      else if register_indirect_p rr operand mode strict then True
      else if PUSH_POP_ADDRESS_P operand then True
      else False)"

definition z80_go_if_legitimate_address :: "renumber \<Rightarrow> rtx \<Rightarrow> machine_mode \<Rightarrow> bool \<Rightarrow> bool" where
  "z80_go_if_legitimate_address rr operand mode strict =
     go_if_legitimate_address_internal rr operand mode strict"

section \<open>The addressing modes of the processor\<close>

datatype z80_address = Absolute rtx | Indexed int int | Stack rtx_code

text \<open>The hard register a register stands for once registers are allocated.\<close>

definition hard_base :: "renumber \<Rightarrow> rtx \<Rightarrow> int" where
  "hard_base rr r = (if REGNO r < FIRST_PSEUDO_REGISTER then REGNO r
     else case rr of None \<Rightarrow> - 1 | Some f \<Rightarrow> f (REGNO r))"

definition addressing_mode :: "renumber \<Rightarrow> rtx \<Rightarrow> z80_address option" where
  "addressing_mode rr x =
     (if CONSTANT_P x then Some (Absolute x)
      else if GET_CODE x = REG \<and> REG_VALID_FOR_BASE_P (hard_base rr x) then Some (Indexed (hard_base rr x) 0)
      else if GET_CODE x = PLUS \<and> GET_CODE (XEXP x 0) = REG \<and> GET_CODE (XEXP x 1) = CONST_INT
        \<and> REG_VALID_FOR_BASE_P (hard_base rr (XEXP x 0))
      then Some (Indexed (hard_base rr (XEXP x 0)) (INTVAL (XEXP x 1)))
      else if PUSH_POP_ADDRESS_P x then Some (Stack (GET_CODE x))
      else None)"

text \<open>Every byte of an object of the mode is in reach of the signed 8-bit displacement.\<close>

fun encodable :: "nat \<Rightarrow> z80_address \<Rightarrow> bool" where
  "encodable size_in_bytes (Absolute x) = True"
| "encodable size_in_bytes (Indexed r d) =
     ((r = HARD_IX_REGNUM \<or> r = HARD_IY_REGNUM) \<and> - 128 \<le> d \<and> d + int size_in_bytes \<le> 128)"
| "encodable size_in_bytes (Stack c) = (c = PRE_DEC \<or> c = POST_INC)"

section \<open>Lemmas\<close>

lemma base_hard: "REGNO_OK_FOR_BASE_P rr (REGNO r) = REG_VALID_FOR_BASE_P (hard_base rr r)"
  by (simp add: target_simps hard_base_def split: option.splits)

lemma base_strict_nonstrict: "REGNO_OK_FOR_BASE_P rr r \<Longrightarrow> REGNO_OK_FOR_BASE_NONSTRICT_P rr r"
  by (simp add: target_simps split: if_splits)

lemma mode_size_bound: "GET_MODE_SIZE m \<le> 64"
  by (cases m) simp_all

lemmas address_defs = z80_go_if_legitimate_address_def go_if_legitimate_address_internal_def
  register_indirect_p_def CONSTANT_ADDRESS_P_def REGNO_OK_FOR_BASE_P2_def

lemma const_not_register: "CONSTANT_P x \<Longrightarrow> GET_CODE x \<notin> {REG, PLUS, MEM, SUBREG, PRE_DEC, POST_INC, PRE_INC, POST_DEC, ADDRESSOF}"
  by (auto simp: CONSTANT_P_def)

lemma legitimate_strict_cases:
  assumes "z80_go_if_legitimate_address rr x mode True"
  obtains "CONSTANT_P x" | "GET_CODE x = REG" "REG_VALID_FOR_BASE_P (hard_base rr x)"
  | "GET_CODE x = PLUS" "GET_CODE (XEXP x 0) = REG" "REG_VALID_FOR_BASE_P (hard_base rr (XEXP x 0))"
    "VALID_CONSTANT_OFFSET_P (XEXP x 1) mode"
  | "PUSH_POP_ADDRESS_P x"
  using assms by (auto simp: address_defs base_hard split: if_splits)

lemma strict_nonstrict:
  "z80_go_if_legitimate_address rr x mode True \<Longrightarrow> z80_go_if_legitimate_address rr x mode False"
  by (auto simp: address_defs base_strict_nonstrict split: if_splits)

lemma legitimate_narrower:
  "z80_go_if_legitimate_address rr x mode strict \<Longrightarrow> GET_MODE_SIZE mode' \<le> GET_MODE_SIZE mode
    \<Longrightarrow> z80_go_if_legitimate_address rr x mode' strict"
  by (auto simp: address_defs VALID_CONSTANT_OFFSET_P_def split: if_splits)

section \<open>Properties\<close>

text \<open>An address the strict recogniser accepts for a mode is one of the addressing modes of
  the processor, an absolute address, a displacement from IX or IY, or a push or pop, and
  every byte of an object of that mode is in reach of the displacement; and an addressing
  mode with two bytes to spare is accepted.\<close>

theorem legitimate_address_encodable:
  "(z80_go_if_legitimate_address rr x mode True \<longrightarrow>
       (\<exists>a. addressing_mode rr x = Some a \<and> encodable (GET_MODE_SIZE mode) a))
    \<and> (\<forall>a. addressing_mode rr x = Some a \<and> encodable (GET_MODE_SIZE mode + 2) a \<longrightarrow>
        z80_go_if_legitimate_address rr x mode True)"
proof (intro conjI impI allI)
  show "\<exists>a. addressing_mode rr x = Some a \<and> encodable (GET_MODE_SIZE mode) a"
    if l: "z80_go_if_legitimate_address rr x mode True"
    using l
  proof (cases rule: legitimate_strict_cases)
    case 1
    then show ?thesis by (simp add: addressing_mode_def)
  next
    case 2
    then show ?thesis using mode_size_bound [of mode]
      by (simp add: addressing_mode_def REG_VALID_FOR_BASE_P_def CONSTANT_P_def)
  next
    case 3
    then show ?thesis 
      by (simp add: addressing_mode_def REG_VALID_FOR_BASE_P_def CONSTANT_P_def
          VALID_CONSTANT_OFFSET_P_def offset_limits)
  next
    case 4
    then show ?thesis by (auto simp: addressing_mode_def PUSH_POP_ADDRESS_P_def CONSTANT_P_def)
  qed
  show "z80_go_if_legitimate_address rr x mode True"
    if "addressing_mode rr x = Some a \<and> encodable (GET_MODE_SIZE mode + 2) a" for a
    using that
    by (auto simp: addressing_mode_def address_defs base_hard VALID_CONSTANT_OFFSET_P_def offset_limits
        PUSH_POP_ADDRESS_P_def split: if_splits)
qed

theorem legitimate_address_encodable_witness:
  "\<exists>a. addressing_mode None (gen_rtx_fmt_ee PLUS HImode (gen_rtx_REG HImode 5) (GEN_INT (- 2))) = Some a
     \<and> encodable 2 a"
  using legitimate_address_encodable
    [of None "gen_rtx_fmt_ee PLUS HImode (gen_rtx_REG HImode 5) (GEN_INT (- 2))" HImode]
  by (simp add: address_defs VALID_CONSTANT_OFFSET_P_def offset_limits target_simps CONSTANT_P_def
      gen_fields [unfolded One_nat_def [symmetric]] del: One_nat_def)

text \<open>The lenient recogniser accepts a displacement from any register, HL among them, which
  as a base register by itself is refused.\<close>

theorem nonstrict_accepts_any_base:
  "z80_go_if_legitimate_address rr
       (gen_rtx_fmt_ee PLUS HImode (gen_rtx_REG HImode HARD_HL_REGNUM) (GEN_INT 4)) HImode False
   \<and> \<not> z80_go_if_legitimate_address None (gen_rtx_REG HImode HARD_HL_REGNUM) HImode False
   \<and> \<not> z80_go_if_legitimate_address rr
       (gen_rtx_fmt_ee PLUS HImode (gen_rtx_REG HImode HARD_HL_REGNUM) (GEN_INT 4)) HImode True"
  by (simp add: address_defs VALID_CONSTANT_OFFSET_P_def offset_limits target_simps CONSTANT_P_def
      PUSH_POP_ADDRESS_P_def)

end
