(* ===== verification/Rtl_Notes.thy ===== *)
theory Rtl_Notes
  imports Rtl_Effects
begin

text \<open>
  The insns and the lists attached to them (gcc/rtlanal.c): what an insn stores
  (\<open>note_stores\<close>), the register notes of an insn, the uses and clobbers of a call,
  and which registers do not survive an insn. A list of notes is a chain of
  \<open>EXPR_LIST\<close> nodes linked through their second operand; the loops over it are over
  \<open>links\<close>, the list of its nodes. A callback is the list of its calls, in order.
\<close>

section \<open>Chains\<close>

function links :: "rtx \<Rightarrow> rtx list" where
  "links x = (if x = NULL_RTX then [] else x # links (XEXP x 1))"
  by pat_completeness auto
termination by (relation "measure size") (simp_all add: size_XEXP)

declare links.simps [simp del]

lemma links_simps [simp]:
  "links NULL_RTX = []"
  "links (Rtx c m f fs) = Rtx c m f fs # links (XEXP (Rtx c m f fs) 1)"
  by (simp_all add: links.simps [of NULL_RTX] links.simps [of "Rtx c m f fs"])

definition CALL_INSN_FUNCTION_USAGE :: "rtx \<Rightarrow> rtx" where
  "CALL_INSN_FUNCTION_USAGE insn = XEXP insn 7"

text \<open>The end of the registers of a \<open>REG\<close>: \<open>regno + 1\<close> for a pseudo, past the last of its
  hard registers otherwise. The source computes it in place.\<close>

definition reg_end :: "rtx \<Rightarrow> int" where
  "reg_end x = (if REGNO x \<ge> FIRST_PSEUDO_REGISTER then REGNO x + 1
     else REGNO x + HARD_REGNO_NREGS (REGNO x) (GET_MODE x))"

definition covers :: "rtx \<Rightarrow> int \<Rightarrow> bool" where
  "covers x r \<longleftrightarrow> REGNO x \<le> r \<and> r < reg_end x"

section \<open>What an insn stores\<close>

function strip_dest :: "rtx \<Rightarrow> rtx" where
  "strip_dest dest =
     (if (GET_CODE dest = SUBREG
           \<and> (GET_CODE (SUBREG_REG dest) \<noteq> REG
              \<or> REGNO (SUBREG_REG dest) \<ge> FIRST_PSEUDO_REGISTER))
         \<or> GET_CODE dest = ZERO_EXTRACT \<or> GET_CODE dest = SIGN_EXTRACT
         \<or> GET_CODE dest = STRICT_LOW_PART
      then strip_dest (XEXP dest 0) else dest)"
  by pat_completeness auto
termination by (relation "measure size") (auto intro!: size_XEXP code_not_null)

declare strip_dest.simps [simp del]

definition stores_of_dest :: "rtx \<Rightarrow> (rtx \<times> rtx) list" where
  "stores_of_dest x =
     (let dest = strip_dest (SET_DEST x) in
      if GET_CODE dest = PARALLEL \<and> GET_MODE dest = BLKmode then
        map (\<lambda>e. (SET_DEST e, x)) (rev (XVEC dest 0))
      else [(dest, x)])"

definition note_stores :: "rtx \<Rightarrow> (rtx \<times> rtx) list" where
  "note_stores x =
     (if GET_CODE x = SET \<or> GET_CODE x = CLOBBER then stores_of_dest x
      else if GET_CODE x = PARALLEL then
        concat (map (\<lambda>y. if GET_CODE y = SET \<or> GET_CODE y = CLOBBER then stores_of_dest y else [])
          (rev (XVEC x 0)))
      else [])"

section \<open>Register notes\<close>

text \<open>\<open>find\<close> returns the first link that satisfies the test, or the null pointer.\<close>

definition first_link :: "(rtx \<Rightarrow> bool) \<Rightarrow> rtx list \<Rightarrow> rtx" where
  "first_link P ls = (case List.find P ls of Some l \<Rightarrow> l | None \<Rightarrow> NULL_RTX)"

definition find_reg_note :: "rtx \<Rightarrow> nat \<Rightarrow> rtx \<Rightarrow> rtx" where
  "find_reg_note insn kind datum =
     (if GET_RTX_CLASS (GET_CODE insn) \<noteq> CHR ''i'' then NULL_RTX
      else first_link (\<lambda>link. REG_NOTE_KIND link = kind \<and> (datum = NULL_RTX \<or> datum = XEXP link 0))
        (links (REG_NOTES insn)))"

definition find_regno_note :: "rtx \<Rightarrow> nat \<Rightarrow> int \<Rightarrow> rtx" where
  "find_regno_note insn kind regno =
     (if GET_RTX_CLASS (GET_CODE insn) \<noteq> CHR ''i'' then NULL_RTX
      else first_link (\<lambda>link. REG_NOTE_KIND link = kind \<and> GET_CODE (XEXP link 0) = REG
          \<and> REGNO (XEXP link 0) \<le> regno
          \<and> REGNO (XEXP link 0)
             + (if REGNO (XEXP link 0) \<ge> FIRST_PSEUDO_REGISTER then 1
                else HARD_REGNO_NREGS (REGNO (XEXP link 0)) (GET_MODE (XEXP link 0))) > regno)
        (links (REG_NOTES insn)))"

definition find_regno_fusage :: "rtx \<Rightarrow> rtx_code \<Rightarrow> int \<Rightarrow> bool" where
  "find_regno_fusage insn code regno =
     (if regno \<ge> FIRST_PSEUDO_REGISTER \<or> GET_CODE insn \<noteq> CALL_INSN then False
      else list_ex (\<lambda>link. let op = XEXP link 0 in
          GET_CODE op = code \<and> GET_CODE (SET_DEST op) = REG
          \<and> REGNO (SET_DEST op) \<le> regno
          \<and> REGNO (SET_DEST op) + HARD_REGNO_NREGS (REGNO (SET_DEST op)) (GET_MODE (SET_DEST op)) > regno)
        (links (CALL_INSN_FUNCTION_USAGE insn)))"

text \<open>\<open>None\<close> is the \<open>abort\<close> on a null datum.\<close>

definition find_reg_fusage :: "bool \<Rightarrow> rtx \<Rightarrow> rtx_code \<Rightarrow> rtx \<Rightarrow> bool option" where
  "find_reg_fusage fvm insn code datum =
     (if GET_CODE insn \<noteq> CALL_INSN then Some False
      else if datum = NULL_RTX then None
      else if GET_CODE datum \<noteq> REG then
        Some (list_ex (\<lambda>link. GET_CODE (XEXP link 0) = code
            \<and> rtx_equal_p fvm datum (SET_DEST (XEXP link 0)))
          (links (CALL_INSN_FUNCTION_USAGE insn)))
      else if REGNO datum < FIRST_PSEUDO_REGISTER then
        Some (list_ex (find_regno_fusage insn code)
          [REGNO datum .. REGNO datum + HARD_REGNO_NREGS (REGNO datum) (GET_MODE datum) - 1])
      else Some False)"

text \<open>\<open>remove_note\<close> removes the node \<open>note\<close> of the chain, which is identified here by its
  contents; \<open>None\<close> is the \<open>abort\<close> when it is not there. \<open>remove_node_from_expr_list\<close>
  removes the first link whose datum is the node.\<close>

definition set_XEXP :: "rtx \<Rightarrow> nat \<Rightarrow> rtx \<Rightarrow> rtx" where
  "set_XEXP x n v = (case x of NULL_RTX \<Rightarrow> NULL_RTX | Rtx c m f fs \<Rightarrow> Rtx c m f (fs[n := FExp v]))"

function remove_link :: "rtx \<Rightarrow> rtx \<Rightarrow> rtx option" where
  "remove_link note l =
     (if l = note then Some (XEXP note 1)
      else if l = NULL_RTX then None
      else map_option (set_XEXP l 1) (remove_link note (XEXP l 1)))"
  by pat_completeness auto
termination by (relation "measure (size \<circ> snd)") (simp_all add: size_XEXP)

declare remove_link.simps [simp del]

definition remove_note :: "rtx \<Rightarrow> rtx \<Rightarrow> rtx option" where
  "remove_note insn note = map_option (set_XEXP insn 6) (remove_link note (REG_NOTES insn))"

function remove_node_from_expr_list :: "rtx \<Rightarrow> rtx \<Rightarrow> rtx" where
  "remove_node_from_expr_list node l =
     (if l = NULL_RTX then NULL_RTX
      else if node = XEXP l 0 then XEXP l 1
      else set_XEXP l 1 (remove_node_from_expr_list node (XEXP l 1)))"
  by pat_completeness auto
termination by (relation "measure (size \<circ> snd)") (simp_all add: size_XEXP)

declare remove_node_from_expr_list.simps [simp del]

section \<open>Registers that do not survive an insn\<close>

definition words_of_mode :: "machine_mode \<Rightarrow> nat" where
  "words_of_mode m = (GET_MODE_SIZE m + UNITS_PER_WORD - 1) div UNITS_PER_WORD"

text \<open>The destination, or the register inside a \<open>SUBREG\<close> of the same number of words.\<close>

definition whole_dest :: "rtx \<Rightarrow> rtx" where
  "whole_dest dest =
     (if GET_CODE dest = SUBREG
         \<and> words_of_mode (GET_MODE dest) = words_of_mode (GET_MODE (SUBREG_REG dest))
      then SUBREG_REG dest else dest)"

definition dead_or_set_regno_p :: "rtx \<Rightarrow> int \<Rightarrow> bool" where
  "dead_or_set_regno_p insn test_regno =
     (if list_ex (\<lambda>link. REG_NOTE_KIND link = REG_DEAD \<and> GET_CODE (XEXP link 0) = REG
           \<and> covers (XEXP link 0) test_regno) (links (REG_NOTES insn)) then True
      else if GET_CODE insn = CALL_INSN \<and> find_regno_fusage insn CLOBBER test_regno then True
      else if GET_CODE (PATTERN insn) = SET then
        (let dest = whole_dest (SET_DEST (PATTERN insn)) in
         if GET_CODE dest \<noteq> REG then False else covers dest test_regno)
      else if GET_CODE (PATTERN insn) = PARALLEL then
        list_ex (\<lambda>body. (GET_CODE body = SET \<or> GET_CODE body = CLOBBER)
            \<and> (let dest = whole_dest (SET_DEST body) in
               GET_CODE dest = REG \<and> covers dest test_regno))
          (rev (XVEC (PATTERN insn) 0))
      else False)"

text \<open>\<open>None\<close> is the \<open>abort\<close> on anything but a register or \<open>cc0\<close>.\<close>

definition dead_or_set_p :: "rtx \<Rightarrow> rtx \<Rightarrow> bool option" where
  "dead_or_set_p insn x =
     (if GET_CODE x = CC0 then Some True
      else if GET_CODE x \<noteq> REG then None
      else Some (list_all (dead_or_set_regno_p insn) [REGNO x .. reg_end x - 1]))"

section \<open>Lemmas\<close>

lemma find_Some_set: "List.find P ls = Some l \<Longrightarrow> l \<in> set ls \<and> P l"
  by (auto simp: find_Some_iff)

lemma first_link_in: "first_link P ls \<noteq> NULL_RTX \<Longrightarrow> first_link P ls \<in> set ls \<and> P (first_link P ls)"
  by (cases "List.find P ls") (simp_all add: first_link_def find_Some_set)

lemma first_link_None:
  "first_link P ls = NULL_RTX \<Longrightarrow> NULL_RTX \<notin> set ls \<Longrightarrow> list_all (\<lambda>l. \<not> P l) ls"
  by (cases "List.find P ls") (auto simp: first_link_def find_None_iff list_all_iff dest: find_Some_set)

lemma links_not_null: "NULL_RTX \<notin> set (links x)"
  by (induction x rule: links.induct) (subst links.simps, auto)

lemma note_covers:
  "(REGNO y \<le> r \<and> REGNO y + (if REGNO y \<ge> FIRST_PSEUDO_REGISTER then 1
     else HARD_REGNO_NREGS (REGNO y) (GET_MODE y)) > r) \<longleftrightarrow> covers y r"
  by (auto simp: covers_def reg_end_def)

lemma strip_dest_same:
  "GET_CODE d = REG \<Longrightarrow> strip_dest d = d"
  "GET_CODE d = SUBREG \<Longrightarrow> GET_CODE (SUBREG_REG d) = REG \<Longrightarrow> REGNO (SUBREG_REG d) < FIRST_PSEUDO_REGISTER \<Longrightarrow>
     strip_dest d = d"
  "GET_CODE d = SUBREG \<Longrightarrow> GET_CODE (SUBREG_REG d) = REG \<Longrightarrow> REGNO (SUBREG_REG d) \<ge> FIRST_PSEUDO_REGISTER \<Longrightarrow>
     strip_dest d = SUBREG_REG d"
  by (simp add: strip_dest.simps [of d], simp add: strip_dest.simps [of d])
    (subst strip_dest.simps, simp add: strip_dest.simps [of "XEXP d 0"] SUBREG_REG_def)

lemma stores_of_whole_dest:
  assumes "GET_CODE (whole_dest (SET_DEST y)) = REG"
  shows "\<exists>d. (d, y) \<in> set (stores_of_dest y) \<and> (d = whole_dest (SET_DEST y)
    \<or> GET_CODE d = SUBREG \<and> SUBREG_REG d = whole_dest (SET_DEST y))"
proof -
  let ?d = "SET_DEST y"
  consider "GET_CODE ?d = REG" "whole_dest ?d = ?d"
    | "GET_CODE ?d = SUBREG" "whole_dest ?d = SUBREG_REG ?d" "GET_CODE (SUBREG_REG ?d) = REG"
    using assms by (auto simp: whole_dest_def split: if_splits)
  then show ?thesis
  proof cases
    case 1
    then show ?thesis by (simp add: stores_of_dest_def strip_dest_same)
  next
    case 2
    then show ?thesis
      by (cases "REGNO (SUBREG_REG ?d) < FIRST_PSEUDO_REGISTER")
        (simp_all add: stores_of_dest_def strip_dest_same)
  qed
qed

text \<open>\<open>find_regno_note\<close> returns a note of the insn, of the kind asked for, whose register
  covers the one asked for; when it returns none, the insn has no such note.\<close>

theorem find_regno_note_sound:
  assumes "GET_RTX_CLASS (GET_CODE insn) = CHR ''i''"
  shows "if find_regno_note insn kind r = NULL_RTX
    then list_all (\<lambda>link. \<not> (REG_NOTE_KIND link = kind \<and> GET_CODE (XEXP link 0) = REG
      \<and> covers (XEXP link 0) r)) (links (REG_NOTES insn))
    else find_regno_note insn kind r \<in> set (links (REG_NOTES insn))
      \<and> REG_NOTE_KIND (find_regno_note insn kind r) = kind
      \<and> GET_CODE (XEXP (find_regno_note insn kind r) 0) = REG
      \<and> covers (XEXP (find_regno_note insn kind r) 0) r"
proof -
  let ?P = "\<lambda>link. REG_NOTE_KIND link = kind \<and> GET_CODE (XEXP link 0) = REG \<and> covers (XEXP link 0) r"
  have eq: "find_regno_note insn kind r = first_link ?P (links (REG_NOTES insn))"
    using assms by (simp add: find_regno_note_def note_covers)
  show ?thesis unfolding eq
    using first_link_in [of ?P] first_link_None [of ?P, OF _ links_not_null] by auto
qed

text \<open>A register that \<open>dead_or_set_regno_p\<close> reports is covered by a death note, is
  clobbered by the call, or is one that \<open>note_stores\<close> reports as stored, whole or
  through a \<open>SUBREG\<close>.\<close>

theorem dead_or_set_regno_sound:
  assumes "dead_or_set_regno_p insn r"
  shows "list_ex (\<lambda>link. REG_NOTE_KIND link = REG_DEAD \<and> GET_CODE (XEXP link 0) = REG
      \<and> covers (XEXP link 0) r) (links (REG_NOTES insn))
    \<or> find_regno_fusage insn CLOBBER r
    \<or> (\<exists>d y. (d, y) \<in> set (note_stores (PATTERN insn))
        \<and> (GET_CODE d = REG \<and> covers d r
           \<or> GET_CODE d = SUBREG \<and> GET_CODE (SUBREG_REG d) = REG \<and> covers (SUBREG_REG d) r))"
    (is "?A \<or> ?B \<or> ?C")
proof -
  let ?p = "PATTERN insn"
  have step: "?C" if y: "set (stores_of_dest y) \<subseteq> set (note_stores ?p)"
    "GET_CODE (whole_dest (SET_DEST y)) = REG" "covers (whole_dest (SET_DEST y)) r" for y
    using stores_of_whole_dest [OF y(2)] y by fastforce
  consider "?A" | "?B" | "GET_CODE ?p = SET" "GET_CODE (whole_dest (SET_DEST ?p)) = REG"
      "covers (whole_dest (SET_DEST ?p)) r"
    | y where "GET_CODE ?p = PARALLEL" "y \<in> set (XVEC ?p 0)" "GET_CODE y = SET \<or> GET_CODE y = CLOBBER"
      "GET_CODE (whole_dest (SET_DEST y)) = REG" "covers (whole_dest (SET_DEST y)) r"
    using assms by (auto simp: dead_or_set_regno_p_def Let_def list_ex_iff split: if_splits)
  then show ?thesis
  proof cases
    case 3
    with step [of ?p] show ?thesis by (simp add: note_stores_def)
  next
    case (4 y)
    then have "set (stores_of_dest y) \<subseteq> set (note_stores ?p)" by (auto simp: note_stores_def)
    with 4 step [of y] show ?thesis by blast
  qed blast+
qed

text \<open>Examples: an insn with one death note, and a move.\<close>

definition dead_note_insn :: "rtx \<Rightarrow> rtx \<Rightarrow> rtx" where
  "dead_note_insn pat reg = Rtx INSN VOIDmode no_flags
     [FInt 1, FInsn None, FInsn None, FExp pat, FInt 0, FExp NULL_RTX,
      FExp (Rtx EXPR_LIST (note_mode REG_DEAD) no_flags [FExp reg, FExp NULL_RTX])]"

theorem find_regno_note_sound_witness:
  "covers (XEXP (find_regno_note (dead_note_insn pc_rtx (gen_rtx_REG SImode HARD_HL_REGNUM))
     REG_DEAD HARD_DE_REGNUM) 0) HARD_DE_REGNUM"
proof -
  let ?i = "dead_note_insn pc_rtx (gen_rtx_REG SImode HARD_HL_REGNUM)"
  have "GET_RTX_CLASS (GET_CODE ?i) = CHR ''i''"
    by (simp add: dead_note_insn_def GET_RTX_CLASS_def rtx_table_def)
  moreover have "find_regno_note ?i REG_DEAD HARD_DE_REGNUM \<noteq> NULL_RTX"
    by (simp add: find_regno_note_def dead_note_insn_def REG_NOTES_def fld_access GET_RTX_CLASS_def
        rtx_table_def first_link_def REG_NOTE_KIND_def note_mode_def all_modes_def REG_DEAD_def
        gen_rtx_REG_def REGNO_def HARD_REGNO_NREGS_def target_simps)
  ultimately show ?thesis
    using find_regno_note_sound [of ?i REG_DEAD HARD_DE_REGNUM] by (simp only: if_False simp_thms)
qed

theorem dead_or_set_regno_sound_witness:
  "dead_or_set_regno_p (dead_note_insn (gen_rtx_fmt_ee SET VOIDmode (gen_rtx_REG HImode 3) const0_rtx)
     NULL_RTX) 3 \<and>
   (\<exists>d y. (d, y) \<in> set (note_stores (gen_rtx_fmt_ee SET VOIDmode (gen_rtx_REG HImode 3) const0_rtx))
     \<and> covers d 3)"
proof -
  let ?p = "gen_rtx_fmt_ee SET VOIDmode (gen_rtx_REG HImode 3) const0_rtx"
  let ?i = "dead_note_insn ?p NULL_RTX"
  have p: "PATTERN ?i = ?p" by (simp add: dead_note_insn_def PATTERN_def fld_access)
  have d: "dead_or_set_regno_p ?i 3"
    by (simp add: dead_or_set_regno_p_def p)
      (simp add: dead_note_insn_def REG_NOTES_def fld_access whole_dest_def covers_def reg_end_def
        gen_rtx_defs SET_DEST_def REGNO_def HARD_REGNO_NREGS_def target_simps)
  have "\<not> find_regno_fusage ?i CLOBBER 3"
    by (simp add: find_regno_fusage_def dead_note_insn_def)
  moreover have "\<not> list_ex (\<lambda>link. REG_NOTE_KIND link = REG_DEAD \<and> GET_CODE (XEXP link 0) = REG
      \<and> covers (XEXP link 0) 3) (links (REG_NOTES ?i))"
    by (simp add: dead_note_insn_def REG_NOTES_def fld_access)
  moreover have "set (note_stores ?p) = {(gen_rtx_REG HImode 3, ?p)}"
    by (simp add: note_stores_def stores_of_dest_def strip_dest_same Let_def)
  ultimately show ?thesis using d dead_or_set_regno_sound [OF d] by (auto simp: p)
qed

end
