(* ===== verification/Fold_Const.thy ===== *)
theory Fold_Const
  imports Prelude "HOL-Library.Monad_Syntax"
begin

text \<open>
  Constant folding on two-word integers (gcc/fold-const.c). A \<open>HOST_WIDE_INT\<close> is a 32-bit
  word, as the host configuration of an i686 gives it; the signed type reads it with
  \<open>sint\<close>, the unsigned type with \<open>uint\<close>, and the arithmetic wraps. A shift by a count
  outside the width of the word has no defined result in C: it is \<open>None\<close>.

  The reference semantics of a pair is the 64-bit word \<open>dword l h\<close>; the lemmas show each
  operation to be the operation of that word, with its overflow.
\<close>

type_synonym hwi = "32 word"

abbreviation (input) HOST_BITS_PER_WIDE_INT :: int where "HOST_BITS_PER_WIDE_INT \<equiv> 32"

definition dword :: "hwi \<Rightarrow> hwi \<Rightarrow> 64 word" where
  "dword l h = or (ucast l) (push_bit 32 (ucast h))"

definition sless0 :: "hwi \<Rightarrow> bool" where
  "sless0 a \<longleftrightarrow> sint a < 0"

definition overflow_sum_sign :: "hwi \<Rightarrow> hwi \<Rightarrow> hwi \<Rightarrow> bool" where
  "overflow_sum_sign a b s = sless0 (and (not (xor a b)) (xor a s))"

definition LOWPART :: "hwi \<Rightarrow> hwi" where
  "LOWPART x = and x (push_bit 16 1 - 1)"

definition HIGHPART :: "hwi \<Rightarrow> hwi" where
  "HIGHPART x = drop_bit 16 x"

definition BASE :: hwi where
  "BASE = push_bit 16 1"

definition encode :: "hwi \<Rightarrow> hwi \<Rightarrow> hwi list" where
  "encode low hi = [LOWPART low, HIGHPART low, LOWPART hi, HIGHPART hi]"

definition decode :: "hwi list \<Rightarrow> hwi \<times> hwi" where
  "decode words = (or (words ! 0) (words ! 1 * BASE), or (words ! 2) (words ! 3 * BASE))"

section \<open>Addition, negation, multiplication\<close>

text \<open>The result of an operation is the overflow flag with the two halves.\<close>

definition add_double :: "hwi \<Rightarrow> hwi \<Rightarrow> hwi \<Rightarrow> hwi \<Rightarrow> bool \<times> hwi \<times> hwi" where
  "add_double l1 h1 l2 h2 =
     (let l = l1 + l2;
          h = h1 + h2 + (if l < l1 then 1 else 0)
      in (overflow_sum_sign h1 h2 h, l, h))"

definition neg_double :: "hwi \<Rightarrow> hwi \<Rightarrow> bool \<times> hwi \<times> hwi" where
  "neg_double l1 h1 =
     (if l1 = 0 then (sless0 (and (- h1) h1), 0, - h1)
      else (False, - l1, not h1))"

text \<open>The inner loop of \<open>mul_double\<close>: \<open>ps\<close> is \<open>prod\<close> from index \<open>i\<close> on; the last carry
  goes to \<open>prod[i + 4]\<close>. The outer loop moves on to \<open>prod\<close> from index \<open>i + 1\<close>.\<close>

fun mul_row :: "hwi \<Rightarrow> hwi list \<Rightarrow> hwi list \<Rightarrow> hwi \<Rightarrow> hwi list" where
  "mul_row a [] ps carry = carry # tl ps"
| "mul_row a (b # bs) ps carry =
     (let w = carry + a * b + hd ps
      in LOWPART w # mul_row a bs (tl ps) (HIGHPART w))"

fun mul_rows :: "hwi list \<Rightarrow> hwi list \<Rightarrow> hwi list \<Rightarrow> hwi list" where
  "mul_rows [] bs ps = ps"
| "mul_rows (a # as) bs ps =
     (let r = mul_row a bs ps 0 in hd r # mul_rows as bs (tl r))"

definition mul_double :: "hwi \<Rightarrow> hwi \<Rightarrow> hwi \<Rightarrow> hwi \<Rightarrow> bool \<times> hwi \<times> hwi" where
  "mul_double l1 h1 l2 h2 =
     (let prod = mul_rows (encode l1 h1) (encode l2 h2) (replicate 8 0);
          (lv, hv) = decode prod;
          (toplow, tophigh) = decode (drop 4 prod);
          (toplow, tophigh) =
            (if sless0 h1 then
               (let (_, neglow, neghigh) = neg_double l2 h2
                in snd (add_double neglow neghigh toplow tophigh))
             else (toplow, tophigh));
          (toplow, tophigh) =
            (if sless0 h2 then
               (let (_, neglow, neghigh) = neg_double l1 h1
                in snd (add_double neglow neghigh toplow tophigh))
             else (toplow, tophigh))
      in ((if sless0 hv then not (and toplow tophigh) else or toplow tophigh) \<noteq> 0, lv, hv))"

section \<open>Shifts and rotations\<close>

definition shl :: "hwi \<Rightarrow> int \<Rightarrow> hwi option" where
  "shl x n = (if 0 \<le> n \<and> n < HOST_BITS_PER_WIDE_INT then Some (push_bit (nat n) x) else None)"

definition shr :: "hwi \<Rightarrow> int \<Rightarrow> hwi option" where
  "shr x n = (if 0 \<le> n \<and> n < HOST_BITS_PER_WIDE_INT then Some (drop_bit (nat n) x) else None)"

text \<open>The operator \<open>%\<close> of C, which rounds the quotient toward zero.\<close>

definition crem :: "int \<Rightarrow> int \<Rightarrow> int option" where
  "crem a b = (if b = 0 then None else Some (sgn a * (\<bar>a\<bar> mod \<bar>b\<bar>)))"

text \<open>The target defines \<open>SHIFT_COUNT_TRUNCATED\<close> as 1.\<close>

definition rshift_double :: "hwi \<Rightarrow> hwi \<Rightarrow> int \<Rightarrow> int \<Rightarrow> bool \<Rightarrow> (hwi \<times> hwi) option" where
  "rshift_double l1 h1 count0 prec arith =
     do {
       count \<leftarrow> crem count0 prec;
       let signmask = (if arith then - drop_bit 31 h1 else 0);
       if count \<ge> HOST_BITS_PER_WIDE_INT then
         do {
           a \<leftarrow> shl signmask (2 * HOST_BITS_PER_WIDE_INT - count - 1);
           a \<leftarrow> shl a 1;
           b \<leftarrow> shr h1 (count - HOST_BITS_PER_WIDE_INT);
           Some (or a b, signmask)
         }
       else
         do {
           a \<leftarrow> shr l1 count;
           b \<leftarrow> shl h1 (HOST_BITS_PER_WIDE_INT - count - 1);
           b \<leftarrow> shl b 1;
           c \<leftarrow> shl signmask (HOST_BITS_PER_WIDE_INT - count);
           d \<leftarrow> shr h1 count;
           Some (or a b, or c d)
         }
     }"

definition lshift_double :: "hwi \<Rightarrow> hwi \<Rightarrow> int \<Rightarrow> int \<Rightarrow> bool \<Rightarrow> (hwi \<times> hwi) option" where
  "lshift_double l1 h1 count0 prec arith =
     (if count0 < 0 then rshift_double l1 h1 (- count0) prec arith
      else
        do {
          count \<leftarrow> crem count0 prec;
          if count \<ge> HOST_BITS_PER_WIDE_INT then
            do {
              a \<leftarrow> shl l1 (count - HOST_BITS_PER_WIDE_INT);
              Some (0, a)
            }
          else
            do {
              a \<leftarrow> shl h1 count;
              b \<leftarrow> shr l1 (HOST_BITS_PER_WIDE_INT - count - 1);
              b \<leftarrow> shr b 1;
              c \<leftarrow> shl l1 count;
              Some (c, or a b)
            }
        })"

definition lrotate_double :: "hwi \<Rightarrow> hwi \<Rightarrow> int \<Rightarrow> int \<Rightarrow> (hwi \<times> hwi) option" where
  "lrotate_double l1 h1 count0 prec =
     do {
       count \<leftarrow> crem count0 prec;
       let count = (if count < 0 then count + prec else count);
       (s1l, s1h) \<leftarrow> lshift_double l1 h1 count prec False;
       (s2l, s2h) \<leftarrow> rshift_double l1 h1 (prec - count) prec False;
       Some (or s1l s2l, or s1h s2h)
     }"

definition rrotate_double :: "hwi \<Rightarrow> hwi \<Rightarrow> int \<Rightarrow> int \<Rightarrow> (hwi \<times> hwi) option" where
  "rrotate_double l1 h1 count0 prec =
     do {
       count \<leftarrow> crem count0 prec;
       let count = (if count < 0 then count + prec else count);
       (s1l, s1h) \<leftarrow> rshift_double l1 h1 count prec False;
       (s2l, s2h) \<leftarrow> lshift_double l1 h1 (prec - count) prec False;
       Some (or s1l s2l, or s1h s2h)
     }"

section \<open>Fitting a constant into its type\<close>

text \<open>What \<open>force_fit_type\<close> reads of a constant and of its type: a pointer type has the
  precision \<open>POINTER_SIZE\<close>. The target does not define \<open>CHECK_FLOAT_VALUE\<close>.\<close>

record cst_type =
  ty_pointer :: bool
  TYPE_PRECISION :: int
  TREE_UNSIGNED :: bool

datatype cst = INTEGER_CST hwi hwi cst_type | OTHER_CST

abbreviation (input) POINTER_SIZE :: int where "POINTER_SIZE \<equiv> 16"

text \<open>The mask \<open>(HOST_WIDE_INT) (-1) << n\<close>, for counts in range.\<close>

definition ones_above :: "int \<Rightarrow> hwi" where
  "ones_above n = push_bit (nat n) (- 1)"

definition cst_prec :: "cst_type \<Rightarrow> int" where
  "cst_prec ty = (if ty_pointer ty then POINTER_SIZE else TYPE_PRECISION ty)"

definition clear_beyond :: "int \<Rightarrow> hwi \<times> hwi \<Rightarrow> hwi \<times> hwi" where
  "clear_beyond prec lh =
     (if prec = 2 * HOST_BITS_PER_WIDE_INT then lh
      else if prec > HOST_BITS_PER_WIDE_INT then
        (fst lh, and (snd lh) (not (ones_above (prec - HOST_BITS_PER_WIDE_INT))))
      else
        (if prec < HOST_BITS_PER_WIDE_INT then and (fst lh) (not (ones_above prec)) else fst lh, 0))"

definition extend_sign :: "int \<Rightarrow> hwi \<times> hwi \<Rightarrow> hwi \<times> hwi" where
  "extend_sign prec lh =
     (if prec \<noteq> 2 * HOST_BITS_PER_WIDE_INT
         \<and> (if prec > HOST_BITS_PER_WIDE_INT
            then and (snd lh) (push_bit (nat (prec - HOST_BITS_PER_WIDE_INT - 1)) 1) \<noteq> 0
            else and (fst lh) (push_bit (nat (prec - 1)) 1) \<noteq> 0)
      then
        (if prec > HOST_BITS_PER_WIDE_INT then
           (fst lh, or (snd lh) (ones_above (prec - HOST_BITS_PER_WIDE_INT)))
         else
           (if prec < HOST_BITS_PER_WIDE_INT then or (fst lh) (ones_above prec) else fst lh, - 1))
      else lh)"

definition force_fit_type :: "cst \<Rightarrow> bool \<Rightarrow> bool \<times> cst" where
  "force_fit_type t overflow =
     (case t of
        OTHER_CST \<Rightarrow> (overflow, OTHER_CST)
      | INTEGER_CST low high ty \<Rightarrow>
          (let lh = clear_beyond (cst_prec ty) (low, high) in
           if TREE_UNSIGNED ty then (overflow, INTEGER_CST (fst lh) (snd lh) ty)
           else
             (let lh = extend_sign (cst_prec ty) lh
              in (overflow \<or> xor low (fst lh) \<noteq> 0 \<or> xor high (snd lh) \<noteq> 0,
                  INTEGER_CST (fst lh) (snd lh) ty))))"

section \<open>Lemmas: the two halves\<close>

lemma bit_dword: "bit (dword l h) n \<longleftrightarrow> (if n < 32 then bit l n else n < 64 \<and> bit h (n - 32))"
  by (auto simp: dword_def bit_or_iff bit_push_bit_iff bit_ucast_iff dest: bit_imp_le_length)

lemma hwi_range: "0 \<le> uint a" "uint a < 4294967296" for a :: hwi
  using uint_lt2p [of a] by simp_all

lemma uint_dword: "uint (dword l h) = uint l + 4294967296 * uint h"
proof -
  define A :: "64 word" where "A = ucast l"
  define B :: "64 word" where "B = push_bit 32 (ucast h)"
  have "A + B = dword l h"
    unfolding dword_def A_def B_def
    by (rule disjunctive_add) (auto simp: bit_push_bit_iff bit_ucast_iff dest: bit_imp_le_length)
  then have "uint (dword l h) = (uint A + uint B) mod 2 ^ 64"
    using uint_word_ariths(1) [of A B] by simp
  moreover have "uint A = uint l" unfolding A_def by (rule uint_up_ucast) (simp add: is_up)
  moreover have "uint B = 4294967296 * uint h"
  proof -
    have "uint (ucast h :: 64 word) = uint h" by (rule uint_up_ucast) (simp add: is_up)
    then have "uint B = take_bit 64 (push_bit 32 (uint h))"
      unfolding B_def by (simp only: unsigned_push_bit_eq) simp
    also have "\<dots> = push_bit 32 (uint h)"
      using hwi_range [of h] by (intro take_bit_int_eq_self) (simp_all add: push_bit_eq_mult)
    finally show ?thesis by (simp add: push_bit_eq_mult)
  qed
  ultimately show ?thesis
    using hwi_range [of l] hwi_range [of h] by simp
qed

lemma dword_of_int: "dword l h = word_of_int (uint l + 4294967296 * uint h)"
  by (metis uint_dword word_of_int_uint)

lemma dword_parts: "dword (ucast w) (ucast (drop_bit 32 w)) = w"
  by (rule bit_word_eqI) (auto simp: bit_dword bit_ucast_iff bit_drop_bit_eq)

lemma dword_inject: "dword l h = dword l' h' \<longleftrightarrow> l = l' \<and> h = h'"
proof
  assume eq: "dword l h = dword l' h'"
  have "bit l n = bit l' n" if "n < 32" for n
    using arg_cong [OF eq, of "\<lambda>w. bit w n"] that by (simp add: bit_dword)
  moreover have "bit h n = bit h' n" if "n < 32" for n
    using arg_cong [OF eq, of "\<lambda>w. bit w (n + 32)"] that by (simp add: bit_dword)
  ultimately show "l = l' \<and> h = h'" by (auto intro: bit_word_eqI)
qed simp

lemma bit_dword_sign: "bit (dword l h) 63 = bit h 31"
  by (simp add: bit_dword)

lemma sless0_bit: "sless0 a \<longleftrightarrow> bit a 31"
  by (simp add: sless0_def sint_neg_bit)

lemma sint_dword: "sint (dword l h) = uint l + 4294967296 * sint h"
  by (simp add: sint_uint_bit uint_dword bit_dword_sign)

lemma sint_range64: "- 9223372036854775808 \<le> sint a" "sint a < 9223372036854775808" for a :: "64 word"
  using sint_range_size [of a] by (simp_all add: word_size)

lemma sint64_cases:
  fixes a :: "64 word"
  shows "sint a = (if uint a < 9223372036854775808 then uint a else uint a - 18446744073709551616)"
  using bit_top_uint [of a] by (simp add: sint_uint_bit)

lemma wrap_unique:
  fixes x k H M :: int
  assumes "0 \<le> x + H" "x + H < M" "x mod M = k mod M"
  shows "x = (k + H) mod M - H"
proof -
  have "(k + H) mod M = (x + H) mod M" using assms(3) by (metis mod_add_left_eq)
  also have "\<dots> = x + H" using assms(1,2) by simp
  finally show ?thesis by simp
qed

lemma sint_mod64: "sint a mod 18446744073709551616 = uint a" for a :: "64 word"
proof -
  have "0 \<le> uint a" "uint a < 18446744073709551616" using uint_lt2p [of a] by simp_all
  moreover have "(uint a - 18446744073709551616) mod 18446744073709551616
    = uint a mod 18446744073709551616"
    using minus_mod_self2 by blast
  ultimately show ?thesis by (simp add: sint64_cases)
qed

lemma sint_wrap64:
  "sint (word_of_int k :: 64 word)
     = (k + 9223372036854775808) mod 18446744073709551616 - 9223372036854775808"
proof (rule wrap_unique)
  show "sint (word_of_int k :: 64 word) mod 18446744073709551616 = k mod 18446744073709551616"
    unfolding sint_mod64 by (simp add: uint_word_of_int)
qed (use sint_range64 [of "word_of_int k"] in simp_all)

lemma sint_add64: "sint (a + b) = (sint a + sint b + 9223372036854775808) mod 18446744073709551616 - 9223372036854775808"
  for a b :: "64 word"
  using sint_wrap64 [of "sint a + sint b"] by simp

lemma sint_mult64: "sint (a * b) = (sint a * sint b + 9223372036854775808) mod 18446744073709551616 - 9223372036854775808"
  for a b :: "64 word"
  using sint_wrap64 [of "sint a * sint b"] by simp

lemma bit63_sint: "bit a 63 \<longleftrightarrow> sint a < 0" for a :: "64 word"
  using sint_neg_bit [of a] by simp

section \<open>Addition and negation are those of the 64-bit word\<close>

lemma mod_uniqueI:
  fixes x r q M :: int
  assumes "x = r + M * q" "0 \<le> r" "r < M"
  shows "x mod M = r"
  using assms by simp

lemma word64_eqI:
  fixes a :: "64 word"
  assumes "uint a = k - 18446744073709551616 * q"
  shows "a = word_of_int k"
proof -
  have "uint a < 18446744073709551616" "0 \<le> uint a" using uint_lt2p [of a] by simp_all
  with assms have "k mod 18446744073709551616 = uint a"
    by (intro mod_uniqueI [where q = q]) linarith+
  then show ?thesis by (simp add: word_uint_eq_iff uint_word_of_int)
qed

lemma uint_hwi_of_int: "uint (word_of_int k :: hwi) = k - 4294967296 * (k div 4294967296)"
  by (simp add: uint_word_of_int minus_mult_div_eq_mod)

lemma add_double_value:
  assumes a: "add_double l1 h1 l2 h2 = (ov, lv, hv)"
  shows "dword lv hv = dword l1 h1 + dword l2 h2"
proof -
  define c :: int where "c = (if uint l1 + uint l2 < 4294967296 then 0 else 1)"
  have lt: "l1 + l2 < l1 \<longleftrightarrow> c = 1"
    using hwi_range [of l1] hwi_range [of l2]
    by (auto simp: c_def word_less_def uint_plus_if' split: if_splits)
  have l: "lv = l1 + l2" and h: "hv = word_of_int (uint h1 + uint h2 + c)"
    using a lt by (auto simp: add_double_def Let_def c_def split: if_splits)
  have ul: "uint lv = uint l1 + uint l2 - 4294967296 * c"
    by (simp add: l uint_plus_if' c_def)
  have "dword lv hv = word_of_int (uint (dword l1 h1) + uint (dword l2 h2))"
    by (rule word64_eqI [where q = "(uint h1 + uint h2 + c) div 4294967296"])
      (simp only: uint_dword ul h uint_hwi_of_int, simp add: algebra_simps)
  then show ?thesis by simp
qed

lemma add_double_overflow:
  assumes a: "add_double l1 h1 l2 h2 = (ov, lv, hv)"
  shows "ov \<longleftrightarrow> sint (dword lv hv) \<noteq> sint (dword l1 h1) + sint (dword l2 h2)"
proof -
  have "ov = overflow_sum_sign h1 h2 hv" using a by (auto simp: add_double_def Let_def)
  then have "ov \<longleftrightarrow> bit h1 31 = bit h2 31 \<and> bit h1 31 \<noteq> bit hv 31"
    by (auto simp: overflow_sum_sign_def sless0_bit bit_and_iff bit_not_iff bit_xor_iff)
  also have "\<dots> \<longleftrightarrow> bit (dword l1 h1) 63 = bit (dword l2 h2) 63
      \<and> bit (dword l1 h1) 63 \<noteq> bit (dword lv hv) 63" by (simp add: bit_dword_sign)
  finally have ov: "ov \<longleftrightarrow> (sint (dword l1 h1) < 0 \<longleftrightarrow> sint (dword l2 h2) < 0)
      \<and> \<not> (sint (dword l1 h1) < 0 \<longleftrightarrow> sint (dword lv hv) < 0)"
    unfolding bit63_sint by blast
  define x y where "x = sint (dword l1 h1)" and "y = sint (dword l2 h2)"
  have r: "- 9223372036854775808 \<le> x" "x < 9223372036854775808"
    "- 9223372036854775808 \<le> y" "y < 9223372036854775808"
    unfolding x_def y_def by (rule sint_range64)+
  have z: "sint (dword lv hv) = (x + y + 9223372036854775808) mod 18446744073709551616 - 9223372036854775808"
    unfolding add_double_value [OF a] x_def y_def by (rule sint_add64)
  consider "x + y < - 9223372036854775808" | "- 9223372036854775808 \<le> x + y" "x + y < 9223372036854775808"
    | "9223372036854775808 \<le> x + y" by linarith
  then show ?thesis
  proof cases
    case 1
    then have "(x + y + 9223372036854775808) mod 18446744073709551616
        = x + y + 9223372036854775808 + 18446744073709551616"
      using r by (intro mod_uniqueI [where q = "- 1"]) simp_all
    with 1 r z show ?thesis unfolding ov x_def [symmetric] y_def [symmetric] by linarith
  next
    case 2
    then have "(x + y + 9223372036854775808) mod 18446744073709551616 = x + y + 9223372036854775808"
      by simp
    with 2 r z show ?thesis unfolding ov x_def [symmetric] y_def [symmetric] by linarith
  next
    case 3
    then have "(x + y + 9223372036854775808) mod 18446744073709551616
        = x + y + 9223372036854775808 - 18446744073709551616"
      using r by (intro mod_uniqueI [where q = 1]) simp_all
    with 3 r z show ?thesis unfolding ov x_def [symmetric] y_def [symmetric] by linarith
  qed
qed

lemma not_plus_one: "not a + 1 = - a" for a :: "'a::len word"
  by (simp add: minus_eq_not_plus_1)

lemma neg_double_value:
  assumes a: "neg_double l1 h1 = (ov, lv, hv)"
  shows "dword lv hv = - dword l1 h1"
proof (cases "l1 = 0")
  case True
  with a have v: "lv = 0" "hv = - h1" by (simp_all add: neg_double_def)
  have "dword lv hv = word_of_int (- uint (dword l1 h1))"
  proof (rule word64_eqI)
    have "uint hv = - uint h1 - 4294967296 * (- uint h1 div 4294967296)"
      unfolding v by (metis uint_hwi_of_int wi_hom_neg word_of_int_uint)
    then show "uint (dword lv hv) = - uint (dword l1 h1) - 18446744073709551616 * (- uint h1 div 4294967296)"
      by (simp add: uint_dword v(1) True)
  qed
  then show ?thesis by simp
next
  case False
  with a have v: "lv = - l1" "hv = not h1" by (simp_all add: neg_double_def)
  have l: "uint lv = 4294967296 - uint l1"
  proof -
    have "uint l1 \<noteq> 0" using False by (simp add: uint_0_iff)
    then have p: "0 < uint l1" using hwi_range [of l1] by linarith
    have "uint lv = (- uint l1) mod 4294967296"
      unfolding v by (simp add: uint_word_ariths)
    also have "\<dots> = 4294967296 - uint l1"
      using p hwi_range [of l1] by (intro mod_uniqueI [where q = "- 1"]) simp_all
    finally show ?thesis .
  qed
  have h: "uint hv = 4294967295 - uint h1"
  proof -
    have "hv = - h1 - 1" unfolding v by (simp add: not_eq_complement)
    then have "uint hv = (- uint h1 - 1) mod 4294967296"
      by (simp add: uint_word_ariths mod_simps)
    also have "\<dots> = 4294967295 - uint h1"
      using hwi_range [of h1] by (intro mod_uniqueI [where q = "- 1"]) linarith+
    finally show ?thesis .
  qed
  have "dword lv hv = word_of_int (- uint (dword l1 h1))"
    by (rule word64_eqI [where q = "- 1"]) (simp add: uint_dword l h)
  then show ?thesis by simp
qed

lemma neg_double_overflow:
  assumes a: "neg_double l1 h1 = (ov, lv, hv)"
  shows "ov \<longleftrightarrow> sint (dword lv hv) \<noteq> - sint (dword l1 h1)"
proof -
  define x where "x = sint (dword l1 h1)"
  have r: "- 9223372036854775808 \<le> x" "x < 9223372036854775808"
    unfolding x_def by (rule sint_range64)+
  have z: "sint (dword lv hv) = (- x + 9223372036854775808) mod 18446744073709551616 - 9223372036854775808"
    unfolding neg_double_value [OF a] x_def using sint_wrap64 [of "- sint (dword l1 h1)"] by simp
  have neq: "sint (dword lv hv) \<noteq> - x \<longleftrightarrow> x = - 9223372036854775808"
  proof (cases "x = - 9223372036854775808")
    case False
    then have "(- x + 9223372036854775808) mod 18446744073709551616 = - x + 9223372036854775808"
      using r by (intro mod_uniqueI [where q = 0]) simp_all
    with z False show ?thesis by simp
  qed (simp add: z)
  have "x = - 9223372036854775808 \<longleftrightarrow> l1 = 0 \<and> h1 = 0x80000000"
  proof -
    have "x = - 9223372036854775808 \<longleftrightarrow> dword l1 h1 = 0x8000000000000000"
      unfolding x_def using signed_word_eqI [of "dword l1 h1" "0x8000000000000000"] by auto
    also have "0x8000000000000000 = dword 0 0x80000000" by (simp add: dword_of_int)
    finally show ?thesis by (simp add: dword_inject)
  qed
  moreover have "ov \<longleftrightarrow> l1 = 0 \<and> h1 = 0x80000000"
  proof -
    have b: "bit (- h1) 31 \<and> bit h1 31 \<longleftrightarrow> h1 = 0x80000000"
    proof (cases "h1 = 0")
      case False
      then have "uint h1 \<noteq> 0" by (simp add: uint_0_iff)
      then have p: "0 < uint h1" using hwi_range [of h1] by linarith
      have "uint (- h1) = (- uint h1) mod 4294967296" by (simp add: uint_word_ariths)
      also have "\<dots> = 4294967296 - uint h1"
        using p hwi_range [of h1] by (intro mod_uniqueI [where q = "- 1"]) simp_all
      finally have "bit (- h1) 31 \<and> bit h1 31 \<longleftrightarrow> uint h1 = 2147483648"
        using bit_top_uint [of h1] bit_top_uint [of "- h1"] by auto
      then show ?thesis by (simp add: word_uint_eq_iff)
    qed simp
    show ?thesis
    proof (cases "l1 = 0")
      case True
      with a have "ov \<longleftrightarrow> bit (- h1) 31 \<and> bit h1 31"
        by (auto simp: neg_double_def sless0_bit bit_and_iff)
      with b True show ?thesis by simp
    qed (use a in \<open>simp add: neg_double_def\<close>)
  qed
  ultimately show ?thesis using neq unfolding x_def by blast
qed

section \<open>Multiplication\<close>

text \<open>The value of a list of 16-bit digits, least significant first.\<close>

fun digits :: "hwi list \<Rightarrow> int" where
  "digits [] = 0"
| "digits (w # ws) = uint w + 65536 * digits ws"

abbreviation digit :: "hwi \<Rightarrow> bool" where
  "digit w \<equiv> uint w < 65536"

lemma uint_LOWPART: "uint (LOWPART w) = uint w mod 65536"
proof -
  have "LOWPART w = take_bit 16 w" by (simp add: LOWPART_def take_bit_eq_mask mask_eq_exp_minus_1)
  then have "uint (LOWPART w) = take_bit 16 (uint w)" by (simp only: unsigned_take_bit_eq)
  then show ?thesis by (simp add: take_bit_eq_mod)
qed

lemma uint_HIGHPART: "uint (HIGHPART w) = uint w div 65536"
  by (simp add: HIGHPART_def drop_bit_eq_div uint_div)

lemma digit_parts [simp]: "digit (LOWPART w)" "digit (HIGHPART w)"
  using hwi_range [of w] by (simp_all add: uint_LOWPART uint_HIGHPART div_less_iff_less_mult)

lemma parts_sum: "uint (LOWPART w) + 65536 * uint (HIGHPART w) = uint w"
  by (simp add: uint_LOWPART uint_HIGHPART)

lemma mul_step:
  assumes "digit c" "digit a" "digit b" "digit p"
  shows "uint (c + a * b + p) = uint c + uint a * uint b + uint p"
proof -
  have "uint a * uint b \<le> 65535 * 65535"
    using assms(2,3) hwi_range(1) by (intro mult_mono) auto
  then have "uint c + uint a * uint b + uint p < 4294967296"
    using assms(1,4) by simp
  then show ?thesis
    using hwi_range(1) [of a] hwi_range(1) [of b] hwi_range(1) [of c] hwi_range(1) [of p]
    by (simp add: uint_word_ariths mod_simps)
qed

lemma mul_row_value:
  assumes "length bs < length ps" "ps ! length bs = 0"
    and "digit a" "digit c" "list_all digit bs" "list_all digit ps"
  shows "digits (mul_row a bs ps c) = digits ps + uint a * digits bs + uint c
    \<and> list_all digit (mul_row a bs ps c) \<and> length (mul_row a bs ps c) = length ps
    \<and> drop (Suc (length bs)) (mul_row a bs ps c) = drop (Suc (length bs)) ps"
  using assms
proof (induction bs arbitrary: ps c)
  case Nil
  then show ?case by (cases ps) simp_all
next
  case (Cons b bs)
  then obtain p qs where ps: "ps = p # qs" by (cases ps) auto
  let ?w = "c + a * b + p"
  have w: "uint (LOWPART ?w) + 65536 * uint (HIGHPART ?w) = uint c + uint a * uint b + uint p"
    unfolding parts_sum using Cons.prems ps by (intro mul_step) simp_all
  have "digits (mul_row a bs qs (HIGHPART ?w)) = digits qs + uint a * digits bs + uint (HIGHPART ?w)
    \<and> list_all digit (mul_row a bs qs (HIGHPART ?w)) \<and> length (mul_row a bs qs (HIGHPART ?w)) = length qs
    \<and> drop (Suc (length bs)) (mul_row a bs qs (HIGHPART ?w)) = drop (Suc (length bs)) qs"
    using Cons.prems ps by (intro Cons.IH) simp_all
  with w show ?case by (simp add: ps Let_def algebra_simps)
qed

lemma mul_rows_value:
  assumes "list_all digit as" "list_all digit bs" "list_all digit ps"
    and "length as + length bs \<le> length ps" "list_all (\<lambda>w. w = 0) (drop (length bs) ps)"
    and "as \<noteq> []"
  shows "digits (mul_rows as bs ps) = digits ps + digits as * digits bs
    \<and> list_all digit (mul_rows as bs ps) \<and> length (mul_rows as bs ps) = length ps"
  using assms
proof (induction as arbitrary: ps)
  case (Cons a as)
  have z: "ps ! length bs = 0"
    using Cons.prems(4,5) by (auto simp: list_all_length dest: spec [of _ 0])
  define r where "r = mul_row a bs ps 0"
  have r: "digits r = digits ps + uint a * digits bs" "list_all digit r" "length r = length ps"
    "drop (Suc (length bs)) r = drop (Suc (length bs)) ps"
    using mul_row_value [of bs ps a 0] Cons.prems z unfolding r_def by simp_all
  then obtain x xs where xs: "r = x # xs" using Cons.prems(4) by (cases r) auto
  have d: "drop (length bs) xs = drop (Suc (length bs)) ps" using r(4) xs by simp
  have zs: "list_all (\<lambda>w. w = 0) (drop (length bs) xs)"
  proof -
    have "drop (Suc (length bs)) ps = tl (drop (length bs) ps)" by (simp add: drop_Suc tl_drop)
    with Cons.prems(5) show ?thesis unfolding d by (cases "drop (length bs) ps") simp_all
  qed
  show ?case
  proof (cases "as = []")
    case True
    then show ?thesis using r xs by (simp add: r_def [symmetric])
  next
    case False
    have "digits (mul_rows as bs xs) = digits xs + digits as * digits bs
      \<and> list_all digit (mul_rows as bs xs) \<and> length (mul_rows as bs xs) = length xs"
      using Cons.prems r xs zs False by (intro Cons.IH) auto
    then show ?thesis using r xs by (simp add: r_def [symmetric] Let_def algebra_simps)
  qed
qed simp

lemma encode_digits:
  "digits (encode l h) = uint (dword l h)" "list_all digit (encode l h)" "length (encode l h) = 4"
proof -
  have "digits (encode l h) = (uint (LOWPART l) + 65536 * uint (HIGHPART l))
      + 4294967296 * (uint (LOWPART h) + 65536 * uint (HIGHPART h))"
    by (simp add: encode_def)
  then show "digits (encode l h) = uint (dword l h)" by (simp only: parts_sum uint_dword)
qed (simp_all add: encode_def)

lemma join_digits:
  assumes "digit a" "digit b"
  shows "uint (or a (b * BASE)) = uint a + 65536 * uint b"
proof -
  have B: "b * BASE = push_bit 16 b" by (simp add: BASE_def push_bit_eq_mult)
  have ub: "uint (push_bit 16 b) = 65536 * uint b"
  proof -
    have "uint (push_bit 16 b) = take_bit 32 (push_bit 16 (uint b))"
      by (simp only: unsigned_push_bit_eq) simp
    also have "\<dots> = push_bit 16 (uint b)"
      using assms(2) hwi_range(1) [of b] by (intro take_bit_int_eq_self) (simp_all add: push_bit_eq_mult)
    finally show ?thesis by (simp add: push_bit_eq_mult)
  qed
  have "\<not> bit a n" if "16 \<le> n" for n
  proof -
    have "take_bit 16 (uint a) = uint a"
      using assms(1) hwi_range(1) [of a] by (intro take_bit_int_eq_self) simp_all
    then have "bit (uint a) n = bit (take_bit 16 (uint a)) n" by simp
    then show ?thesis using that by (auto simp: bit_take_bit_iff bit_uint_iff dest: bit_imp_le_length)
  qed
  then have "a + push_bit 16 b = or a (push_bit 16 b)"
    by (intro disjunctive_add) (auto simp: bit_push_bit_iff not_le)
  then have "uint (or a (b * BASE)) = (uint a + uint (push_bit 16 b)) mod 4294967296"
    using uint_word_ariths(1) [of a "push_bit 16 b"] unfolding B by simp
  also have "\<dots> = uint a + 65536 * uint b"
    unfolding ub using assms hwi_range(1) [of a] hwi_range(1) [of b] by simp
  finally show ?thesis .
qed

lemma decode_digits:
  assumes "list_all digit ws" "4 \<le> length ws"
  shows "dword (fst (decode ws)) (snd (decode ws)) = word_of_int (digits (take 4 ws))"
    and "uint (dword (fst (decode ws)) (snd (decode ws))) = digits (take 4 ws)"
proof -
  from assms(2) obtain a b c d xs where ws: "ws = a # b # c # d # xs"
    by (auto simp: eval_nat_numeral Suc_le_length_iff)
  with assms(1) show "uint (dword (fst (decode ws)) (snd (decode ws))) = digits (take 4 ws)"
    by (simp add: decode_def uint_dword join_digits)
  then show "dword (fst (decode ws)) (snd (decode ws)) = word_of_int (digits (take 4 ws))"
    by (metis word_of_int_uint)
qed

lemma digits_append: "digits (xs @ ys) = digits xs + 65536 ^ length xs * digits ys"
  by (induction xs) (simp_all add: algebra_simps)

lemma mul_double_parts:
  fixes l1 h1 l2 h2
  defines "ds \<equiv> mul_rows (encode l1 h1) (encode l2 h2) (replicate 8 0)"
  shows "uint (dword (fst (decode ds)) (snd (decode ds)))
      + 18446744073709551616 * uint (dword (fst (decode (drop 4 ds))) (snd (decode (drop 4 ds))))
    = uint (dword l1 h1) * uint (dword l2 h2)"
proof -
  have ne: "encode l1 h1 \<noteq> []" by (simp add: encode_def)
  have z: "digits (replicate 8 0) = 0" "list_all digit (replicate 8 0)"
    "list_all (\<lambda>w. w = 0) (replicate 4 (0 :: hwi))" by (simp_all add: eval_nat_numeral)
  have p: "digits ds = uint (dword l1 h1) * uint (dword l2 h2)" "list_all digit ds" "length ds = 8"
    using mul_rows_value [of "encode l1 h1" "encode l2 h2" "replicate 8 0", OF _ _ _ _ _ ne]
    unfolding ds_def by (simp_all add: encode_digits z)
  have "digits ds = digits (take 4 ds) + 65536 ^ 4 * digits (drop 4 ds)"
    using digits_append [of "take 4 ds" "drop 4 ds"] p(3) by simp
  moreover have "take 4 (drop 4 ds) = drop 4 ds" using p(3) by simp
  moreover have "list_all digit (drop 4 ds)" using p(2) by (metis append_take_drop_id list_all_append)
  ultimately show ?thesis
    using p decode_digits(2) [of ds] decode_digits(2) [of "drop 4 ds"] by simp
qed

lemma dword_of_uint: "dword (fst p) (snd p) = word_of_int (uint (dword (fst p) (snd p)))"
  by simp

definition top_part :: "hwi \<Rightarrow> hwi \<Rightarrow> hwi \<Rightarrow> hwi \<times> hwi \<Rightarrow> hwi \<times> hwi" where
  "top_part h1 l2 h2 tp =
     (if sless0 h1 then
        (let (_, neglow, neghigh) = neg_double l2 h2
         in snd (add_double neglow neghigh (fst tp) (snd tp)))
      else tp)"

lemma top_part_value:
  "dword (fst (top_part h1 l2 h2 t)) (snd (top_part h1 l2 h2 t))
     = dword (fst t) (snd t) - (if sint (dword l1 h1) < 0 then dword l2 h2 else 0)"
proof -
  have s: "sless0 h1 \<longleftrightarrow> sint (dword l1 h1) < 0"
    by (simp add: sless0_bit bit_dword_sign flip: bit63_sint)
  obtain ov nl nh where n: "neg_double l2 h2 = (ov, nl, nh)" by (cases "neg_double l2 h2")
  obtain ov' tl' th' where t: "add_double nl nh (fst t) (snd t) = (ov', tl', th')"
    by (cases "add_double nl nh (fst t) (snd t)")
  show ?thesis
    using add_double_value [OF t] neg_double_value [OF n]
    by (simp add: top_part_def s n t)
qed

lemma mul_double_alt:
  "mul_double l1 h1 l2 h2 =
     (let ds = mul_rows (encode l1 h1) (encode l2 h2) (replicate 8 0);
          low = decode ds;
          tp = top_part h2 l1 h1 (top_part h1 l2 h2 (decode (drop 4 ds)))
      in ((if sless0 (snd low) then not (and (fst tp) (snd tp)) else or (fst tp) (snd tp)) \<noteq> 0,
          fst low, snd low))"
  by (simp add: mul_double_def top_part_def Let_def split: prod.split)

lemma all_ones: "not (and a b) = (0 :: hwi) \<longleftrightarrow> dword a b = - 1"
proof -
  have "not (and a b) = 0 \<longleftrightarrow> a = - 1 \<and> b = - 1"
    by (auto simp: bit_eq_iff bit_simps)
  also have "\<dots> \<longleftrightarrow> dword a b = dword (- 1) (- 1)" by (simp add: dword_inject)
  also have "dword (- 1) (- 1) = - 1" by (rule bit_word_eqI) (auto simp: bit_dword)
  finally show ?thesis .
qed

lemma all_zeros: "or a b = (0 :: hwi) \<longleftrightarrow> dword a b = 0"
proof -
  have "or a b = 0 \<longleftrightarrow> a = 0 \<and> b = 0" by (auto simp: bit_eq_iff bit_simps)
  also have "\<dots> \<longleftrightarrow> dword a b = dword 0 0" by (simp add: dword_inject)
  also have "dword 0 0 = 0" by (simp add: dword_of_int)
  finally show ?thesis .
qed

lemma mul_double_sound:
  assumes m: "mul_double l1 h1 l2 h2 = (ov, lv, hv)"
  shows "dword lv hv = dword l1 h1 * dword l2 h2"
    and "ov \<longleftrightarrow> sint (dword lv hv) \<noteq> sint (dword l1 h1) * sint (dword l2 h2)"
proof -
  define A B where "A = dword l1 h1" and "B = dword l2 h2"
  define ds where "ds = mul_rows (encode l1 h1) (encode l2 h2) (replicate 8 0)"
  define top0 where "top0 = dword (fst (decode (drop 4 ds))) (snd (decode (drop 4 ds)))"
  define tp where "tp = top_part h2 l1 h1 (top_part h1 l2 h2 (decode (drop 4 ds)))"
  have low: "lv = fst (decode ds)" "hv = snd (decode ds)"
    and ov: "ov \<longleftrightarrow> (if sless0 hv then not (and (fst tp) (snd tp)) else or (fst tp) (snd tp)) \<noteq> 0"
    using m by (auto simp: mul_double_alt Let_def ds_def tp_def)
  have parts: "uint (dword lv hv) + 18446744073709551616 * uint top0 = uint A * uint B"
    using mul_double_parts [of l1 h1 l2 h2] by (simp add: low ds_def top0_def A_def B_def)
  show val: "dword lv hv = dword l1 h1 * dword l2 h2"
  proof -
    have "dword lv hv = word_of_int (uint A * uint B)"
      by (rule word64_eqI [where q = "uint top0"]) (use parts in simp)
    then show ?thesis by (simp add: A_def B_def)
  qed
  define a b :: int where "a = (if sint A < 0 then 1 else 0)" and "b = (if sint B < 0 then 1 else 0)"
  define t where "t = uint top0 - a * uint B - b * uint A + 18446744073709551616 * a * b"
  have T: "dword (fst tp) (snd tp) = word_of_int t"
    unfolding tp_def top_part_value [of h2 l1 h1 _ l2] top_part_value [of h1 l2 h2 _ l1]
    by (simp add: t_def a_def b_def A_def B_def top0_def)
  have sA: "sint A = uint A - 18446744073709551616 * a" and sB: "sint B = uint B - 18446744073709551616 * b"
    using sint64_cases [of A] sint64_cases [of B] uint_lt2p [of A] uint_lt2p [of B]
    by (auto simp: a_def b_def)
  have P: "sint A * sint B = uint (dword lv hv) + 18446744073709551616 * t"
  proof -
    have "sint A * sint B = uint A * uint B
        - 18446744073709551616 * (a * uint B + b * uint A - 18446744073709551616 * a * b)"
      unfolding sA sB by (simp add: algebra_simps)
    then show ?thesis unfolding parts [symmetric] t_def by (simp add: algebra_simps)
  qed
  have bound: "\<bar>sint A * sint B\<bar> \<le> 9223372036854775808 * 9223372036854775808"
    unfolding abs_mult using sint_range64 [of A] sint_range64 [of B] by (intro mult_mono) auto
  have r: "0 \<le> uint (dword lv hv)" "uint (dword lv hv) < 18446744073709551616"
    using uint_lt2p [of "dword lv hv"] by simp_all
  have tb: "- 9223372036854775808 \<le> t" "t < 9223372036854775808"
    using bound P r by linarith+
  have st: "sint (dword (fst tp) (snd tp)) = t"
  proof -
    have "(t + 9223372036854775808) mod 18446744073709551616 = t + 9223372036854775808"
      using tb by simp
    then show ?thesis unfolding T sint_wrap64 by simp
  qed
  have neg: "sless0 hv \<longleftrightarrow> sint (dword lv hv) < 0"
    by (simp add: sless0_bit bit_dword_sign flip: bit63_sint)
  have t0: "dword (fst tp) (snd tp) = 0 \<longleftrightarrow> t = 0" "dword (fst tp) (snd tp) = - 1 \<longleftrightarrow> t = - 1"
    unfolding st [symmetric] by (auto simp: sint_0 intro: signed_word_eqI)
  have "ov \<longleftrightarrow> t \<noteq> (if sint (dword lv hv) < 0 then - 1 else 0)"
    unfolding ov neg using all_ones [of "fst tp" "snd tp"] all_zeros [of "fst tp" "snd tp"] t0 by auto
  also have "\<dots> \<longleftrightarrow> sint (dword lv hv) \<noteq> sint A * sint B"
    using P sint64_cases [of "dword lv hv"] r by (auto split: if_splits)
  finally show "ov \<longleftrightarrow> sint (dword lv hv) \<noteq> sint (dword l1 h1) * sint (dword l2 h2)"
    unfolding A_def B_def .
qed

section \<open>Shifts are those of the 64-bit word\<close>

lemma crem_id: "0 \<le> a \<Longrightarrow> a < b \<Longrightarrow> crem a b = Some a"
  by (cases "a = 0") (simp_all add: crem_def)

lemma bit_signmask: "bit (- drop_bit 31 h) n \<longleftrightarrow> n < 32 \<and> bit h 31" for h :: hwi
proof (cases "bit h 31")
  case True
  have "drop_bit 31 h = 1"
    by (rule bit_word_eqI) (use True in \<open>auto simp: bit_drop_bit_eq bit_1_iff dest: bit_imp_le_length\<close>)
  with True show ?thesis by simp
next
  case False
  have "drop_bit 31 h = 0"
  proof (rule bit_word_eqI)
    fix n show "bit (drop_bit 31 h) n = bit (0 :: hwi) n"
      using False by (cases n) (auto simp: bit_drop_bit_eq dest: bit_imp_le_length)
  qed
  with False show ?thesis by simp
qed

lemma lshift_double_value:
  assumes "0 \<le> count" "count < prec" "prec \<le> 64"
  shows "\<exists>lv hv. lshift_double l1 h1 count prec arith = Some (lv, hv)
    \<and> dword lv hv = push_bit (nat count) (dword l1 h1)"
proof -
  define n where "n = nat count"
  have n: "count = int n" "n < 64" using assms by (simp_all add: n_def)
  show ?thesis
  proof (cases "32 \<le> n")
    case True
    then have "lshift_double l1 h1 count prec arith = Some (0, push_bit (n - 32) l1)"
      using assms n by (simp add: lshift_double_def crem_id shl_def nat_diff_distrib)
    moreover have "dword 0 (push_bit (n - 32) l1) = push_bit n (dword l1 h1)"
      using True n by (intro bit_word_eqI) (auto simp: bit_dword bit_push_bit_iff)
    ultimately show ?thesis using n by simp
  next
    case False
    then have "lshift_double l1 h1 count prec arith = Some (push_bit n l1,
        or (push_bit n h1) (drop_bit 1 (drop_bit (31 - n) l1)))"
      using assms n by (simp add: lshift_double_def crem_id shl_def shr_def nat_diff_distrib)
    moreover have "dword (push_bit n l1) (or (push_bit n h1) (drop_bit 1 (drop_bit (31 - n) l1)))
        = push_bit n (dword l1 h1)"
      using False n
      by (intro bit_word_eqI) (auto simp: bit_dword bit_push_bit_iff bit_or_iff bit_drop_bit_eq
          Suc_diff_Suc ac_simps dest: bit_imp_le_length)
    ultimately show ?thesis using n by simp
  qed
qed

lemma bit_sdrop64:
  "bit (signed_drop_bit n w) m \<longleftrightarrow> (if 64 - n \<le> m \<and> m < 64 then bit w 63 else bit w (m + n))"
  for w :: "64 word"
proof -
  have l: "LENGTH(64) = 64" "64 - 1 = (63 :: nat)" by simp_all
  show ?thesis unfolding bit_signed_drop_bit_iff l by (simp add: add.commute)
qed

lemma rshift_double_value:
  assumes "0 < count" "count < prec" "prec \<le> 64"
  shows "\<exists>lv hv. rshift_double l1 h1 count prec arith = Some (lv, hv)
    \<and> dword lv hv = (if arith then signed_drop_bit (nat count) (dword l1 h1)
                     else drop_bit (nat count) (dword l1 h1))"
proof -
  define n where "n = nat count"
  have n: "count = int n" "0 < n" "n < 64" using assms by (simp_all add: n_def)
  define sm where "sm = (if arith then - drop_bit 31 h1 else 0)"
  have sm: "bit sm m \<longleftrightarrow> arith \<and> m < 32 \<and> bit h1 31" for m
    by (simp add: sm_def bit_signmask)
  let ?r = "if arith then signed_drop_bit n (dword l1 h1) else drop_bit n (dword l1 h1)"
  have r: "bit ?r m \<longleftrightarrow> (if m + n < 64 then bit (dword l1 h1) (m + n) else m < 64 \<and> arith \<and> bit h1 31)" for m
    using n(3) by (auto simp: bit_sdrop64 bit_dword_sign bit_drop_bit_eq add.commute dest: bit_imp_le_length)
  show ?thesis
  proof (cases "32 \<le> n")
    case True
    let ?l = "or (push_bit (64 - n) sm) (drop_bit (n - 32) h1)"
    have "64 - n = Suc (63 - n)" using n by simp
    then have e: "push_bit (63 - n) sm * 2 = push_bit (64 - n) sm" "push_bit (63 - n) (sm * 2) = push_bit (64 - n) sm"
      by (simp_all add: push_bit_eq_mult mult.assoc mult.commute mult.left_commute)
    have "rshift_double l1 h1 count prec arith = Some (?l, sm)"
      using True assms n
      by (simp add: rshift_double_def crem_id shl_def shr_def nat_diff_distrib Let_def sm_def [symmetric] e)
    moreover have "dword ?l sm = ?r"
    proof (rule bit_word_eqI)
      fix m assume "m < LENGTH(64)"
      then have "m < 64" by simp
      then show "bit (dword ?l sm) m = bit ?r m"
        using True n unfolding r
        by (auto simp: bit_dword sm bit_or_iff bit_push_bit_iff bit_drop_bit_eq add.commute dest: bit_imp_le_length)
    qed
    ultimately show ?thesis using n by simp
  next
    case False
    let ?l = "or (drop_bit n l1) (push_bit (32 - n) h1)"
    have "32 - n = Suc (31 - n)" using False by simp
    then have e: "push_bit (31 - n) h1 * 2 = push_bit (32 - n) h1" "push_bit (31 - n) (h1 * 2) = push_bit (32 - n) h1"
      by (simp_all add: push_bit_eq_mult mult.assoc mult.commute mult.left_commute)
    let ?h = "or (push_bit (32 - n) sm) (drop_bit n h1)"
    have "rshift_double l1 h1 count prec arith = Some (?l, ?h)"
      using False assms n
      by (simp add: rshift_double_def crem_id shl_def shr_def nat_diff_distrib Let_def sm_def [symmetric] e)
    moreover have "dword ?l ?h = ?r"
    proof (rule bit_word_eqI)
      fix m assume "m < LENGTH(64)"
      then have "m < 64" by simp
      then show "bit (dword ?l ?h) m = bit ?r m"
        using False n unfolding r
        by (auto simp: bit_dword sm bit_or_iff bit_push_bit_iff bit_drop_bit_eq add.commute dest: bit_imp_le_length)
    qed
    ultimately show ?thesis using n by simp
  qed
qed

lemma dword_or: "dword (or a b) (or c d) = or (dword a c) (dword b d)"
  by (rule bit_word_eqI) (auto simp: bit_dword bit_or_iff)

lemma lrotate_double_value:
  assumes "0 < count" "count < prec" "prec \<le> 64"
  shows "\<exists>lv hv. lrotate_double l1 h1 count prec = Some (lv, hv)
    \<and> dword lv hv = or (push_bit (nat count) (dword l1 h1)) (drop_bit (nat (prec - count)) (dword l1 h1))"
proof -
  obtain a b where ab: "lshift_double l1 h1 count prec False = Some (a, b)"
    "dword a b = push_bit (nat count) (dword l1 h1)"
    using lshift_double_value [of count prec l1 h1 False] assms by auto
  obtain c d where cd: "rshift_double l1 h1 (prec - count) prec False = Some (c, d)"
    "dword c d = drop_bit (nat (prec - count)) (dword l1 h1)"
    using rshift_double_value [of "prec - count" prec l1 h1 False] assms by auto
  show ?thesis
    using assms ab cd by (simp add: lrotate_double_def crem_id dword_or)
qed

lemma rrotate_double_value:
  assumes "0 < count" "count < prec" "prec \<le> 64"
  shows "\<exists>lv hv. rrotate_double l1 h1 count prec = Some (lv, hv)
    \<and> dword lv hv = or (drop_bit (nat count) (dword l1 h1)) (push_bit (nat (prec - count)) (dword l1 h1))"
proof -
  obtain a b where ab: "lshift_double l1 h1 (prec - count) prec False = Some (a, b)"
    "dword a b = push_bit (nat (prec - count)) (dword l1 h1)"
    using lshift_double_value [of "prec - count" prec l1 h1 False] assms by auto
  obtain c d where cd: "rshift_double l1 h1 count prec False = Some (c, d)"
    "dword c d = drop_bit (nat count) (dword l1 h1)"
    using rshift_double_value [of count prec l1 h1 False] assms by auto
  show ?thesis
    using assms ab cd by (simp add: rrotate_double_def crem_id dword_or)
qed

section \<open>Fitting into a type is taking bits\<close>

lemma bit_ones_above: "0 \<le> n \<Longrightarrow> bit (ones_above n) m \<longleftrightarrow> nat n \<le> m \<and> m < 32"
  by (auto simp: ones_above_def bit_push_bit_iff bit_not_iff bit_mask_iff)

lemma clear_beyond_value:
  assumes "1 \<le> prec" "prec \<le> 64"
  shows "dword (fst (clear_beyond prec (l, h))) (snd (clear_beyond prec (l, h)))
    = take_bit (nat prec) (dword l h)"
proof (rule bit_word_eqI)
  fix m assume "m < LENGTH(64)"
  then have m: "m < 64" by simp
  consider "prec = 64" | "32 < prec" "prec < 64" | "prec = 32" | "prec < 32" using assms by linarith
  then show "bit (dword (fst (clear_beyond prec (l, h))) (snd (clear_beyond prec (l, h)))) m
      = bit (take_bit (nat prec) (dword l h)) m"
  proof cases
    case 1
    with m show ?thesis by (simp add: clear_beyond_def bit_take_bit_iff)
  next
    case 2
    then have "nat (prec - 32) = nat prec - 32" "32 < nat prec" by linarith+
    with 2 m show ?thesis
      by (auto simp: clear_beyond_def bit_dword bit_and_iff bit_not_iff bit_ones_above bit_take_bit_iff)
  next
    case 3
    with m show ?thesis by (auto simp: clear_beyond_def bit_dword bit_take_bit_iff)
  next
    case 4
    then have "nat prec < 32" by linarith
    with 4 m assms show ?thesis
      by (auto simp: clear_beyond_def bit_dword bit_and_iff bit_not_iff bit_ones_above bit_take_bit_iff)
  qed
qed

lemma and_bit: "and x (push_bit k 1) \<noteq> 0 \<longleftrightarrow> bit x k" for x :: hwi
  by (simp add: bit_iff_and_push_bit_not_eq_0)

lemma and_bit_exp: "and x (2 ^ k) = 0 \<longleftrightarrow> \<not> bit x k" for x :: hwi
  using and_bit [of x k] by auto

lemma bit_stb:
  "bit (signed_take_bit n w) m \<longleftrightarrow> m < 64 \<and> bit w (min n m)" for w :: "64 word"
  by (simp add: bit_signed_take_bit_iff)

lemma extend_sign_value:
  assumes p: "1 \<le> prec" "prec \<le> 64"
    and lh: "dword (fst lh) (snd lh) = take_bit (nat prec) w"
  shows "dword (fst (extend_sign prec lh)) (snd (extend_sign prec lh)) = signed_take_bit (nat prec - 1) w"
proof (rule bit_word_eqI)
  fix m assume "m < LENGTH(64)"
  then have m: "m < 64" by simp
  obtain l h where lh': "lh = (l, h)" by (cases lh)
  have b: "bit (dword l h) k \<longleftrightarrow> k < nat prec \<and> bit w k" for k
    using lh by (simp add: lh' bit_take_bit_iff)
  have top: "bit (dword l h) (nat prec - 1) \<longleftrightarrow> bit w (nat prec - 1)" using b p by auto
  consider "prec = 64" | "32 < prec" "prec < 64" | "prec = 32" | "prec < 32" using p by linarith
  then show "bit (dword (fst (extend_sign prec lh)) (snd (extend_sign prec lh))) m
      = bit (signed_take_bit (nat prec - 1) w) m"
  proof cases
    case 1
    moreover have "min 63 m = m" using m by simp
    ultimately show ?thesis using b [of m] m by (simp add: lh' extend_sign_def bit_stb)
  next
    case 2
    define n where "n = nat prec"
    have n: "32 < n" "n < 64" "nat (prec - 32) = n - 32" "nat (prec - 32 - 1) = n - 33"
      using 2 by (simp_all add: n_def)
    have t: "bit h (n - 33) \<longleftrightarrow> bit w (n - 1)"
    proof -
      have "\<not> n - 1 < 32" "n - 1 < 64" "n - 1 - 32 = n - 33" using n by linarith+
      then show ?thesis using top unfolding bit_dword n_def [symmetric] by presburger
    qed
    have "bit (dword (fst (extend_sign prec lh)) (snd (extend_sign prec lh))) m
      \<longleftrightarrow> bit (dword l h) m \<or> bit w (n - 1) \<and> n \<le> m"
      using 2 m n t
      by (auto simp: lh' extend_sign_def and_bit_exp bit_dword bit_or_iff bit_ones_above)
    moreover have "min (n - 1) m = (if n \<le> m then n - 1 else m)" using n by auto
    ultimately show ?thesis using b [of m] m by (auto simp: bit_stb n_def [symmetric])
  next
    case 3
    then have n: "nat prec = 32" by simp
    have t: "bit l 31 \<longleftrightarrow> bit w 31" using top n by (simp add: bit_dword)
    have "bit (dword (fst (extend_sign prec lh)) (snd (extend_sign prec lh))) m
      \<longleftrightarrow> bit (dword l h) m \<or> bit w 31 \<and> 32 \<le> m"
      using 3 m t and_bit_exp [of l 31] by (auto simp: lh' extend_sign_def bit_dword)
    moreover have "min 31 m = (if 32 \<le> m then 31 else m)" by auto
    ultimately show ?thesis using b [of m] m n by (auto simp: bit_stb)
  next
    case 4
    define n where "n = nat prec"
    have n: "1 \<le> n" "n < 32" "nat (prec - 1) = n - 1" using 4 p by (simp_all add: n_def)
    have t: "bit l (n - 1) \<longleftrightarrow> bit w (n - 1)"
    proof -
      have "n - 1 < 32" using n by linarith
      then show ?thesis using top unfolding bit_dword n_def [symmetric] by presburger
    qed
    have "bit (dword (fst (extend_sign prec lh)) (snd (extend_sign prec lh))) m
      \<longleftrightarrow> bit (dword l h) m \<or> bit w (n - 1) \<and> n \<le> m"
      using 4 p m n t
      by (auto simp: lh' extend_sign_def and_bit_exp bit_dword bit_or_iff bit_ones_above n_def [symmetric])
    moreover have "min (n - 1) m = (if n \<le> m then n - 1 else m)" using n by auto
    ultimately show ?thesis using b [of m] m by (auto simp: bit_stb n_def [symmetric])
  qed
qed

section \<open>Properties\<close>

text \<open>Addition and negation of two-word integers are those of the 64-bit word, and the
  overflow flag is set exactly when the signed result does not fit.\<close>

theorem add_neg_double_sound:
  "(case add_double l1 h1 l2 h2 of (ov, lv, hv) \<Rightarrow>
      dword lv hv = dword l1 h1 + dword l2 h2
      \<and> ov = (sint (dword lv hv) \<noteq> sint (dword l1 h1) + sint (dword l2 h2)))
   \<and> (case neg_double l1 h1 of (ov, lv, hv) \<Rightarrow>
      dword lv hv = - dword l1 h1 \<and> ov = (sint (dword lv hv) \<noteq> - sint (dword l1 h1)))"
  using add_double_value add_double_overflow neg_double_value neg_double_overflow
  by (auto split: prod.split)

text \<open>C27. The schoolbook multiplication of \<open>mul_double\<close> computes the product of the 64-bit
  words, and its overflow flag is set exactly when the signed product does not fit.\<close>

theorem mul_double_correct:
  "case mul_double l1 h1 l2 h2 of (ov, lv, hv) \<Rightarrow>
     dword lv hv = dword l1 h1 * dword l2 h2
     \<and> ov = (sint (dword lv hv) \<noteq> sint (dword l1 h1) * sint (dword l2 h2))"
  using mul_double_sound by (auto split: prod.split)

text \<open>The shifts of two-word integers are the left, the logical right and the arithmetic
  right shift of the 64-bit word, and no shift of a half is out of range, for counts below
  the precision; the right shift needs a positive count.\<close>

theorem shift_double_correct:
  assumes "0 < count" "count < prec" "prec \<le> 64"
  shows "(\<exists>lv hv. lshift_double l1 h1 count prec arith = Some (lv, hv)
      \<and> dword lv hv = push_bit (nat count) (dword l1 h1))
    \<and> (\<exists>lv hv. rshift_double l1 h1 count prec arith = Some (lv, hv)
      \<and> dword lv hv = (if arith then signed_drop_bit (nat count) (dword l1 h1)
                       else drop_bit (nat count) (dword l1 h1)))"
  using lshift_double_value [of count prec l1 h1 arith] rshift_double_value [of count prec l1 h1 arith] assms
  by simp

theorem shift_double_correct_witness:
  "\<exists>lv hv. rshift_double 5 0x80000000 33 64 True = Some (lv, hv)
     \<and> dword lv hv = signed_drop_bit 33 (dword 5 0x80000000)"
  using shift_double_correct [of 33 64 5 "0x80000000" True] by simp

lemma rotate_bits:
  fixes w :: "64 word"
  assumes "take_bit p w = w" "0 < c" "c < p" "p \<le> 64" "k < p"
  shows "bit (or (push_bit c w) (drop_bit (p - c) w)) k \<longleftrightarrow> bit w ((k + p - c) mod p)"
proof -
  have high: "\<not> bit w n" if "p \<le> n" for n
    using that arg_cong [OF assms(1), of "\<lambda>w. bit w n"] by (simp add: bit_take_bit_iff)
  show ?thesis
  proof (cases "c \<le> k")
    case True
    then have "(k + p - c) mod p = k - c" using assms by (simp add: mod_if)
    with True assms high show ?thesis by (auto simp: bit_or_iff bit_push_bit_iff bit_drop_bit_eq)
  next
    case False
    then have "(k + p - c) mod p = p - c + k" using assms by simp
    with False assms show ?thesis by (auto simp: bit_or_iff bit_push_bit_iff bit_drop_bit_eq)
  qed
qed

text \<open>The rotations of a value of \<open>prec\<close> bits are rotations of its \<open>prec\<close> low bits:
  bit \<open>k\<close> of the result is bit \<open>k - count\<close>, taken modulo the precision, and rotating right is
  rotating left by the rest.\<close>

theorem rotate_double_correct:
  assumes "0 < count" "count < prec" "prec \<le> 64"
    and "take_bit (nat prec) (dword l1 h1) = dword l1 h1" and "k < nat prec"
  shows "(\<exists>lv hv. lrotate_double l1 h1 count prec = Some (lv, hv)
      \<and> bit (dword lv hv) k = bit (dword l1 h1) ((k + nat prec - nat count) mod nat prec))
    \<and> (\<exists>lv hv. rrotate_double l1 h1 count prec = Some (lv, hv)
      \<and> bit (dword lv hv) k = bit (dword l1 h1) ((k + nat count) mod nat prec))"
proof -
  have n: "nat (prec - count) = nat prec - nat count" using assms by linarith
  have b: "0 < nat count" "nat count < nat prec" "nat prec \<le> 64" using assms by linarith+
  have r: "bit (or (drop_bit (nat count) (dword l1 h1)) (push_bit (nat prec - nat count) (dword l1 h1))) k
      = bit (dword l1 h1) ((k + nat count) mod nat prec)"
    using rotate_bits [OF assms(4), of "nat prec - nat count" k] b assms(5) by (simp add: or.commute)
  show ?thesis
    using lrotate_double_value [of count prec l1 h1] rrotate_double_value [of count prec l1 h1]
      rotate_bits [OF assms(4) b assms(5)] r assms(1-3) unfolding n by fastforce
qed

theorem rotate_double_correct_witness:
  "\<exists>lv hv. lrotate_double 0x80 0 1 8 = Some (lv, hv) \<and> bit (dword lv hv) 0"
proof -
  have d: "dword 0x80 0 = 0x80" by (simp add: dword_def)
  show ?thesis using rotate_double_correct [of 1 8 "0x80" 0 0] by (simp add: d)
qed

text \<open>\<open>force_fit_type\<close> makes an integer constant the value of its low bits in its type,
  zero or sign extended, and for a signed type reports an overflow exactly when there was
  one already or the value changed.\<close>

theorem force_fit_type_correct:
  assumes "1 \<le> cst_prec ty" and "cst_prec ty \<le> 64"
  shows "case force_fit_type (INTEGER_CST low high ty) overflow of
      (ov, INTEGER_CST l h ty') \<Rightarrow> ty' = ty
        \<and> dword l h = (if TREE_UNSIGNED ty then take_bit (nat (cst_prec ty)) (dword low high)
                      else signed_take_bit (nat (cst_prec ty) - 1) (dword low high))
        \<and> ov = (overflow \<or> \<not> TREE_UNSIGNED ty \<and> dword l h \<noteq> dword low high)
    | (ov, OTHER_CST) \<Rightarrow> False"
proof -
  define lh where "lh = clear_beyond (cst_prec ty) (low, high)"
  define e where "e = extend_sign (cst_prec ty) lh"
  have lh: "dword (fst lh) (snd lh) = take_bit (nat (cst_prec ty)) (dword low high)"
    unfolding lh_def using assms by (rule clear_beyond_value)
  have e: "dword (fst e) (snd e) = signed_take_bit (nat (cst_prec ty) - 1) (dword low high)"
    unfolding e_def using assms lh by (rule extend_sign_value)
  have x: "xor a b = 0 \<longleftrightarrow> a = b" for a b :: hwi
    by (metis bit.xor_left_self bit.xor_self xor.comm_neutral)
  have "xor low (fst e) \<noteq> 0 \<or> xor high (snd e) \<noteq> 0 \<longleftrightarrow> dword (fst e) (snd e) \<noteq> dword low high"
    unfolding x dword_inject by auto
  with lh e show ?thesis
    by (cases overflow) (simp_all add: force_fit_type_def Let_def lh_def [symmetric] e_def [symmetric])
qed

theorem force_fit_type_correct_witness:
  "case force_fit_type (INTEGER_CST 0x1ff 0 \<lparr>ty_pointer = False, TYPE_PRECISION = 8, TREE_UNSIGNED = False\<rparr>) False
     of (ov, INTEGER_CST l h ty') \<Rightarrow> dword l h = - 1 \<and> ov | (ov, OTHER_CST) \<Rightarrow> False"
proof -
  have d: "dword 0x1ff 0 = 0x1ff" by (simp add: dword_def)
  show ?thesis
    using force_fit_type_correct [of "\<lparr>ty_pointer = False, TYPE_PRECISION = 8, TREE_UNSIGNED = False\<rparr>" "0x1ff" 0 False]
    by (auto simp: cst_prec_def d split: prod.splits cst.splits)
qed

text \<open>Shifting right by a multiple of the precision, zero included, reaches a shift of a
  half by the width of the word, which C leaves undefined.\<close>

theorem rshift_zero_undefined:
  assumes "0 < prec"
  shows "rshift_double l1 h1 (k * prec) prec arith = None"
  using assms by (auto simp: rshift_double_def crem_def shl_def shr_def abs_mult)

theorem rshift_zero_undefined_witness: "rshift_double 1 0 0 16 True = None"
  using rshift_zero_undefined [of 16 1 0 0 True] by simp

end
