(* ===== verification/Rtl_Constants.thy ===== *)
theory Rtl_Constants
  imports Rtl_Notes Fold_Const
begin

text \<open>
  Integer constants in expressions: \<open>immed_double_const\<close> of gcc/varasm.c, which turns a
  two-word integer into an rtx, and \<open>plus_constant_wide\<close> and \<open>plus_constant_for_output_wide\<close>
  of gcc/explow.c, which add an integer to an expression. A \<open>HOST_WIDE_INT\<close> is a 32-bit
  word. The chain of existing \<open>CONST_DOUBLE\<close>s is invisible in the tree: an element of the
  chain has the contents of the new node. The constant pool is the parameter \<open>pool\<close>: for a
  reference to the pool and an addend, the memory reference \<open>force_const_mem\<close> makes for the
  sum when its address is valid.
\<close>

section \<open>Constants from two words\<close>

definition mode_bits :: "machine_mode \<Rightarrow> nat" where
  "mode_bits mode = 8 * GET_MODE_SIZE mode"

definition ones_from :: "nat \<Rightarrow> hwi" where "ones_from n = push_bit n (- 1)"
definition low_mask :: "nat \<Rightarrow> hwi" where "low_mask n = push_bit n 1 - 1"

text \<open>The bits outside the mode are cleared unless they and the sign bit are all one, and a
  value of a target word is sign extended. \<open>None\<close> is the \<open>abort\<close> on a mode of more than
  two words.\<close>

definition fit_const :: "nat \<Rightarrow> hwi \<Rightarrow> hwi \<Rightarrow> (hwi \<times> hwi) option" where
  "fit_const width i0 i1 =
     (let clipped =
        (if width < 32 \<and> and i0 (ones_from (width - 1)) \<noteq> ones_from (width - 1)
         then Some (and i0 (low_mask width), 0)
         else if width = 32 \<and> \<not> (i1 = - 1 \<and> sless0 i0) then Some (i0, 0)
         else if width > 64 then None
         else Some (i0, i1))
      in case clipped of None \<Rightarrow> None
         | Some (i0, i1) \<Rightarrow>
             (let i0 = (if BITS_PER_WORD < 32 \<and> BITS_PER_WORD = width
                          \<and> and i0 (push_bit (width - 1) 1) \<noteq> 0
                        then or i0 (ones_from width) else i0);
                  i1 = (if width \<le> 32 then (if sless0 i0 then - 1 else 0) else i1)
              in Some (i0, i1)))"

definition immed_double_const :: "hwi \<Rightarrow> hwi \<Rightarrow> machine_mode \<Rightarrow> rtx option" where
  "immed_double_const i0 i1 mode =
     (if GET_MODE_CLASS mode = MODE_INT \<or> GET_MODE_CLASS mode = MODE_PARTIAL_INT then
        (case fit_const (mode_bits mode) i0 i1 of
           None \<Rightarrow> None
         | Some (i0, i1) \<Rightarrow>
             if i1 = 0 \<and> \<not> sless0 i0 \<or> i1 = - 1 \<and> sless0 i0 then Some (GEN_INT (sint i0))
             else Some (gen_rtx_CONST_DOUBLE VOIDmode const0_rtx (sint i0) (sint i1)))
      else Some (gen_rtx_CONST_DOUBLE mode const0_rtx (sint i0) (sint i1)))"

section \<open>Adding an integer\<close>

type_synonym const_pool = "rtx \<Rightarrow> hwi \<Rightarrow> rtx option"

definition finish_sum :: "machine_mode \<Rightarrow> rtx \<Rightarrow> hwi \<Rightarrow> bool \<Rightarrow> rtx" where
  "finish_sum mode x c all_constant =
     (let x = (if c \<noteq> 0 then gen_rtx_fmt_ee PLUS mode x (GEN_INT (sint c)) else x)
      in if GET_CODE x = SYMBOL_REF \<or> GET_CODE x = LABEL_REF then x
         else if all_constant then gen_rtx_fmt_e CONST_rtx mode x
         else x)"

text \<open>The body from the label \<open>restart\<close> on. The recursive calls of the source are to the
  function itself, which returns its argument for a zero addend.\<close>

function add_constant :: "const_pool \<Rightarrow> rtx \<Rightarrow> hwi \<Rightarrow> bool \<Rightarrow> rtx" where
  "add_constant pool x c all_constant =
     (let code = GET_CODE x; mode = GET_MODE x in
      if code = CONST_INT then GEN_INT (sint (word_of_int (INTVAL x) + c))
      else if code = CONST_DOUBLE then
        (case add_double (word_of_int (CONST_DOUBLE_LOW x)) (word_of_int (CONST_DOUBLE_HIGH x))
            c (if sless0 c then - 1 else 0) of
           (_, lv, hv) \<Rightarrow> the (immed_double_const lv hv VOIDmode))
      else if code = MEM then
        (if GET_CODE (XEXP x 0) = SYMBOL_REF \<and> RTX_UNCHANGING_P (XEXP x 0) then
           (case pool x c of Some tem \<Rightarrow> tem | None \<Rightarrow> finish_sum mode x c all_constant)
         else finish_sum mode x c all_constant)
      else if code = CONST_rtx then add_constant pool (XEXP x 0) c True
      else if code = SYMBOL_REF \<or> code = LABEL_REF then finish_sum mode x c True
      else if code = PLUS then
        (if GET_CODE (XEXP x 1) = CONST_INT then
           add_constant pool (XEXP x 0) (c + word_of_int (INTVAL (XEXP x 1))) all_constant
         else if CONSTANT_P (XEXP x 0) then
           finish_sum mode
             (gen_rtx_fmt_ee PLUS mode
                (if c = 0 then XEXP x 0 else add_constant pool (XEXP x 0) c False) (XEXP x 1))
             0 all_constant
         else if CONSTANT_P (XEXP x 1) then
           finish_sum mode
             (gen_rtx_fmt_ee PLUS mode (XEXP x 0)
                (if c = 0 then XEXP x 1 else add_constant pool (XEXP x 1) c False))
             0 all_constant
         else finish_sum mode x c all_constant)
      else finish_sum mode x c all_constant)"
  by pat_completeness auto
termination
  by (relation "measure (size \<circ> fst \<circ> snd)") (auto intro!: size_XEXP)

declare add_constant.simps [simp del]

definition plus_constant_wide :: "const_pool \<Rightarrow> rtx \<Rightarrow> hwi \<Rightarrow> rtx" where
  "plus_constant_wide pool x c = (if c = 0 then x else add_constant pool x c False)"

function plus_constant_for_output_wide :: "const_pool \<Rightarrow> rtx \<Rightarrow> hwi \<Rightarrow> rtx" where
  "plus_constant_for_output_wide pool x c =
     (if GET_CODE x = LO_SUM then
        gen_rtx_fmt_ee LO_SUM (GET_MODE x) (XEXP x 0) (plus_constant_for_output_wide pool (XEXP x 1) c)
      else plus_constant_wide pool x c)"
  by pat_completeness auto
termination
  by (relation "measure (size \<circ> fst \<circ> snd)") (simp_all add: size_XEXP_code)

declare plus_constant_for_output_wide.simps [simp del]

section \<open>The value of a sum\<close>

text \<open>The expressions whose symbols, labels and sums are addresses: they have the mode of a
  pointer.\<close>

fun address_modes :: "rtx \<Rightarrow> bool" and address_modes_fld :: "fld \<Rightarrow> bool" where
  "address_modes NULL_RTX = True"
| "address_modes (Rtx c m f fs) =
     ((c \<in> {SYMBOL_REF, LABEL_REF} \<longrightarrow> m = Pmode) \<and> (\<forall>x \<in> set fs. address_modes_fld x))"
| "address_modes_fld (FExp x) = address_modes x"
| "address_modes_fld _ = True"

lemma address_modes_XEXP: "address_modes x \<Longrightarrow> address_modes (XEXP x n)"
proof (cases x)
  case (Rtx c m f fs)
  assume a: "address_modes x"
  show ?thesis
  proof (cases "n < length fs")
    case True
    with a Rtx have "address_modes_fld (fs ! n)" by simp
    with Rtx True show ?thesis by (cases "fs ! n") (simp_all add: fld_access)
  qed (simp add: Rtx fld_access)
qed (simp add: fld_access)

lemma value_binary:
  assumes "GET_CODE x = PLUS" "rtx_value st x = Some v"
  shows "GET_MODE x = HImode \<and> (\<exists>a b. rtx_value st (XEXP x 0) = Some a \<and> rtx_value st (XEXP x 1) = Some b \<and> v = a + b)"
proof (cases x)
  case (Rtx c m f fs)
  with assms have c: "c = PLUS" "m = HImode" "apply_code PLUS (map (fld_value st) fs) = Some v"
    by (auto split: if_splits)
  then have "length (map (fld_value st) fs) = 2" using apply_code_PLUS by fastforce
  then obtain p q where fs: "fs = [p, q]" by (auto simp: numeral_2_eq_2 length_Suc_conv)
  from c(3) fs obtain a b where ab: "fld_value st p = Some a" "fld_value st q = Some b"
    by (cases "fld_value st p"; cases "fld_value st q") auto
  then obtain y z where "p = FExp y" "q = FExp z" by (cases p; cases q) auto
  with ab fs c Rtx show ?thesis by (simp add: fld_access)
qed (use assms in simp)

lemma value_const:
  assumes "GET_CODE x = CONST_rtx" "rtx_value st x = Some v"
  shows "GET_MODE x = HImode \<and> rtx_value st (XEXP x 0) = Some v"
proof (cases x)
  case (Rtx c m f fs)
  with assms have c: "c = CONST_rtx" "m = HImode" "apply_code CONST_rtx (map (fld_value st) fs) = Some v"
    by (auto split: if_splits)
  then have "length (map (fld_value st) fs) = 1" using apply_code_CONST by fastforce
  then obtain p where fs: "fs = [p]" by (auto simp: length_Suc_conv)
  from c(3) fs have "fld_value st p = Some v" by (cases "fld_value st p") auto
  then show ?thesis using fs c Rtx by (cases p) (simp_all add: fld_access)
qed (use assms in simp)

lemma value_gen_PLUS:
  "rtx_value st a = Some va \<Longrightarrow> rtx_value st b = Some vb
    \<Longrightarrow> rtx_value st (gen_rtx_fmt_ee PLUS HImode a b) = Some (va + vb)"
  by (simp add: gen_rtx_fmt_ee_def)

lemma value_GEN_INT: "rtx_value st (GEN_INT i) = Some (word_of_int i)"
  by (simp add: GEN_INT_def fld_access fld_names)

lemma value_gen_CONST:
  "rtx_value st a = Some va \<Longrightarrow> rtx_value st (gen_rtx_fmt_e CONST_rtx HImode a) = Some va"
  by (simp add: gen_rtx_fmt_e_def)

lemma value_mode:
  "rtx_value st x = Some v \<Longrightarrow> address_modes x \<Longrightarrow> GET_CODE x \<noteq> CONST_INT \<Longrightarrow> GET_MODE x = HImode"
  by (cases x) (auto split: if_splits)

abbreviation to16 :: "hwi \<Rightarrow> 16 word" where "to16 c \<equiv> scast c"

lemma to16_add: "to16 (a + b) = to16 a + to16 b"
proof transfer
  show "take_bit LENGTH(16) (signed_take_bit (LENGTH(32) - Suc 0) (k + l))
    = take_bit LENGTH(16) (signed_take_bit (LENGTH(32) - Suc 0) k + signed_take_bit (LENGTH(32) - Suc 0) l)"
    for k l :: int
  proof -
    have t: "take_bit 16 (signed_take_bit 31 i) = take_bit 16 i" for i :: int
      by (rule take_bit_signed_take_bit) simp
    have "take_bit 16 (signed_take_bit 31 k + signed_take_bit 31 l)
      = take_bit 16 (take_bit 16 (signed_take_bit 31 k) + take_bit 16 (signed_take_bit 31 l))"
      by (rule take_bit_add [symmetric])
    also have "\<dots> = take_bit 16 (k + l)" unfolding t by (rule take_bit_add)
    finally show ?thesis by (simp add: t)
  qed
qed

lemma to16_of_int: "to16 (word_of_int i) = word_of_int i"
  by transfer (simp add: take_bit_signed_take_bit)

lemma finish_sum_value:
  assumes "rtx_value st x = Some v" "mode = HImode"
  shows "rtx_value st (finish_sum mode x c ac) = Some (v + to16 c)"
  using assms value_gen_PLUS [OF assms(1) value_GEN_INT [of st "sint c"]]
  by (auto simp: finish_sum_def Let_def value_gen_CONST)

text \<open>What is asked of the pool: a reference it returns has the value of the sum.\<close>

definition pool_sound :: "rtl_state \<Rightarrow> const_pool \<Rightarrow> bool" where
  "pool_sound st pool \<longleftrightarrow> (\<forall>x c t w. pool x c = Some t \<and> rtx_value st x = Some w
     \<longrightarrow> rtx_value st t = Some (w + to16 c))"

lemma add_constant_value:
  assumes pool: "pool_sound st pool"
    and "rtx_value st x = Some v" "address_modes x"
  shows "rtx_value st (add_constant pool x c ac) = Some (v + to16 c)"
  using assms(2,3)
proof (induction "size x" arbitrary: x v c ac rule: less_induct)
  case less
  note e = add_constant.simps [of pool x c ac] and fs = finish_sum_value
  have mode: "GET_CODE x \<noteq> CONST_INT \<Longrightarrow> GET_MODE x = HImode"
    using less.prems by (rule value_mode)
  have xn: "x \<noteq> NULL_RTX" using less.prems by auto
  have am: "address_modes (XEXP x n)" for n using less.prems(2) by (rule address_modes_XEXP)
  have rec: "rtx_value st (add_constant pool (XEXP x n) c' ac') = Some (w + to16 c')"
    if "rtx_value st (XEXP x n) = Some w" for n w c' ac'
    using less.hyps [OF size_XEXP [OF xn] that am] .
  consider "GET_CODE x = CONST_INT" | "GET_CODE x = CONST_DOUBLE" | "GET_CODE x = MEM"
    | "GET_CODE x = CONST_rtx" | "GET_CODE x \<in> {SYMBOL_REF, LABEL_REF}" | "GET_CODE x = PLUS"
    | "GET_CODE x \<notin> {CONST_INT, CONST_DOUBLE, MEM, CONST_rtx, SYMBOL_REF, LABEL_REF, PLUS}"
    by auto
  then show ?case
  proof cases
    case 1
    then have "v = word_of_int (INTVAL x)"
      using less.prems(1) by (cases x) (auto simp: value_GEN_INT)
    then show ?thesis using 1 by (simp add: e value_GEN_INT to16_add to16_of_int)
  next
    case 2
    then have "rtx_value st x = None" by (cases x) (auto simp: apply_code_other Let_def)
    then show ?thesis using less.prems by simp
  next
    case 3
    then show ?thesis using less.prems pool mode
      by (auto simp: e fs pool_sound_def split: option.splits)
  next
    case 4
    then show ?thesis using value_const [OF 4 less.prems(1)] by (simp add: e rec)
  next
    case 5
    then show ?thesis using less.prems mode by (auto simp: e fs)
  next
    case 6
    then obtain a b where ab: "rtx_value st (XEXP x 0) = Some a" "rtx_value st (XEXP x 1) = Some b" "v = a + b"
      using value_binary [OF 6 less.prems(1)] by blast
    have m: "GET_MODE x = HImode" using 6 mode by simp
    consider "GET_CODE (XEXP x 1) = CONST_INT"
      | "GET_CODE (XEXP x 1) \<noteq> CONST_INT" "CONSTANT_P (XEXP x 0)"
      | "GET_CODE (XEXP x 1) \<noteq> CONST_INT" "\<not> CONSTANT_P (XEXP x 0)" "CONSTANT_P (XEXP x 1)"
      | "GET_CODE (XEXP x 1) \<noteq> CONST_INT" "\<not> CONSTANT_P (XEXP x 0)" "\<not> CONSTANT_P (XEXP x 1)"
      by blast
    then show ?thesis
    proof cases
      case 1
      then have "b = word_of_int (INTVAL (XEXP x 1))"
        using ab(2) by (cases "XEXP x 1") (auto simp: value_GEN_INT)
      then show ?thesis using 1 6 ab rec [OF ab(1)] m
        by (simp add: e to16_add to16_of_int ac_simps)
    next
      case 2
      then show ?thesis using 6 m ab fs [OF value_gen_PLUS] rec [OF ab(1), of c False]
        by (simp add: e fs value_gen_PLUS ac_simps)
    next
      case 3
      then show ?thesis using 6 m ab rec [OF ab(2), of c False]
        by (simp add: e fs value_gen_PLUS ac_simps)
    next
      case 4
      then show ?thesis using 6 m less.prems by (simp add: e fs)
    qed
  next
    case 7
    then show ?thesis using less.prems mode by (simp add: e fs)
  qed
qed

section \<open>The value of a constant made of two words\<close>

definition const_value :: "rtx \<Rightarrow> 64 word" where
  "const_value x = (if GET_CODE x = CONST_INT then word_of_int (INTVAL x)
     else dword (word_of_int (CONST_DOUBLE_LOW x)) (word_of_int (CONST_DOUBLE_HIGH x)))"

lemma int_mode_bits:
  "GET_MODE_CLASS m = MODE_INT \<or> GET_MODE_CLASS m = MODE_PARTIAL_INT \<Longrightarrow> 8 \<le> mode_bits m"
  by (cases m) (simp_all add: mode_bits_def)

lemma bit_ones_from: "bit (ones_from n) k \<longleftrightarrow> n \<le> k \<and> k < 32"
  by (auto simp: ones_from_def bit_simps)

lemma bit_low_mask: "bit (low_mask n) k \<longleftrightarrow> k < n \<and> k < 32"
  by (auto simp: low_mask_def bit_simps simp flip: mask_eq_decr_exp)

lemma fit_const_bits:
  assumes "fit_const width i0 i1 = Some (j0, j1)" "8 \<le> width"
  shows "take_bit width (dword j0 j1) = take_bit width (dword i0 i1)"
proof (rule bit_word_eqI)
  fix k assume "k < LENGTH(64)"
  show "bit (take_bit width (dword j0 j1)) k = bit (take_bit width (dword i0 i1)) k"
  proof (cases "k < width")
    case True
    then show ?thesis using assms
      by (auto simp: fit_const_def Let_def bit_take_bit_iff bit_dword bit_and_iff bit_or_iff
          bit_ones_from bit_low_mask split: if_splits)
  qed (simp add: bit_take_bit_iff)
qed

lemma fit_const_narrow:
  assumes "fit_const width i0 i1 = Some (j0, j1)" "width \<le> 32"
  shows "j1 = (if sless0 j0 then - 1 else 0)"
  using assms by (auto simp: fit_const_def Let_def split: option.splits if_splits)

lemma sint_of_int_64: "- 2147483648 \<le> k \<Longrightarrow> k < 2147483648 \<Longrightarrow> sint (word_of_int k :: 64 word) = k"
  by (simp add: sint_wrap64)

lemma sint_range32: "- 2147483648 \<le> sint l" "sint l < 2147483648" for l :: hwi
  using sint_range_size [of l] by (simp_all add: word_size)

lemma sint_of_hwi: "sint (word_of_int (sint l) :: 64 word) = sint l" for l :: hwi
  by (rule sint_of_int_64 [OF sint_range32])

lemma dword_sign: "dword l (if sless0 l then - 1 else 0) = word_of_int (sint l)"
proof (rule signed_word_eqI)
  show "sint (dword l (if sless0 l then - 1 else 0)) = sint (word_of_int (sint l) :: 64 word)"
    unfolding sint_of_hwi sint_dword by (simp add: sless0_bit sint_uint_bit [of l])
qed

lemma dword_fits:
  "(j1 = 0 \<and> \<not> sless0 j0 \<or> j1 = - 1 \<and> sless0 j0) \<longleftrightarrow>
     - 2147483648 \<le> sint (dword j0 j1) \<and> sint (dword j0 j1) < 2147483648" (is "?l \<longleftrightarrow> ?r")
proof
  assume ?l
  then have "dword j0 j1 = word_of_int (sint j0)" using dword_sign [of j0] by auto
  then have "sint (dword j0 j1) = sint j0" using sint_of_hwi [of j0] by (simp only:)
  then show ?r using sint_range32 [of j0] by simp
next
  assume r: ?r
  have u: "0 \<le> uint j0" "uint j0 < 4294967296" by (rule hwi_range)+
  have s: "sless0 j0 \<longleftrightarrow> 2147483648 \<le> uint j0"
    using bit_top_uint [of j0] by (simp add: sless0_bit)
  have "sint j1 = 0 \<or> sint j1 = - 1" using r u unfolding sint_dword by linarith
  then consider "sint j1 = 0" | "sint j1 = - 1" by blast
  then show ?l
  proof cases
    case 1
    then have "j1 = 0" by (intro signed_word_eqI) simp
    then show ?thesis using r 1 s unfolding sint_dword by simp
  next
    case 2
    then have "j1 = - 1" by (intro signed_word_eqI) simp
    then show ?thesis using r 2 s unfolding sint_dword by simp
  qed
qed

text \<open>\<open>immed_double_const\<close> keeps the bits of its integer mode, gives a \<open>CONST_INT\<close> exactly
  when the value fits one signed word, always for modes of at most one word, and aborts only
  for modes of more than two words.\<close>

theorem immed_double_const_correct:
  assumes "GET_MODE_CLASS mode = MODE_INT \<or> GET_MODE_CLASS mode = MODE_PARTIAL_INT"
  shows "case immed_double_const i0 i1 mode of
      None \<Rightarrow> mode_bits mode > 64
    | Some x \<Rightarrow> mode_bits mode \<le> 64
        \<and> take_bit (mode_bits mode) (const_value x) = take_bit (mode_bits mode) (dword i0 i1)
        \<and> (GET_CODE x = CONST_INT) = (sint (const_value x) \<in> {- 2147483648..<2147483648})
        \<and> (mode_bits mode > 32 \<or> GET_CODE x = CONST_INT)"
proof (cases "fit_const (mode_bits mode) i0 i1")
  case None
  then show ?thesis using assms
    by (auto simp: immed_double_const_def fit_const_def Let_def split: if_splits)
next
  case (Some j)
  obtain j0 j1 where j: "j = (j0, j1)" by (cases j)
  let ?x = "if j1 = 0 \<and> \<not> sless0 j0 \<or> j1 = - 1 \<and> sless0 j0 then GEN_INT (sint j0)
    else gen_rtx_CONST_DOUBLE VOIDmode const0_rtx (sint j0) (sint j1)"
  have x: "immed_double_const i0 i1 mode = Some ?x"
    using assms Some j by (simp add: immed_double_const_def)
  have v: "const_value ?x = dword j0 j1"
    using dword_sign [of j0] by (cases "sless0 j0") (simp_all add: const_value_def)
  have "mode_bits mode \<le> 64" using Some by (auto simp: fit_const_def Let_def split: if_splits)
  moreover have "take_bit (mode_bits mode) (dword j0 j1) = take_bit (mode_bits mode) (dword i0 i1)"
    using fit_const_bits Some j int_mode_bits [OF assms] by blast
  moreover have "GET_CODE ?x = CONST_INT \<longleftrightarrow> sint (dword j0 j1) \<in> {- 2147483648..<2147483648}"
    using dword_fits [of j1 j0] by auto
  moreover have "mode_bits mode > 32 \<or> GET_CODE ?x = CONST_INT"
    using fit_const_narrow [of "mode_bits mode" i0 i1 j0 j1] Some j by (cases "mode_bits mode \<le> 32") auto
  ultimately show ?thesis unfolding x option.case v by blast
qed

theorem immed_double_const_correct_witness:
  "immed_double_const 0xffff 0 HImode = Some (GEN_INT (- 1))
   \<and> take_bit 16 (const_value (GEN_INT (- 1))) = take_bit 16 (dword 0xffff 0)"
proof -
  have e: "immed_double_const 0xffff 0 HImode = Some (GEN_INT (- 1))" by code_simp
  show ?thesis
    using immed_double_const_correct [of HImode "0xffff" 0] unfolding e by (simp add: mode_bits_def)
qed

lemma plus_constant_value:
  assumes "pool_sound st pool"
    and "rtx_value st x = Some v" and "address_modes x"
  shows "rtx_value st (plus_constant_wide pool x c) = Some (v + to16 c)"
    and "rtx_value st (plus_constant_for_output_wide pool x c) = Some (v + to16 c)"
proof -
  show p: "rtx_value st (plus_constant_wide pool x c) = Some (v + to16 c)"
    using add_constant_value [OF assms] assms(2) by (simp add: plus_constant_wide_def)
  have "GET_CODE x \<noteq> LO_SUM"
    using assms(2) by (cases x) (auto simp: apply_code_other Let_def split: if_splits)
  with p show "rtx_value st (plus_constant_for_output_wide pool x c) = Some (v + to16 c)"
    by (simp add: plus_constant_for_output_wide.simps)
qed

text \<open>Adding an integer to an address expression with \<open>plus_constant\<close> adds its 16-bit value,
  whatever the constants inside the expression that are combined; the pool of constants
  only has to return references to the sum.\<close>

theorem plus_constant_sound:
  assumes "pool_sound st pool"
    and "rtx_value st x = Some v" and "address_modes x"
  shows "rtx_value st (plus_constant_wide pool x c) = Some (v + to16 c)
    \<and> rtx_value st (plus_constant_for_output_wide pool x c) = Some (v + to16 c)"
  using plus_constant_value [OF assms] by blast

theorem plus_constant_sound_witness:
  "\<forall>st. rtx_value st (plus_constant_wide (\<lambda>x c. None)
      (gen_rtx_fmt_ee PLUS HImode (gen_rtx_REG HImode 5) (GEN_INT 4)) 3) = Some (rs_regs st 5 + 4 + 3)"
proof
  fix st
  show "rtx_value st (plus_constant_wide (\<lambda>x c. None)
      (gen_rtx_fmt_ee PLUS HImode (gen_rtx_REG HImode 5) (GEN_INT 4)) 3) = Some (rs_regs st 5 + 4 + 3)"
    using plus_constant_sound [of st "\<lambda>x c. None"
        "gen_rtx_fmt_ee PLUS HImode (gen_rtx_REG HImode 5) (GEN_INT 4)" "rs_regs st 5 + 4" 3]
    by (simp add: gen_rtx_defs fld_access fld_names pool_sound_def)
qed

end
