(* ===== verification/Recog.thy ===== *)
theory Recog
  imports Z80_Address Rtl_Constants
begin

text \<open>
  Operand predicates and offsettable addresses (gcc/recog.c). These functions are the
  compiler's, not the port's: what a port supplies is its address recogniser, the macro
  \<open>GO_IF_LEGITIMATE_ADDRESS\<close>, here the parameter \<open>legit\<close> with the strictness, the mode and
  the address. The globals they read form the record \<open>reload_state\<close>. The two locales state
  what the code takes for granted of a port's recogniser; the theory of the port's operands
  interprets them.

  The conditional parts for schedulers, position independent code and
  \<open>CLASS_CANNOT_CHANGE_SIZE\<close> are not compiled for this port. gcc/recog.c is compiled without
  \<open>REG_OK_STRICT\<close>, gcc/reload.c with it.
\<close>

type_synonym address_rule = "bool \<Rightarrow> machine_mode \<Rightarrow> rtx \<Rightarrow> bool"

record reload_state =
  reload_completed :: bool
  reload_in_progress :: bool
  volatile_ok :: bool
  reg_renumber :: renumber

section \<open>Operand predicates\<close>

definition LEGITIMATE_CONSTANT_P :: "rtx \<Rightarrow> bool" where
  "LEGITIMATE_CONSTANT_P x \<longleftrightarrow> True"

text \<open>The test that keeps integer constants out of a floating mode.\<close>

definition modeless_for_float :: "rtx \<Rightarrow> machine_mode \<Rightarrow> bool" where
  "modeless_for_float op mode \<longleftrightarrow> GET_MODE op = VOIDmode \<and> mode \<noteq> VOIDmode
     \<and> GET_MODE_CLASS mode \<noteq> MODE_INT \<and> GET_MODE_CLASS mode \<noteq> MODE_PARTIAL_INT"

definition operand_reg :: "rtx \<Rightarrow> bool" where
  "operand_reg op \<longleftrightarrow> GET_CODE op = REG
     \<and> (REGNO op \<ge> FIRST_PSEUDO_REGISTER \<or> REGNO_REG_CLASS (REGNO op) \<noteq> NO_REGS)"

definition general_operand :: "address_rule \<Rightarrow> reload_state \<Rightarrow> rtx \<Rightarrow> machine_mode \<Rightarrow> bool" where
  "general_operand legit st op mode =
     (let mode = (if mode = VOIDmode then GET_MODE op else mode)
      in if modeless_for_float op mode then False
         else if CONSTANT_P op then
           (GET_MODE op = VOIDmode \<or> GET_MODE op = mode) \<and> LEGITIMATE_CONSTANT_P op
         else if GET_MODE op \<noteq> mode then False
         else
           (let op = (if GET_CODE op = SUBREG then SUBREG_REG op else op)
            in if GET_CODE op = REG then operand_reg op
               else if GET_CODE op = MEM then
                 (if \<not> volatile_ok st \<and> MEM_VOLATILE_P op then False
                  else if GET_CODE (XEXP op 0) = ADDRESSOF then True
                  else legit False (GET_MODE op) (XEXP op 0))
               else GET_CODE op = ADDRESSOF))"

definition register_operand :: "address_rule \<Rightarrow> reload_state \<Rightarrow> rtx \<Rightarrow> machine_mode \<Rightarrow> bool" where
  "register_operand legit st op mode =
     (if GET_MODE op \<noteq> mode \<and> mode \<noteq> VOIDmode then False
      else if GET_CODE op = SUBREG then
        (if \<not> reload_completed st \<and> GET_CODE (SUBREG_REG op) = MEM
         then general_operand legit st op mode
         else operand_reg (SUBREG_REG op))
      else operand_reg op)"

definition scratch_operand :: "rtx \<Rightarrow> machine_mode \<Rightarrow> bool" where
  "scratch_operand op mode \<longleftrightarrow> GET_MODE op = mode
     \<and> (GET_CODE op = SCRATCH \<or> (GET_CODE op = REG \<and> REGNO op < FIRST_PSEUDO_REGISTER))"

definition immediate_operand :: "rtx \<Rightarrow> machine_mode \<Rightarrow> bool" where
  "immediate_operand op mode =
     (if modeless_for_float op mode then False
      else if GET_CODE op = CONSTANT_P_RTX then True
      else CONSTANT_P op
        \<and> (GET_MODE op = mode \<or> mode = VOIDmode \<or> GET_MODE op = VOIDmode) \<and> LEGITIMATE_CONSTANT_P op)"

definition const_int_operand :: "rtx \<Rightarrow> machine_mode \<Rightarrow> bool" where
  "const_int_operand op mode \<longleftrightarrow> GET_CODE op = CONST_INT"

definition const_double_operand :: "rtx \<Rightarrow> machine_mode \<Rightarrow> bool" where
  "const_double_operand op mode =
     (if modeless_for_float op mode then False
      else (GET_CODE op = CONST_DOUBLE \<or> GET_CODE op = CONST_INT)
        \<and> (mode = VOIDmode \<or> GET_MODE op = mode \<or> GET_MODE op = VOIDmode))"

definition nonimmediate_operand :: "address_rule \<Rightarrow> reload_state \<Rightarrow> rtx \<Rightarrow> machine_mode \<Rightarrow> bool" where
  "nonimmediate_operand legit st op mode \<longleftrightarrow> general_operand legit st op mode \<and> \<not> CONSTANT_P op"

definition nonmemory_operand :: "address_rule \<Rightarrow> reload_state \<Rightarrow> rtx \<Rightarrow> machine_mode \<Rightarrow> bool" where
  "nonmemory_operand legit st op mode =
     (if CONSTANT_P op then
        (if modeless_for_float op mode then False
         else (GET_MODE op = VOIDmode \<or> GET_MODE op = mode) \<and> LEGITIMATE_CONSTANT_P op)
      else if GET_MODE op \<noteq> mode \<and> mode \<noteq> VOIDmode then False
      else if GET_CODE op = SUBREG then
        (if \<not> reload_completed st \<and> GET_CODE (SUBREG_REG op) = MEM
         then general_operand legit st op mode
         else operand_reg (SUBREG_REG op))
      else operand_reg op)"

definition push_operand :: "rtx \<Rightarrow> machine_mode \<Rightarrow> bool" where
  "push_operand op mode =
     (if GET_CODE op \<noteq> MEM then False
      else if mode \<noteq> VOIDmode \<and> GET_MODE op \<noteq> mode then False
      else if GET_CODE (XEXP op 0) \<noteq> PRE_DEC then False
      else XEXP (XEXP op 0) 0 = stack_pointer_rtx)"

definition pop_operand :: "rtx \<Rightarrow> machine_mode \<Rightarrow> bool" where
  "pop_operand op mode =
     (if GET_CODE op \<noteq> MEM then False
      else if mode \<noteq> VOIDmode \<and> GET_MODE op \<noteq> mode then False
      else if GET_CODE (XEXP op 0) \<noteq> POST_INC then False
      else XEXP (XEXP op 0) 0 = stack_pointer_rtx)"

definition memory_address_p :: "address_rule \<Rightarrow> machine_mode \<Rightarrow> rtx \<Rightarrow> bool" where
  "memory_address_p legit mode addr = (if GET_CODE addr = ADDRESSOF then True else legit False mode addr)"

definition strict_memory_address_p :: "address_rule \<Rightarrow> machine_mode \<Rightarrow> rtx \<Rightarrow> bool" where
  "strict_memory_address_p legit mode addr = legit True mode addr"

definition address_operand :: "address_rule \<Rightarrow> rtx \<Rightarrow> machine_mode \<Rightarrow> bool" where
  "address_operand legit op mode = memory_address_p legit mode op"

definition memory_operand :: "address_rule \<Rightarrow> reload_state \<Rightarrow> rtx \<Rightarrow> machine_mode \<Rightarrow> bool" where
  "memory_operand legit st op mode =
     (if \<not> reload_completed st then GET_CODE op = MEM \<and> general_operand legit st op mode
      else if mode \<noteq> VOIDmode \<and> GET_MODE op \<noteq> mode then False
      else GET_CODE (if GET_CODE op = SUBREG then SUBREG_REG op else op) = MEM
        \<and> general_operand legit st op mode)"

definition indirect_operand :: "address_rule \<Rightarrow> reload_state \<Rightarrow> rtx \<Rightarrow> machine_mode \<Rightarrow> bool" where
  "indirect_operand legit st op mode =
     (if \<not> reload_completed st \<and> GET_CODE op = SUBREG \<and> GET_CODE (SUBREG_REG op) = MEM then
        (let offset = SUBREG_WORD op * int UNITS_PER_WORD; inner = SUBREG_REG op
         in if mode \<noteq> VOIDmode \<and> GET_MODE op \<noteq> mode then False
            else offset = 0 \<and> general_operand legit st (XEXP inner 0) Pmode
              \<or> GET_CODE (XEXP inner 0) = PLUS \<and> GET_CODE (XEXP (XEXP inner 0) 1) = CONST_INT
                \<and> INTVAL (XEXP (XEXP inner 0) 1) = - offset
                \<and> general_operand legit st (XEXP (XEXP inner 0) 0) Pmode)
      else GET_CODE op = MEM \<and> memory_operand legit st op mode
        \<and> general_operand legit st (XEXP op 0) Pmode)"

definition comparison_operator :: "rtx \<Rightarrow> machine_mode \<Rightarrow> bool" where
  "comparison_operator op mode \<longleftrightarrow> (mode = VOIDmode \<or> GET_MODE op = mode)
     \<and> GET_RTX_CLASS (GET_CODE op) = CHR ''<''"

definition mode_dependent_address_p :: "rtx \<Rightarrow> bool" where
  "mode_dependent_address_p addr = GO_IF_MODE_DEPENDENT_ADDRESS addr"

definition mode_independent_operand :: "address_rule \<Rightarrow> reload_state \<Rightarrow> rtx \<Rightarrow> machine_mode \<Rightarrow> bool" where
  "mode_independent_operand legit st op mode =
     (if \<not> general_operand legit st op mode then False
      else if GET_CODE op \<noteq> MEM then True
      else \<not> GO_IF_MODE_DEPENDENT_ADDRESS (XEXP op 0))"

section \<open>Offsettable addresses\<close>

text \<open>A location inside an expression is the path of operand numbers to it; the empty path
  is the expression itself.\<close>

function find_constant_term_loc :: "rtx \<Rightarrow> nat list option" where
  "find_constant_term_loc p =
     (if GET_CODE p \<in> {CONST_INT, SYMBOL_REF, LABEL_REF, CONST_rtx} then Some []
      else if GET_CODE p \<noteq> PLUS then None
      else if XEXP p 0 \<noteq> NULL_RTX \<and> CONSTANT_P (XEXP p 0) \<and> XEXP p 1 \<noteq> NULL_RTX \<and> CONSTANT_P (XEXP p 1)
      then Some []
      else
        (case (if XEXP p 0 \<noteq> NULL_RTX then find_constant_term_loc (XEXP p 0) else None) of
           Some tem \<Rightarrow> Some (0 # tem)
         | None \<Rightarrow>
             (case (if XEXP p 1 \<noteq> NULL_RTX then find_constant_term_loc (XEXP p 1) else None) of
                Some tem \<Rightarrow> Some (1 # tem)
              | None \<Rightarrow> None)))"
  by pat_completeness auto
termination by (relation "measure size") (auto intro!: size_XEXP)

declare find_constant_term_loc.simps [simp del]

fun get_loc :: "rtx \<Rightarrow> nat list \<Rightarrow> rtx" where
  "get_loc x [] = x"
| "get_loc x (n # p) = get_loc (XEXP x n) p"

fun put_loc :: "rtx \<Rightarrow> nat list \<Rightarrow> rtx \<Rightarrow> rtx" where
  "put_loc x [] v = v"
| "put_loc x (n # p) v = set_XEXP x n (put_loc (XEXP x n) p v)"

text \<open>The address with its constant term changed: when the location is the local variable
  that holds the whole address, the change does not reach the address.\<close>

definition store_loc :: "rtx \<Rightarrow> nat list \<Rightarrow> rtx \<Rightarrow> rtx" where
  "store_loc y p v = (if p = [] then y else put_loc y p v)"

definition offsettable_address_p :: "address_rule \<Rightarrow> const_pool \<Rightarrow> bool \<Rightarrow> machine_mode \<Rightarrow> rtx \<Rightarrow> bool" where
  "offsettable_address_p legit pool strictp mode y =
     (let addressp = (if strictp then strict_memory_address_p legit else memory_address_p legit);
          last = word_of_int (int (GET_MODE_SIZE mode) - 1)
      in if CONSTANT_ADDRESS_P y then True
         else if mode_dependent_address_p y then False
         else
           (case (if GET_CODE y = PLUS then find_constant_term_loc y else None) of
              Some p \<Rightarrow> addressp QImode (store_loc y p (plus_constant_wide pool (get_loc y p) last))
            | None \<Rightarrow>
                if GET_CODE y \<in> {PRE_DEC, PRE_INC, POST_DEC, POST_INC} then False
                else addressp QImode (plus_constant_for_output_wide pool y last)))"

definition offsettable_memref_p :: "address_rule \<Rightarrow> const_pool \<Rightarrow> rtx \<Rightarrow> bool" where
  "offsettable_memref_p legit pool op \<longleftrightarrow> GET_CODE op = MEM
     \<and> offsettable_address_p legit pool True (GET_MODE op) (XEXP op 0)"

definition offsettable_nonstrict_memref_p :: "address_rule \<Rightarrow> const_pool \<Rightarrow> rtx \<Rightarrow> bool" where
  "offsettable_nonstrict_memref_p legit pool op \<longleftrightarrow> GET_CODE op = MEM
     \<and> offsettable_address_p legit pool False (GET_MODE op) (XEXP op 0)"

text \<open>The new reference keeps only the \<open>unchanging\<close> flag of the old one. \<open>None\<close> is the
  \<open>abort\<close>.\<close>

definition offset_mem :: "const_pool \<Rightarrow> rtx \<Rightarrow> hwi \<Rightarrow> rtx" where
  "offset_mem pool op offset =
     Rtx MEM (GET_MODE op) (no_flags\<lparr>fl_unchanging := RTX_UNCHANGING_P op\<rparr>)
       [FExp (plus_constant_for_output_wide pool (XEXP op 0) offset), FNone 0]"

definition adj_offsettable_operand :: "const_pool \<Rightarrow> rtx \<Rightarrow> hwi \<Rightarrow> rtx option" where
  "adj_offsettable_operand pool op offset =
     (if GET_CODE op = MEM then
        (if CONSTANT_ADDRESS_P (XEXP op 0) then Some (offset_mem pool op offset)
         else if GET_CODE (XEXP op 0) = PLUS then
           (let op' = copy_rtx op; z = XEXP op' 0
            in case find_constant_term_loc z of
                 Some p \<Rightarrow> Some (set_XEXP op' 0
                   (store_loc z p (plus_constant_for_output_wide pool (get_loc z p) offset)))
               | None \<Rightarrow> Some (offset_mem pool op offset))
         else Some (offset_mem pool op offset))
      else None)"

section \<open>The lattice of operand predicates\<close>

lemmas operand_defs = general_operand_def register_operand_def memory_operand_def immediate_operand_def
  nonmemory_operand_def operand_reg_def modeless_for_float_def LEGITIMATE_CONSTANT_P_def Let_def

definition inside_subreg :: "rtx \<Rightarrow> rtx" where
  "inside_subreg op = (if GET_CODE op = SUBREG then SUBREG_REG op else op)"

lemma register_not_constant: "register_operand legit st op mode \<Longrightarrow> \<not> CONSTANT_P op"
  by (auto simp: register_operand_def operand_reg_def CONSTANT_P_def split: if_splits)

lemma register_general: "register_operand legit st op mode \<Longrightarrow> general_operand legit st op mode"
  using register_not_constant [of legit st op mode]
  by (auto simp: operand_defs split: if_splits)

lemma memory_general: "memory_operand legit st op mode \<Longrightarrow> general_operand legit st op mode"
  by (auto simp: memory_operand_def split: if_splits)

lemma general_mode: "general_operand legit st op mode \<Longrightarrow> \<not> CONSTANT_P op \<Longrightarrow> mode = VOIDmode \<or> GET_MODE op = mode"
  by (auto simp: general_operand_def Let_def split: if_splits)

lemma general_nonconstant_cases:
  assumes "general_operand legit st op mode" "\<not> CONSTANT_P op"
  shows "register_operand legit st op mode \<or> memory_operand legit st op mode
    \<or> GET_CODE (inside_subreg op) = ADDRESSOF"
proof -
  note m = general_mode [OF assms]
  consider "GET_CODE (inside_subreg op) = REG" | "GET_CODE (inside_subreg op) = MEM"
    | "GET_CODE (inside_subreg op) = ADDRESSOF" | "GET_CODE (inside_subreg op) \<notin> {REG, MEM, ADDRESSOF}"
    by blast
  then show ?thesis
  proof cases
    case 1
    then show ?thesis using assms m
      by (auto simp: operand_defs inside_subreg_def split: if_splits)
  next
    case 2
    then show ?thesis using assms m
      by (cases "reload_completed st"; cases "GET_CODE op = SUBREG")
        (auto simp: register_operand_def memory_operand_def inside_subreg_def)
  next
    case 4
    then show ?thesis using assms
      by (auto simp: operand_defs inside_subreg_def split: if_splits)
  qed simp
qed

lemma addressof_general:
  assumes "GET_CODE (inside_subreg op) = ADDRESSOF" "mode = VOIDmode \<or> GET_MODE op = mode"
  shows "general_operand legit st op mode"
proof -
  have "\<not> CONSTANT_P op" using assms(1) by (auto simp: inside_subreg_def CONSTANT_P_def split: if_splits)
  then show ?thesis using assms by (auto simp: general_operand_def modeless_for_float_def inside_subreg_def Let_def)
qed

lemma immediate_general:
  "immediate_operand op mode \<Longrightarrow> GET_CODE op \<noteq> CONSTANT_P_RTX \<Longrightarrow> general_operand legit st op mode"
  by (auto simp: operand_defs split: if_splits)

lemma general_constant: "general_operand legit st op mode \<Longrightarrow> CONSTANT_P op \<Longrightarrow> immediate_operand op mode"
  by (auto simp: operand_defs split: if_splits)

lemma nonmemory_cases:
  assumes "GET_CODE op \<noteq> CONSTANT_P_RTX" "mode \<noteq> VOIDmode"
  shows "nonmemory_operand legit st op mode \<longleftrightarrow> register_operand legit st op mode \<or> immediate_operand op mode"
proof (cases "CONSTANT_P op")
  case True
  then show ?thesis using assms register_not_constant [of legit st op mode]
    by (auto simp: nonmemory_operand_def immediate_operand_def)
next
  case False
  then have "\<not> immediate_operand op mode"
    using assms(1) by (simp add: immediate_operand_def)
  then show ?thesis using False by (simp add: nonmemory_operand_def register_operand_def)
qed

text \<open>Whatever the port's recogniser of addresses, the general operands of a mode are the
  register, the memory and the immediate operands and the addresses still to be taken,
  before and after reload, and for a given mode the operands that are not in memory are the
  register and the immediate operands; \<open>CONSTANT_P_RTX\<close> alone is left out.\<close>

theorem operand_partition:
  assumes "GET_CODE op \<noteq> CONSTANT_P_RTX"
  shows "general_operand legit st op mode =
     (register_operand legit st op mode \<or> memory_operand legit st op mode \<or> immediate_operand op mode
      \<or> (GET_CODE (inside_subreg op) = ADDRESSOF \<and> (mode = VOIDmode \<or> GET_MODE op = mode)))
    \<and> (mode = VOIDmode \<or> nonmemory_operand legit st op mode =
        (register_operand legit st op mode \<or> immediate_operand op mode))"
proof
  show "general_operand legit st op mode =
     (register_operand legit st op mode \<or> memory_operand legit st op mode \<or> immediate_operand op mode
      \<or> (GET_CODE (inside_subreg op) = ADDRESSOF \<and> (mode = VOIDmode \<or> GET_MODE op = mode)))"
    using register_general [of legit st op mode] memory_general [of legit st op mode]
      addressof_general [of op mode legit st] immediate_general [OF _ assms, of mode legit st]
      general_constant [of legit st op mode] general_nonconstant_cases [of legit st op mode]
      general_mode [of legit st op mode]
    by blast
  show "mode = VOIDmode \<or> nonmemory_operand legit st op mode =
        (register_operand legit st op mode \<or> immediate_operand op mode)"
    using nonmemory_cases [OF assms, of mode legit st] by blast
qed

theorem operand_partition_witness:
  "\<forall>legit st. general_operand legit st (gen_rtx_SYMBOL_REF HImode ''buf'') HImode
    \<and> nonmemory_operand legit st (gen_rtx_SYMBOL_REF HImode ''buf'') HImode"
proof (intro allI)
  fix legit st
  have "immediate_operand (gen_rtx_SYMBOL_REF HImode ''buf'') HImode"
    by (simp add: immediate_operand_def modeless_for_float_def CONSTANT_P_def LEGITIMATE_CONSTANT_P_def)
  then show "general_operand legit st (gen_rtx_SYMBOL_REF HImode ''buf'') HImode
    \<and> nonmemory_operand legit st (gen_rtx_SYMBOL_REF HImode ''buf'') HImode"
    using operand_partition [of "gen_rtx_SYMBOL_REF HImode ''buf''" legit st HImode] by simp
qed

text \<open>With no mode asked for, a constant that has a mode of its own is a general and an
  immediate operand, and yet not an operand that is not in memory: \<open>nonmemory_operand\<close> lacks
  the test of \<open>VOIDmode\<close> that its neighbours have.\<close>

theorem nonmemory_operand_any_mode:
  "immediate_operand (gen_rtx_SYMBOL_REF HImode name) VOIDmode
   \<and> general_operand legit st (gen_rtx_SYMBOL_REF HImode name) VOIDmode
   \<and> \<not> nonmemory_operand legit st (gen_rtx_SYMBOL_REF HImode name) VOIDmode"
  by (simp add: operand_defs CONSTANT_P_def)

section \<open>What the predicates ask of a port\<close>

text \<open>The recogniser of a port is more lenient before registers are allocated, takes every
  constant and the push and pop of the stack, and takes an address for a smaller object.\<close>

locale address_contract =
  fixes legit :: address_rule
  assumes strict_lenient: "legit True m x \<Longrightarrow> legit False m x"
    and const_ok: "CONSTANT_P x \<Longrightarrow> legit s m x"
    and push_pop: "GET_CODE x = PRE_DEC \<or> GET_CODE x = POST_INC \<Longrightarrow> XEXP x 0 = stack_pointer_rtx \<Longrightarrow> legit s m x"
    and smaller: "legit s m x \<Longrightarrow> GET_MODE_SIZE m' \<le> GET_MODE_SIZE m \<Longrightarrow> legit s m' x"
begin

lemma stack_operand_general:
  assumes "push_operand op mode \<or> pop_operand op mode" "volatile_ok st \<or> \<not> MEM_VOLATILE_P op"
    and "GET_MODE op \<noteq> VOIDmode"
  shows "memory_operand legit st op mode \<and> general_operand legit st op mode"
proof -
  have c: "GET_CODE op = MEM" "mode = VOIDmode \<or> GET_MODE op = mode"
    "GET_CODE (XEXP op 0) = PRE_DEC \<or> GET_CODE (XEXP op 0) = POST_INC"
    "XEXP (XEXP op 0) 0 = stack_pointer_rtx"
    using assms(1) by (auto simp: push_operand_def pop_operand_def split: if_splits)
  have "general_operand legit st op mode"
    using c assms(2,3) push_pop [OF c(3,4), of False "GET_MODE op"]
    by (auto simp: general_operand_def modeless_for_float_def CONSTANT_P_def Let_def)
  with c show ?thesis by (auto simp: memory_operand_def)
qed

lemma strict_offsettable:
  assumes "offsettable_address_p legit pool True m y"
  shows "offsettable_address_p legit pool False m y"
  using assms strict_lenient
  by (auto simp: offsettable_address_p_def strict_memory_address_p_def memory_address_p_def Let_def
      split: if_splits option.splits)

lemma strict_offsettable_memref:
  "offsettable_memref_p legit pool op \<Longrightarrow> offsettable_nonstrict_memref_p legit pool op"
  by (auto simp: offsettable_memref_p_def offsettable_nonstrict_memref_p_def strict_offsettable)

end

section \<open>Moving an address up\<close>

lemma copy_code [simp]: "GET_CODE (copy_rtx x) = GET_CODE x" and copy_mode [simp]: "GET_MODE (copy_rtx x) = GET_MODE x"
  by (cases x; simp)+

lemma copy_null [simp]: "copy_rtx x = NULL_RTX \<longleftrightarrow> x = NULL_RTX"
  by (cases x) simp_all

lemma copy_constant [simp]: "CONSTANT_P (copy_rtx x) = CONSTANT_P x"
  by (simp add: CONSTANT_P_def)

lemma copy_XEXP:
  assumes "GET_CODE x \<in> {PLUS, MEM}"
  shows "XEXP (copy_rtx x) n = copy_rtx (XEXP x n)"
proof (cases x)
  case (Rtx c m f fs)
  have "fld_exp (copy_fld g) = copy_rtx (fld_exp g)" for g by (cases g) simp_all
  with Rtx assms show ?thesis by (auto simp: fld_access)
qed (use assms in simp)

lemma find_loc_copy: "find_constant_term_loc (copy_rtx x) = find_constant_term_loc x"
proof (induction x rule: find_constant_term_loc.induct)
  case (1 p)
  show ?case
  proof (cases "GET_CODE p = PLUS")
    case False
    then show ?thesis by (simp add: find_constant_term_loc.simps [of p] find_constant_term_loc.simps [of "copy_rtx p"])
  next
    case True
    have x: "XEXP (copy_rtx p) n = copy_rtx (XEXP p n)" for n using True by (simp add: copy_XEXP)
    show ?thesis
      using 1 True
      by (auto simp: find_constant_term_loc.simps [of p] find_constant_term_loc.simps [of "copy_rtx p"] x
          cong: option.case_cong)
  qed
qed

lemma find_loc_code:
  "find_constant_term_loc y = Some p \<Longrightarrow> GET_CODE (get_loc y p) \<in> {CONST_INT, SYMBOL_REF, LABEL_REF, CONST_rtx, PLUS}"
proof (induction "size y" arbitrary: y p rule: less_induct)
  case less
  show ?case
  proof (cases "GET_CODE y = PLUS")
    case False
    then show ?thesis using less.prems by (auto simp: find_constant_term_loc.simps [of y] split: if_splits)
  next
    case True
    then have ih: "find_constant_term_loc (XEXP y n) = Some q
      \<Longrightarrow> GET_CODE (get_loc (XEXP y n) q) \<in> {CONST_INT, SYMBOL_REF, LABEL_REF, CONST_rtx, PLUS}" for n q
      by (intro less.hyps size_XEXP) auto
    have "p = [] \<or> (\<exists>n q. p = n # q \<and> find_constant_term_loc (XEXP y n) = Some q)"
      using less.prems True
      by (auto simp: find_constant_term_loc.simps [of y] split: if_splits option.splits)
    then show ?thesis using ih True by fastforce
  qed
qed

text \<open>The address that results from moving \<open>y\<close> up by some bytes, and the assumption of
  \<open>offsettable_address_p\<close>: if an address and its last byte are valid, so is every byte
  between, also of a copy.\<close>

definition moved_address :: "const_pool \<Rightarrow> rtx \<Rightarrow> hwi \<Rightarrow> rtx" where
  "moved_address pool y c =
     (case (if GET_CODE y = PLUS then find_constant_term_loc y else None) of
        Some p \<Rightarrow> store_loc y p (plus_constant_for_output_wide pool (get_loc y p) c)
      | None \<Rightarrow> plus_constant_for_output_wide pool y c)"

lemma moved_address_test:
  assumes "\<not> CONSTANT_P y" "offsettable_address_p legit pool s m y"
  shows "\<not> mode_dependent_address_p y \<and>
    (if s then strict_memory_address_p legit else memory_address_p legit) QImode
      (moved_address pool y (word_of_int (int (GET_MODE_SIZE m) - 1)))"
proof -
  have e: "plus_constant_wide pool (get_loc y p) c = plus_constant_for_output_wide pool (get_loc y p) c"
    if "find_constant_term_loc y = Some p" for p c
    using find_loc_code [OF that] by (subst plus_constant_for_output_wide.simps) auto
  define loc where "loc = (if GET_CODE y = PLUS then find_constant_term_loc y else None)"
  have l: "loc = Some p \<Longrightarrow> find_constant_term_loc y = Some p" for p by (simp add: loc_def split: if_splits)
  define last where "last = (word_of_int (int (GET_MODE_SIZE m) - 1) :: hwi)"
  define A where "A = (if s then strict_memory_address_p legit else memory_address_p legit) QImode"
  have t: "\<not> mode_dependent_address_p y" "case loc of
      Some p \<Rightarrow> A (store_loc y p (plus_constant_wide pool (get_loc y p) last))
    | None \<Rightarrow> A (plus_constant_for_output_wide pool y last)"
    using assms unfolding offsettable_address_p_def Let_def CONSTANT_ADDRESS_P_def loc_def [symmetric]
      last_def [symmetric] A_def [symmetric]
    by (simp_all split: if_splits option.splits)
  have "A (moved_address pool y last)"
  proof (cases loc)
    case None
    with t show ?thesis by (simp add: moved_address_def loc_def [symmetric])
  next
    case (Some p)
    with t e [OF l [OF Some]] show ?thesis by (simp add: moved_address_def loc_def [symmetric])
  qed
  with t show ?thesis by (simp add: A_def last_def)
qed

lemma set_get_XEXP: "n < length (rtx_flds x) \<Longrightarrow> XEXP (set_XEXP x n v) n = v"
  by (cases x) (simp_all add: set_XEXP_def fld_access)

lemma set_XEXP_code [simp]: "GET_CODE (set_XEXP x n v) = GET_CODE x" "GET_MODE (set_XEXP x n v) = GET_MODE x"
  by (cases x; simp add: set_XEXP_def)+

lemma XEXP_length: "XEXP x n \<noteq> NULL_RTX \<Longrightarrow> n < length (rtx_flds x)"
  by (cases x) (auto simp: fld_access split: if_splits)

lemma adj_offsettable_moved:
  assumes "GET_CODE op = MEM"
  shows "\<exists>m. adj_offsettable_operand pool op c = Some m \<and> GET_CODE m = MEM \<and> GET_MODE m = GET_MODE op
    \<and> (XEXP m 0 = moved_address pool (XEXP op 0) c
       \<or> GET_CODE (XEXP op 0) = PLUS \<and> XEXP m 0 = moved_address pool (copy_rtx (XEXP op 0)) c)"
proof -
  let ?y = "XEXP op 0"
  have o: "GET_CODE (offset_mem pool op c) = MEM" "GET_MODE (offset_mem pool op c) = GET_MODE op"
    "XEXP (offset_mem pool op c) 0 = plus_constant_for_output_wide pool ?y c"
    by (simp_all add: offset_mem_def fld_access)
  show ?thesis
  proof (cases "\<not> CONSTANT_P ?y \<and> GET_CODE ?y = PLUS")
    case False
    then have "GET_CODE ?y \<noteq> PLUS" by (auto simp: CONSTANT_P_def)
    then show ?thesis using assms o
      by (auto simp: adj_offsettable_operand_def CONSTANT_ADDRESS_P_def moved_address_def)
  next
    case True
    have x: "XEXP (copy_rtx op) 0 = copy_rtx ?y" using assms by (simp add: copy_XEXP)
    have l: "0 < length (rtx_flds (copy_rtx op))"
      using True XEXP_length [of "copy_rtx op" 0] unfolding x by (cases "XEXP op 0") auto
    show ?thesis
    proof (cases "find_constant_term_loc ?y")
      case None
      then show ?thesis using assms True o
        by (auto simp: adj_offsettable_operand_def CONSTANT_ADDRESS_P_def moved_address_def x find_loc_copy Let_def)
    next
      case (Some p)
      then show ?thesis using assms True set_get_XEXP [OF l]
        by (auto simp: adj_offsettable_operand_def CONSTANT_ADDRESS_P_def moved_address_def x find_loc_copy Let_def)
    qed
  qed
qed

locale offset_contract = address_contract +
  fixes pool :: const_pool
  assumes between: "legit s m y \<Longrightarrow> \<not> CONSTANT_P y \<Longrightarrow> \<not> mode_dependent_address_p y
      \<Longrightarrow> legit s QImode (moved_address pool y (word_of_int (int (GET_MODE_SIZE m) - 1)))
      \<Longrightarrow> d < GET_MODE_SIZE m \<Longrightarrow> legit s QImode (moved_address pool y (of_nat d))"
    and copied: "legit s m y \<Longrightarrow> GET_CODE y = PLUS \<Longrightarrow> legit s QImode (moved_address pool y c)
      \<Longrightarrow> legit s QImode (moved_address pool (copy_rtx y) c)"
    and not_address_of: "legit s m y \<Longrightarrow> \<not> CONSTANT_P y \<Longrightarrow> \<not> mode_dependent_address_p y
      \<Longrightarrow> GET_CODE (moved_address pool y c) \<noteq> ADDRESSOF"
begin

lemma adjusted_address_valid:
  assumes "GET_CODE op = MEM" "legit s (GET_MODE op) (XEXP op 0)" "\<not> CONSTANT_P (XEXP op 0)"
    and "offsettable_address_p legit pool s (GET_MODE op) (XEXP op 0)" "d < GET_MODE_SIZE (GET_MODE op)"
  shows "\<exists>m. adj_offsettable_operand pool op (of_nat d) = Some m \<and> GET_CODE m = MEM
    \<and> legit s QImode (XEXP m 0)"
proof -
  note t = moved_address_test [OF assms(3,4)]
  have "legit s QImode (moved_address pool (XEXP op 0) (word_of_int (int (GET_MODE_SIZE (GET_MODE op)) - 1)))"
    using t not_address_of [OF assms(2,3)]
    by (auto simp: strict_memory_address_p_def memory_address_p_def split: if_splits)
  then have v: "legit s QImode (moved_address pool (XEXP op 0) (of_nat d))"
    using between assms t by blast
  show ?thesis
    using adj_offsettable_moved [OF assms(1), of pool "of_nat d"] v copied [OF assms(2) _ v] by auto
qed

end

end
