(* ===== verification/Z80_Operands.thy ===== *)
theory Z80_Operands
  imports Recog
begin

text \<open>
  The port's side of the operand predicates: the address recogniser of the Z80 meets the two
  contracts of gcc/recog.c, and the operand predicates of gcc/config/z80/z80.c built on
  them. The predicates read the same globals as those of gcc/recog.c.
\<close>

definition z80_legit :: "renumber \<Rightarrow> address_rule" where
  "z80_legit rr strict mode x = z80_go_if_legitimate_address rr x mode strict"

section \<open>The contracts\<close>

lemma legit_cases:
  assumes "z80_legit rr s m y" "\<not> CONSTANT_P y" "\<not> mode_dependent_address_p y"
  obtains "GET_CODE y = REG" "REGNO_OK_FOR_BASE_P2 rr (REGNO y) s"
  | "GET_CODE y = PLUS" "GET_CODE (XEXP y 0) = REG" "GET_CODE (XEXP y 1) = CONST_INT"
    "VALID_CONSTANT_OFFSET_P (XEXP y 1) m" "\<not> s \<or> REGNO_OK_FOR_BASE_P2 rr (REGNO (XEXP y 0)) s"
  using assms
  by (auto simp: z80_legit_def z80_go_if_legitimate_address_def go_if_legitimate_address_internal_def
      register_indirect_p_def CONSTANT_ADDRESS_P_def PUSH_POP_ADDRESS_P_def mode_dependent_address_p_def
      GO_IF_MODE_DEPENDENT_ADDRESS_def split: if_splits)

lemma legit_plus:
  assumes "GET_CODE y = PLUS"
  shows "z80_legit rr s m y \<longleftrightarrow> GET_CODE (XEXP y 0) = REG \<and> VALID_CONSTANT_OFFSET_P (XEXP y 1) m
    \<and> (\<not> s \<or> REGNO_OK_FOR_BASE_P2 rr (REGNO (XEXP y 0)) s)"
  using assms
  by (auto simp: z80_legit_def z80_go_if_legitimate_address_def go_if_legitimate_address_internal_def
      register_indirect_p_def CONSTANT_ADDRESS_P_def PUSH_POP_ADDRESS_P_def CONSTANT_P_def
      VALID_CONSTANT_OFFSET_P_def)

lemma moved_reg:
  assumes "GET_CODE y = REG"
  shows "moved_address pool y c = (if c = 0 then y else gen_rtx_fmt_ee PLUS (GET_MODE y) y (GEN_INT (sint c)))"
  using assms
  by (simp add: moved_address_def plus_constant_for_output_wide.simps plus_constant_wide_def
      add_constant.simps finish_sum_def)

lemma moved_plus:
  assumes "GET_CODE y = PLUS" "GET_CODE (XEXP y 0) = REG" "GET_CODE (XEXP y 1) = CONST_INT"
  shows "moved_address pool y c = set_XEXP y 1
    (if c = 0 then XEXP y 1 else GEN_INT (sint (word_of_int (INTVAL (XEXP y 1)) + c)))"
proof -
  have n: "XEXP y 0 \<noteq> NULL_RTX" "XEXP y 1 \<noteq> NULL_RTX" using assms by auto
  have "find_constant_term_loc y = Some [1]"
    using assms n by (simp add: find_constant_term_loc.simps CONSTANT_P_def)
  then show ?thesis using assms
    by (simp add: moved_address_def store_loc_def plus_constant_for_output_wide.simps
        plus_constant_wide_def add_constant.simps)
qed

lemma set_XEXP_other: "n \<noteq> k \<Longrightarrow> XEXP (set_XEXP x n v) k = XEXP x k"
  by (cases x) (simp_all add: set_XEXP_def fld_access)

lemma sint_small: "- 2147483648 \<le> i \<Longrightarrow> i < 2147483648 \<Longrightarrow> sint (word_of_int i :: hwi) = i"
  by (simp add: sint_sbintrunc' signed_take_bit_int_eq_self)

lemma moved_plus_parts:
  assumes "GET_CODE y = PLUS" "GET_CODE (XEXP y 0) = REG" "GET_CODE (XEXP y 1) = CONST_INT"
    and "- 128 \<le> INTVAL (XEXP y 1)" "INTVAL (XEXP y 1) \<le> 127" "d < 64"
  shows "GET_CODE (moved_address pool y (of_nat d)) = PLUS" "XEXP (moved_address pool y (of_nat d)) 0 = XEXP y 0"
    "GET_CODE (XEXP (moved_address pool y (of_nat d)) 1) = CONST_INT"
    "INTVAL (XEXP (moved_address pool y (of_nat d)) 1) = INTVAL (XEXP y 1) + int d"
proof -
  let ?k = "if (of_nat d :: hwi) = 0 then XEXP y 1
    else GEN_INT (sint (word_of_int (INTVAL (XEXP y 1)) + (of_nat d :: hwi)))"
  have m: "moved_address pool y (of_nat d) = set_XEXP y 1 ?k" by (rule moved_plus [OF assms(1-3)])
  have l: "1 < length (rtx_flds y)" using assms(3) by (intro XEXP_length) auto
  have "sint (word_of_int (INTVAL (XEXP y 1)) + (of_nat d :: hwi)) = sint (word_of_int (INTVAL (XEXP y 1) + int d) :: hwi)"
    by simp
  also have "\<dots> = INTVAL (XEXP y 1) + int d" using assms(4-6) by (intro sint_small) linarith+
  finally have i: "INTVAL ?k = INTVAL (XEXP y 1) + int d"
    using assms(6) by (auto simp: of_nat_eq_0_iff word_of_nat_eq_0_iff)
  show "GET_CODE (moved_address pool y (of_nat d)) = PLUS" "XEXP (moved_address pool y (of_nat d)) 0 = XEXP y 0"
    by (simp_all only: m set_XEXP_code assms(1) set_XEXP_other one_neq_zero not_False_eq_True)
  show "GET_CODE (XEXP (moved_address pool y (of_nat d)) 1) = CONST_INT"
    using assms(3) by (simp only: m set_get_XEXP [OF l]) simp
  show "INTVAL (XEXP (moved_address pool y (of_nat d)) 1) = INTVAL (XEXP y 1) + int d"
    by (simp only: m set_get_XEXP [OF l] i)
qed

lemma legit_narrow: "z80_legit rr s m y \<Longrightarrow> GET_MODE_SIZE m' \<le> GET_MODE_SIZE m \<Longrightarrow> z80_legit rr s m' y"
  unfolding z80_legit_def by (rule legitimate_narrower)

lemma moved_legit:
  assumes l: "z80_legit rr s m y" and y: "\<not> CONSTANT_P y" "\<not> mode_dependent_address_p y"
    and d: "d < GET_MODE_SIZE m"
  shows "z80_legit rr s QImode (moved_address pool y (of_nat d))"
  using l y
proof (cases rule: legit_cases)
  case 1
  have d64: "d < 64" using d mode_size_bound [of m] by linarith
  have sd: "sint (of_nat d :: hwi) = int d" using d64 sint_small [of "int d"] by simp
  have q: "z80_legit rr s QImode y" using legit_narrow [OF l, of QImode] d by simp
  show ?thesis
  proof (cases "(of_nat d :: hwi) = 0")
    case True
    then show ?thesis using 1 q by (simp add: moved_reg)
  next
    case False
    then show ?thesis using 1 d64 sd
      by (simp add: moved_reg legit_plus VALID_CONSTANT_OFFSET_P_def offset_limits)
  qed
next
  case 2
  have d64: "d < 64" using d mode_size_bound [of m] by linarith
  have r: "- 128 \<le> INTVAL (XEXP y 1)" "INTVAL (XEXP y 1) \<le> 127 - (int (GET_MODE_SIZE m) + 1)"
    using 2 by (simp_all add: VALID_CONSTANT_OFFSET_P_def offset_limits)
  then have "INTVAL (XEXP y 1) \<le> 127" by linarith
  note p = moved_plus_parts [OF 2(1-3) r(1) this d64]
  show ?thesis
    unfolding legit_plus [OF p(1)] using 2 r d p [unfolded One_nat_def]
    by (simp add: VALID_CONSTANT_OFFSET_P_def offset_limits)
qed

lemma copied_plus:
  assumes "z80_legit rr s m y" "GET_CODE y = PLUS"
  shows "GET_CODE (copy_rtx y) = PLUS" "XEXP (copy_rtx y) 0 = XEXP y 0" "XEXP (copy_rtx y) 1 = XEXP y 1"
proof -
  have c: "GET_CODE (XEXP y 0) = REG" "GET_CODE (XEXP y 1) = CONST_INT"
    using assms by (simp_all add: legit_plus VALID_CONSTANT_OFFSET_P_def)
  have "copy_rtx (XEXP y 0) = XEXP y 0" using c by (cases "XEXP y 0") simp_all
  moreover have "copy_rtx (XEXP y 1) = XEXP y 1" using c by (cases "XEXP y 1") simp_all
  ultimately show "GET_CODE (copy_rtx y) = PLUS" "XEXP (copy_rtx y) 0 = XEXP y 0" "XEXP (copy_rtx y) 1 = XEXP y 1"
    using assms(2) by (simp_all add: copy_XEXP)
qed

lemma moved_plus_XEXP:
  assumes "GET_CODE y = PLUS" "GET_CODE (XEXP y 0) = REG" "GET_CODE (XEXP y 1) = CONST_INT"
  shows "XEXP (moved_address pool y c) 0 = XEXP y 0"
    "XEXP (moved_address pool y c) 1 = (if c = 0 then XEXP y 1 else GEN_INT (sint (word_of_int (INTVAL (XEXP y 1)) + c)))"
proof -
  have l: "1 < length (rtx_flds y)" using assms(3) by (intro XEXP_length) auto
  show "XEXP (moved_address pool y c) 0 = XEXP y 0"
    by (simp only: moved_plus [OF assms] set_XEXP_other one_neq_zero not_False_eq_True)
  show "XEXP (moved_address pool y c) 1 = (if c = 0 then XEXP y 1 else GEN_INT (sint (word_of_int (INTVAL (XEXP y 1)) + c)))"
    by (simp only: moved_plus [OF assms] set_get_XEXP [OF l])
qed

interpretation z80_addresses: offset_contract "z80_legit rr" pool for rr pool
proof
  show "z80_legit rr False m x" if "z80_legit rr True m x" for m x
    using that unfolding z80_legit_def by (rule strict_nonstrict)
  show "z80_legit rr s m x" if "CONSTANT_P x" for s m x
    using that by (simp add: z80_legit_def address_defs)
  show "z80_legit rr s m x" if "GET_CODE x = PRE_DEC \<or> GET_CODE x = POST_INC" "XEXP x 0 = stack_pointer_rtx" for s m x
    using that by (auto simp: z80_legit_def z80_go_if_legitimate_address_def go_if_legitimate_address_internal_def
        PUSH_POP_ADDRESS_P_def stack_pointer_rtx_def target_simps REG_P_def)
  show "z80_legit rr s m' x" if "z80_legit rr s m x" "GET_MODE_SIZE m' \<le> GET_MODE_SIZE m" for s m m' x
    using that by (rule legit_narrow)
  show "z80_legit rr s QImode (moved_address pool y (of_nat d))"
    if "z80_legit rr s m y" "\<not> CONSTANT_P y" "\<not> mode_dependent_address_p y" "d < GET_MODE_SIZE m" for s m y d
    using that by (rule moved_legit)
  show "z80_legit rr s QImode (moved_address pool (copy_rtx y) c)"
    if l: "z80_legit rr s m y" and p: "GET_CODE y = PLUS" and v: "z80_legit rr s QImode (moved_address pool y c)" for s m y c
  proof -
    note cp = copied_plus [OF l p]
    have c: "GET_CODE (XEXP y 0) = REG" "GET_CODE (XEXP y 1) = CONST_INT"
      using l p by (simp_all add: legit_plus VALID_CONSTANT_OFFSET_P_def)
    have c': "GET_CODE (XEXP (copy_rtx y) 0) = REG" "GET_CODE (XEXP (copy_rtx y) 1) = CONST_INT"
      using c cp by simp_all
    have m: "GET_CODE (moved_address pool y c) = PLUS" "GET_CODE (moved_address pool (copy_rtx y) c) = PLUS"
      using moved_plus [OF p c, of pool c] moved_plus [OF cp(1) c', of pool c] p cp(1) by simp_all
    from v show ?thesis
      unfolding legit_plus [OF m(1)] legit_plus [OF m(2)] moved_plus_XEXP [OF p c]
        moved_plus_XEXP [OF cp(1) c'] cp(2,3) .
  qed
  show "GET_CODE (moved_address pool y c) \<noteq> ADDRESSOF"
    if "z80_legit rr s m y" "\<not> CONSTANT_P y" "\<not> mode_dependent_address_p y" for s m y c
    using that by (cases rule: legit_cases) (simp_all add: moved_reg moved_plus)
qed

section \<open>Moving an address keeps it valid and moves its value\<close>

lemma finish_sum_constant: "CONSTANT_P (finish_sum m x c True)"
  by (auto simp: finish_sum_def CONSTANT_P_def Let_def)

lemma add_constant_True: "link_time_const x \<Longrightarrow> CONSTANT_P (add_constant pool x c True)"
proof (induction "size x" arbitrary: x c rule: less_induct)
  case less
  have l: "link_time_const (XEXP x n)" for n
  proof (cases x)
    case (Rtx k m f fs)
    show ?thesis
    proof (cases "n < length fs")
      case True
      with less.prems Rtx have "link_time_const_fld (fs ! n)" by simp
      with Rtx True show ?thesis by (cases "fs ! n") (simp_all add: fld_access)
    qed (simp add: Rtx fld_access)
  qed (simp add: fld_access)
  have mem: "GET_CODE x \<noteq> MEM" using less.prems by (cases x) auto
  have rec: "GET_CODE x \<in> {CONST_rtx, PLUS} \<Longrightarrow> CONSTANT_P (add_constant pool (XEXP x 0) c' True)" for c'
    by (intro less.hyps size_XEXP l) auto
  show ?case
    using mem rec
    by (subst add_constant.simps)
      (simp add: Let_def finish_sum_constant immed_double_const_def CONSTANT_P_def [of "GEN_INT _"]
        CONSTANT_P_def [of "gen_rtx_CONST_DOUBLE _ _ _ _"] split: prod.split)
qed

lemma moved_constant:
  assumes "CONSTANT_P y" "link_time_const y" "GET_CODE y \<notin> {HIGH, CONSTANT_P_RTX}"
  shows "CONSTANT_P (moved_address pool y c)"
proof -
  have c: "GET_CODE y \<in> {LABEL_REF, SYMBOL_REF, CONST_INT, CONST_DOUBLE, CONST_rtx}"
    using assms by (auto simp: CONSTANT_P_def)
  have l: "link_time_const (XEXP y 0)"
  proof (cases y)
    case (Rtx k m f fs)
    with assms(2) show ?thesis by (cases fs; cases "hd fs") (auto simp: fld_access)
  qed (simp add: fld_access)
  have "CONSTANT_P (add_constant pool y c False)"
    using c add_constant_True [OF l]
    by (subst add_constant.simps)
      (auto simp add: Let_def finish_sum_constant immed_double_const_def CONSTANT_P_def [of "GEN_INT _"]
        CONSTANT_P_def [of "gen_rtx_CONST_DOUBLE _ _ _ _"] split: prod.split)
  then show ?thesis using c assms(1)
    by (subst moved_address_def, subst plus_constant_for_output_wide.simps)
      (auto simp: plus_constant_wide_def)
qed

lemma plus_shape:
  assumes "rtx_value st y = Some v" "GET_CODE y = PLUS"
  obtains f a b where "y = Rtx PLUS HImode f [FExp a, FExp b]"
proof (cases y)
  case (Rtx c m f fs)
  with assms have c: "c = PLUS" "m = HImode" "apply_code PLUS (map (fld_value st) fs) = Some v"
    by (auto split: if_splits)
  then have "length (map (fld_value st) fs) = 2" using apply_code_PLUS by fastforce
  then obtain p q where fs: "fs = [p, q]" by (auto simp: numeral_2_eq_2 length_Suc_conv)
  from c(3) fs obtain va vb where ab: "fld_value st p = Some va" "fld_value st q = Some vb"
    by (cases "fld_value st p"; cases "fld_value st q") auto
  then obtain a b where "p = FExp a" "q = FExp b" by (cases p; cases q) auto
  with fs c Rtx show ?thesis by (intro that) simp
qed (use assms in simp)

lemma moved_plus_value:
  assumes "rtx_value st y = Some v" "GET_CODE y = PLUS" "GET_CODE (XEXP y 0) = REG" "GET_CODE (XEXP y 1) = CONST_INT"
  shows "rtx_value st (moved_address pool y c) = Some (v + to16 c)"
proof -
  obtain f a b where y: "y = Rtx PLUS HImode f [FExp a, FExp b]" using plus_shape [OF assms(1,2)] .
  then have b: "GET_CODE b = CONST_INT" using assms(4) by (simp add: fld_access)
  then have vb: "rtx_value st b = Some (word_of_int (INTVAL b))" by (cases b) auto
  with assms(1) y obtain va where va: "rtx_value st a = Some va" "v = va + word_of_int (INTVAL b)"
    by (cases "rtx_value st a") auto
  show ?thesis
    using va vb y moved_plus [OF assms(2-4), of pool c]
    by (auto simp: set_XEXP_def fld_access value_GEN_INT to16_add to16_of_int)
qed

lemma copied_plus_value:
  assumes "rtx_value st y = Some v" "z80_legit rr s m y" "GET_CODE y = PLUS"
  shows "rtx_value st (copy_rtx y) = Some v"
proof -
  obtain f a b where y: "y = Rtx PLUS HImode f [FExp a, FExp b]" using plus_shape [OF assms(1,3)] .
  have "copy_rtx a = a" "copy_rtx b = b"
    using copied_plus [OF assms(2,3)] by (simp_all add: y fld_access GET_RTX_CLASS_def)
  then show ?thesis using assms(1) by (simp add: y)
qed

section \<open>The operand predicates of the port\<close>

definition z80_auto_inc_p :: "rtx \<Rightarrow> bool" where
  "z80_auto_inc_p x \<longleftrightarrow> GET_CODE x = PRE_DEC \<or> GET_CODE x = POST_INC
     \<or> GET_CODE x = POST_DEC \<or> GET_CODE x = PRE_INC"

function symbolic_memory_operand :: "rtx \<Rightarrow> machine_mode \<Rightarrow> bool" where
  "symbolic_memory_operand op mode =
     (if GET_CODE op \<noteq> MEM then False
      else (let a = XEXP op 0 in
        if GET_CODE a = SYMBOL_REF \<or> GET_CODE a = LABEL_REF then True
        else if GET_CODE a = CONST_rtx then
          (GET_CODE (XEXP (XEXP a 0) 0) = SYMBOL_REF \<or> GET_CODE (XEXP (XEXP a 0) 0) = LABEL_REF)
          \<and> GET_CODE (XEXP (XEXP a 0) 1) = CONST_INT
        else if GET_CODE a = CONST_DOUBLE then GET_MODE a = mode
        else if GET_CODE a = PLUS then
          symbolic_memory_operand (XEXP a 0) mode \<and> symbolic_memory_operand (XEXP a 1) mode
        else False))"
  by pat_completeness auto

termination
proof (relation "measure (size \<circ> fst)", goal_cases)
  case (2 op mode x)
  then have "size (XEXP op 0) < size op" by (intro size_XEXP) auto
  then show ?case using 2 size_XEXP_le [of "XEXP op 0" 0] by simp
next
  case (3 op mode x)
  then have "size (XEXP op 0) < size op" by (intro size_XEXP) auto
  then show ?case using 3 size_XEXP_le [of "XEXP op 0" 1] by simp
qed simp

declare symbolic_memory_operand.simps [simp del]

text \<open>The strictness the predicates use: from reload on.\<close>

definition reloading :: "reload_state \<Rightarrow> bool" where
  "reloading st \<longleftrightarrow> reload_completed st \<or> reload_in_progress st"

definition z80_register_indirect_p :: "reload_state \<Rightarrow> rtx \<Rightarrow> machine_mode \<Rightarrow> bool" where
  "z80_register_indirect_p st operand mode =
     (if GET_CODE operand \<noteq> MEM then False
      else register_indirect_p (reg_renumber st) (XEXP operand 0) mode (reloading st))"

definition z80_small_indexed_indirect_p :: "reload_state \<Rightarrow> rtx \<Rightarrow> machine_mode \<Rightarrow> bool" where
  "z80_small_indexed_indirect_p st operand mode =
     (if GET_CODE operand \<noteq> MEM then False
      else if \<not> register_indirect_p (reg_renumber st) (XEXP operand 0) mode (reloading st) then False
      else True)"

definition register_indirect_operand :: "reload_state \<Rightarrow> rtx \<Rightarrow> machine_mode \<Rightarrow> bool" where
  "register_indirect_operand st operand mode = register_indirect_p (reg_renumber st) operand mode True"

definition constant_memory_operand :: "rtx \<Rightarrow> machine_mode \<Rightarrow> bool" where
  "constant_memory_operand op mode \<longleftrightarrow> GET_CODE op = MEM \<and> CONSTANT_ADDRESS_P (XEXP op 0)"

abbreviation z80_rule :: "reload_state \<Rightarrow> address_rule" where
  "z80_rule st \<equiv> z80_legit (reg_renumber st)"

definition reg_or_some_mem_operand :: "reload_state \<Rightarrow> rtx \<Rightarrow> machine_mode \<Rightarrow> bool" where
  "reg_or_some_mem_operand st operand mode =
     (if GET_CODE operand = MEM then
        (if symbolic_memory_operand (XEXP operand 0) mode then True
         else if IS_STACK_PUSH operand then True
         else if z80_register_indirect_p st operand mode then True
         else False)
      else register_operand (z80_rule st) st operand mode)"

definition tst_operand :: "reload_state \<Rightarrow> rtx \<Rightarrow> machine_mode \<Rightarrow> bool" where
  "tst_operand st operand mode =
     (if GET_CODE operand = MEM \<and> z80_auto_inc_p (XEXP operand 0) then False
      else nonimmediate_operand (z80_rule st) st operand mode)"

definition cmp_operand :: "reload_state \<Rightarrow> rtx \<Rightarrow> machine_mode \<Rightarrow> bool" where
  "cmp_operand st operand mode =
     (if GET_CODE operand = MEM \<and> z80_auto_inc_p (XEXP operand 0) then False
      else general_operand (z80_rule st) st operand mode)"

definition stack_register_operand :: "rtx \<Rightarrow> machine_mode \<Rightarrow> bool" where
  "stack_register_operand operand mode = SP_REG_P operand"

definition non_stack_register_operand :: "reload_state \<Rightarrow> rtx \<Rightarrow> machine_mode \<Rightarrow> bool" where
  "non_stack_register_operand st operand mode =
     (if GET_CODE operand = REG then \<not> SP_REG_P operand
      else general_operand (z80_rule st) st operand mode)"

definition address_register :: "rtx \<Rightarrow> bool" where
  "address_register op = (if GET_CODE op = REG \<and> A_REG_P op then True else False)"

definition memory_reload_operand :: "rtx \<Rightarrow> machine_mode \<Rightarrow> bool" where
  "memory_reload_operand operand mode \<longleftrightarrow> GET_CODE operand = MEM
     \<and> GET_CODE (XEXP operand 0) = PLUS
     \<and> (GET_CODE (XEXP (XEXP operand 0) 0) = REG \<and> GET_CODE (XEXP (XEXP operand 0) 1) = CONST_INT
       \<or> GET_CODE (XEXP (XEXP operand 0) 1) = REG \<and> GET_CODE (XEXP (XEXP operand 0) 0) = CONST_INT)"

definition non_push_operand :: "reload_state \<Rightarrow> rtx \<Rightarrow> machine_mode \<Rightarrow> bool" where
  "non_push_operand st operand mode =
     (if \<not> general_operand (z80_rule st) st operand mode then False
      else if push_operand operand mode then False
      else True)"

section \<open>Properties\<close>

text \<open>C38. On the Z80 an operand that \<open>offsettable_address_p\<close> accepts can be moved up by any
  number of bytes inside the object: \<open>adj_offsettable_operand\<close> gives a memory reference with
  a valid byte address, strictly or leniently as asked, whose value is the old address plus
  the offset.\<close>

theorem adj_offsettable_sound:
  assumes mem: "GET_CODE op = MEM" and l: "z80_legit rr s (GET_MODE op) (XEXP op 0)"
    and o: "offsettable_address_p (z80_legit rr) pool s (GET_MODE op) (XEXP op 0)"
    and d: "d < GET_MODE_SIZE (GET_MODE op)"
    and k: "CONSTANT_P (XEXP op 0) \<Longrightarrow> link_time_const (XEXP op 0)"
    and v: "rtx_value st (XEXP op 0) = Some v" and a: "address_modes (XEXP op 0)"
    and pool: "pool_sound st pool"
  shows "\<exists>m. adj_offsettable_operand pool op (of_nat d) = Some m \<and> GET_CODE m = MEM
    \<and> z80_legit rr s QImode (XEXP m 0) \<and> rtx_value st (XEXP m 0) = Some (v + of_nat d)"
proof -
  let ?y = "XEXP op 0" and ?c = "of_nat d :: hwi"
  have td: "to16 ?c = of_nat d" using to16_of_int [of "int d"] by simp
  obtain m where m: "adj_offsettable_operand pool op ?c = Some m" "GET_CODE m = MEM"
    "XEXP m 0 = moved_address pool ?y ?c \<or> GET_CODE ?y = PLUS \<and> XEXP m 0 = moved_address pool (copy_rtx ?y) ?c"
    using adj_offsettable_moved [OF mem] by blast
  have sum_value: "rtx_value st (plus_constant_for_output_wide pool ?y ?c) = Some (v + of_nat d)"
    using plus_constant_value [OF pool v a] td by simp
  show ?thesis
  proof (cases "CONSTANT_P ?y")
    case True
    have nh: "GET_CODE ?y \<notin> {HIGH, CONSTANT_P_RTX}"
      using v by (cases ?y) (auto simp: apply_code_other Let_def split: if_splits)
    have x: "XEXP m 0 = moved_address pool ?y ?c" using m(3) True by (auto simp: CONSTANT_P_def)
    have "z80_legit rr s QImode (XEXP m 0)"
      unfolding x by (rule z80_addresses.const_ok [OF moved_constant [OF True k [OF True] nh]])
    moreover have "moved_address pool ?y ?c = plus_constant_for_output_wide pool ?y ?c"
      using True by (auto simp: moved_address_def CONSTANT_P_def)
    ultimately show ?thesis using m sum_value x by auto
  next
    case False
    have nd: "\<not> mode_dependent_address_p ?y" using moved_address_test [OF False o] by blast
    have "z80_legit rr s QImode (XEXP m 0)"
      using z80_addresses.adjusted_address_valid [OF mem l False o d] m(1) by auto
    moreover have "rtx_value st (XEXP m 0) = Some (v + of_nat d)"
      using l False nd
    proof (cases rule: legit_cases)
      case 1
      then show ?thesis using m(3) sum_value by (auto simp: moved_address_def)
    next
      case 2
      note cp = copied_plus [OF l 2(1)]
      have cv: "rtx_value st (copy_rtx ?y) = Some v"
        by (rule copied_plus_value [OF v l 2(1)])
      show ?thesis
        using m(3) moved_plus_value [OF v 2(1-3), of pool ?c]
          moved_plus_value [OF cv cp(1), of pool ?c] 2 cp td by auto
    qed
    ultimately show ?thesis using m by blast
  qed
qed

theorem adj_offsettable_sound_witness:
  "\<forall>st. \<exists>m. adj_offsettable_operand (\<lambda>x c. None)
      (gen_rtx_MEM HImode (gen_rtx_fmt_ee PLUS HImode (gen_rtx_REG HImode 5) (GEN_INT 4))) (of_nat 1) = Some m
    \<and> rtx_value st (XEXP m 0) = Some (rs_regs st 5 + 4 + 1)"
proof
  fix st
  let ?y = "gen_rtx_fmt_ee PLUS HImode (gen_rtx_REG HImode 5) (GEN_INT 4)"
  have y: "GET_CODE ?y = PLUS" "XEXP ?y 0 = gen_rtx_REG HImode 5" "XEXP ?y 1 = GEN_INT 4" by simp_all
  have l: "z80_legit None True HImode ?y"
    unfolding legit_plus [OF y(1)] y
    by (simp add: VALID_CONSTANT_OFFSET_P_def offset_limits target_simps)
  have f: "find_constant_term_loc ?y = Some [1]"
    by (simp add: find_constant_term_loc.simps CONSTANT_P_def gen_rtx_defs fld_access)
  have w: "plus_constant_wide (\<lambda>x c. None) (GEN_INT 4) 1 = GEN_INT 5"
    by (simp add: plus_constant_wide_def add_constant.simps)
  have "store_loc ?y [1] (GEN_INT 5) = gen_rtx_fmt_ee PLUS HImode (gen_rtx_REG HImode 5) (GEN_INT 5)"
    by (simp add: store_loc_def set_XEXP_def gen_rtx_fmt_ee_def)
  then have o: "offsettable_address_p (z80_legit None) (\<lambda>x c. None) True HImode ?y"
    using f w
    by (simp add: offsettable_address_p_def Let_def CONSTANT_ADDRESS_P_def CONSTANT_P_def
        mode_dependent_address_p_def GO_IF_MODE_DEPENDENT_ADDRESS_def strict_memory_address_p_def
        legit_plus VALID_CONSTANT_OFFSET_P_def offset_limits target_simps)
  have v: "rtx_value st ?y = Some (rs_regs st 5 + 4)" "address_modes ?y"
    by (simp_all add: gen_rtx_defs fld_access fld_names)
  show "\<exists>m. adj_offsettable_operand (\<lambda>x c. None) (gen_rtx_MEM HImode ?y) (of_nat 1) = Some m
    \<and> rtx_value st (XEXP m 0) = Some (rs_regs st 5 + 4 + 1)"
    using adj_offsettable_sound [of "gen_rtx_MEM HImode ?y" None True "\<lambda>x c. None" 1 st "rs_regs st 5 + 4"]
      l o v by (auto simp: CONSTANT_P_def pool_sound_def)
qed

text \<open>From reload on, the operands \<open>z80_register_indirect_p\<close> accepts are memory at a
  displacement from IX or IY, and the displacement reaches every byte of the object.\<close>

theorem z80_register_indirect_sound:
  assumes "z80_register_indirect_p st operand mode" "reload_completed st \<or> reload_in_progress st"
  shows "GET_CODE operand = MEM \<and> (\<exists>r d. addressing_mode (reg_renumber st) (XEXP operand 0) = Some (Indexed r d)
    \<and> encodable (GET_MODE_SIZE mode) (Indexed r d))"
proof -
  let ?x = "XEXP operand 0"
  have m: "GET_CODE operand = MEM" "register_indirect_p (reg_renumber st) ?x mode True"
    using assms by (auto simp: z80_register_indirect_p_def reloading_def split: if_splits)
  have "GET_CODE ?x = REG \<and> REG_VALID_FOR_BASE_P (hard_base (reg_renumber st) ?x)
    \<or> GET_CODE ?x = PLUS \<and> GET_CODE (XEXP ?x 0) = REG \<and> REG_VALID_FOR_BASE_P (hard_base (reg_renumber st) (XEXP ?x 0))
      \<and> VALID_CONSTANT_OFFSET_P (XEXP ?x 1) mode"
    using m(2) by (auto simp: register_indirect_p_def REGNO_OK_FOR_BASE_P2_def base_hard split: if_splits)
  then show ?thesis using m(1) mode_size_bound [of mode]
    by (auto simp: addressing_mode_def REG_VALID_FOR_BASE_P_def CONSTANT_P_def
        VALID_CONSTANT_OFFSET_P_def offset_limits)
qed

theorem z80_register_indirect_sound_witness:
  "\<exists>r d. addressing_mode None (gen_rtx_REG HImode 4) = Some (Indexed r d) \<and> encodable 4 (Indexed r d)"
  using z80_register_indirect_sound
    [of "\<lparr>reload_completed = True, reload_in_progress = False, volatile_ok = False, reg_renumber = None\<rparr>"
      "gen_rtx_MEM SImode (gen_rtx_REG HImode 4)" SImode]
  by (auto simp: z80_register_indirect_p_def register_indirect_p_def reloading_def target_simps)

text \<open>\<open>reg_or_some_mem_operand\<close> hands the address, not the memory reference, to
  \<open>symbolic_memory_operand\<close>, which wants a memory reference: memory at a symbol is refused,
  and memory whose address is itself in memory at a symbol is accepted.\<close>

theorem reg_or_some_mem_refuses_symbol:
  "\<not> reg_or_some_mem_operand st (gen_rtx_MEM m (gen_rtx_SYMBOL_REF HImode name)) m
   \<and> reg_or_some_mem_operand st (gen_rtx_MEM m (gen_rtx_MEM HImode (gen_rtx_SYMBOL_REF HImode name))) m
   \<and> constant_memory_operand (gen_rtx_MEM m (gen_rtx_SYMBOL_REF HImode name)) m"
  by (simp add: reg_or_some_mem_operand_def symbolic_memory_operand.simps IS_STACK_PUSH_def
      z80_register_indirect_p_def register_indirect_p_def constant_memory_operand_def
      CONSTANT_ADDRESS_P_def CONSTANT_P_def)

end
