(* ===== verification/Emit_Parts.thy ===== *)
theory Emit_Parts
  imports Z80_Operands
begin

text \<open>
  Parts of values (gcc/emit-rtl.c): \<open>change_address\<close>, \<open>gen_lowpart_common\<close>, \<open>gen_lowpart\<close>,
  \<open>gen_highpart\<close>, the parts of complex values and \<open>subreg_lowpart_p\<close>. On this target words
  and bytes are little endian, so the branches for big endian words are not compiled in.

  The functions that emit code for an operand are parameters, in the record \<open>emit_env\<close>:
  \<open>memory_address\<close>, \<open>copy_to_reg\<close> and \<open>force_reg\<close>, which return the expression to use
  instead, and the conversions of real numbers. \<open>None\<close> is an \<open>abort\<close>, except in
  \<open>gen_lowpart_common\<close>, where it is the null result. The conversions of
  \<open>gen_lowpart_common\<close> that need a host word of the target's size do not apply to a 16-bit
  word; with \<open>REAL_ARITHMETIC\<close> only the one to \<open>SFmode\<close> is left.
\<close>

record emit_env =
  ee_reload :: reload_state
  function_value_matters :: bool  \<comment> \<open>\<open>rtx_equal_function_value_matters\<close>\<close>
  ee_memory_address :: "machine_mode \<Rightarrow> rtx \<Rightarrow> rtx"
  ee_copy_to_reg :: "rtx \<Rightarrow> rtx"
  ee_force_reg :: "machine_mode \<Rightarrow> rtx \<Rightarrow> rtx"
  real_from_single :: "int \<Rightarrow> rtx"  \<comment> \<open>\<open>REAL_VALUE_FROM_TARGET_SINGLE\<close> as a \<open>CONST_DOUBLE\<close>\<close>
  single_image :: "rtx \<Rightarrow> int"  \<comment> \<open>\<open>REAL_VALUE_TO_TARGET_SINGLE\<close>\<close>
  split_double :: "rtx \<Rightarrow> rtx \<times> rtx"
  ee_pool :: const_pool

abbreviation ee_rule :: "emit_env \<Rightarrow> address_rule" where "ee_rule env \<equiv> z80_rule (ee_reload env)"

section \<open>Memory references with another mode or address\<close>

definition change_address :: "emit_env \<Rightarrow> rtx \<Rightarrow> machine_mode \<Rightarrow> rtx \<Rightarrow> rtx option" where
  "change_address env memref mode addr =
     (if GET_CODE memref \<noteq> MEM then None
      else
        (let mode = (if mode = VOIDmode then GET_MODE memref else mode);
             addr = (if addr = NULL_RTX then XEXP memref 0 else addr);
             addr' = (if reloading (ee_reload env) then
                        (if \<not> memory_address_p (ee_rule env) mode addr then None else Some addr)
                      else Some (ee_memory_address env mode addr))
         in case addr' of None \<Rightarrow> None
            | Some addr \<Rightarrow>
                if rtx_equal_p (function_value_matters env) addr (XEXP memref 0) \<and> mode = GET_MODE memref then Some memref
                else Some (Rtx MEM mode
                  (no_flags\<lparr>fl_unchanging := RTX_UNCHANGING_P memref,
                     fl_volatil := MEM_VOLATILE_P memref,
                     fl_in_struct := fl_in_struct (rtx_flags_of memref),
                     fl_frame_related := fl_frame_related (rtx_flags_of memref)\<rparr>)
                  [FExp addr, FNone 0])))"

section \<open>The low part\<close>

definition mode_words :: "machine_mode \<Rightarrow> nat" where
  "mode_words mode = (GET_MODE_SIZE mode + (UNITS_PER_WORD - 1)) div UNITS_PER_WORD"

definition int_mode :: "machine_mode \<Rightarrow> bool" where
  "int_mode mode \<longleftrightarrow> GET_MODE_CLASS mode = MODE_INT \<or> GET_MODE_CLASS mode = MODE_PARTIAL_INT"

text \<open>\<open>val << (32 - width) >> (32 - width)\<close> on a signed host word.\<close>

definition sign_extend_host :: "nat \<Rightarrow> int \<Rightarrow> int" where
  "sign_extend_host width val =
     sint (signed_drop_bit (32 - width) (push_bit (32 - width) (word_of_int val :: hwi)))"

definition lowpart_reg :: "emit_env \<Rightarrow> machine_mode \<Rightarrow> rtx \<Rightarrow> rtx option" where
  "lowpart_reg env mode x =
     (if REGNO x < FIRST_PSEUDO_REGISTER \<and> \<not> hard_regno_mode_ok (REGNO x) mode
        \<and> hard_regno_mode_ok (REGNO x) (GET_MODE x) then None
      else if REGNO x < FIRST_PSEUDO_REGISTER
        \<and> (\<not> REG_FUNCTION_VALUE_P x \<or> \<not> function_value_matters env)
        \<and> x \<noteq> frame_pointer_rtx \<and> x \<noteq> stack_pointer_rtx
      then Some (gen_rtx_REG mode (REGNO x))
      else Some (gen_rtx_SUBREG mode x 0))"

definition lowpart_const :: "machine_mode \<Rightarrow> rtx \<Rightarrow> rtx option" where
  "lowpart_const mode x =
     (if mode_bits mode \<ge> 64 then Some x
      else if mode_bits mode > 32 then None
      else if mode_bits mode = 32 then
        Some (if GET_CODE x = CONST_INT then x else GEN_INT (CONST_DOUBLE_LOW x))
      else
        (let val = sign_extend_host (mode_bits mode) (if GET_CODE x = CONST_INT then INTVAL x else CONST_DOUBLE_LOW x)
         in Some (if GET_CODE x = CONST_INT \<and> INTVAL x = val then x else GEN_INT val)))"

function gen_lowpart_common :: "emit_env \<Rightarrow> machine_mode \<Rightarrow> rtx \<Rightarrow> rtx option" where
  "gen_lowpart_common env mode x =
     (if GET_MODE x = mode then Some x
      else if GET_MODE x \<noteq> VOIDmode \<and> mode_words mode > mode_words (GET_MODE x) then None
      else if (GET_CODE x = ZERO_EXTEND \<or> GET_CODE x = SIGN_EXTEND) \<and> int_mode mode then
        (if GET_MODE (XEXP x 0) = mode then Some (XEXP x 0)
         else if GET_MODE_SIZE mode < GET_MODE_SIZE (GET_MODE (XEXP x 0)) then gen_lowpart_common env mode (XEXP x 0)
         else if GET_MODE_SIZE mode < GET_MODE_SIZE (GET_MODE x) then Some (gen_rtx_fmt_e (GET_CODE x) mode (XEXP x 0))
         else None)
      else if GET_CODE x = SUBREG
        \<and> (GET_MODE_SIZE mode \<le> UNITS_PER_WORD \<or> GET_MODE_SIZE mode = GET_MODE_UNIT_SIZE (GET_MODE x))
      then Some (if GET_MODE (SUBREG_REG x) = mode \<and> SUBREG_WORD x = 0 then SUBREG_REG x
                 else gen_rtx_SUBREG mode (SUBREG_REG x) (SUBREG_WORD x))
      else if GET_CODE x = REG then lowpart_reg env mode x
      else if int_mode mode \<and> GET_MODE x = VOIDmode \<and> (GET_CODE x = CONST_INT \<or> GET_CODE x = CONST_DOUBLE)
      then lowpart_const mode x
      else if mode = SFmode \<and> GET_CODE x = CONST_INT then Some (real_from_single env (INTVAL x))
      else None)"
  by pat_completeness auto
termination by (relation "measure (\<lambda>(env, mode, x). size x)") (auto intro!: size_XEXP)

declare gen_lowpart_common.simps [simp del]

function gen_lowpart :: "emit_env \<Rightarrow> machine_mode \<Rightarrow> rtx \<Rightarrow> rtx option" where
  "gen_lowpart env mode x =
     (case gen_lowpart_common env mode x of
        Some result \<Rightarrow> Some result
      | None \<Rightarrow>
          if GET_CODE x = REG then gen_lowpart_common env mode (ee_copy_to_reg env x)
          else if GET_CODE x = MEM then
            change_address env x mode (plus_constant_wide (ee_pool env) (XEXP x 0) 0)
          else if GET_CODE x = ADDRESSOF then
            (let y = ee_force_reg env (GET_MODE x) x
             in if GET_CODE y = ADDRESSOF then None else gen_lowpart env mode y)
          else None)"
  by pat_completeness auto
termination by (relation "measure (\<lambda>(env, mode, x). if GET_CODE x = ADDRESSOF then 1 else 0)") auto

declare gen_lowpart.simps [simp del]

section \<open>The high part\<close>

definition GET_MODE_MASK :: "machine_mode \<Rightarrow> hwi" where
  "GET_MODE_MASK mode = (if mode_bits mode \<ge> 32 then - 1 else push_bit (mode_bits mode) 1 - 1)"

definition highpart_offset :: "machine_mode \<Rightarrow> machine_mode \<Rightarrow> int" where
  "highpart_offset mode xmode =
     (int (max (GET_MODE_SIZE xmode) UNITS_PER_WORD) - int (max (GET_MODE_SIZE mode) UNITS_PER_WORD))
     - (if GET_MODE_SIZE mode < UNITS_PER_WORD
        then int (GET_MODE_SIZE mode) - int (min UNITS_PER_WORD (GET_MODE_SIZE xmode)) else 0)"

definition highpart_word :: "machine_mode \<Rightarrow> rtx \<Rightarrow> int" where
  "highpart_word mode x =
     (if REGNO x < FIRST_PSEUDO_REGISTER
      then HARD_REGNO_NREGS (REGNO x) (GET_MODE x) - HARD_REGNO_NREGS (REGNO x) mode
      else (int (GET_MODE_SIZE (GET_MODE x)) - int (max (GET_MODE_SIZE mode) UNITS_PER_WORD)) div int UNITS_PER_WORD)"

function gen_highpart :: "emit_env \<Rightarrow> machine_mode \<Rightarrow> rtx \<Rightarrow> rtx option" where
  "gen_highpart env mode x =
     (if GET_MODE_SIZE mode > UNITS_PER_WORD \<and> GET_MODE_SIZE mode \<noteq> GET_MODE_UNIT_SIZE (GET_MODE x) then None
      else if GET_CODE x = CONST_DOUBLE \<and> GET_MODE_CLASS (GET_MODE x) \<noteq> MODE_FLOAT then
        Some (GEN_INT (sint (and (word_of_int (CONST_DOUBLE_HIGH x)) (GET_MODE_MASK mode))))
      else if GET_CODE x = CONST_INT then Some (GEN_INT (drop_bit (32 - BITS_PER_WORD) (INTVAL x)))
      else if GET_CODE x = MEM then
        change_address env x mode
          (plus_constant_wide (ee_pool env) (XEXP x 0) (word_of_int (highpart_offset mode (GET_MODE x))))
      else if GET_CODE x = SUBREG then
        (if SUBREG_WORD x \<noteq> 0 then None else gen_highpart env mode (SUBREG_REG x))
      else if GET_CODE x = REG then
        Some (if REGNO x < FIRST_PSEUDO_REGISTER
                \<and> (\<not> REG_FUNCTION_VALUE_P x \<or> \<not> function_value_matters env)
                \<and> x \<noteq> frame_pointer_rtx \<and> x \<noteq> stack_pointer_rtx
              then gen_rtx_REG mode (REGNO x + highpart_word mode x)
              else gen_rtx_SUBREG mode x (highpart_word mode x))
      else None)"
  by pat_completeness auto
termination by (relation "measure (\<lambda>(env, mode, x). size x)") (auto intro!: size_XEXP simp: SUBREG_REG_def)

declare gen_highpart.simps [simp del]

section \<open>Complex values and subregs\<close>

definition gen_realpart :: "emit_env \<Rightarrow> machine_mode \<Rightarrow> rtx \<Rightarrow> rtx option" where
  "gen_realpart env mode x =
     (if GET_CODE x = CONCAT \<and> GET_MODE (XEXP x 0) = mode then Some (XEXP x 0)
      else gen_lowpart env mode x)"

definition gen_imagpart :: "emit_env \<Rightarrow> machine_mode \<Rightarrow> rtx \<Rightarrow> rtx option" where
  "gen_imagpart env mode x =
     (if GET_CODE x = CONCAT \<and> GET_MODE (XEXP x 0) = mode then Some (XEXP x 1)
      else if mode_bits mode < BITS_PER_WORD \<and> REG_P x \<and> REGNO x < FIRST_PSEUDO_REGISTER then None
      else gen_highpart env mode x)"

definition subreg_realpart_p :: "rtx \<Rightarrow> bool option" where
  "subreg_realpart_p x =
     (if GET_CODE x \<noteq> SUBREG then None
      else Some (SUBREG_WORD x * int UNITS_PER_WORD < int (GET_MODE_UNIT_SIZE (GET_MODE (SUBREG_REG x)))))"

definition subreg_lowpart_p :: "rtx \<Rightarrow> bool" where
  "subreg_lowpart_p x =
     (if GET_CODE x \<noteq> SUBREG then True
      else if GET_MODE (SUBREG_REG x) = VOIDmode then False
      else SUBREG_WORD x = 0)"

end
