(* ===== verification/Z80_Frame.thy ===== *)
theory Z80_Frame
  imports Z80_Operands
begin

text \<open>
  Stack frames of the Z80 port: \<open>emit_move_after_reload\<close>, \<open>z80_total_frame_size\<close>,
  \<open>expand_prologue\<close> and \<open>expand_epilogue\<close> of gcc/config/z80/z80.c and the frame macros of
  gcc/config/z80/z80.h. The functions return the list of emitted insns, each a pattern with
  its notes; \<open>None\<close> is an \<open>abort\<close>, or the use of the scratch register that the two callers
  leave uninitialised. The globals of the function being compiled form a record.

  \<open>move_insn_of\<close> stands for its effect on the operands that occur here: the expander
  \<open>movhi\<close> of the machine description changes only moves from memory or a constant to memory
  and pushes of anything but a register.

  The emitted patterns are executed on the machine states of the value semantics, extended
  by the pre-decrement of a push and the post-increment of a pop.
\<close>

section \<open>Globals and frame macros\<close>

record frame_info =
  fr_reload_completed :: bool
  get_frame_size :: nat
  frame_pointer_needed :: bool
  regs_ever_live :: "int \<Rightarrow> bool"
  call_used_regs :: "int \<Rightarrow> bool"

definition STARTING_FRAME_OFFSET :: int where "STARTING_FRAME_OFFSET = 0"
definition FIRST_PARM_OFFSET :: int where "FIRST_PARM_OFFSET = 4"

definition saved_regs :: "frame_info \<Rightarrow> int list" where
  "saved_regs fi = filter (\<lambda>r. regs_ever_live fi r \<and> \<not> call_used_regs fi r) hard_regs"

definition INITIAL_FRAME_POINTER_OFFSET :: "frame_info \<Rightarrow> int" where
  "INITIAL_FRAME_POINTER_OFFSET fi =
     int (get_frame_size fi) + 2 * int (length (filter (\<lambda>r. r < 8) (saved_regs fi)))"

definition z80_total_frame_size :: "frame_info \<Rightarrow> nat" where
  "z80_total_frame_size fi =
     get_frame_size fi + (if frame_pointer_needed fi then HARD_REG_SIZE else 0)
       + HARD_REG_SIZE * length (saved_regs fi)"

section \<open>Emission\<close>

record emitted =
  em_pattern :: rtx
  em_notes :: rtx

definition ix_reg :: rtx where "ix_reg = gen_rtx_REG HImode HARD_IX_REGNUM"
definition iy_reg :: rtx where "iy_reg = gen_rtx_REG HImode HARD_IY_REGNUM"
definition stack_push_word :: rtx where
  "stack_push_word = gen_rtx_MEM HImode (gen_rtx_fmt_e PRE_DEC HImode (gen_rtx_REG HImode HARD_SP_REGNUM))"
definition stack_pop_word :: rtx where
  "stack_pop_word = gen_rtx_MEM HImode (gen_rtx_fmt_e POST_INC HImode (gen_rtx_REG HImode HARD_SP_REGNUM))"

definition insn_of :: "rtx \<Rightarrow> emitted" where
  "insn_of pat = \<lparr>em_pattern = pat, em_notes = NULL_RTX\<rparr>"

definition gen_SET :: "rtx \<Rightarrow> rtx \<Rightarrow> rtx" where
  "gen_SET x y = gen_rtx_fmt_ee SET VOIDmode x y"

definition move_insn_of :: "rtx \<Rightarrow> rtx \<Rightarrow> emitted" where
  "move_insn_of x y = insn_of (gen_SET x y)"

definition add_inc_note :: "rtx \<Rightarrow> emitted \<Rightarrow> emitted" where
  "add_inc_note reg insn =
     insn\<lparr>em_notes := gen_rtx_fmt_ee EXPR_LIST (note_mode REG_INC) reg (em_notes insn)\<rparr>"

definition emit_move_after_reload :: "rtx \<Rightarrow> rtx \<Rightarrow> rtx option \<Rightarrow> emitted list option" where
  "emit_move_after_reload dst src scratch =
     (let note = (\<lambda>insn. if IS_STACK_PUSH dst then add_inc_note (XEXP (XEXP dst 0) 0) insn
                   else if IS_STACK_POP src then add_inc_note (XEXP (XEXP src 0) 0) insn
                   else insn)
      in if H_REG_P dst \<or> H_REG_P src then Some [note (move_insn_of dst src)]
         else (case scratch of None \<Rightarrow> None
           | Some s \<Rightarrow> Some [move_insn_of s src, note (move_insn_of dst s)]))"

definition append_emitted :: "emitted list option \<Rightarrow> emitted list option \<Rightarrow> emitted list option" where
  "append_emitted a b = (case a of None \<Rightarrow> None | Some xs \<Rightarrow> map_option ((@) xs) b)"

fun emit_each :: "(int \<Rightarrow> emitted list option) \<Rightarrow> int list \<Rightarrow> emitted list option" where
  "emit_each f [] = Some []"
| "emit_each f (r # rs) = append_emitted (f r) (emit_each f rs)"

section \<open>Prologue and epilogue\<close>

definition expand_prologue :: "frame_info \<Rightarrow> emitted list option" where
  "expand_prologue fi =
     (if \<not> fr_reload_completed fi then None
      else append_emitted
        (if frame_pointer_needed fi then
           append_emitted (emit_move_after_reload stack_push_word frame_pointer_rtx None)
             (append_emitted (emit_move_after_reload frame_pointer_rtx const0_rtx None)
               (Some [insn_of (gen_SET frame_pointer_rtx
                  (gen_rtx_fmt_ee PLUS HImode frame_pointer_rtx stack_pointer_rtx))]))
         else Some [])
        (append_emitted
          (Some (if get_frame_size fi > 0 then
             [move_insn_of iy_reg (GEN_INT (- int (get_frame_size fi))),
              insn_of (gen_SET iy_reg (gen_rtx_fmt_ee PLUS HImode iy_reg stack_pointer_rtx)),
              move_insn_of stack_pointer_rtx iy_reg]
           else []))
          (emit_each (\<lambda>regno. emit_move_after_reload stack_push_word (gen_rtx_REG HImode regno) None)
            (saved_regs fi))))"

text \<open>The epilogue ends with the jump of the return, which is left out here.\<close>

definition expand_epilogue :: "frame_info \<Rightarrow> emitted list option" where
  "expand_epilogue fi =
     (if \<not> fr_reload_completed fi then None
      else append_emitted
        (emit_each (\<lambda>regno. emit_move_after_reload (gen_rtx_REG HImode regno) stack_pop_word None)
          (saved_regs fi))
        (Some (move_insn_of stack_pointer_rtx ix_reg #
          (if frame_pointer_needed fi then [move_insn_of frame_pointer_rtx stack_pop_word] else []))))"

section \<open>Execution\<close>

definition set_reg :: "int \<Rightarrow> 16 word \<Rightarrow> rtl_state \<Rightarrow> rtl_state" where
  "set_reg r v st = st\<lparr>rs_regs := (rs_regs st)(r := v)\<rparr>"

definition store :: "16 word \<Rightarrow> 16 word \<Rightarrow> rtl_state \<Rightarrow> rtl_state" where
  "store a v st = st\<lparr>rs_mem := store16 (rs_mem st) a v\<rparr>"

definition source_value :: "rtl_state \<Rightarrow> rtx \<Rightarrow> (16 word \<times> rtl_state) option" where
  "source_value st x =
     (if GET_CODE x = MEM \<and> GET_CODE (XEXP x 0) = POST_INC \<and> GET_MODE x = HImode then
        (let r = REGNO (XEXP (XEXP x 0) 0); a = rs_regs st r
         in Some (load16 (rs_mem st) a, set_reg r (a + 2) st))
      else map_option (\<lambda>v. (v, st)) (rtx_value st x))"

definition assign :: "rtl_state \<Rightarrow> rtx \<Rightarrow> 16 word \<Rightarrow> rtl_state option" where
  "assign st x v =
     (if GET_MODE x \<noteq> HImode then None
      else if GET_CODE x = REG then Some (set_reg (REGNO x) v st)
      else if GET_CODE x = MEM \<and> GET_CODE (XEXP x 0) = PRE_DEC then
        (let r = REGNO (XEXP (XEXP x 0) 0); a = rs_regs st r - 2
         in Some (store a v (set_reg r a st)))
      else if GET_CODE x = MEM then map_option (\<lambda>a. store a v st) (rtx_value st (XEXP x 0))
      else None)"

definition exec :: "rtl_state \<Rightarrow> emitted \<Rightarrow> rtl_state option" where
  "exec st insn =
     (if GET_CODE (em_pattern insn) = SET then
        (case source_value st (SET_SRC (em_pattern insn)) of None \<Rightarrow> None
         | Some (v, st') \<Rightarrow> assign st' (SET_DEST (em_pattern insn)) v)
      else None)"

fun exec_all :: "rtl_state \<Rightarrow> emitted list \<Rightarrow> rtl_state option" where
  "exec_all st [] = Some st"
| "exec_all st (i # is) = (case exec st i of None \<Rightarrow> None | Some st' \<Rightarrow> exec_all st' is)"

definition run :: "rtl_state \<Rightarrow> emitted list option \<Rightarrow> rtl_state option" where
  "run st code = (case code of None \<Rightarrow> None | Some is \<Rightarrow> exec_all st is)"

section \<open>Lemmas\<close>

lemma exec_all_append: "exec_all st (a @ b) = (case exec_all st a of None \<Rightarrow> None | Some st' \<Rightarrow> exec_all st' b)"
  by (induction a arbitrary: st) (auto split: option.splits)

lemma run_append:
  "a \<noteq> None \<Longrightarrow> b \<noteq> None \<Longrightarrow> run st (append_emitted a b) = (case run st a of None \<Rightarrow> None | Some st' \<Rightarrow> run st' b)"
  by (auto simp: append_emitted_def run_def exec_all_append split: option.splits)

lemma regs_set_reg [simp]: "rs_regs (set_reg r v st) = (rs_regs st)(r := v)"
  "rs_mem (set_reg r v st) = rs_mem st" "rs_regs (store a v st) = rs_regs st"
  "rs_mem (store a v st) = store16 (rs_mem st) a v"
  by (simp_all add: set_reg_def store_def)

lemma value_REG [simp]: "rtx_value st (gen_rtx_REG HImode r) = Some (rs_regs st r)"
  by (simp add: gen_rtx_REG_def fld_access fld_names)

lemma value_INT [simp]: "rtx_value st (GEN_INT i) = Some (word_of_int i)"
  by (rule value_GEN_INT)

lemma value_PLUS [simp]:
  "rtx_value st (gen_rtx_fmt_ee PLUS HImode (gen_rtx_REG HImode a) (gen_rtx_REG HImode b))
     = Some (rs_regs st a + rs_regs st b)"
  by (simp add: value_gen_PLUS)

lemma exec_move [simp]:
  "exec st (add_inc_note n i) = exec st i"
  "exec st (insn_of (gen_SET x y)) = (case source_value st y of None \<Rightarrow> None | Some (v, st') \<Rightarrow> assign st' x v)"
  by (simp_all add: exec_def add_inc_note_def insn_of_def gen_SET_def split: option.split prod.split)

lemma source_simps [simp]:
  "source_value st (gen_rtx_REG HImode r) = Some (rs_regs st r, st)"
  "source_value st (GEN_INT i) = Some (word_of_int i, st)"
  "source_value st const0_rtx = Some (0, st)"
  "source_value st (gen_rtx_fmt_ee PLUS HImode (gen_rtx_REG HImode a) (gen_rtx_REG HImode b))
     = Some (rs_regs st a + rs_regs st b, st)"
  "source_value st stack_pop_word = Some (load16 (rs_mem st) (rs_regs st 6), set_reg 6 (rs_regs st 6 + 2) st)"
  by (simp_all add: source_value_def const0_rtx_def stack_pop_word_def Let_def)

lemma assign_simps [simp]:
  "assign st (gen_rtx_REG HImode r) v = Some (set_reg r v st)"
  "assign st stack_push_word v = Some (store (rs_regs st 6 - 2) v (set_reg 6 (rs_regs st 6 - 2) st))"
  by (simp_all add: assign_def stack_push_word_def Let_def)

lemmas frame_regs = frame_pointer_rtx_def stack_pointer_rtx_def ix_reg_def iy_reg_def

lemma move_H [simp]:
  "H_REGNO_P r \<Longrightarrow> run st (emit_move_after_reload stack_push_word (gen_rtx_REG HImode r) s)
    = Some (store (rs_regs st 6 - 2) (rs_regs st r) (set_reg 6 (rs_regs st 6 - 2) st))"
  "H_REGNO_P r \<Longrightarrow> run st (emit_move_after_reload (gen_rtx_REG HImode r) stack_pop_word s)
    = Some (set_reg r (load16 (rs_mem st) (rs_regs st 6)) (set_reg 6 (rs_regs st 6 + 2) st))"
  "H_REGNO_P r \<Longrightarrow> run st (emit_move_after_reload (gen_rtx_REG HImode r) const0_rtx s) = Some (set_reg r 0 st)"
  by (simp_all add: emit_move_after_reload_def run_def Let_def H_REG_P_def REG_P_def move_insn_of_def)


text \<open>Pushing and popping a list of registers.\<close>

definition push_reg :: "int \<Rightarrow> rtl_state \<Rightarrow> rtl_state" where
  "push_reg r st = store (rs_regs st 6 - 2) (rs_regs st r) (set_reg 6 (rs_regs st 6 - 2) st)"

definition pop_reg :: "int \<Rightarrow> rtl_state \<Rightarrow> rtl_state" where
  "pop_reg r st = set_reg r (load16 (rs_mem st) (rs_regs st 6)) (set_reg 6 (rs_regs st 6 + 2) st)"

lemma emit_each_some: "(\<And>r. r \<in> set rs \<Longrightarrow> f r \<noteq> None) \<Longrightarrow> emit_each f rs \<noteq> None"
  by (induction rs) (auto simp: append_emitted_def split: option.splits)

lemma move_H_some:
  "H_REGNO_P r \<Longrightarrow> emit_move_after_reload stack_push_word (gen_rtx_REG HImode r) s \<noteq> None"
  "H_REGNO_P r \<Longrightarrow> emit_move_after_reload (gen_rtx_REG HImode r) x s \<noteq> None"
  by (simp_all add: emit_move_after_reload_def Let_def H_REG_P_def REG_P_def)

lemma run_pushes:
  "list_all H_REGNO_P rs \<Longrightarrow>
    run st (emit_each (\<lambda>r. emit_move_after_reload stack_push_word (gen_rtx_REG HImode r) None) rs)
      = Some (fold push_reg rs st)"
proof (induction rs arbitrary: st)
  case Nil
  show ?case by (simp add: run_def)
next
  case (Cons r rs)
  then have "emit_each (\<lambda>r. emit_move_after_reload stack_push_word (gen_rtx_REG HImode r) None) rs \<noteq> None"
    by (intro emit_each_some move_H_some) (simp add: list_all_iff)
  with Cons show ?case by (simp add: run_append move_H_some push_reg_def)
qed

lemma run_pops:
  "list_all H_REGNO_P rs \<Longrightarrow>
    run st (emit_each (\<lambda>r. emit_move_after_reload (gen_rtx_REG HImode r) stack_pop_word None) rs)
      = Some (fold pop_reg rs st)"
proof (induction rs arbitrary: st)
  case Nil
  show ?case by (simp add: run_def)
next
  case (Cons r rs)
  then have "emit_each (\<lambda>r. emit_move_after_reload (gen_rtx_REG HImode r) stack_pop_word None) rs \<noteq> None"
    by (intro emit_each_some move_H_some) (simp add: list_all_iff)
  with Cons show ?case by (simp add: run_append move_H_some pop_reg_def)
qed

text \<open>Words in memory.\<close>

lemma load_store_same: "load16 (store16 m a v) a = v"
proof -
  have "a \<noteq> a + 1" by simp
  then show ?thesis
    by (intro bit_word_eqI) (auto simp: load16_def store16_def bit_simps)
qed

lemma of_nat16: "n < 65536 \<Longrightarrow> (of_nat n :: 16 word) = 0 \<longleftrightarrow> n = 0"
  by (auto simp: word_of_nat_eq_0_iff dest: dvd_imp_le)

lemma byte_above: "n + 2 < 65536 \<Longrightarrow> store16 m (a - 2) v (a + of_nat n) = m (a + of_nat n)"
proof -
  assume n: "n + 2 < 65536"
  have "a + of_nat n \<noteq> a - 2"
  proof
    assume "a + of_nat n = a - 2"
    then have "(of_nat (n + 2) :: 16 word) = 0" by (simp add: eq_diff_eq add.assoc add.commute)
    then show False using n of_nat16 [of "n + 2"] by simp
  qed
  moreover have "a + of_nat n \<noteq> a - 2 + 1"
  proof
    assume "a + of_nat n = a - 2 + 1"
    then have "(of_nat (n + 1) :: 16 word) = 0" by (simp add: algebra_simps)
    then show False using n of_nat16 [of "n + 1"] by simp
  qed
  ultimately show ?thesis by (simp add: store16_def)
qed

lemma push_simps:
  "rs_regs (push_reg r st) i = (if i = 6 then rs_regs st 6 - 2 else rs_regs st i)"
  "rs_mem (push_reg r st) = store16 (rs_mem st) (rs_regs st 6 - 2) (rs_regs st r)"
  by (simp_all add: push_reg_def)

lemma pop_simps:
  "rs_regs (pop_reg r st) i = (if i = r then load16 (rs_mem st) (rs_regs st 6)
     else if i = 6 then rs_regs st 6 + 2 else rs_regs st i)"
  "rs_mem (pop_reg r st) = rs_mem st"
  by (simp_all add: pop_reg_def)

lemma pushes_sp: "rs_regs (fold push_reg rs st) 6 = rs_regs st 6 - of_nat (2 * length rs)"
  by (induction rs arbitrary: st) (simp_all add: push_simps)

lemma pushes_regs: "r \<noteq> 6 \<Longrightarrow> rs_regs (fold push_reg rs st) r = rs_regs st r"
  by (induction rs arbitrary: st) (simp_all add: push_simps)

lemma pushes_above:
  "n + 2 * length rs < 65536 \<Longrightarrow>
    rs_mem (fold push_reg rs st) (rs_regs st 6 + of_nat n) = rs_mem st (rs_regs st 6 + of_nat n)"
proof (induction rs arbitrary: st n)
  case (Cons r rs)
  have e: "rs_regs (push_reg r st) 6 + of_nat (n + 2) = rs_regs st 6 + of_nat n"
    by (simp add: push_simps)
  have "rs_mem (fold push_reg rs (push_reg r st)) (rs_regs st 6 + of_nat n)
      = rs_mem (push_reg r st) (rs_regs st 6 + of_nat n)"
    using Cons.IH [of "n + 2" "push_reg r st"] Cons.prems unfolding e by simp
  also have "\<dots> = rs_mem st (rs_regs st 6 + of_nat n)"
    using Cons.prems by (simp add: push_simps byte_above)
  finally show ?case by simp
qed simp

lemma load16_above:
  assumes "n + 1 + 2 * length rs < 65536"
  shows "load16 (rs_mem (fold push_reg rs st)) (rs_regs st 6 + of_nat n) = load16 (rs_mem st) (rs_regs st 6 + of_nat n)"
proof -
  have "rs_regs st 6 + of_nat n + 1 = rs_regs st 6 + of_nat (n + 1)" by simp
  then show ?thesis
    using assms pushes_above [of n rs st] pushes_above [of "n + 1" rs st] by (simp only: load16_def)
qed

lemma pushes_saved:
  "list_all (\<lambda>r. r \<noteq> 6) rs \<Longrightarrow> k < length rs \<Longrightarrow> 2 * length rs < 65536 \<Longrightarrow>
    load16 (rs_mem (fold push_reg rs st)) (rs_regs st 6 - of_nat (2 * (k + 1))) = rs_regs st (rs ! k)"
proof (induction rs arbitrary: st k)
  case (Cons r rs)
  show ?case
  proof (cases k)
    case 0
    have "load16 (rs_mem (fold push_reg rs (push_reg r st))) (rs_regs (push_reg r st) 6 + of_nat 0)
        = load16 (rs_mem (push_reg r st)) (rs_regs (push_reg r st) 6 + of_nat 0)"
      using Cons.prems by (intro load16_above) simp
    then show ?thesis using 0 by (simp add: push_simps load_store_same)
  next
    case (Suc j)
    have e: "rs_regs st 6 - of_nat (2 * (k + 1)) = rs_regs (push_reg r st) 6 - of_nat (2 * (j + 1))"
      by (simp add: push_simps Suc algebra_simps)
    have "rs_regs (push_reg r st) (rs ! j) = rs_regs st (rs ! j)"
      using Cons.prems Suc by (simp add: push_simps list_all_iff)
    then show ?thesis
      using Cons.IH [of j "push_reg r st"] Cons.prems Suc unfolding e by simp
  qed
qed simp

lemma pops_sp: "list_all (\<lambda>r. r \<noteq> 6) rs \<Longrightarrow> rs_regs (fold pop_reg rs st) 6 = rs_regs st 6 + of_nat (2 * length rs)"
  by (induction rs arbitrary: st) (simp_all add: pop_simps)

lemma pops_mem: "rs_mem (fold pop_reg rs st) = rs_mem st"
  by (induction rs arbitrary: st) (simp_all add: pop_simps)

lemma pops_other: "r \<notin> set rs \<Longrightarrow> r \<noteq> 6 \<Longrightarrow> rs_regs (fold pop_reg rs st) r = rs_regs st r"
  by (induction rs arbitrary: st) (simp_all add: pop_simps)

lemma pops_value:
  "list_all (\<lambda>r. r \<noteq> 6) rs \<Longrightarrow> distinct rs \<Longrightarrow> k < length rs \<Longrightarrow>
    rs_regs (fold pop_reg rs st) (rs ! k) = load16 (rs_mem st) (rs_regs st 6 + of_nat (2 * k))"
proof (induction rs arbitrary: st k)
  case (Cons r rs)
  show ?case
  proof (cases k)
    case 0
    then show ?thesis using Cons.prems pops_other [of r rs "pop_reg r st"] by (simp add: pop_simps)
  next
    case (Suc j)
    then show ?thesis using Cons.IH [of j "pop_reg r st"] Cons.prems
      by (simp add: pop_simps algebra_simps)
  qed
qed simp

section \<open>The frame\<close>

text \<open>A function that can be compiled: registers are allocated and the saved ones are among
  HL, DE and BC, the pairs the pushes of the prologue can save.\<close>

definition frame_ok :: "frame_info \<Rightarrow> bool" where
  "frame_ok fi \<longleftrightarrow> fr_reload_completed fi \<and> list_all (\<lambda>r. r = 1 \<or> r = 2 \<or> r = 3) (saved_regs fi)
     \<and> z80_total_frame_size fi + 2 < 65536"

lemma saved_pairs:
  assumes "list_all (\<lambda>r. r = 1 \<or> r = 2 \<or> r = 3) rs"
  shows "list_all H_REGNO_P rs" "list_all (\<lambda>r. r \<noteq> 6) rs" "5 \<notin> set rs"
  using assms by (auto simp: list_all_iff target_simps)

lemma distinct_saved: "distinct (saved_regs fi)"
  by (simp add: saved_regs_def hard_regs_def)

text \<open>The state after the prologue with a frame pointer.\<close>

definition after_link :: "rtl_state \<Rightarrow> rtl_state" where
  "after_link st = set_reg 5 (rs_regs st 6 - 2) (push_reg 5 st)"

definition after_alloc :: "nat \<Rightarrow> rtl_state \<Rightarrow> rtl_state" where
  "after_alloc size_in_bytes st =
     (if size_in_bytes > 0 then
        set_reg 6 (rs_regs st 6 - of_nat size_in_bytes) (set_reg 4 (rs_regs st 6 - of_nat size_in_bytes) st)
      else st)"

lemma run_link:
  "run st (append_emitted (emit_move_after_reload stack_push_word frame_pointer_rtx None)
     (append_emitted (emit_move_after_reload frame_pointer_rtx const0_rtx None)
       (Some [insn_of (gen_SET frame_pointer_rtx
          (gen_rtx_fmt_ee PLUS HImode frame_pointer_rtx stack_pointer_rtx))]))) = Some (after_link st)"
proof -
  have h: "H_REGNO_P 5" by (simp add: target_simps)
  have s: "emit_move_after_reload stack_push_word (gen_rtx_REG HImode 5) None \<noteq> None"
    "emit_move_after_reload (gen_rtx_REG HImode 5) const0_rtx None \<noteq> None"
    using move_H_some h by blast+
  have "append_emitted (emit_move_after_reload (gen_rtx_REG HImode 5) const0_rtx None) (Some xs) \<noteq> None" for xs
    using s(2) by (auto simp: append_emitted_def)
  with s show ?thesis using h
    by (simp add: frame_regs run_append)
      (simp add: run_def after_link_def push_reg_def set_reg_def store_def)
qed

lemma run_alloc:
  "run st (Some (if k > 0 then
      [move_insn_of iy_reg (GEN_INT (- int k)),
       insn_of (gen_SET iy_reg (gen_rtx_fmt_ee PLUS HImode iy_reg stack_pointer_rtx)),
       move_insn_of stack_pointer_rtx iy_reg]
    else [])) = Some (after_alloc k st)"
  by (simp add: run_def frame_regs move_insn_of_def after_alloc_def set_reg_def)

lemma run_prologue:
  assumes "frame_ok fi"
  shows "run st (expand_prologue fi) = Some (fold push_reg (saved_regs fi)
    (after_alloc (get_frame_size fi) (if frame_pointer_needed fi then after_link st else st)))"
proof -
  have l: "list_all H_REGNO_P (saved_regs fi)" using assms by (simp add: frame_ok_def saved_pairs)
  then have n: "emit_each (\<lambda>r. emit_move_after_reload stack_push_word (gen_rtx_REG HImode r) None) (saved_regs fi) \<noteq> None"
    by (intro emit_each_some move_H_some) (simp add: list_all_iff)
  have k: "append_emitted (emit_move_after_reload stack_push_word frame_pointer_rtx None)
     (append_emitted (emit_move_after_reload frame_pointer_rtx const0_rtx None)
       (Some [insn_of (gen_SET frame_pointer_rtx
          (gen_rtx_fmt_ee PLUS HImode frame_pointer_rtx stack_pointer_rtx))])) \<noteq> None"
    using run_link by (metis run_def option.distinct(1) option.simps(4))
  have s: "append_emitted (Some xs) b \<noteq> None" if "b \<noteq> None" for xs b
    using that by (auto simp: append_emitted_def)
  have e: "run st (Some []) = Some st" by (simp add: run_def)
  show ?thesis
    using assms unfolding expand_prologue_def frame_ok_def
    by (cases "frame_pointer_needed fi")
      (simp_all only: if_True if_False not_True_eq_False run_append [OF k s [OF n]]
        run_append [OF option.distinct(2) s [OF n]] run_append [OF option.distinct(2) n] run_link run_alloc e
        run_pushes [OF l] option.case simp_thms)
qed

lemma run_epilogue:
  assumes "frame_ok fi"
  shows "run st (expand_epilogue fi) =
    (let st1 = fold pop_reg (saved_regs fi) st; st2 = set_reg 6 (rs_regs st1 5) st1
     in Some (if frame_pointer_needed fi then pop_reg 5 st2 else st2))"
proof -
  have l: "list_all H_REGNO_P (saved_regs fi)" using assms by (simp add: frame_ok_def saved_pairs)
  then have n: "emit_each (\<lambda>r. emit_move_after_reload (gen_rtx_REG HImode r) stack_pop_word None) (saved_regs fi) \<noteq> None"
    by (intro emit_each_some move_H_some) (simp add: list_all_iff)
  have t: "run st1 (Some (move_insn_of stack_pointer_rtx ix_reg #
          (if frame_pointer_needed fi then [move_insn_of frame_pointer_rtx stack_pop_word] else [])))
      = (let st2 = set_reg 6 (rs_regs st1 5) st1
         in Some (if frame_pointer_needed fi then pop_reg 5 st2 else st2))" for st1
    by (simp add: run_def frame_regs move_insn_of_def pop_reg_def Let_def)
  show ?thesis
    using assms unfolding expand_epilogue_def frame_ok_def
    by (simp only: if_False not_True_eq_False run_append [OF n option.distinct(2)] run_pops [OF l] t
        option.case Let_def simp_thms)
qed

text \<open>What the body of a function may not touch: the frame and stack pointers and the words
  the prologue saved. It may change any other register and any other memory.\<close>

definition body_keeps :: "frame_info \<Rightarrow> rtl_state \<Rightarrow> rtl_state \<Rightarrow> bool" where
  "body_keeps fi st st' \<longleftrightarrow> rs_regs st' 5 = rs_regs st 5 \<and> rs_regs st' 6 = rs_regs st 6
     \<and> load16 (rs_mem st') (rs_regs st 5) = load16 (rs_mem st) (rs_regs st 5)
     \<and> list_all (\<lambda>k. load16 (rs_mem st') (rs_regs st 6 + of_nat (2 * k))
          = load16 (rs_mem st) (rs_regs st 6 + of_nat (2 * k))) [0..<length (saved_regs fi)]"

lemma alloc_simps:
  "rs_regs (after_alloc n st) i = (if n > 0 \<and> (i = 4 \<or> i = 6) then rs_regs st 6 - of_nat n else rs_regs st i)"
  "rs_mem (after_alloc n st) = rs_mem st"
  "rs_regs (after_link st) i = (if i = 5 \<or> i = 6 then rs_regs st 6 - 2 else rs_regs st i)"
  "rs_mem (after_link st) = store16 (rs_mem st) (rs_regs st 6 - 2) (rs_regs st 5)"
  by (auto simp: after_alloc_def after_link_def push_simps)

lemma after_alloc_sp: "rs_regs (after_alloc n st) 6 = rs_regs st 6 - of_nat n"
  by (simp add: alloc_simps)

lemma prologue_linked:
  fixes st :: rtl_state
  assumes ok: "frame_ok fi" and fp: "frame_pointer_needed fi"
  defines "st1 \<equiv> fold push_reg (saved_regs fi) (after_alloc (get_frame_size fi) (after_link st))"
  shows "run st (expand_prologue fi) = Some st1"
    and "rs_regs st1 6 = rs_regs st 6 - of_nat (z80_total_frame_size fi)"
    and "rs_regs st1 5 = rs_regs st 6 - 2"
    and "load16 (rs_mem st1) (rs_regs st 6 - 2) = rs_regs st 5"
    and "k < length (saved_regs fi) \<Longrightarrow>
      load16 (rs_mem st1) (rs_regs st1 6 + of_nat (2 * k)) = rs_regs st (saved_regs fi ! (length (saved_regs fi) - 1 - k))"
    and "n + z80_total_frame_size fi < 65536 \<Longrightarrow> rs_mem st1 (rs_regs st 6 + of_nat n) = rs_mem st (rs_regs st 6 + of_nat n)"
proof -
  let ?rs = "saved_regs fi" and ?a = "after_alloc (get_frame_size fi) (after_link st)"
  have T: "z80_total_frame_size fi = get_frame_size fi + 2 + 2 * length ?rs"
    using fp by (simp add: z80_total_frame_size_def)
  have lt: "get_frame_size fi + 2 * length ?rs + 4 < 65536"
    using ok unfolding frame_ok_def T by simp
  have rs: "list_all (\<lambda>r. r \<noteq> 6) ?rs" "5 \<notin> set ?rs" "list_all (\<lambda>r. r = 1 \<or> r = 2 \<or> r = 3) ?rs"
    using ok by (simp_all add: frame_ok_def saved_pairs)
  have a6: "rs_regs ?a 6 = rs_regs st 6 - 2 - of_nat (get_frame_size fi)"
    by (simp add: after_alloc_sp alloc_simps(3))
  show "run st (expand_prologue fi) = Some st1"
    using run_prologue [OF ok] fp by (simp add: st1_def)
  show sp: "rs_regs st1 6 = rs_regs st 6 - of_nat (z80_total_frame_size fi)"
    unfolding st1_def pushes_sp a6 T by (simp add: algebra_simps)
  show "rs_regs st1 5 = rs_regs st 6 - 2"
    unfolding st1_def by (simp add: pushes_regs alloc_simps)
  have "load16 (rs_mem st1) (rs_regs ?a 6 + of_nat (get_frame_size fi)) = load16 (rs_mem ?a) (rs_regs ?a 6 + of_nat (get_frame_size fi))"
    unfolding st1_def using lt by (intro load16_above) simp
  then show "load16 (rs_mem st1) (rs_regs st 6 - 2) = rs_regs st 5"
    unfolding a6 by (simp add: alloc_simps load_store_same)
  show "load16 (rs_mem st1) (rs_regs st1 6 + of_nat (2 * k)) = rs_regs st (?rs ! (length ?rs - 1 - k))"
    if k: "k < length ?rs"
  proof -
    let ?j = "length ?rs - 1 - k"
    have e: "2 * length ?rs = 2 * k + 2 * (?j + 1)" using k by simp
    have addr: "rs_regs st1 6 + of_nat (2 * k) = rs_regs ?a 6 - of_nat (2 * (?j + 1))"
      unfolding st1_def pushes_sp e of_nat_add by (simp only: algebra_simps)
    have val: "rs_regs ?a (?rs ! ?j) = rs_regs st (?rs ! ?j)"
    proof -
      have "?rs ! ?j \<in> set ?rs" using k by (intro nth_mem) simp
      then have "?rs ! ?j \<in> {1, 2, 3}" using rs(3) by (auto simp: list_all_iff)
      then show ?thesis by (auto simp: alloc_simps)
    qed
    have j: "?j < length ?rs" "2 * length ?rs < 65536" using k lt by simp_all
    show ?thesis
      unfolding addr unfolding st1_def pushes_saved [OF rs(1) j] by (rule val)
  qed
  show "rs_mem st1 (rs_regs st 6 + of_nat n) = rs_mem st (rs_regs st 6 + of_nat n)"
    if n: "n + z80_total_frame_size fi < 65536"
  proof -
    have e: "rs_regs ?a 6 + of_nat (n + 2 + get_frame_size fi) = rs_regs st 6 + of_nat n"
      unfolding a6 by (simp add: algebra_simps)
    have "rs_mem st1 (rs_regs st 6 + of_nat n) = rs_mem ?a (rs_regs st 6 + of_nat n)"
      using pushes_above [of "n + 2 + get_frame_size fi" ?rs ?a] n T unfolding e st1_def by simp
    then show ?thesis using n T by (simp add: alloc_simps byte_above)
  qed
qed

lemma epilogue_registers:
  assumes "frame_ok fi" "frame_pointer_needed fi"
    and "run st (expand_prologue fi) = Some st1" and "body_keeps fi st1 st2"
    and "run st2 (expand_epilogue fi) = Some st3" and "k < length (saved_regs fi)"
  shows "rs_regs st3 (saved_regs fi ! k) = rs_regs st (saved_regs fi ! (length (saved_regs fi) - 1 - k))"
proof -
  let ?rs = "saved_regs fi"
  note p = prologue_linked [OF assms(1,2), where st = st]
  have st1: "st1 = fold push_reg ?rs (after_alloc (get_frame_size fi) (after_link st))"
    using p(1) assms(3) by simp
  have rs: "list_all (\<lambda>r. r \<noteq> 6) ?rs" "5 \<notin> set ?rs"
    using assms(1) by (simp_all add: frame_ok_def saved_pairs)
  define st' where "st' = set_reg 6 (rs_regs (fold pop_reg ?rs st2) 5) (fold pop_reg ?rs st2)"
  have st3: "st3 = pop_reg 5 st'"
    using run_epilogue [OF assms(1), of st2] assms(2,5) by (simp add: st'_def Let_def)
  have b: "rs_regs st2 6 = rs_regs st1 6"
    "load16 (rs_mem st2) (rs_regs st1 6 + of_nat (2 * k)) = rs_regs st (?rs ! (length ?rs - 1 - k))"
    using assms(4,6) p(5) st1 by (auto simp: body_keeps_def list_all_iff)
  have n: "?rs ! k \<in> set ?rs" using assms(6) by simp
  then have k: "?rs ! k \<noteq> 6" "?rs ! k \<noteq> 5" using rs by (auto simp: list_all_iff)
  have "rs_regs st3 (?rs ! k) = rs_regs (fold pop_reg ?rs st2) (?rs ! k)"
    using k by (simp add: st3 pop_simps st'_def)
  also have "\<dots> = rs_regs st (?rs ! (length ?rs - 1 - k))"
    using pops_value [OF rs(1) distinct_saved assms(6), of st2] b by simp
  finally show ?thesis .
qed

text \<open>C39. With a frame pointer, the prologue links the frame and the epilogue undoes it: whatever
  the body does outside the saved words, after the epilogue the stack pointer and IX have
  their values from before the prologue, and the saved registers have the values they had,
  in reverse order, so each its own when at most one is saved.\<close>

theorem frame_round_trip:
  assumes "frame_ok fi" "frame_pointer_needed fi"
    and "run st (expand_prologue fi) = Some st1" and "body_keeps fi st1 st2"
    and "run st2 (expand_epilogue fi) = Some st3"
  shows "rs_regs st3 6 = rs_regs st 6 \<and> rs_regs st3 5 = rs_regs st 5
    \<and> map (rs_regs st3) (saved_regs fi) = rev (map (rs_regs st) (saved_regs fi))"
proof (intro conjI)
  let ?rs = "saved_regs fi"
  note p = prologue_linked [OF assms(1,2), where st = st]
  have st1: "st1 = fold push_reg ?rs (after_alloc (get_frame_size fi) (after_link st))"
    using p(1) assms(3) by simp
  define st' where "st' = set_reg 6 (rs_regs (fold pop_reg ?rs st2) 5) (fold pop_reg ?rs st2)"
  have st3: "st3 = pop_reg 5 st'"
    using run_epilogue [OF assms(1), of st2] assms(2,5) by (simp add: st'_def Let_def)
  have "5 \<notin> set ?rs" using assms(1) by (simp add: frame_ok_def saved_pairs)
  then have s': "rs_regs st' 6 = rs_regs st 6 - 2" "load16 (rs_mem st') (rs_regs st 6 - 2) = rs_regs st 5"
    using assms(4) p(3,4) st1 by (simp_all add: st'_def pops_other pops_mem body_keeps_def)
  then show "rs_regs st3 6 = rs_regs st 6" "rs_regs st3 5 = rs_regs st 5"
    by (simp_all add: st3 pop_simps)
  show "map (rs_regs st3) ?rs = rev (map (rs_regs st) ?rs)"
    by (rule nth_equalityI) (simp_all add: epilogue_registers [OF assms] rev_nth)
qed

definition frame_example :: frame_info where
  "frame_example = \<lparr>fr_reload_completed = True, get_frame_size = 6, frame_pointer_needed = True,
     regs_ever_live = (\<lambda>r. r < 4), call_used_regs = (\<lambda>r. r \<noteq> 1 \<and> r \<noteq> 3)\<rparr>"

lemma frame_example_facts:
  "saved_regs frame_example = [1, 3]" "frame_ok frame_example" "frame_pointer_needed frame_example"
  by (simp_all add: saved_regs_def frame_example_def hard_regs_list frame_ok_def z80_total_frame_size_def)

theorem frame_round_trip_witness:
  "\<forall>st. \<exists>st1 st3. run st (expand_prologue frame_example) = Some st1
     \<and> run st1 (expand_epilogue frame_example) = Some st3
     \<and> rs_regs st3 6 = rs_regs st 6 \<and> rs_regs st3 1 = rs_regs st 3 \<and> rs_regs st3 3 = rs_regs st 1"
proof
  fix st
  obtain st1 where p: "run st (expand_prologue frame_example) = Some st1"
    using run_prologue [OF frame_example_facts(2)] by blast
  obtain st3 where e: "run st1 (expand_epilogue frame_example) = Some st3"
    using run_epilogue [OF frame_example_facts(2)] by (metis (no_types))
  have "body_keeps frame_example st1 st1" by (simp add: body_keeps_def list_all_iff)
  then have "rs_regs st3 6 = rs_regs st 6 \<and> rs_regs st3 5 = rs_regs st 5
    \<and> map (rs_regs st3) [1, 3] = rev (map (rs_regs st) [1, 3])"
    using frame_round_trip [OF frame_example_facts(2,3) p _ e] frame_example_facts(1) by simp
  with p e show "\<exists>st1 st3. run st (expand_prologue frame_example) = Some st1
     \<and> run st1 (expand_epilogue frame_example) = Some st3
     \<and> rs_regs st3 6 = rs_regs st 6 \<and> rs_regs st3 1 = rs_regs st 3 \<and> rs_regs st3 3 = rs_regs st 1"
    by auto
qed

text \<open>With a frame pointer, the prologue lowers the stack pointer by
  \<open>z80_total_frame_size\<close>, leaves the parameters two bytes above the word IX points to plus
  the saved IX, as \<open>FIRST_PARM_OFFSET\<close> says, and changes no byte at or above the old stack
  pointer.\<close>

theorem prologue_layout:
  assumes "frame_ok fi" "frame_pointer_needed fi" "run st (expand_prologue fi) = Some st1"
    and "n + z80_total_frame_size fi < 65536"
  shows "rs_regs st1 6 = rs_regs st 6 - of_nat (z80_total_frame_size fi)
    \<and> rs_regs st1 5 + word_of_int FIRST_PARM_OFFSET = rs_regs st 6 + 2
    \<and> rs_mem st1 (rs_regs st 6 + of_nat n) = rs_mem st (rs_regs st 6 + of_nat n)"
  using prologue_linked [OF assms(1,2), where st = st] assms(3,4)
  by (auto simp: FIRST_PARM_OFFSET_def)

theorem prologue_layout_witness:
  "\<forall>st. \<exists>st1. run st (expand_prologue frame_example) = Some st1 \<and> rs_regs st1 6 = rs_regs st 6 - 12
     \<and> rs_mem st1 (rs_regs st 6 + 2) = rs_mem st (rs_regs st 6 + 2)"
proof
  fix st
  obtain st1 where p: "run st (expand_prologue frame_example) = Some st1"
    using run_prologue [OF frame_example_facts(2)] by blast
  have z: "z80_total_frame_size frame_example = 12"
    by (simp add: z80_total_frame_size_def frame_example_facts) (simp add: frame_example_def)
  show "\<exists>st1. run st (expand_prologue frame_example) = Some st1 \<and> rs_regs st1 6 = rs_regs st 6 - 12
     \<and> rs_mem st1 (rs_regs st 6 + 2) = rs_mem st (rs_regs st 6 + 2)"
    using p prologue_layout [OF frame_example_facts(2,3) p, of 2] by (simp add: z)
qed

text \<open>Without a frame pointer the epilogue still loads the stack pointer from IX, so the
  caller's stack is lost unless IX happens to equal it, and the offset that replaces the
  frame pointer puts the parameters two bytes too high.\<close>

theorem frame_without_pointer:
  assumes "frame_ok fi" "\<not> frame_pointer_needed fi" "saved_regs fi = []"
    and "run st (expand_prologue fi) = Some st1" "run st1 (expand_epilogue fi) = Some st3"
  shows "rs_regs st3 6 = rs_regs st 5
    \<and> rs_regs st1 6 + word_of_int (INITIAL_FRAME_POINTER_OFFSET fi) + word_of_int FIRST_PARM_OFFSET
      = rs_regs st 6 + 2 + 2"
proof -
  have "st1 = after_alloc (get_frame_size fi) st"
    using run_prologue [OF assms(1), of st] assms(2,3,4) by simp
  then have s: "rs_regs st1 6 = rs_regs st 6 - of_nat (get_frame_size fi)" "rs_regs st1 5 = rs_regs st 5"
    by (simp add: after_alloc_sp, simp add: alloc_simps)
  have "st3 = set_reg 6 (rs_regs st1 5) st1"
    using run_epilogue [OF assms(1), of st1] assms(2,3,5) by (simp add: Let_def)
  then show ?thesis using s assms(3)
    by (simp add: INITIAL_FRAME_POINTER_OFFSET_def FIRST_PARM_OFFSET_def)
qed

theorem frame_without_pointer_witness:
  "\<forall>st. \<exists>st1 st3. run st (expand_prologue (frame_example\<lparr>frame_pointer_needed := False, call_used_regs := (\<lambda>r. True)\<rparr>)) = Some st1
     \<and> run st1 (expand_epilogue (frame_example\<lparr>frame_pointer_needed := False, call_used_regs := (\<lambda>r. True)\<rparr>)) = Some st3
     \<and> rs_regs st3 6 = rs_regs st 5"
proof
  fix st
  let ?fi = "frame_example\<lparr>frame_pointer_needed := False, call_used_regs := (\<lambda>r. True)\<rparr>"
  have f: "frame_ok ?fi" "\<not> frame_pointer_needed ?fi" "saved_regs ?fi = []"
    by (simp_all add: frame_example_def saved_regs_def frame_ok_def z80_total_frame_size_def)
  obtain st1 where p: "run st (expand_prologue ?fi) = Some st1" using run_prologue [OF f(1)] by blast
  obtain st3 where e: "run st1 (expand_epilogue ?fi) = Some st3" using run_epilogue [OF f(1)] by (metis (no_types))
  show "\<exists>st1 st3. run st (expand_prologue ?fi) = Some st1 \<and> run st1 (expand_epilogue ?fi) = Some st3
     \<and> rs_regs st3 6 = rs_regs st 5"
    using p e frame_without_pointer [OF f p e] by blast
qed

end
