(* ===== verification/Z80_Moves.thy ===== *)
theory Z80_Moves
  imports Emit_Parts Z80_Frame
begin

text \<open>
  Moves of 4-byte values on the Z80 (gcc/config/z80/z80.c): \<open>z80_gen_lowpart\<close>,
  \<open>z80_gen_highpart\<close> and \<open>z80_split_move\<close>, which splits a move after reload into moves of
  words. A 4-byte value is in the register pairs HL and DE or BC and IY, low word first, or
  in memory, low byte first. The images of real constants are parameters of \<open>emit_env\<close>.
\<close>

section \<open>Parts of operands\<close>

definition z80_gen_lowpart :: "emit_env \<Rightarrow> machine_mode \<Rightarrow> rtx \<Rightarrow> rtx option" where
  "z80_gen_lowpart env mode x =
     (if GET_CODE x = MEM \<and> z80_auto_inc_p (XEXP x 0) then Some (gen_rtx_MEM mode (XEXP x 0))
      else if GET_CODE x = CONST_DOUBLE then
        (if GET_MODE_CLASS (GET_MODE x) = MODE_FLOAT then
           (if GET_MODE x = SFmode then
              Some (if mode = SImode then GEN_INT (single_image env x)
                    else GEN_INT (and (single_image env x) 0xffff))
            else Some (snd (split_double env x)))
         else if mode = SImode then Some (GEN_INT (CONST_DOUBLE_LOW x))
         else if mode = HImode \<and> GET_MODE x = SFmode then Some (GEN_INT (and (CONST_DOUBLE_LOW x) 0xffff))
         else None)
      else if mode = QImode \<and> BC_REG_P x then Some (gen_rtx_REG mode HARD_C_REGNUM)
      else if mode = QImode \<and> HL_REG_P x then Some (gen_rtx_REG mode HARD_L_REGNUM)
      else if mode = QImode \<and> DE_REG_P x then Some (gen_rtx_REG mode HARD_E_REGNUM)
      else if mode = QImode \<and> IX_REG_P x then Some (gen_rtx_REG mode HARD_IXH_REGNUM)
      else if mode = QImode \<and> IY_REG_P x then Some (gen_rtx_REG mode HARD_IYH_REGNUM)
      else if mode = HImode \<and> HL_REG_P x then Some (gen_rtx_REG HImode HARD_HL_REGNUM)
      else if mode = HImode \<and> BC_REG_P x then Some (gen_rtx_REG HImode HARD_BC_REGNUM)
      else if GET_CODE x = SUBREG \<and> SUBREG_WORD x \<noteq> 0 then
        (if mode = SImode then Some (gen_rtx_SUBREG mode (SUBREG_REG x) (SUBREG_WORD x + 2))
         else if mode = HImode then Some (gen_rtx_SUBREG mode (SUBREG_REG x) (SUBREG_WORD x + 1))
         else None)
      else map_option (\<lambda>x. if GET_CODE x = MEM then copy_rtx x else x) (gen_lowpart env mode x))"

definition z80_gen_highpart :: "emit_env \<Rightarrow> machine_mode \<Rightarrow> rtx \<Rightarrow> rtx option" where
  "z80_gen_highpart env mode x =
     (if GET_CODE x = MEM \<and> z80_auto_inc_p (XEXP x 0) then Some (gen_rtx_MEM mode (XEXP x 0))
      else if GET_CODE x = CONST_DOUBLE then
        (if GET_MODE_CLASS (GET_MODE x) = MODE_FLOAT then
           (if GET_MODE x = SFmode then
              Some (if mode = SImode then GEN_INT (single_image env x)
                    else GEN_INT (and (drop_bit 16 (single_image env x)) 0xffff))
            else Some (fst (split_double env x)))
         else if mode = SImode then Some (GEN_INT (CONST_DOUBLE_HIGH x))
         else None)
      else if GET_CODE x = CONST_INT \<and> mode = QImode then Some (GEN_INT (drop_bit 8 (INTVAL x)))
      else if GET_CODE x = CONST_INT \<and> mode = HImode then Some (GEN_INT (drop_bit 16 (INTVAL x)))
      else if mode = QImode \<and> BC_REG_P x then Some (gen_rtx_REG mode HARD_B_REGNUM)
      else if mode = QImode \<and> HL_REG_P x then Some (gen_rtx_REG mode HARD_H_REGNUM)
      else if mode = QImode \<and> DE_REG_P x then Some (gen_rtx_REG mode HARD_D_REGNUM)
      else if mode = QImode \<and> IX_REG_P x then Some (gen_rtx_REG mode HARD_IXH_REGNUM)
      else if mode = QImode \<and> IY_REG_P x then Some (gen_rtx_REG mode HARD_IYH_REGNUM)
      else if mode = HImode \<and> HL_REG_P x then Some (gen_rtx_REG HImode HARD_DE_REGNUM)
      else if mode = HImode \<and> BC_REG_P x then Some (gen_rtx_REG HImode HARD_IY_REGNUM)
      else if GET_CODE x = SUBREG \<and> SUBREG_WORD x \<noteq> 0 then
        Some (gen_rtx_SUBREG mode (SUBREG_REG x) (SUBREG_WORD x))
      else map_option (\<lambda>x. if GET_CODE x = MEM then copy_rtx x else x) (gen_highpart env mode x))"

text \<open>\<open>scratch\<close> is the third operand of the move, a register only in the alternative from
  memory or a constant to memory.\<close>

definition z80_split_move :: "emit_env \<Rightarrow> rtx \<Rightarrow> rtx \<Rightarrow> rtx \<Rightarrow> emitted list option" where
  "z80_split_move env dst src scratch =
     (if GET_MODE_SIZE (GET_MODE dst) \<noteq> 4 then None
      else
        (case (z80_gen_lowpart env HImode dst, z80_gen_highpart env HImode dst,
               z80_gen_lowpart env HImode src, z80_gen_highpart env HImode src) of
           (Some low_to, Some high_to, Some low_from, Some high_from) \<Rightarrow>
             Some (if H_REG_P dst \<or> H_REG_P src
               then [move_insn_of low_to low_from, move_insn_of high_to high_from]
               else [move_insn_of scratch low_from, move_insn_of low_to scratch,
                     move_insn_of scratch high_from, move_insn_of high_to scratch])
         | _ \<Rightarrow> None))"

section \<open>Four-byte values\<close>

definition load32 :: "(16 word \<Rightarrow> 8 word) \<Rightarrow> 16 word \<Rightarrow> 32 word" where
  "load32 mem a = or (ucast (load16 mem a)) (push_bit 16 (ucast (load16 mem (a + 2))))"

definition word_pair :: "16 word \<Rightarrow> 16 word \<Rightarrow> 32 word" where
  "word_pair lo hi = or (ucast lo) (push_bit 16 (ucast hi))"

lemma load32_pair: "load32 mem a = word_pair (load16 mem a) (load16 mem (a + 2))"
  by (simp add: load32_def word_pair_def)

definition long_value :: "rtl_state \<Rightarrow> rtx \<Rightarrow> 32 word option" where
  "long_value st x =
     (if GET_CODE x = CONST_INT then Some (word_of_int (INTVAL x))
      else if GET_CODE x = REG then Some (word_pair (rs_regs st (REGNO x)) (rs_regs st (REGNO x + 1)))
      else if GET_CODE x = MEM then map_option (load32 (rs_mem st)) (rtx_value st (XEXP x 0))
      else None)"

text \<open>The operands of a split move: a hard register that can hold four bytes, a memory
  reference with a strictly valid address on hard registers, or an integer.\<close>

definition long_reg :: "rtx \<Rightarrow> bool" where
  "long_reg x \<longleftrightarrow> GET_CODE x = REG \<and> GET_MODE x = SImode \<and> (HL_REGNO_P (REGNO x) \<or> BC_REGNO_P (REGNO x))"

definition hard_address :: "rtx \<Rightarrow> bool" where
  "hard_address a \<longleftrightarrow>
     (if CONSTANT_P a then link_time_const a
      else if GET_CODE a = REG then A_REG_P a
      else if GET_CODE a = PLUS then A_REG_P (XEXP a 0) \<and> VALID_CONSTANT_OFFSET_P (XEXP a 1) SImode
      else False)"

definition long_mem :: "rtx \<Rightarrow> bool" where
  "long_mem x \<longleftrightarrow> GET_CODE x = MEM \<and> GET_MODE x = SImode \<and> hard_address (XEXP x 0)
     \<and> address_modes (XEXP x 0)"

definition long_int :: "rtx \<Rightarrow> bool" where
  "long_int x \<longleftrightarrow> GET_CODE x = CONST_INT \<and> GET_MODE x = VOIDmode"

section \<open>The parts of long operands\<close>

lemma copy_fld_access [simp]:
  "fld_int (copy_fld g) = fld_int g" "fld_str (copy_fld g) = fld_str g" "fld_insn (copy_fld g) = fld_insn g"
  by (cases g; simp)+

lemma copy_fields:
  "REGNO (Rtx c m f' (map copy_fld fs)) = REGNO (Rtx c m f fs)"
  "INTVAL (Rtx c m f' (map copy_fld fs)) = INTVAL (Rtx c m f fs)"
  "XSTR (Rtx c m f' (map copy_fld fs)) 0 = XSTR (Rtx c m f fs) 0"
  "XINSN (Rtx c m f' (map copy_fld fs)) 0 = XINSN (Rtx c m f fs) 0"
  by (simp_all add: fld_access fld_names)

lemma value_of_copies:
  assumes "map (fld_value st) (map copy_fld fs) = map (fld_value st) fs"
  shows "rtx_value st (Rtx c m f' (map copy_fld fs)) = rtx_value st (Rtx c m f fs)"
proof -
  have hd: "(case map copy_fld fs of [] \<Rightarrow> None | a # _ \<Rightarrow> map_option (load16 (rs_mem st)) (fld_value st a))
      = (case fs of [] \<Rightarrow> None | a # _ \<Rightarrow> map_option (load16 (rs_mem st)) (fld_value st a))"
    using assms by (cases fs) simp_all
  show ?thesis
    unfolding rtx_value.simps Let_def copy_fields [of c m f' fs f] assms hd by (rule refl)
qed

lemma copy_rtx_value: "rtx_value st (copy_rtx x) = rtx_value st x"
  and copy_fld_value: "fld_value st (copy_fld f) = fld_value st f"
proof (induction x and f rule: rtx.induct fld.induct)
  case (Rtx c m f fs)
  then have fs: "map (fld_value st) (map copy_fld fs) = map (fld_value st) fs" by simp
  show ?case unfolding copy_rtx.simps by (simp only: value_of_copies [OF fs, of c m _ f] split: if_split) simp
qed simp_all

lemma parts_reg:
  assumes "long_reg x"
  shows "z80_gen_lowpart env HImode x = Some (gen_rtx_REG HImode (REGNO x))"
    "z80_gen_highpart env HImode x = Some (gen_rtx_REG HImode (REGNO x + 1))"
  using assms
  by (auto simp: long_reg_def z80_gen_lowpart_def z80_gen_highpart_def target_simps REG_P_def)

lemma sign_extend_host_16: "(word_of_int (sign_extend_host 16 i) :: 16 word) = word_of_int i"
proof -
  have "(word_of_int (sint (signed_drop_bit 16 (push_bit 16 (word_of_int i :: hwi)))) :: 16 word)
    = to16 (signed_drop_bit 16 (push_bit 16 (word_of_int i :: hwi)))" by simp
  also have "\<dots> = to16 (word_of_int i)"
    by (rule bit_word_eqI) (auto simp: bit_simps)
  finally show ?thesis by (simp add: sign_extend_host_def to16_of_int)
qed

lemma value_not_inc: "rtx_value st a = Some v \<Longrightarrow> GET_CODE a \<notin> {POST_INC, PRE_DEC, ADDRESSOF, LO_SUM}"
  by (cases a) (auto simp: apply_code_other Let_def split: if_splits)

lemma value_MEM:
  "GET_CODE x = MEM \<Longrightarrow> rtx_value st x = Some v \<Longrightarrow>
    GET_MODE x = HImode \<and> (\<exists>a. rtx_value st (XEXP x 0) = Some a \<and> v = load16 (rs_mem st) a)"
proof (cases x)
  case (Rtx c m f fs)
  assume x: "GET_CODE x = MEM" "rtx_value st x = Some v"
  then have m: "m = HImode" "(case fs of [] \<Rightarrow> None | a # _ \<Rightarrow> map_option (load16 (rs_mem st)) (fld_value st a)) = Some v"
    using Rtx by (auto simp: Let_def split: if_splits)
  then obtain g gs where fs: "fs = g # gs" by (cases fs) auto
  with m obtain a where a: "fld_value st g = Some a" "v = load16 (rs_mem st) a" by auto
  then show ?thesis using Rtx m fs by (cases g) (auto simp: fld_access)
qed simp

lemma source_of_value: "rtx_value st x = Some v \<Longrightarrow> source_value st x = Some (v, st)"
  using value_not_inc [of st "XEXP x 0"] value_MEM [of x st v] by (auto simp: source_value_def)

lemma MEM_value:
  "GET_CODE x = MEM \<Longrightarrow> GET_MODE x = HImode \<Longrightarrow> rtx_value st (XEXP x 0) = Some a
    \<Longrightarrow> rtx_value st x = Some (load16 (rs_mem st) a)"
proof (cases x)
  case (Rtx c m f fs)
  assume x: "GET_CODE x = MEM" "GET_MODE x = HImode" "rtx_value st (XEXP x 0) = Some a"
  then obtain g gs where fs: "fs = g # gs" using Rtx by (cases fs) (auto simp: fld_access)
  then have "fld_value st g = Some a" using x Rtx by (cases g) (auto simp: fld_access)
  then show ?thesis using Rtx x fs by (simp add: Let_def)
qed simp

lemma value_CONST_INT: "GET_CODE x = CONST_INT \<Longrightarrow> rtx_value st x = Some (word_of_int (INTVAL x))"
  by (cases x) auto

lemma parts_int:
  assumes "long_int x"
  shows "\<exists>l. z80_gen_lowpart env HImode x = Some l \<and> (\<forall>st. rtx_value st l = Some (word_of_int (INTVAL x)))"
    and "z80_gen_highpart env HImode x = Some (GEN_INT (drop_bit 16 (INTVAL x)))"
proof -
  have x: "GET_CODE x = CONST_INT" "GET_MODE x = VOIDmode" using assms by (simp_all add: long_int_def)
  let ?l = "if INTVAL x = sign_extend_host 16 (INTVAL x) then x else GEN_INT (sign_extend_host 16 (INTVAL x))"
  have "gen_lowpart_common env HImode x = Some ?l"
    using x by (simp add: gen_lowpart_common.simps int_mode_def lowpart_const_def mode_bits_def Let_def)
  then have "gen_lowpart env HImode x = Some ?l" by (simp add: gen_lowpart.simps)
  moreover have "GET_CODE ?l = CONST_INT" using x by simp
  ultimately have "z80_gen_lowpart env HImode x = Some ?l"
    using x by (auto simp: z80_gen_lowpart_def target_simps REG_P_def)
  moreover have "rtx_value st ?l = Some (word_of_int (INTVAL x))" for st
    using value_CONST_INT [OF x(1)] by (simp add: sign_extend_host_16)
  ultimately show "\<exists>l. z80_gen_lowpart env HImode x = Some l \<and> (\<forall>st. rtx_value st l = Some (word_of_int (INTVAL x)))"
    by blast
  show "z80_gen_highpart env HImode x = Some (GEN_INT (drop_bit 16 (INTVAL x)))"
    using x by (simp add: z80_gen_highpart_def target_simps REG_P_def)
qed

text \<open>The words of a long memory reference.\<close>

lemma hard_legit: "hard_address a \<Longrightarrow> z80_legit rr True SImode a"
  by (auto simp: hard_address_def z80_legit_def z80_go_if_legitimate_address_def
      go_if_legitimate_address_internal_def CONSTANT_ADDRESS_P_def register_indirect_p_def target_simps
      REG_P_def VALID_CONSTANT_OFFSET_P_def split: if_splits)

lemma hard_codes: "hard_address a \<Longrightarrow> GET_CODE a \<notin> {PRE_DEC, PRE_INC, POST_DEC, POST_INC, ADDRESSOF}"
  by (auto simp: hard_address_def CONSTANT_P_def split: if_splits)

definition reload_env :: "emit_env \<Rightarrow> bool" where
  "reload_env env \<longleftrightarrow> reloading (ee_reload env)"

definition same_mem_flags :: "rtx \<Rightarrow> rtx_flags" where
  "same_mem_flags x = no_flags\<lparr>fl_unchanging := RTX_UNCHANGING_P x, fl_volatil := MEM_VOLATILE_P x,
     fl_in_struct := fl_in_struct (rtx_flags_of x), fl_frame_related := fl_frame_related (rtx_flags_of x)\<rparr>"

lemma change_address_word:
  assumes "GET_CODE x = MEM" "GET_MODE x \<noteq> HImode" "reload_env env" "a \<noteq> NULL_RTX"
    and "memory_address_p (ee_rule env) HImode a"
  shows "change_address env x HImode a = Some (Rtx MEM HImode (same_mem_flags x) [FExp a, FNone 0])"
  using assms by (simp add: change_address_def reload_env_def same_mem_flags_def Let_def)

lemma parts_mem_low:
  assumes "long_mem x" "reload_env env"
  shows "z80_gen_lowpart env HImode x
    = Some (copy_rtx (Rtx MEM HImode (same_mem_flags x) [FExp (XEXP x 0), FNone 0]))"
proof -
  have x: "GET_CODE x = MEM" "GET_MODE x = SImode" "hard_address (XEXP x 0)"
    using assms(1) by (simp_all add: long_mem_def)
  have "z80_legit rr False HImode (XEXP x 0)" for rr
    using legit_narrow [OF z80_addresses.strict_lenient [OF hard_legit [OF x(3)]], of HImode] by simp
  then have m: "memory_address_p (ee_rule env) HImode (XEXP x 0)"
    by (simp add: memory_address_p_def)
  have n: "XEXP x 0 \<noteq> NULL_RTX" using x(3) by (auto simp: hard_address_def CONSTANT_P_def)
  have "gen_lowpart_common env HImode x = None"
    using x by (simp add: gen_lowpart_common.simps)
  then have "gen_lowpart env HImode x = Some (Rtx MEM HImode (same_mem_flags x) [FExp (XEXP x 0), FNone 0])"
    using x change_address_word [OF x(1) _ assms(2) n m]
    by (simp add: gen_lowpart.simps plus_constant_wide_def)
  then show ?thesis
    using x hard_codes [OF x(3)]
    by (simp add: z80_gen_lowpart_def target_simps REG_P_def z80_auto_inc_p_def)
qed

lemma legit_lenient_plus:
  assumes "GET_CODE b = REG" "i \<le> 124" "- 128 \<le> i"
  shows "z80_legit rr False HImode (gen_rtx_fmt_ee PLUS m b (GEN_INT i))"
proof -
  have p: "GET_CODE (gen_rtx_fmt_ee PLUS m b (GEN_INT i)) = PLUS" by simp
  show ?thesis unfolding legit_plus [OF p] using assms
    by (simp add: VALID_CONSTANT_OFFSET_P_def offset_limits)
qed

lemma legit_lenient_reg: "A_REG_P b \<Longrightarrow> z80_legit rr False HImode b"
  by (auto simp: z80_legit_def address_defs target_simps REG_P_def)

lemma plus_for_output:
  "GET_CODE x \<noteq> LO_SUM \<Longrightarrow> plus_constant_for_output_wide pool x c = plus_constant_wide pool x c"
  by (subst plus_constant_for_output_wide.simps) simp

lemma high_address_legit:
  assumes "hard_address a" "rtx_value st a = Some v"
  shows "memory_address_p (z80_legit rr) HImode (plus_constant_wide pool a 2)"
proof (cases "CONSTANT_P a")
  case True
  have n: "GET_CODE a \<notin> {HIGH, CONSTANT_P_RTX}"
    using assms(2) by (cases a) (auto simp: apply_code_other Let_def split: if_splits)
  have "moved_address pool a 2 = plus_constant_wide pool a 2"
    using True by (auto simp: moved_address_def plus_for_output CONSTANT_P_def)
  then have "CONSTANT_P (plus_constant_wide pool a 2)"
    using moved_constant [OF True _ n, of pool 2] assms(1) True by (simp add: hard_address_def)
  then show ?thesis by (simp add: memory_address_p_def z80_addresses.const_ok)
next
  case nc: False
  show ?thesis
  proof (cases "GET_CODE a = REG")
    case True
    then have "plus_constant_wide pool a 2 = gen_rtx_fmt_ee PLUS (GET_MODE a) a (GEN_INT 2)"
      by (simp add: plus_constant_wide_def add_constant.simps finish_sum_def)
    then show ?thesis using True by (simp add: memory_address_p_def legit_lenient_plus)
  next
    case False
    then have p: "GET_CODE a = PLUS" "A_REG_P (XEXP a 0)" "VALID_CONSTANT_OFFSET_P (XEXP a 1) SImode"
      using assms(1) nc by (auto simp: hard_address_def split: if_splits)
    define i where "i = INTVAL (XEXP a 1)"
    have c: "GET_CODE (XEXP a 1) = CONST_INT" "- 128 \<le> i" "i \<le> 122"
      using p(3) by (simp_all add: VALID_CONSTANT_OFFSET_P_def offset_limits i_def)
    have r: "GET_CODE (XEXP a 0) = REG" using p(2) by (simp add: A_REG_P_def REG_P_def)
    have si: "sint (2 + word_of_int i :: hwi) = i + 2"
    proof -
      have "(2 + word_of_int i :: hwi) = word_of_int (i + 2)" by simp
      then show ?thesis using c sint_small [of "i + 2"] by (simp only:)
    qed
    have "plus_constant_wide pool a 2 = (if (2 + word_of_int i :: hwi) = 0 then XEXP a 0
        else gen_rtx_fmt_ee PLUS (GET_MODE (XEXP a 0)) (XEXP a 0) (GEN_INT (i + 2)))"
      using p(1) c r si
      by (simp add: plus_constant_wide_def add_constant.simps [of pool a]
          add_constant.simps [of pool "XEXP a 0"] finish_sum_def i_def)
    then show ?thesis using c r p(2)
      by (auto simp: memory_address_p_def legit_lenient_plus legit_lenient_reg)
  qed
qed

lemma parts_mem_high:
  assumes "long_mem x" "reload_env env" "rtx_value st (XEXP x 0) = Some v"
  shows "z80_gen_highpart env HImode x
    = Some (copy_rtx (Rtx MEM HImode (same_mem_flags x) [FExp (plus_constant_wide (ee_pool env) (XEXP x 0) 2), FNone 0]))"
proof -
  have x: "GET_CODE x = MEM" "GET_MODE x = SImode" "hard_address (XEXP x 0)"
    using assms(1) by (simp_all add: long_mem_def)
  let ?a = "plus_constant_wide (ee_pool env) (XEXP x 0) 2"
  have m: "memory_address_p (ee_rule env) HImode ?a" by (rule high_address_legit [OF x(3) assms(3)])
  then have n: "?a \<noteq> NULL_RTX"
    by (auto simp: memory_address_p_def z80_legit_def z80_go_if_legitimate_address_def
        go_if_legitimate_address_internal_def CONSTANT_ADDRESS_P_def CONSTANT_P_def register_indirect_p_def
        PUSH_POP_ADDRESS_P_def)
  have "gen_highpart env HImode x = Some (Rtx MEM HImode (same_mem_flags x) [FExp ?a, FNone 0])"
    using x change_address_word [OF x(1) _ assms(2) n m]
    by (simp add: gen_highpart.simps highpart_offset_def)
  then show ?thesis
    using x hard_codes [OF x(3)]
    by (simp add: z80_gen_highpart_def target_simps REG_P_def z80_auto_inc_p_def)
qed

lemma word_refs:
  assumes "rtx_value st a = Some v"
  shows "GET_CODE (copy_rtx (Rtx MEM HImode f [FExp a, FNone 0])) = MEM"
    "GET_MODE (copy_rtx (Rtx MEM HImode f [FExp a, FNone 0])) = HImode"
    "rtx_value st (XEXP (copy_rtx (Rtx MEM HImode f [FExp a, FNone 0])) 0) = Some v"
  using assms by (simp_all add: copy_rtx_value copy_XEXP fld_access)

text \<open>Addresses do not change when registers other than IX and IY do.\<close>

definition same_bases :: "rtl_state \<Rightarrow> rtl_state \<Rightarrow> bool" where
  "same_bases st st' \<longleftrightarrow> rs_regs st' 4 = rs_regs st 4 \<and> rs_regs st' 5 = rs_regs st 5
     \<and> rs_sym st' = rs_sym st \<and> rs_label st' = rs_label st"

lemma hard_address_value:
  assumes "hard_address a" "same_bases st st'" "rtx_value st a = Some v"
  shows "rtx_value st' a = Some v"
proof (cases "CONSTANT_P a")
  case True
  then have "link_time_const a" using assms(1) by (simp add: hard_address_def)
  then show ?thesis using link_time_const_value assms(2,3) unfolding same_bases_def by metis
next
  case nc: False
  have reg: "rtx_value st' b = rtx_value st b" if "A_REG_P b" for b
    using that assms(2) by (cases b) (auto simp: target_simps REG_P_def same_bases_def)
  show ?thesis
  proof (cases "GET_CODE a = REG")
    case True
    then show ?thesis using assms nc reg by (simp add: hard_address_def)
  next
    case False
    then have p: "GET_CODE a = PLUS" "A_REG_P (XEXP a 0)" "GET_CODE (XEXP a 1) = CONST_INT"
      using assms(1) nc by (auto simp: hard_address_def VALID_CONSTANT_OFFSET_P_def split: if_splits)
    obtain f b c where a: "a = Rtx PLUS HImode f [FExp b, FExp c]" using plus_shape [OF assms(3) p(1)] .
    then have "rtx_value st' b = rtx_value st b" "rtx_value st' c = rtx_value st c"
      using p reg by (simp_all add: fld_access value_CONST_INT)
    then show ?thesis using assms(3) a by simp
  qed
qed

lemma same_bases_simps:
  "same_bases st (store a v st)"
  "r \<noteq> 4 \<Longrightarrow> r \<noteq> 5 \<Longrightarrow> same_bases st (set_reg r v st)"
  "same_bases st st' \<Longrightarrow> same_bases st' st'' \<Longrightarrow> same_bases st st''"
  by (simp_all add: same_bases_def store_def set_reg_def)

section \<open>Executing a split move\<close>

lemma exec_into_reg:
  "rtx_value st x = Some v \<Longrightarrow> exec st (move_insn_of (gen_rtx_REG HImode r) x) = Some (set_reg r v st)"
  by (simp add: move_insn_of_def source_of_value)

lemma exec_into_mem:
  assumes "GET_CODE m = MEM" "GET_MODE m = HImode" "rtx_value st (XEXP m 0) = Some a" "rtx_value st x = Some v"
  shows "exec st (move_insn_of m x) = Some (store a v st)"
  using assms value_not_inc [OF assms(3)]
  by (simp add: move_insn_of_def source_of_value assign_def)

lemma load_store_apart:
  "b \<notin> {a - 1, a, a + 1} \<Longrightarrow> load16 (store16 m a v) b = load16 m b"
  by (auto simp: load16_def store16_def eq_diff_eq)

lemma two_above: "(b :: 16 word) + 2 \<notin> {b - 1, b, b + 1}"
proof -
  have n: "(3 :: 16 word) \<noteq> 0" "(2 :: 16 word) \<noteq> 0" "(2 :: 16 word) \<noteq> 1" by simp_all
  have "b + 2 = b - 1 \<longleftrightarrow> (3 :: 16 word) = 0" by (auto simp: algebra_simps)
  then show ?thesis using n by simp
qed

lemma word_pair_int: "word_of_int i = word_pair (word_of_int i) (word_of_int (drop_bit 16 i))"
  by (rule bit_word_eqI) (auto simp: word_pair_def bit_simps)

lemma long_parts:
  assumes "long_reg src \<or> long_mem src \<or> long_int src" "reload_env env" "\<And>st. pool_sound st (ee_pool env)"
    and "long_mem src \<Longrightarrow> rtx_value st (XEXP src 0) = Some b"
  shows "\<exists>l h lo hi. z80_gen_lowpart env HImode src = Some l \<and> z80_gen_highpart env HImode src = Some h
    \<and> long_value st src = Some (word_pair lo hi)
    \<and> (\<forall>st'. same_bases st st' \<and> rs_mem st' = rs_mem st
         \<and> (long_reg src \<longrightarrow> rs_regs st' (REGNO src) = rs_regs st (REGNO src)) \<longrightarrow> rtx_value st' l = Some lo)
    \<and> (\<forall>st'. same_bases st st' \<and> (long_reg src \<longrightarrow> rs_regs st' (REGNO src + 1) = rs_regs st (REGNO src + 1))
        \<and> (long_mem src \<longrightarrow> load16 (rs_mem st') (b + 2) = load16 (rs_mem st) (b + 2))
      \<longrightarrow> rtx_value st' h = Some hi)"
proof -
  consider "long_reg src" | "long_mem src" | "long_int src" using assms(1) by blast
  then show ?thesis
  proof cases
    case 1
    then show ?thesis using parts_reg [OF 1, of env] by (auto simp: long_value_def long_reg_def)
  next
    case 2
    then have x: "GET_CODE src = MEM" "hard_address (XEXP src 0)" "address_modes (XEXP src 0)"
      by (simp_all add: long_mem_def)
    note b = assms(4) [OF 2]
    let ?low = "copy_rtx (Rtx MEM HImode (same_mem_flags src) [FExp (XEXP src 0), FNone 0])"
    let ?ha = "plus_constant_wide (ee_pool env) (XEXP src 0) 2"
    let ?high = "copy_rtx (Rtx MEM HImode (same_mem_flags src) [FExp ?ha, FNone 0])"
    have base: "rtx_value st' (XEXP src 0) = Some b" if "same_bases st st'" for st'
      by (rule hard_address_value [OF x(2) that b])
    have ha: "rtx_value st' ?ha = Some (b + 2)" if "same_bases st st'" for st'
      using plus_constant_value(1) [OF assms(3) base [OF that] x(3), of 2] by simp
    have l: "rtx_value st' ?low = Some (load16 (rs_mem st) b)" if "same_bases st st'" "rs_mem st' = rs_mem st" for st'
      using MEM_value [OF word_refs [OF base [OF that(1)], of "same_mem_flags src"]] that(2) by simp
    have h: "rtx_value st' ?high = Some (load16 (rs_mem st) (b + 2))"
      if "same_bases st st'" "load16 (rs_mem st') (b + 2) = load16 (rs_mem st) (b + 2)" for st'
      using MEM_value [OF word_refs [OF ha [OF that(1)], of "same_mem_flags src"]] that(2) by simp
    have "long_value st src = Some (word_pair (load16 (rs_mem st) b) (load16 (rs_mem st) (b + 2)))"
      using x(1) b by (simp add: long_value_def load32_pair)
    moreover have "\<not> long_reg src" using x(1) by (simp add: long_reg_def)
    ultimately show ?thesis
      using parts_mem_low [OF 2 assms(2)] parts_mem_high [OF 2 assms(2) b] l h 2 by blast
  next
    case 3
    obtain l where l: "z80_gen_lowpart env HImode src = Some l" "\<And>st. rtx_value st l = Some (word_of_int (INTVAL src))"
      using parts_int(1) [OF 3] by blast
    have "long_value st src = Some (word_pair (word_of_int (INTVAL src)) (word_of_int (drop_bit 16 (INTVAL src))))"
      using 3 word_pair_int by (simp add: long_value_def long_int_def)
    then show ?thesis using l parts_int(2) [OF 3, of env]
      by (intro exI [of _ l] exI [of _ "GEN_INT (drop_bit 16 (INTVAL src))"] exI [of _ "word_of_int (INTVAL src)"]
          exI [of _ "word_of_int (drop_bit 16 (INTVAL src))"]) simp
  qed
qed

lemma run_pair: "run st (Some [i, j]) = (case exec st i of None \<Rightarrow> None | Some st1 \<Rightarrow> exec st1 j)"
  by (auto simp: run_def split: option.splits)

lemma long_reg_pair: "long_reg x \<Longrightarrow> H_REG_P x \<and> (REGNO x = 1 \<or> REGNO x = 3)"
  by (auto simp: long_reg_def target_simps REG_P_def)

lemma not_H_REG: "GET_CODE x \<noteq> REG \<Longrightarrow> \<not> H_REG_P x"
  by (simp add: H_REG_P_def REG_P_def)

lemma split_into_reg:
  assumes dst: "long_reg dst" and src: "long_reg src \<or> long_mem src \<or> long_int src"
    and env: "reload_env env" "\<And>st. pool_sound st (ee_pool env)"
    and b: "long_mem src \<Longrightarrow> rtx_value st (XEXP src 0) = Some b"
  shows "\<exists>st'. run st (z80_split_move env dst src scratch) = Some st' \<and> long_value st' dst = long_value st src"
proof -
  let ?r = "REGNO dst"
  have r: "H_REG_P dst" "?r = 1 \<or> ?r = 3" using long_reg_pair [OF dst] by simp_all
  have m: "GET_MODE_SIZE (GET_MODE dst) = 4" using dst by (simp add: long_reg_def)
  obtain l h lo hi where p: "z80_gen_lowpart env HImode src = Some l" "z80_gen_highpart env HImode src = Some h"
    and v: "long_value st src = Some (word_pair lo hi)"
    and lo: "\<And>st'. same_bases st st' \<Longrightarrow> rs_mem st' = rs_mem st \<Longrightarrow>
        (long_reg src \<Longrightarrow> rs_regs st' (REGNO src) = rs_regs st (REGNO src)) \<Longrightarrow> rtx_value st' l = Some lo"
    and hi: "\<And>st'. same_bases st st' \<Longrightarrow> (long_reg src \<Longrightarrow> rs_regs st' (REGNO src + 1) = rs_regs st (REGNO src + 1)) \<Longrightarrow>
        (long_mem src \<Longrightarrow> load16 (rs_mem st') (b + 2) = load16 (rs_mem st) (b + 2)) \<Longrightarrow> rtx_value st' h = Some hi"
    using long_parts [OF src env b] by blast
  define st1 where "st1 = set_reg ?r lo st"
  have s: "same_bases st st" "same_bases st st1" using r by (auto simp: st1_def same_bases_def set_reg_def)
  have e1: "exec st (move_insn_of (gen_rtx_REG HImode ?r) l) = Some st1"
    unfolding st1_def by (rule exec_into_reg [OF lo [OF s(1)]]) simp_all
  have "rs_regs st1 (REGNO src + 1) = rs_regs st (REGNO src + 1)" if "long_reg src"
    using long_reg_pair [OF that] r by (auto simp: st1_def)
  then have e2: "exec st1 (move_insn_of (gen_rtx_REG HImode (?r + 1)) h) = Some (set_reg (?r + 1) hi st1)"
    by (intro exec_into_reg hi [OF s(2)]) (simp_all add: st1_def)
  have "run st (z80_split_move env dst src scratch) = Some (set_reg (?r + 1) hi st1)"
    using m r(1) p parts_reg [OF dst, of env] e1 e2 by (simp add: z80_split_move_def run_pair)
  moreover have "long_value (set_reg (?r + 1) hi st1) dst = Some (word_pair lo hi)"
    using dst by (simp add: long_value_def long_reg_def st1_def)
  ultimately show ?thesis using v by simp
qed

text \<open>Stores through memory destinations.\<close>

lemma split_into_mem:
  assumes dst: "long_mem dst" and src: "long_reg src \<or> long_mem src \<or> long_int src"
    and env: "reload_env env" "\<And>st. pool_sound st (ee_pool env)"
    and a: "rtx_value st (XEXP dst 0) = Some a"
    and b: "long_mem src \<Longrightarrow> rtx_value st (XEXP src 0) = Some b \<and> a - b \<notin> {1, 2, 3}"
    and s: "scratch = gen_rtx_REG HImode s" "s \<notin> {4, 5}"
  shows "\<exists>st'. run st (z80_split_move env dst src scratch) = Some st' \<and> long_value st' dst = long_value st src"
proof -
  have x: "GET_CODE dst = MEM" "GET_MODE dst = SImode" "hard_address (XEXP dst 0)" "address_modes (XEXP dst 0)"
    using dst by (simp_all add: long_mem_def)
  let ?low = "copy_rtx (Rtx MEM HImode (same_mem_flags dst) [FExp (XEXP dst 0), FNone 0])"
  let ?ha = "plus_constant_wide (ee_pool env) (XEXP dst 0) 2"
  let ?high = "copy_rtx (Rtx MEM HImode (same_mem_flags dst) [FExp ?ha, FNone 0])"
  have d: "z80_gen_lowpart env HImode dst = Some ?low" "z80_gen_highpart env HImode dst = Some ?high"
    using parts_mem_low [OF dst env(1)] parts_mem_high [OF dst env(1) a] by simp_all
  have base: "rtx_value st' (XEXP dst 0) = Some a" if "same_bases st st'" for st'
    by (rule hard_address_value [OF x(3) that a])
  have ha: "rtx_value st' ?ha = Some (a + 2)" if "same_bases st st'" for st'
    using plus_constant_value(1) [OF env(2) base [OF that] x(4), of 2] by simp
  have into_low: "exec st' (move_insn_of ?low y) = Some (store a w st')"
    if "same_bases st st'" "rtx_value st' y = Some w" for st' y w
    using word_refs [OF base [OF that(1)], of "same_mem_flags dst"] that(2) by (intro exec_into_mem) simp_all
  have into_high: "exec st' (move_insn_of ?high y) = Some (store (a + 2) w st')"
    if "same_bases st st'" "rtx_value st' y = Some w" for st' y w
    using word_refs [OF ha [OF that(1)], of "same_mem_flags dst"] that(2) by (intro exec_into_mem) simp_all
  obtain l h lo hi where p: "z80_gen_lowpart env HImode src = Some l" "z80_gen_highpart env HImode src = Some h"
    and v: "long_value st src = Some (word_pair lo hi)"
    and lo: "\<And>st'. same_bases st st' \<Longrightarrow> rs_mem st' = rs_mem st \<Longrightarrow>
        (long_reg src \<Longrightarrow> rs_regs st' (REGNO src) = rs_regs st (REGNO src)) \<Longrightarrow> rtx_value st' l = Some lo"
    and hi: "\<And>st'. same_bases st st' \<Longrightarrow> (long_reg src \<Longrightarrow> rs_regs st' (REGNO src + 1) = rs_regs st (REGNO src + 1)) \<Longrightarrow>
        (long_mem src \<Longrightarrow> load16 (rs_mem st') (b + 2) = load16 (rs_mem st) (b + 2)) \<Longrightarrow> rtx_value st' h = Some hi"
    using long_parts [OF src env conjunct1 [OF b]] by blast
  have apart: "load16 (store16 m a w) (b + 2) = load16 m (b + 2)" if "long_mem src" for m w
  proof (rule load_store_apart)
    have "a - b \<notin> {1, 2, 3}" using b [OF that] by blast
    then show "b + 2 \<notin> {a - 1, a, a + 1}" by (auto simp: algebra_simps)
  qed
  have result: "long_value st' dst = Some (word_pair lo hi)"
    if "same_bases st st'" "rs_mem st' = store16 (store16 m a lo) (a + 2) hi" for st' m
  proof -
    have "load16 (store16 (store16 m a lo) (a + 2) hi) a = lo"
      by (subst load_store_apart) (simp_all add: load_store_same)
    then show ?thesis using x(1) base [OF that(1)] that(2)
      by (simp add: long_value_def load32_pair load_store_same)
  qed
  have m: "GET_MODE_SIZE (GET_MODE dst) = 4" using x by simp
  show ?thesis
  proof (cases "H_REG_P src")
    case True
    let ?st1 = "store a lo st"
    have s1: "same_bases st st" "same_bases st ?st1" by (simp_all add: same_bases_def store_def)
    have e1: "exec st (move_insn_of ?low l) = Some ?st1"
      by (rule into_low [OF s1(1) lo [OF s1(1)]]) simp_all
    have e2: "exec ?st1 (move_insn_of ?high h) = Some (store (a + 2) hi ?st1)"
      by (rule into_high [OF s1(2) hi [OF s1(2)]]) (simp_all add: apart)
    have "run st (z80_split_move env dst src scratch) = Some (store (a + 2) hi ?st1)"
      using m True p d e1 e2 by (simp add: z80_split_move_def run_pair)
    moreover have "long_value (store (a + 2) hi ?st1) dst = Some (word_pair lo hi)"
      by (rule result [where m = "rs_mem st"]) (simp_all add: same_bases_def store_def)
    ultimately show ?thesis using v by simp
  next
    case False
    then have nr: "\<not> long_reg src" using long_reg_pair by blast
    let ?st1 = "set_reg s lo st" and ?st2 = "store a lo (set_reg s lo st)"
    let ?st3 = "set_reg s hi ?st2"
    have sb: "same_bases st st" "same_bases st ?st1" "same_bases st ?st2" "same_bases st ?st3"
      using s(2) by (simp_all add: same_bases_def store_def set_reg_def)
    have e1: "exec st (move_insn_of scratch l) = Some ?st1"
      unfolding s(1) by (rule exec_into_reg [OF lo [OF sb(1)]]) (simp_all add: nr)
    have e2: "exec ?st1 (move_insn_of ?low scratch) = Some ?st2"
      by (rule into_low [OF sb(2)]) (simp add: s(1))
    have e3: "exec ?st2 (move_insn_of scratch h) = Some ?st3"
      unfolding s(1) by (rule exec_into_reg [OF hi [OF sb(3)]]) (simp_all add: nr apart)
    have e4: "exec ?st3 (move_insn_of ?high scratch) = Some (store (a + 2) hi ?st3)"
      by (rule into_high [OF sb(4)]) (simp add: s(1))
    have nd: "\<not> H_REG_P dst" using x by (simp add: not_H_REG)
    have "run st (z80_split_move env dst src scratch) = Some (store (a + 2) hi ?st3)"
      using m False nd p d e1 e2 e3 e4 by (simp add: z80_split_move_def run_def)
    moreover have "long_value (store (a + 2) hi ?st3) dst = Some (word_pair lo hi)"
      using s(2) by (intro result [where m = "rs_mem st"]) (simp_all add: same_bases_def store_def set_reg_def)
    ultimately show ?thesis using v by simp
  qed
qed

section \<open>Properties\<close>

text \<open>C40. After reload \<open>z80_split_move\<close> moves a 4-byte value: between the register pairs, from
  memory or an integer to a pair, from a pair to memory, and through the scratch register
  from memory or an integer to memory, the destination ends with the value the source had,
  unless two memory operands overlap without being the same.\<close>

theorem split_move_correct:
  assumes "long_reg dst \<or> long_mem dst" "long_reg src \<or> long_mem src \<or> long_int src"
    and "reload_env env" "\<And>st. pool_sound st (ee_pool env)"
    and "scratch = gen_rtx_REG HImode s" "s \<notin> {4, 5}"
    and "long_mem dst \<Longrightarrow> rtx_value st (XEXP dst 0) = Some a"
    and "long_mem src \<Longrightarrow> rtx_value st (XEXP src 0) = Some b \<and> (long_mem dst \<longrightarrow> a - b \<notin> {1, 2, 3})"
  shows "\<exists>st'. run st (z80_split_move env dst src scratch) = Some st' \<and> long_value st' dst = long_value st src"
proof (cases "long_reg dst")
  case True
  show ?thesis by (rule split_into_reg [OF True assms(2-4) conjunct1 [OF assms(8)]])
next
  case False
  then have m: "long_mem dst" using assms(1) by blast
  show ?thesis
    using assms(8) m by (intro split_into_mem [OF m assms(2-4) assms(7) [OF m] _ assms(5,6)]) blast
qed

definition after_reload :: emit_env where
  "after_reload = \<lparr>ee_reload = \<lparr>reload_completed = True, reload_in_progress = False, volatile_ok = True, reg_renumber = None\<rparr>,
     function_value_matters = False, ee_memory_address = (\<lambda>m a. a), ee_copy_to_reg = id, ee_force_reg = (\<lambda>m x. x),
     real_from_single = GEN_INT, single_image = (\<lambda>x. 0), split_double = (\<lambda>x. (x, x)), ee_pool = (\<lambda>x c. None)\<rparr>"

theorem split_move_correct_witness:
  "\<forall>st. \<exists>st'. run st (z80_split_move after_reload
      (gen_rtx_MEM SImode (gen_rtx_fmt_ee PLUS HImode (gen_rtx_REG HImode 5) (GEN_INT (- 4))))
      (gen_rtx_MEM SImode (gen_rtx_REG HImode 4)) (gen_rtx_REG HImode 3)) = Some st'
    \<or> rs_regs st 5 - 4 - rs_regs st 4 \<in> {1, 2, 3}"
proof
  fix st
  let ?a = "gen_rtx_fmt_ee PLUS HImode (gen_rtx_REG HImode 5) (GEN_INT (- 4))" and ?b = "gen_rtx_REG HImode 4"
  have e: "reload_env after_reload" "\<And>st. pool_sound st (ee_pool after_reload)"
    by (simp_all add: reload_env_def reloading_def after_reload_def pool_sound_def)
  have a: "XEXP ?a 0 = gen_rtx_REG HImode 5" "XEXP ?a 1 = GEN_INT (- 4)" by simp_all
  have ha: "hard_address ?a"
    unfolding hard_address_def a
    by (simp add: CONSTANT_P_def target_simps REG_P_def VALID_CONSTANT_OFFSET_P_def offset_limits)
  have hb: "hard_address ?b"
    by (simp add: hard_address_def CONSTANT_P_def target_simps REG_P_def)
  have m: "long_mem (gen_rtx_MEM SImode ?a)" "long_mem (gen_rtx_MEM SImode ?b)"
    using ha hb by (simp_all add: long_mem_def) (simp_all add: gen_rtx_defs)
  have v: "rtx_value st ?a = Some (rs_regs st 5 - 4)" "rtx_value st ?b = Some (rs_regs st 4)"
    by (simp_all add: value_gen_PLUS)
  show "\<exists>st'. run st (z80_split_move after_reload (gen_rtx_MEM SImode ?a) (gen_rtx_MEM SImode ?b) (gen_rtx_REG HImode 3)) = Some st'
    \<or> rs_regs st 5 - 4 - rs_regs st 4 \<in> {1, 2, 3}"
    using split_move_correct [of "gen_rtx_MEM SImode ?a" "gen_rtx_MEM SImode ?b" after_reload "gen_rtx_REG HImode 3" 3 st
        "rs_regs st 5 - 4" "rs_regs st 4"] m e v by auto
qed

definition long_push :: rtx where
  "long_push = gen_rtx_MEM SImode (gen_rtx_fmt_e PRE_DEC HImode (gen_rtx_REG HImode HARD_SP_REGNUM))"
definition long_pop :: rtx where
  "long_pop = gen_rtx_MEM SImode (gen_rtx_fmt_e POST_INC HImode (gen_rtx_REG HImode HARD_SP_REGNUM))"

lemma stack_parts:
  "z80_gen_lowpart env HImode long_push = Some stack_push_word"
  "z80_gen_highpart env HImode long_push = Some stack_push_word"
  "z80_gen_lowpart env HImode long_pop = Some stack_pop_word"
  "z80_gen_highpart env HImode long_pop = Some stack_pop_word"
  by (simp_all add: z80_gen_lowpart_def z80_gen_highpart_def long_push_def long_pop_def z80_auto_inc_p_def
      stack_push_word_def stack_pop_word_def)

lemma hl_parts:
  "z80_gen_lowpart env HImode (gen_rtx_REG SImode 1) = Some (gen_rtx_REG HImode 1)"
  "z80_gen_highpart env HImode (gen_rtx_REG SImode 1) = Some (gen_rtx_REG HImode 2)"
  using parts_reg [of "gen_rtx_REG SImode 1" env] by (simp_all add: long_reg_def target_simps)

lemma hl_long: "H_REG_P (gen_rtx_REG SImode 1)"
  by (simp add: target_simps REG_P_def)

lemma run_push:
  "run st (z80_split_move env long_push (gen_rtx_REG SImode 1) s)
    = Some (store (rs_regs st 6 - 2 - 2) (rs_regs st 2) (set_reg 6 (rs_regs st 6 - 2 - 2)
        (store (rs_regs st 6 - 2) (rs_regs st 1) (set_reg 6 (rs_regs st 6 - 2) st))))"
  by (simp add: z80_split_move_def stack_parts hl_parts hl_long run_pair move_insn_of_def)
    (simp add: long_push_def)

lemma run_pop:
  "run st (z80_split_move env (gen_rtx_REG SImode 1) long_pop s)
    = Some (set_reg 2 (load16 (rs_mem st) (rs_regs st 6 + 2)) (set_reg 6 (rs_regs st 6 + 2 + 2)
        (set_reg 1 (load16 (rs_mem st) (rs_regs st 6)) (set_reg 6 (rs_regs st 6 + 2) st))))"
  by (simp add: z80_split_move_def stack_parts hl_parts hl_long run_pair move_insn_of_def)

text \<open>Pushing a 4-byte value pushes its low word first, so the words end in memory in the
  wrong order: the value on top of the stack has its halves exchanged, and popping it into
  the same register pair exchanges the halves of the pair.\<close>

theorem long_push_exchanges_words:
  "\<exists>st1 st2. run st (z80_split_move env long_push (gen_rtx_REG SImode 1) s) = Some st1
    \<and> load32 (rs_mem st1) (rs_regs st1 6) = word_pair (rs_regs st 2) (rs_regs st 1)
    \<and> run st1 (z80_split_move env (gen_rtx_REG SImode 1) long_pop s) = Some st2
    \<and> rs_regs st2 1 = rs_regs st 2 \<and> rs_regs st2 2 = rs_regs st 1 \<and> rs_regs st2 6 = rs_regs st 6"
proof -
  let ?a = "rs_regs st 6 - 2 - 2"
  let ?m = "store16 (store16 (rs_mem st) (rs_regs st 6 - 2) (rs_regs st 1)) ?a (rs_regs st 2)"
  have l: "load16 ?m ?a = rs_regs st 2" by (rule load_store_same)
  have "load16 (store16 (store16 (rs_mem st) (b + 2) (rs_regs st 1)) b (rs_regs st 2)) (b + 2)
    = load16 (store16 (rs_mem st) (b + 2) (rs_regs st 1)) (b + 2)" for b
    by (rule load_store_apart) (rule two_above)
  from this [of ?a] have h0: "load16 ?m (?a + 2) = load16 (store16 (rs_mem st) (?a + 2) (rs_regs st 1)) (?a + 2)"
    by simp
  then have h: "load16 ?m (?a + 2) = rs_regs st 1" by (simp only: load_store_same)
  show ?thesis unfolding run_push run_pop using l h by (simp add: load32_pair)
qed

text \<open>The low byte of IX or IY is taken to be the register of the high byte.\<close>

theorem index_low_byte_is_high_byte:
  "z80_gen_lowpart env QImode (gen_rtx_REG HImode HARD_IX_REGNUM) = z80_gen_highpart env QImode (gen_rtx_REG HImode HARD_IX_REGNUM)
   \<and> z80_gen_lowpart env QImode (gen_rtx_REG HImode HARD_IY_REGNUM) = z80_gen_highpart env QImode (gen_rtx_REG HImode HARD_IY_REGNUM)
   \<and> z80_gen_lowpart env QImode (gen_rtx_REG HImode HARD_HL_REGNUM) = Some (gen_rtx_REG QImode HARD_L_REGNUM)"
  by (simp add: z80_gen_lowpart_def z80_gen_highpart_def target_simps REG_P_def)

end
