(* ===== verification/Z80_Output.thy ===== *)
theory Z80_Output
  imports Z80_Moves
begin

text \<open>
  The assembler text of operands: output_addr_const and output_address (gcc/final.c),
  simplify_subtraction (gcc/varasm.c), print_operand_address and its helpers
  (gcc/config/z80/z80.c) and the macro PRINT_OPERAND (z80.h).  Text is a string; an abort, an
  operand error or a field read at the wrong type gives None.  The number of a code label is
  a parameter.  An assembler reads the text back: printed addresses denote the
  addressing mode that was meant, and printed sums have the value of the expression, except
  for differences whose right side is a sum.
\<close>

section \<open>Numbers and names\<close>

fun print_nat :: "nat \<Rightarrow> string" where
  "print_nat n = (if n < 10 then [char_of (48 + n)] else print_nat (n div 10) @ [char_of (48 + n mod 10)])"

declare print_nat.simps [simp del]

definition print_dec :: "int \<Rightarrow> string" where
  "print_dec i = (if i < 0 then CHR ''-'' # print_nat (nat (- i)) else print_nat (nat i))"

text \<open>The formats %x and %08x of an unsigned 32-bit word.\<close>

definition hex_digit :: "nat \<Rightarrow> char" where
  "hex_digit d = char_of (if d < 10 then 48 + d else 87 + d)"

fun hex_digits :: "nat \<Rightarrow> string" where
  "hex_digits n = (if n < 16 then [hex_digit n] else hex_digits (n div 16) @ [hex_digit (n mod 16)])"

declare hex_digits.simps [simp del]

definition print_hex :: "int \<Rightarrow> string" where
  "print_hex i = hex_digits (unat (word_of_int i :: hwi))"

definition print_hex8 :: "int \<Rightarrow> string" where
  "print_hex8 i = (let t = print_hex i in replicate (8 - length t) (CHR ''0'') @ t)"

text \<open>assemble_name, with the macro ASM_OUTPUT_LABELREF of the port.\<close>

definition STRIP_NAME_ENCODING :: "string \<Rightarrow> string" where
  "STRIP_NAME_ENCODING name = (case name of CHR ''*'' # rest \<Rightarrow> rest | _ \<Rightarrow> name)"

definition ASM_OUTPUT_LABELREF :: "string \<Rightarrow> string" where
  "ASM_OUTPUT_LABELREF name = ''_'' @ STRIP_NAME_ENCODING name"

definition assemble_name :: "string \<Rightarrow> string" where
  "assemble_name name = (case name of CHR ''*'' # rest \<Rightarrow> rest | _ \<Rightarrow> ASM_OUTPUT_LABELREF name)"

definition ASM_GENERATE_INTERNAL_LABEL :: "string \<Rightarrow> int \<Rightarrow> string" where
  "ASM_GENERATE_INTERNAL_LABEL prefix num = ''*.'' @ prefix @ print_dec num"

section \<open>Constant expressions\<close>

text \<open>
  The decoded form of a constant: a base and an offset.  Bases are compared as pointers; the
  name of a symbol is one string and a label one insn, but of other expressions
  of the same shape it is not known whether they are the same.  A constant of two words is
  read through the wrong member of a union: no result.
\<close>

datatype const_base = No_base | Base_string string | Base_insn "nat option" | Base_pc | Base_other rtx

definition base_of :: "rtx \<Rightarrow> const_base" where
  "base_of x = (if GET_CODE x = SYMBOL_REF then Base_string (XSTR x 0)
     else if GET_CODE x = LABEL_REF then Base_insn (XINSN x 0)
     else if GET_CODE x = PC then Base_pc else Base_other x)"

definition decode_rtx_const :: "rtx \<Rightarrow> (const_base \<times> int) option" where
  "decode_rtx_const x =
     (if GET_CODE x = CONST_INT then Some (No_base, INTVAL x)
      else if GET_CODE x \<in> {SYMBOL_REF, LABEL_REF, PC} then Some (base_of x, 0)
      else if GET_CODE x = CONST_rtx then
        (let x = XEXP x 0 in
         if GET_CODE x = PLUS \<and> GET_CODE (XEXP x 1) = CONST_INT
         then Some (base_of (XEXP x 0), INTVAL (XEXP x 1))
         else if GET_CODE x = MINUS \<and> GET_CODE (XEXP x 1) = CONST_INT
         then Some (base_of (XEXP x 0), - INTVAL (XEXP x 1))
         else None)
      else None)"

definition same_base :: "const_base \<Rightarrow> const_base \<Rightarrow> bool option" where
  "same_base a b = (if a \<noteq> b then Some False else case a of Base_other _ \<Rightarrow> None | _ \<Rightarrow> Some True)"

definition simplify_subtraction :: "rtx \<Rightarrow> rtx option" where
  "simplify_subtraction x =
     (case (decode_rtx_const (XEXP x 0), decode_rtx_const (XEXP x 1)) of
        (Some (base0, offset0), Some (base1, offset1)) \<Rightarrow>
          map_option (\<lambda>same. if same then GEN_INT (offset0 - offset1) else x) (same_base base0 base1)
      | _ \<Rightarrow> None)"

abbreviation plus_sign :: "rtx \<Rightarrow> string" where
  "plus_sign x \<equiv> if INTVAL x \<ge> 0 then ''+'' else []"

text \<open>The texts of both sides of a sum or difference around a sign.\<close>

definition joined :: "string option \<Rightarrow> string \<Rightarrow> string option \<Rightarrow> string option" where
  "joined s sign t = (case (s, t) of (Some s, Some t) \<Rightarrow> Some (s @ sign @ t) | _ \<Rightarrow> None)"

text \<open>
  The value field of the second operand of a sum is read to find its sign, also when it is
  no integer: such a sum has no determined text.  flag_pic is off.
\<close>

function output_addr_const :: "(nat option \<Rightarrow> int) \<Rightarrow> rtx \<Rightarrow> string option" where
  "output_addr_const label_number x =
     (if GET_CODE x = SYMBOL_REF then Some (assemble_name (XSTR x 0))
      else if GET_CODE x = LABEL_REF
        then Some (assemble_name (ASM_GENERATE_INTERNAL_LABEL ''L'' (label_number (XINSN x 0))))
      else if GET_CODE x = CODE_LABEL
        then Some (assemble_name (ASM_GENERATE_INTERNAL_LABEL ''L'' (XINT x 3)))
      else if GET_CODE x = CONST_INT then Some (print_dec (INTVAL x))
      else if GET_CODE x = CONST_DOUBLE then
        (if GET_MODE x \<noteq> VOIDmode then None
         else if CONST_DOUBLE_HIGH x \<noteq> 0 then
           Some (''0x'' @ print_hex (CONST_DOUBLE_HIGH x) @ print_hex8 (CONST_DOUBLE_LOW x))
         else if CONST_DOUBLE_LOW x < 0 then Some (''0x'' @ print_hex (CONST_DOUBLE_LOW x))
         else Some (print_dec (CONST_DOUBLE_LOW x)))
      else if GET_CODE x \<in> {CONST_rtx, ZERO_EXTEND, SIGN_EXTEND} then output_addr_const label_number (XEXP x 0)
      else if GET_CODE x = PLUS then
        (if GET_CODE (XEXP x 0) = CONST_INT then
           joined (output_addr_const label_number (XEXP x 1)) (plus_sign (XEXP x 0))
             (output_addr_const label_number (XEXP x 0))
         else if GET_CODE (XEXP x 1) = CONST_INT then
           joined (output_addr_const label_number (XEXP x 0)) (plus_sign (XEXP x 1))
             (output_addr_const label_number (XEXP x 1))
         else None)
      else if GET_CODE x = MINUS then
        (case simplify_subtraction x of
           None \<Rightarrow> None
         | Some y \<Rightarrow>
             if GET_CODE y \<noteq> MINUS then Some (print_dec (INTVAL y))
             else joined (output_addr_const label_number (XEXP x 0)) ''-''
               (if GET_CODE (XEXP x 1) = CONST_INT \<and> INTVAL (XEXP x 1) < 0
                then map_option (\<lambda>t. ''('' @ t @ '')'') (output_addr_const label_number (XEXP x 1))
                else output_addr_const label_number (XEXP x 1)))
      else None)"
  by pat_completeness auto
termination
  by (relation "measure (size \<circ> snd)") (auto simp: size_XEXP_code)

declare output_addr_const.simps [simp del]

section \<open>Addresses\<close>

definition asm_print_register :: "int \<Rightarrow> string option" where
  "asm_print_register regno =
     (if 0 \<le> regno \<and> nat regno < length REGISTER_NAMES then Some (REGISTER_NAMES ! nat regno) else None)"

definition lower :: "char \<Rightarrow> char" where
  "lower c = (if of_char c \<ge> (65 :: nat) \<and> of_char c \<le> (90 :: nat) then char_of (of_char c + 32 :: nat) else c)"

definition strcasecmp_eq :: "string \<Rightarrow> string \<Rightarrow> bool" where
  "strcasecmp_eq s t = (map lower s = map lower t)"

function must_parenthesize :: "rtx \<Rightarrow> bool" where
  "must_parenthesize x =
     (if GET_CODE x = SYMBOL_REF then strcasecmp_eq (XSTR x 0) ''x'' \<or> strcasecmp_eq (XSTR x 0) ''y''
      else if GET_CODE x \<in> {PLUS, MINUS} then must_parenthesize (XEXP x 0) \<or> must_parenthesize (XEXP x 1)
      else if GET_CODE x \<in> {MEM, CONST_rtx, ZERO_EXTEND, SIGN_EXTEND} then must_parenthesize (XEXP x 0)
      else False)"
  by pat_completeness auto
termination
  by (relation "measure size") (auto simp: size_XEXP_code)

declare must_parenthesize.simps [simp del]

text \<open>need_parenthesis is computed and never used.  z80.c is compiled without REG_OK_STRICT.\<close>

definition print_operand_address :: "renumber \<Rightarrow> (nat option \<Rightarrow> int) \<Rightarrow> rtx \<Rightarrow> string option" where
  "print_operand_address rr label_number addr =
     (if GET_CODE addr = REG then asm_print_register (REGNO addr)
      else if GET_CODE addr = MEM then output_addr_const label_number (XEXP addr 0)
      else if GET_CODE addr = PLUS then
        (let swapped = \<not> G_REG_P (XEXP addr 0) \<and> G_REG_P (XEXP addr 1);
             base = (if swapped then XEXP addr 1 else XEXP addr 0);
             offset = (if swapped then XEXP addr 0 else XEXP addr 1) in
         if GET_CODE offset \<noteq> CONST_INT then None
         else if CONSTANT_ADDRESS_P base \<and> CONSTANT_ADDRESS_P offset then
           joined (output_addr_const label_number base) (plus_sign offset) (output_addr_const label_number offset)
         else if REG_P base \<and> REGNO_OK_FOR_BASE_NONSTRICT_P rr (REGNO base) then
           joined (asm_print_register (REGNO base)) (plus_sign offset) (output_addr_const label_number offset)
         else None)
      else if GET_CODE addr = CONST_INT \<and> INTVAL addr < 0x8000 \<and> INTVAL addr \<ge> - 0x8000
        then Some (print_dec (INTVAL addr))
      else output_addr_const label_number addr)"

section \<open>Operands\<close>

text \<open>alter_subreg after reload, when no replacement is pending.\<close>

function alter_subreg :: "const_pool \<Rightarrow> rtx \<Rightarrow> rtx" where
  "alter_subreg pool x =
     (if GET_CODE x \<noteq> SUBREG then x
      else
        (let y = (if GET_CODE (XEXP x 0) = SUBREG then alter_subreg pool (XEXP x 0) else XEXP x 0) in
         if GET_CODE y = REG then
           Rtx REG (GET_MODE x) ((rtx_flags_of x)\<lparr>fl_used := False\<rparr>)
             (FInt (REGNO y + SUBREG_WORD x) # tl (rtx_flds x))
         else if GET_CODE y = MEM then
           Rtx MEM (GET_MODE x)
             ((rtx_flags_of x)\<lparr>fl_volatil := fl_volatil (rtx_flags_of y), fl_in_struct := fl_in_struct (rtx_flags_of y),
               fl_frame_related := fl_frame_related (rtx_flags_of y)\<rparr>)
             [FExp (plus_constant_wide pool (XEXP y 0) (word_of_int (SUBREG_WORD x * int UNITS_PER_WORD))), fld_at y 1]
         else x))"
  by pat_completeness auto
termination
  by (relation "measure (size \<circ> snd)") (auto simp: size_XEXP_code)

declare alter_subreg.simps [simp del]

function walk_alter_subreg :: "const_pool \<Rightarrow> rtx \<Rightarrow> rtx" where
  "walk_alter_subreg pool x =
     (if GET_CODE x = PLUS \<or> GET_CODE x = MULT then
        Rtx (GET_CODE x) (GET_MODE x) (rtx_flags_of x)
          (FExp (walk_alter_subreg pool (XEXP x 0)) # FExp (walk_alter_subreg pool (XEXP x 1)) # drop 2 (rtx_flds x))
      else if GET_CODE x = MEM then
        Rtx (GET_CODE x) (GET_MODE x) (rtx_flags_of x) (FExp (walk_alter_subreg pool (XEXP x 0)) # tl (rtx_flds x))
      else if GET_CODE x = SUBREG then alter_subreg pool x
      else x)"
  by pat_completeness auto
termination
  by (relation "measure (size \<circ> snd)") (auto simp: size_XEXP_code)

declare walk_alter_subreg.simps [simp del]

definition output_address :: "const_pool \<Rightarrow> renumber \<Rightarrow> (nat option \<Rightarrow> int) \<Rightarrow> rtx \<Rightarrow> string option" where
  "output_address pool rr label_number x = print_operand_address rr label_number (walk_alter_subreg pool x)"

text \<open>
  A conversion letter of 0 stands for none.  print_double writes a real constant with the
  host's %.20e.
\<close>

definition PRINT_OPERAND ::
  "emit_env \<Rightarrow> const_pool \<Rightarrow> renumber \<Rightarrow> (nat option \<Rightarrow> int) \<Rightarrow> (int \<Rightarrow> int \<Rightarrow> string) \<Rightarrow> rtx \<Rightarrow> char \<Rightarrow> string option"
where
  "PRINT_OPERAND env pool rr label_number print_double x code =
     (if code = CHR ''#'' then Some ''#''
      else if code = CHR ''h'' then
        Option.bind
          (if GET_CODE x = REG \<and> GET_MODE x = QImode \<and> \<not> Q_REG_P x then z80_gen_highpart env QImode x else Some x)
          (\<lambda>x. asm_print_register (REGNO x))
      else if code = CHR ''H'' then
        Option.bind (if GET_CODE x = REG \<and> H_REG_P x then z80_gen_highpart env QImode x else Some x)
          (\<lambda>x. asm_print_register (REGNO x))
      else if GET_CODE x = REG then
        Option.bind (if \<not> Q_REG_P x \<and> GET_MODE x = QImode then z80_gen_lowpart env QImode x else Some x)
          (\<lambda>x. asm_print_register (REGNO x))
      else if GET_CODE x = PLUS then print_operand_address rr label_number x
      else if GET_CODE x = MEM then output_address pool rr label_number (XEXP x 0)
      else if GET_CODE x = CONST_DOUBLE \<and> GET_MODE x \<noteq> SImode then
        Some (print_double (CONST_DOUBLE_LOW x) (CONST_DOUBLE_HIGH x))
      else output_addr_const label_number x)"

text \<open>output_operand refuses pseudo registers.\<close>

definition output_operand ::
  "emit_env \<Rightarrow> const_pool \<Rightarrow> renumber \<Rightarrow> (nat option \<Rightarrow> int) \<Rightarrow> (int \<Rightarrow> int \<Rightarrow> string) \<Rightarrow> rtx \<Rightarrow> char \<Rightarrow> string option"
where
  "output_operand env pool rr label_number print_double x code =
     (let x = (if x \<noteq> NULL_RTX \<and> GET_CODE x = SUBREG then alter_subreg pool x else x) in
      if x \<noteq> NULL_RTX \<and> GET_CODE x = REG \<and> REGNO x \<ge> FIRST_PSEUDO_REGISTER then None
      else PRINT_OPERAND env pool rr label_number print_double x code)"

section \<open>Reading numbers and addresses back\<close>

text \<open>What an assembler makes of the texts: a decimal number, a register with a displacement.\<close>

definition digit_value :: "char \<Rightarrow> int option" where
  "digit_value c = (if 48 \<le> (of_char c :: nat) \<and> (of_char c :: nat) \<le> 57 then Some (of_char c - 48) else None)"

fun read_digits :: "int \<Rightarrow> string \<Rightarrow> int option" where
  "read_digits a [] = Some a"
| "read_digits a (c # s) = Option.bind (digit_value c) (\<lambda>d. read_digits (10 * a + d) s)"

definition read_nat :: "string \<Rightarrow> int option" where
  "read_nat s = (if s = [] then None else read_digits 0 s)"

definition is_sign :: "char \<Rightarrow> bool" where
  "is_sign c \<longleftrightarrow> c = CHR ''+'' \<or> c = CHR ''-''"

fun register_named :: "string list \<Rightarrow> string \<Rightarrow> int option" where
  "register_named [] s = None"
| "register_named (n # ns) s = (if n = s then Some 0 else map_option ((+) 1) (register_named ns s))"

definition read_address :: "string \<Rightarrow> z80_address option" where
  "read_address s =
     Option.bind (register_named REGISTER_NAMES (takeWhile (\<lambda>c. \<not> is_sign c) s))
       (\<lambda>r. case dropWhile (\<lambda>c. \<not> is_sign c) s of
          [] \<Rightarrow> Some (Indexed r 0)
        | c # t \<Rightarrow> map_option (\<lambda>d. Indexed r (if c = CHR ''-'' then - d else d)) (read_nat t))"

lemma of_digit_char: "d < 10 \<Longrightarrow> (of_char (char_of (48 + d)) :: nat) = 48 + d"
  by (simp add: of_char_of)

lemma digit_value_digit: "d < 10 \<Longrightarrow> digit_value (char_of (48 + d)) = Some (int d)"
proof -
  assume d: "d < 10"
  have "(of_char (char_of (48 + d)) :: int) = int (of_char (char_of (48 + d)))"
    by (metis of_nat_of_char)
  then show ?thesis using d by (simp add: digit_value_def of_digit_char)
qed

lemma read_digits_append: "read_digits a (s @ t) = Option.bind (read_digits a s) (\<lambda>b. read_digits b t)"
  by (induction s arbitrary: a) (auto split: Option.bind_splits)

lemma print_nat_nonempty: "print_nat n \<noteq> []"
  by (subst print_nat.simps) simp

lemma read_digits_print_nat: "read_digits 0 (print_nat n) = Some (int n)"
proof (induction n rule: print_nat.induct)
  case (1 n)
  show ?case
  proof (cases "n < 10")
    case True
    then show ?thesis by (subst print_nat.simps) (simp add: digit_value_digit)
  next
    case False
    have "int n = 10 * int (n div 10) + int (n mod 10)" by presburger
    then show ?thesis
      using False 1 by (subst print_nat.simps) (simp add: digit_value_digit read_digits_append)
  qed
qed

lemma read_nat_print_nat: "read_nat (print_nat n) = Some (int n)"
  by (simp add: read_nat_def print_nat_nonempty read_digits_print_nat)

lemma digits_of_print_nat: "c \<in> set (print_nat n) \<Longrightarrow> digit_value c \<noteq> None"
proof (induction n rule: print_nat.induct)
  case (1 n)
  then show ?case
    by (subst (asm) (2) print_nat.simps) (auto simp: digit_value_digit split: if_splits)
qed

lemma digit_value_sign: "is_sign c \<Longrightarrow> digit_value c = None"
  by (auto simp: is_sign_def digit_value_def)

lemma print_nat_signs: "c \<in> set (print_nat n) \<Longrightarrow> \<not> is_sign c"
  using digits_of_print_nat digit_value_sign by blast

section \<open>Printed addresses\<close>

lemma split_at_sign:
  assumes "\<And>c. c \<in> set s \<Longrightarrow> \<not> is_sign c" "is_sign c"
  shows "takeWhile (\<lambda>c. \<not> is_sign c) (s @ c # t) = s" "dropWhile (\<lambda>c. \<not> is_sign c) (s @ c # t) = c # t"
  using assms by (auto simp: takeWhile_append dropWhile_append)

lemma takeWhile_no_sign:
  assumes "\<And>c. c \<in> set s \<Longrightarrow> \<not> is_sign c"
  shows "takeWhile (\<lambda>c. \<not> is_sign c) s = s" "dropWhile (\<lambda>c. \<not> is_sign c) s = []"
  using assms by (auto simp: takeWhile_eq_all_conv dropWhile_eq_Nil_conv)

text \<open>The sign and the digits of a displacement.\<close>

lemma signed_text:
  "(if 0 \<le> d then ''+'' else []) @ print_dec d = (if 0 \<le> d then CHR ''+'' else CHR ''-'') # print_nat (nat \<bar>d\<bar>)"
  by (simp add: print_dec_def)

lemma sign_chars [simp]: "is_sign (CHR ''+'')" "is_sign (CHR ''-'')"
  by (simp_all add: is_sign_def)

lemma base_names:
  assumes "r = 4 \<or> r = 5"
  shows "asm_print_register r = Some (REGISTER_NAMES ! nat r)"
    "\<And>c. c \<in> set (REGISTER_NAMES ! nat r) \<Longrightarrow> \<not> is_sign c"
    "register_named REGISTER_NAMES (REGISTER_NAMES ! nat r) = Some r"
  using assms by (auto simp: asm_print_register_def REGISTER_NAMES_def is_sign_def)

lemma read_indexed:
  assumes "r = 4 \<or> r = 5"
  shows "read_address (REGISTER_NAMES ! nat r) = Some (Indexed r 0)"
    "read_address (REGISTER_NAMES ! nat r @ (if 0 \<le> d then ''+'' else []) @ print_dec d) = Some (Indexed r d)"
proof -
  note names = base_names [OF assms]
  show "read_address (REGISTER_NAMES ! nat r) = Some (Indexed r 0)"
    by (simp add: read_address_def takeWhile_no_sign names)
  show "read_address (REGISTER_NAMES ! nat r @ (if 0 \<le> d then ''+'' else []) @ print_dec d) = Some (Indexed r d)"
    by (simp only: signed_text) (simp add: read_address_def split_at_sign names sign_chars read_nat_print_nat)
qed

lemma output_addr_const_int: "GET_CODE x = CONST_INT \<Longrightarrow> output_addr_const label_number x = Some (print_dec (INTVAL x))"
  by (subst output_addr_const.simps) simp

text \<open>Altering the subregs of an address of a register and a displacement changes nothing that is printed.\<close>

lemma walk_alter_register: "GET_CODE x = REG \<Longrightarrow> walk_alter_subreg pool x = x"
  by (subst walk_alter_subreg.simps) simp

lemma walk_alter_sum:
  assumes "GET_CODE x = PLUS" "GET_CODE (XEXP x 0) = REG" "GET_CODE (XEXP x 1) = CONST_INT"
  shows "GET_CODE (walk_alter_subreg pool x) = PLUS" "XEXP (walk_alter_subreg pool x) 0 = XEXP x 0"
    "XEXP (walk_alter_subreg pool x) 1 = XEXP x 1"
proof -
  have int: "walk_alter_subreg pool (XEXP x 1) = XEXP x 1"
    using assms(3) by (subst walk_alter_subreg.simps) simp
  show "GET_CODE (walk_alter_subreg pool x) = PLUS" "XEXP (walk_alter_subreg pool x) 0 = XEXP x 0"
    "XEXP (walk_alter_subreg pool x) 1 = XEXP x 1"
    using assms int walk_alter_register [OF assms(2)]
    by (subst walk_alter_subreg.simps, simp add: XEXP_def fld_at_def)+
qed

lemma printed_register_address:
  assumes "REGNO x = 4 \<or> REGNO x = 5" "GET_CODE x = REG"
  shows "print_operand_address rr label_number x = Some (REGISTER_NAMES ! nat (REGNO x))"
  using assms base_names(1) [of "REGNO x"] by (auto simp: print_operand_address_def)

lemma printed_sum_address:
  assumes "GET_CODE x = PLUS" "GET_CODE (XEXP x 1) = CONST_INT"
    and "GET_CODE (XEXP x 0) = REG" "REGNO (XEXP x 0) = 4 \<or> REGNO (XEXP x 0) = 5"
  shows "print_operand_address rr label_number x
    = Some (REGISTER_NAMES ! nat (REGNO (XEXP x 0)) @ plus_sign (XEXP x 1) @ print_dec (INTVAL (XEXP x 1)))"
proof -
  have g: "G_REG_P (XEXP x 0)" "REGNO_OK_FOR_BASE_NONSTRICT_P rr (REGNO (XEXP x 0))"
    "\<not> CONSTANT_ADDRESS_P (XEXP x 0)"
    using assms(3,4) by (auto simp: target_simps REG_P_def CONSTANT_ADDRESS_P_def CONSTANT_P_def)
  show ?thesis
    using assms g base_names(1) [OF assms(4)]
    by (simp add: print_operand_address_def joined_def output_addr_const_int REG_P_def)
qed

text \<open>C16. The assembler reads the text of a memory operand back as the addressing mode it stands
  for: for a legitimate address of a hard base register, with or without a displacement, the
  operand prints without abort, as the name of the index register followed by the signed
  displacement.\<close>

theorem printed_addresses_read_back:
  assumes "GET_CODE operand = MEM" and "z80_go_if_legitimate_address rr (XEXP operand 0) mode True"
    and "GET_CODE (XEXP operand 0) = REG \<or> GET_CODE (XEXP operand 0) = PLUS"
    and "REGNO (if GET_CODE (XEXP operand 0) = REG then XEXP operand 0 else XEXP (XEXP operand 0) 0)
      < FIRST_PSEUDO_REGISTER"
  shows "\<exists>s r d. output_operand env pool rr label_number print_double operand (CHR 0x00) = Some s
    \<and> addressing_mode rr (XEXP operand 0) = Some (Indexed r d) \<and> read_address s = Some (Indexed r d)"
proof -
  let ?x = "XEXP operand 0" and ?b = "if GET_CODE (XEXP operand 0) = REG then XEXP operand 0 else XEXP (XEXP operand 0) 0"
  have r: "REGNO ?b = 4 \<or> REGNO ?b = 5" "GET_CODE ?b = REG" and o: "GET_CODE ?x = PLUS \<longrightarrow> GET_CODE (XEXP ?x 1) = CONST_INT"
    using assms(2-) by (auto simp: address_defs CONSTANT_P_def base_hard hard_base_def PUSH_POP_ADDRESS_P_def
        REG_VALID_FOR_BASE_P_def split: if_splits)
  have out: "output_operand env pool rr label_number print_double operand (CHR 0x00)
      = print_operand_address rr label_number (walk_alter_subreg pool ?x)"
    using assms(1) by (simp add: output_operand_def PRINT_OPERAND_def output_address_def)
  show ?thesis
  proof (cases "GET_CODE ?x = REG")
    case True
    then show ?thesis
      using r read_indexed(1) [of "REGNO ?x"] printed_register_address [of ?x]
      by (auto simp: out walk_alter_register addressing_mode_def hard_base_def CONSTANT_P_def REG_VALID_FOR_BASE_P_def)
  next
    case False
    then have plus: "GET_CODE ?x = PLUS" using assms(3) by simp
    with r o show ?thesis
      using read_indexed(2) [of "REGNO (XEXP ?x 0)" "INTVAL (XEXP ?x 1)"] walk_alter_sum [of ?x]
        printed_sum_address [of "walk_alter_subreg pool ?x"]
      by (auto simp: out addressing_mode_def hard_base_def CONSTANT_P_def REG_VALID_FOR_BASE_P_def)
  qed
qed

theorem printed_addresses_witness:
  "\<forall>env pool rr label_number print_double. \<exists>s r d.
    output_operand env pool rr label_number print_double
      (gen_rtx_MEM HImode (gen_rtx_fmt_ee PLUS HImode (gen_rtx_REG HImode 5) (GEN_INT (- 2)))) (CHR 0x00) = Some s
    \<and> addressing_mode rr (XEXP (gen_rtx_MEM HImode (gen_rtx_fmt_ee PLUS HImode (gen_rtx_REG HImode 5) (GEN_INT (- 2)))) 0)
      = Some (Indexed r d)
    \<and> read_address s = Some (Indexed r d)"
proof (intro allI)
  fix env pool rr label_number print_double
  let ?x = "gen_rtx_MEM HImode (gen_rtx_fmt_ee PLUS HImode (gen_rtx_REG HImode 5) (GEN_INT (- 2)))"
  have "z80_go_if_legitimate_address rr (XEXP ?x 0) HImode True"
    by (simp add: address_defs CONSTANT_P_def VALID_CONSTANT_OFFSET_P_def offset_limits REGNO_OK_FOR_BASE_P_def
        REG_VALID_FOR_BASE_P_def)
  then show "\<exists>s r d. output_operand env pool rr label_number print_double ?x (CHR 0x00) = Some s
      \<and> addressing_mode rr (XEXP ?x 0) = Some (Indexed r d) \<and> read_address s = Some (Indexed r d)"
    by (intro printed_addresses_read_back) simp_all
qed

section \<open>Printed constant expressions\<close>

text \<open>
  The value of a constant expression, over the addresses of the symbols in the assembler's
  name space; the program counter is the symbol of one dot.
\<close>

function const_value :: "(nat option \<Rightarrow> int) \<Rightarrow> (string \<Rightarrow> int) \<Rightarrow> rtx \<Rightarrow> int" where
  "const_value label_number addr x =
     (if GET_CODE x = SYMBOL_REF then addr (assemble_name (XSTR x 0))
      else if GET_CODE x = LABEL_REF
        then addr (assemble_name (ASM_GENERATE_INTERNAL_LABEL ''L'' (label_number (XINSN x 0))))
      else if GET_CODE x = PC then addr ''.''
      else if GET_CODE x = CONST_INT then INTVAL x
      else if GET_CODE x = CONST_rtx then const_value label_number addr (XEXP x 0)
      else if GET_CODE x = PLUS
        then const_value label_number addr (XEXP x 0) + const_value label_number addr (XEXP x 1)
      else if GET_CODE x = MINUS
        then const_value label_number addr (XEXP x 0) - const_value label_number addr (XEXP x 1)
      else 0)"
  by pat_completeness auto
termination
  by (relation "measure (size \<circ> snd \<circ> snd)") (auto simp: size_XEXP_code)

declare const_value.simps [simp del]

text \<open>
  How an assembler reads a sum: terms with signs between them, from left to right.  A term is a
  number, a symbol, or a negative number in parentheses; an empty first term counts 0.
\<close>

definition read_term :: "(string \<Rightarrow> int) \<Rightarrow> string \<Rightarrow> int option" where
  "read_term addr t =
     (case t of
        [] \<Rightarrow> Some 0
      | c # u \<Rightarrow>
          if c = CHR ''('' then
            (if u \<noteq> [] \<and> hd u = CHR ''-'' \<and> List.last u = CHR '')'' then map_option uminus (read_nat (butlast (tl u)))
             else None)
          else if digit_value c \<noteq> None then read_nat t
          else Some (addr t))"

text \<open>A parenthesis not yet closed.\<close>

definition open_term :: "string \<Rightarrow> bool" where
  "open_term t \<longleftrightarrow> t \<noteq> [] \<and> hd t = CHR ''('' \<and> List.last t \<noteq> CHR '')''"

definition sign_of :: "char \<Rightarrow> int" where
  "sign_of c = (if c = CHR ''-'' then - 1 else 1)"

fun read_sum :: "(string \<Rightarrow> int) \<Rightarrow> int \<Rightarrow> int \<Rightarrow> string \<Rightarrow> string \<Rightarrow> int option" where
  "read_sum addr a g t [] = map_option (\<lambda>v. a + g * v) (read_term addr t)"
| "read_sum addr a g t (c # s) =
     (if is_sign c \<and> \<not> open_term t
      then Option.bind (read_term addr t) (\<lambda>v. read_sum addr (a + g * v) (sign_of c) [] s)
      else read_sum addr a g (t @ [c]) s)"

definition read_expression :: "(string \<Rightarrow> int) \<Rightarrow> string \<Rightarrow> int option" where
  "read_expression addr s = read_sum addr 0 1 [] s"

lemma open_term_unread: "open_term t \<Longrightarrow> read_term addr t = None"
  by (cases t) (auto simp: open_term_def read_term_def split: if_splits)

lemma read_sum_no_sign:
  "(\<And>c. c \<in> set s \<Longrightarrow> \<not> is_sign c) \<Longrightarrow> read_sum addr a g t s = map_option (\<lambda>v. a + g * v) (read_term addr (t @ s))"
  by (induction s arbitrary: t) auto

lemma read_sum_sign:
  assumes "read_sum addr a g t s = Some v" "is_sign c"
  shows "read_sum addr a g t (s @ c # r) = read_sum addr v (sign_of c) [] r"
  using assms(1)
proof (induction s arbitrary: a g t)
  case Nil
  then show ?case using assms(2) open_term_unread [of t addr] by auto
next
  case (Cons d s)
  then show ?case by (auto split: if_splits Option.bind_splits)
qed

lemma read_term_print_nat: "read_term addr (print_nat n) = Some (int n)"
proof -
  obtain c s where "print_nat n = c # s" using print_nat_nonempty [of n] by (cases "print_nat n") auto
  moreover from this have "digit_value c \<noteq> None" using digits_of_print_nat [of c n] by simp
  moreover have "digit_value (CHR ''('') = None" by (simp add: digit_value_def)
  ultimately show ?thesis using read_nat_print_nat [of n] by (auto simp: read_term_def)
qed

lemma read_sum_print_nat: "read_sum addr a g [] (print_nat n) = Some (a + g * int n)"
  by (simp add: read_sum_no_sign print_nat_signs read_term_print_nat)

lemma read_sum_negative: "read_sum addr a g [] (''('' @ print_dec (- int (Suc n)) @ '')'') = Some (a - g * int (Suc n))"
proof -
  have "read_sum addr a g t (print_nat m @ '')'') = map_option (\<lambda>v. a + g * v) (read_term addr (t @ print_nat m @ '')''))"
    for t m
    by (rule read_sum_no_sign) (auto simp: print_nat_signs is_sign_def dest: print_nat_signs)
  then have "read_sum addr a g ''(-'' (print_nat (Suc n) @ '')'')
      = map_option (\<lambda>v. a + g * v) (read_term addr (''(-'' @ print_nat (Suc n) @ '')''))" .
  moreover have "read_term addr (''(-'' @ print_nat (Suc n) @ '')'') = Some (- int (Suc n))"
    by (simp add: read_term_def read_nat_print_nat del: of_nat_Suc)
  moreover have "print_dec (- int (Suc n)) = CHR ''-'' # print_nat (Suc n)"
    by (simp add: print_dec_def) (metis nat_int of_nat_Suc add.commute)
  ultimately show ?thesis
    by (simp add: open_term_def is_sign_def del: of_nat_Suc)
qed

lemma read_sum_print_dec: "read_sum addr 0 1 [] (print_dec i) = Some i"
  by (auto simp: print_dec_def read_sum_print_nat read_term_def open_term_def sign_of_def)

lemma read_sum_displacement:
  assumes "read_sum addr a g t s = Some v"
  shows "read_sum addr a g t (s @ (if 0 \<le> d then ''+'' else []) @ print_dec d) = Some (v + d)"
  by (simp only: signed_text) (simp add: read_sum_sign [OF assms] read_sum_print_nat sign_of_def)

text \<open>Names the assembler can tell from numbers and sums.\<close>

definition plain_name :: "string \<Rightarrow> bool" where
  "plain_name t \<longleftrightarrow> t \<noteq> [] \<and> (\<forall>c\<in>set t. \<not> is_sign c) \<and> hd t \<noteq> CHR ''('' \<and> digit_value (hd t) = None"

definition single_term :: "rtx \<Rightarrow> bool" where
  "single_term x \<longleftrightarrow> GET_CODE x \<in> {SYMBOL_REF, LABEL_REF, CONST_INT}"

text \<open>
  Sums and differences that can be printed: one side of a sum is an integer, and the right side
  of a difference is a single term unless the difference is folded.
\<close>

function printable_sum :: "(nat option \<Rightarrow> int) \<Rightarrow> rtx \<Rightarrow> bool" where
  "printable_sum label_number x =
     (if GET_CODE x = SYMBOL_REF then plain_name (assemble_name (XSTR x 0))
      else if GET_CODE x = LABEL_REF then 0 \<le> label_number (XINSN x 0)
      else if GET_CODE x = CONST_INT then True
      else if GET_CODE x = CONST_rtx then printable_sum label_number (XEXP x 0)
      else if GET_CODE x = PLUS then
        (GET_CODE (XEXP x 0) = CONST_INT \<or> GET_CODE (XEXP x 1) = CONST_INT)
          \<and> printable_sum label_number (XEXP x 0) \<and> printable_sum label_number (XEXP x 1)
      else if GET_CODE x = MINUS then
        (case simplify_subtraction x of
           None \<Rightarrow> False
         | Some y \<Rightarrow> GET_CODE y = MINUS \<longrightarrow>
             single_term (XEXP x 1) \<and> printable_sum label_number (XEXP x 0) \<and> printable_sum label_number (XEXP x 1))
      else False)"
  by pat_completeness auto
termination
  by (relation "measure (size \<circ> snd)") (auto simp: size_XEXP_code)

declare printable_sum.simps [simp del]

lemma plain_name_term:
  assumes "plain_name t"
  shows "read_sum addr a g [] t = Some (a + g * addr t)"
proof -
  obtain c u where "t = c # u" using assms by (cases t) (auto simp: plain_name_def)
  then have "read_term addr t = Some (addr t)" using assms by (simp add: plain_name_def read_term_def)
  then show ?thesis using assms by (simp add: read_sum_no_sign plain_name_def)
qed

lemma label_name_plain:
  "0 \<le> n \<Longrightarrow> plain_name (assemble_name (ASM_GENERATE_INTERNAL_LABEL ''L'' n))"
  by (auto simp: assemble_name_def ASM_GENERATE_INTERNAL_LABEL_def plain_name_def print_dec_def print_nat_signs
      is_sign_def digit_value_def dest: print_nat_signs)

fun base_value :: "(nat option \<Rightarrow> int) \<Rightarrow> (string \<Rightarrow> int) \<Rightarrow> const_base \<Rightarrow> int" where
  "base_value label_number addr No_base = 0"
| "base_value label_number addr (Base_string s) = addr (assemble_name s)"
| "base_value label_number addr (Base_insn n) = addr (assemble_name (ASM_GENERATE_INTERNAL_LABEL ''L'' (label_number n)))"
| "base_value label_number addr Base_pc = addr ''.''"
| "base_value label_number addr (Base_other x) = const_value label_number addr x"

lemma base_of_value: "base_value label_number addr (base_of x) = const_value label_number addr x"
  by (subst const_value.simps) (auto simp: base_of_def const_value.simps)

lemma const_value_int: "GET_CODE x = CONST_INT \<Longrightarrow> const_value label_number addr x = INTVAL x"
  by (subst const_value.simps) simp

lemma decode_value:
  assumes "decode_rtx_const x = Some (b, d)"
  shows "const_value label_number addr x = base_value label_number addr b + d"
proof (cases "GET_CODE x = CONST_rtx")
  case True
  let ?y = "XEXP x 0"
  have "const_value label_number addr x = const_value label_number addr ?y"
    using True by (subst const_value.simps) simp
  moreover have "const_value label_number addr ?y = base_value label_number addr b + d"
    using True assms
    by (subst const_value.simps) (auto simp: decode_rtx_const_def Let_def base_of_value const_value_int split: if_splits)
  ultimately show ?thesis by simp
next
  case False
  then show ?thesis using assms
    by (subst const_value.simps) (auto simp: decode_rtx_const_def base_of_def split: if_splits)
qed

lemma folded_difference:
  assumes "simplify_subtraction x = Some y" "GET_CODE x = MINUS" "GET_CODE y \<noteq> MINUS"
  shows "GET_CODE y = CONST_INT" "INTVAL y = const_value label_number addr x"
proof -
  obtain b d b' d' where dec: "decode_rtx_const (XEXP x 0) = Some (b, d)" "decode_rtx_const (XEXP x 1) = Some (b', d')"
    and same: "b = b'" "y = GEN_INT (d - d')"
    using assms by (auto simp: simplify_subtraction_def same_base_def split: option.splits prod.splits if_splits)
  show "GET_CODE y = CONST_INT" by (simp add: same)
  show "INTVAL y = const_value label_number addr x"
    using assms(2) decode_value [OF dec(1)] decode_value [OF dec(2)] same
    by (subst const_value.simps) simp
qed

lemma single_term_text:
  assumes "single_term x" "printable_sum label_number x"
  shows "\<exists>s. (if GET_CODE x = CONST_INT \<and> INTVAL x < 0
      then map_option (\<lambda>t. ''('' @ t @ '')'') (output_addr_const label_number x)
      else output_addr_const label_number x) = Some s
    \<and> read_sum addr a g [] s = Some (a + g * const_value label_number addr x)"
proof (cases "GET_CODE x = CONST_INT \<and> INTVAL x < 0")
  case True
  then obtain n where n: "INTVAL x = - int (Suc n)" by (metis negD)
  have "a - g * int (Suc n) = a + g * INTVAL x" by (simp only: n mult_minus_right diff_conv_add_uminus)
  with read_sum_negative [of addr a g n, folded n]
  have "read_sum addr a g [] (''('' @ print_dec (INTVAL x) @ '')'') = Some (a + g * INTVAL x)" by simp
  with True show ?thesis
    by (simp add: output_addr_const_int const_value_int del: read_sum.simps)
next
  case False
  consider "GET_CODE x = CONST_INT" "0 \<le> INTVAL x" | "GET_CODE x = SYMBOL_REF" | "GET_CODE x = LABEL_REF"
    using False assms(1) by (auto simp: single_term_def)
  then show ?thesis
  proof cases
    case 1
    then show ?thesis
      using read_sum_print_nat [of addr a g "nat (INTVAL x)"]
      by (simp add: output_addr_const_int const_value_int print_dec_def)
  next
    case 2
    then have "plain_name (assemble_name (XSTR x 0))" using assms(2) by (simp add: printable_sum.simps [of label_number x])
    from plain_name_term [OF this, of addr a g] 2 show ?thesis
      by (simp add: output_addr_const.simps [of label_number x] const_value.simps [of label_number addr x])
  next
    case 3
    then have "0 \<le> label_number (XINSN x 0)" using assms(2) by (simp add: printable_sum.simps [of label_number x])
    from plain_name_term [OF label_name_plain [OF this], of addr a g] 3 show ?thesis
      by (simp add: output_addr_const.simps [of label_number x] const_value.simps [of label_number addr x])
  qed
qed

lemma printed_sum_value:
  "printable_sum label_number x \<Longrightarrow>
    \<exists>s. output_addr_const label_number x = Some s
      \<and> read_sum addr 0 1 [] s = Some (const_value label_number addr x)"
proof (induction "size x" arbitrary: x rule: less_induct)
  case less
  note p = less.prems
  have arg: "\<exists>s. output_addr_const label_number (XEXP x n) = Some s
      \<and> read_sum addr 0 1 [] s = Some (const_value label_number addr (XEXP x n))"
    if "printable_sum label_number (XEXP x n)" "GET_CODE x \<in> {CONST_rtx, PLUS, MINUS}" for n
    using that less.hyps [of "XEXP x n"] by (auto simp: size_XEXP_code)
  consider "GET_CODE x \<in> {SYMBOL_REF, LABEL_REF, CONST_INT}" | "GET_CODE x = CONST_rtx" | "GET_CODE x = PLUS"
    | "GET_CODE x = MINUS"
    using p by (subst (asm) printable_sum.simps) (auto split: if_splits)
  then show ?case
  proof cases
    case 1
    then have "single_term x" by (simp add: single_term_def)
    from single_term_text [OF this p, of addr 0 1] show ?thesis
      by (cases "GET_CODE x = CONST_INT") (simp_all add: output_addr_const_int const_value_int read_sum_print_dec)
  next
    case 2
    then show ?thesis
      using p arg [of 0]
      by (subst output_addr_const.simps, subst const_value.simps, subst (asm) printable_sum.simps) simp
  next
    case 3
    let ?i = "if GET_CODE (XEXP x 0) = CONST_INT then 0 else 1" and ?o = "if GET_CODE (XEXP x 0) = CONST_INT then 1 else 0 :: nat"
    have side: "printable_sum label_number (XEXP x ?o)" and int: "GET_CODE (XEXP x ?i) = CONST_INT"
      using p 3 by (auto simp: printable_sum.simps [of label_number x])
    from arg [OF side] 3 obtain s where s: "output_addr_const label_number (XEXP x ?o) = Some s"
      "read_sum addr 0 1 [] s = Some (const_value label_number addr (XEXP x ?o))" by auto
    have "output_addr_const label_number x = Some (s @ plus_sign (XEXP x ?i) @ print_dec (INTVAL (XEXP x ?i)))"
      using 3 int s(1)
      by (cases "GET_CODE (XEXP x 0) = CONST_INT")
        (simp_all add: output_addr_const.simps [of label_number x] joined_def output_addr_const_int)
    moreover have "const_value label_number addr x = const_value label_number addr (XEXP x ?o) + INTVAL (XEXP x ?i)"
      using 3 int by (cases "GET_CODE (XEXP x 0) = CONST_INT")
        (simp_all add: const_value.simps [of label_number addr x] const_value_int)
    ultimately show ?thesis using read_sum_displacement [OF s(2)] by simp
  next
    case 4
    then obtain y where y: "simplify_subtraction x = Some y"
      using p by (subst (asm) printable_sum.simps) (auto split: option.splits)
    show ?thesis
    proof (cases "GET_CODE y = MINUS")
      case False
      then show ?thesis
        using 4 y folded_difference [OF y 4 False]
        by (subst output_addr_const.simps) (simp add: read_sum_print_dec)
    next
      case True
      have sides: "single_term (XEXP x 1)" "printable_sum label_number (XEXP x 0)" "printable_sum label_number (XEXP x 1)"
        using p 4 y True by (simp_all add: printable_sum.simps [of label_number x])
      from arg [OF sides(2)] 4 obtain s where s: "output_addr_const label_number (XEXP x 0) = Some s"
        "read_sum addr 0 1 [] s = Some (const_value label_number addr (XEXP x 0))" by auto
      from single_term_text [OF sides(1,3), of addr "const_value label_number addr (XEXP x 0)" "- 1"]
      show ?thesis
        using 4 y True s read_sum_sign [OF s(2), of "CHR ''-''"]
        by (subst output_addr_const.simps, subst const_value.simps) (auto simp: joined_def sign_of_def split: if_splits)
    qed
  qed
qed



text \<open>C18. The right side of a difference is printed without parentheses: for symbols a and b the
  expression a - (b + 1) is printed as a-b+1, which an assembler reads as a value 2 too large.\<close>

theorem difference_of_sum_misprinted:
  "\<exists>x s. output_addr_const label_number x = Some s \<and> s = ''_a-_b+1''
    \<and> read_expression addr s = Some (const_value label_number addr x + 2)"
proof -
  let ?a = "gen_rtx_SYMBOL_REF HImode ''a''" and ?b = "gen_rtx_SYMBOL_REF HImode ''b''"
  let ?x = "gen_rtx_fmt_ee MINUS HImode ?a (gen_rtx_fmt_e CONST_rtx HImode (gen_rtx_fmt_ee PLUS HImode ?b (GEN_INT 1)))"
  have s: "simplify_subtraction ?x = Some ?x"
    by (simp add: simplify_subtraction_def decode_rtx_const_def base_of_def same_base_def)
  have one: "char_of (49 :: nat) = CHR ''1''" by code_simp
  have "output_addr_const label_number ?x = Some ''_a-_b+1''"
    using s by (simp add: output_addr_const.simps joined_def assemble_name_def ASM_OUTPUT_LABELREF_def
        STRIP_NAME_ENCODING_def print_dec_def print_nat.simps one)
  moreover have "const_value label_number addr ?x = addr ''_a'' - (addr ''_b'' + 1)"
    by (simp add: const_value.simps assemble_name_def ASM_OUTPUT_LABELREF_def STRIP_NAME_ENCODING_def)
  moreover have "read_expression addr ''_a-_b+1'' = Some (addr ''_a'' - addr ''_b'' + 1)"
    by (simp add: read_expression_def is_sign_def open_term_def read_term_def digit_value_def read_nat_def sign_of_def)
  ultimately show ?thesis by (intro exI [of _ ?x]) simp
qed

section \<open>Bytes of register pairs\<close>

definition printed :: "rtx \<Rightarrow> char \<Rightarrow> string option" where
  "printed x code = output_operand after_reload (\<lambda>_ _. None) None (\<lambda>_. 0) (\<lambda>_ _. []) x code"

text \<open>A byte operand in a register pair is printed as one half of the pair: for hl, de and bc
  the texts for the conversion letter h and for no letter are the names of the high and of the low half,
  and make up the pair's name; for ix and iy both are the high half.\<close>

theorem byte_operands_of_pairs:
  "map (\<lambda>r. (printed (gen_rtx_REG QImode r) (CHR ''h''), printed (gen_rtx_REG QImode r) (CHR 0x00))) [1, 2, 3, 4, 5]
    = [(Some ''h'', Some ''l''), (Some ''d'', Some ''e''), (Some ''b'', Some ''c''),
       (Some ''iyh'', Some ''iyh''), (Some ''ixh'', Some ''ixh'')]"
  by (simp add: printed_def output_operand_def PRINT_OPERAND_def z80_gen_highpart_def z80_gen_lowpart_def
      target_simps REG_P_def asm_print_register_def REGISTER_NAMES_def)

end
