(* ===== verification/Asm_Templates.thy ===== *)
theory Asm_Templates
  imports Z80_Output
begin

text \<open>
  Output of an insn from its template: output_asm_insn and output_asm_label (gcc/final.c).  The lemmas show that
  every operand reference is replaced by the text of its operand and all other text is
  copied.
\<close>

section \<open>Templates\<close>

text \<open>
  What the output of an insn depends on besides its operands: insn_counter, and for an asm
  statement the number of its operands (this_is_asm_operands, insn_noperands).  The
  comment of output_asm_name is off.  A read behind the end of the operands gives None.
\<close>

record output_env =
  oe_parts :: emit_env
  oe_renumber :: renumber
  oe_label_number :: "nat option \<Rightarrow> int"
  oe_double :: "int \<Rightarrow> int \<Rightarrow> string"
  oe_counter :: int
  oe_asm_operands :: "nat option"

definition operand_text :: "output_env \<Rightarrow> rtx \<Rightarrow> char \<Rightarrow> string option" where
  "operand_text oe x code =
     output_operand (oe_parts oe) (ee_pool (oe_parts oe)) (oe_renumber oe) (oe_label_number oe) (oe_double oe) x code"

definition output_asm_label :: "(nat option \<Rightarrow> int) \<Rightarrow> rtx \<Rightarrow> string option" where
  "output_asm_label label_number x =
     (if GET_CODE x = LABEL_REF
      then Some (assemble_name (ASM_GENERATE_INTERNAL_LABEL ''L'' (label_number (XINSN x 0))))
      else if GET_CODE x = CODE_LABEL then Some (assemble_name (ASM_GENERATE_INTERNAL_LABEL ''L'' (XINT x 3)))
      else None)"

definition is_letter :: "char \<Rightarrow> bool" where
  "is_letter c \<longleftrightarrow> (97 :: nat) \<le> of_char c \<and> (of_char c :: nat) \<le> 122 \<or> (65 :: nat) \<le> of_char c \<and> (of_char c :: nat) \<le> 90"

abbreviation is_digit :: "char \<Rightarrow> bool" where
  "is_digit c \<equiv> digit_value c \<noteq> None"

text \<open>atoi of a text that starts with a digit.\<close>

definition atoi :: "string \<Rightarrow> nat" where
  "atoi p = nat (the (read_digits 0 (takeWhile is_digit p)))"

text \<open>An operand printed for a conversion letter; 0 for none.\<close>

definition output_with_letter :: "output_env \<Rightarrow> rtx list \<Rightarrow> char \<Rightarrow> nat \<Rightarrow> string option" where
  "output_with_letter oe operands letter c =
     (if (case oe_asm_operands oe of Some n \<Rightarrow> c \<ge> n | None \<Rightarrow> False) \<or> c \<ge> length operands then None
      else if letter = CHR ''l'' then output_asm_label (oe_label_number oe) (operands ! c)
      else if letter = CHR ''a'' then
        output_address (ee_pool (oe_parts oe)) (oe_renumber oe) (oe_label_number oe) (operands ! c)
      else if letter = CHR ''c'' then
        (if CONSTANT_ADDRESS_P (operands ! c) then output_addr_const (oe_label_number oe) (operands ! c)
         else operand_text oe (operands ! c) (CHR ''c''))
      else if letter = CHR ''n'' then
        (if GET_CODE (operands ! c) = CONST_INT then Some (print_dec (- INTVAL (operands ! c)))
         else map_option ((#) (CHR ''-'')) (output_addr_const (oe_label_number oe) (operands ! c)))
      else operand_text oe (operands ! c) letter)"

definition before :: "string option \<Rightarrow> string option \<Rightarrow> string option" where
  "before s t = joined s [] t"

function output_template :: "output_env \<Rightarrow> rtx list \<Rightarrow> string \<Rightarrow> string option" where
  "output_template oe operands template =
     (case template of
        [] \<Rightarrow> Some []
      | c # p \<Rightarrow>
          if c \<noteq> CHR ''%'' then before (Some [c]) (output_template oe operands p)
          else
            (case p of
               [] \<Rightarrow> None
             | d # q \<Rightarrow>
                 if d = CHR ''%'' then before (Some ''%'') (output_template oe operands q)
                 else if d = CHR ''='' then before (Some (print_dec (oe_counter oe))) (output_template oe operands q)
                 else if is_letter d then
                   (if q = [] \<or> \<not> is_digit (hd q) then None
                    else before (output_with_letter oe operands d (atoi q))
                      (output_template oe operands (dropWhile is_digit q)))
                 else if is_digit d then
                   before (output_with_letter oe operands (CHR 0x00) (atoi p))
                     (output_template oe operands (dropWhile is_digit p))
                 else None))"
  by pat_completeness auto
termination
proof (relation "measure (length \<circ> snd \<circ> snd)", simp_all add: less_Suc_eq_le)
qed (auto intro: le_trans [OF length_dropWhile_le])

declare output_template.simps [simp del]

definition output_asm_insn :: "output_env \<Rightarrow> string \<Rightarrow> rtx list \<Rightarrow> string option" where
  "output_asm_insn oe template operands =
     (if template = [] then Some []
      else map_option (\<lambda>s. CHR 0x09 # s @ [CHR 0x0A]) (output_template oe operands template))"

text \<open>A template as a list of pieces: text, an operand with or without a letter, a percent sign,
  the number of the insn.\<close>

datatype piece = Text string | Operand char nat | Percent | Counter

fun piece_source :: "piece \<Rightarrow> string" where
  "piece_source (Text s) = s"
| "piece_source (Operand letter k) = CHR ''%'' # (if letter = CHR 0x00 then [] else [letter]) @ print_nat k"
| "piece_source Percent = ''%%''"
| "piece_source Counter = ''%=''"

fun piece_text :: "output_env \<Rightarrow> rtx list \<Rightarrow> piece \<Rightarrow> string option" where
  "piece_text oe operands (Text s) = Some s"
| "piece_text oe operands (Operand letter k) = output_with_letter oe operands letter k"
| "piece_text oe operands Percent = Some ''%''"
| "piece_text oe operands Counter = Some (print_dec (oe_counter oe))"

definition template_of :: "piece list \<Rightarrow> string" where
  "template_of ps = concat (map piece_source ps)"

text \<open>Text has no percent sign, letters are letters, and no digit follows an operand.\<close>

fun separated :: "piece list \<Rightarrow> bool" where
  "separated [] = True"
| "separated (Text s # ps) = (CHR ''%'' \<notin> set s \<and> separated ps)"
| "separated (Operand letter k # ps) =
     ((letter = CHR 0x00 \<or> is_letter letter) \<and> (template_of ps = [] \<or> \<not> is_digit (hd (template_of ps))) \<and> separated ps)"
| "separated (_ # ps) = separated ps"

fun all_texts :: "string option list \<Rightarrow> string option" where
  "all_texts [] = Some []"
| "all_texts (t # ts) = before t (all_texts ts)"

lemma digits_scan:
  assumes "t = [] \<or> \<not> is_digit (hd t)"
  shows "takeWhile is_digit (print_nat k @ t) = print_nat k" "dropWhile is_digit (print_nat k @ t) = t"
proof -
  have "is_digit c" if "c \<in> set (print_nat k)" for c using digits_of_print_nat [OF that] .
  moreover have "takeWhile is_digit t = []" "dropWhile is_digit t = t" using assms by (cases t; simp)+
  ultimately show "takeWhile is_digit (print_nat k @ t) = print_nat k" "dropWhile is_digit (print_nat k @ t) = t"
    by (simp_all add: takeWhile_append dropWhile_append)
qed

lemma atoi_print_nat: "t = [] \<or> \<not> is_digit (hd t) \<Longrightarrow> atoi (print_nat k @ t) = k"
  by (simp only: atoi_def digits_scan) (simp add: read_digits_print_nat)

lemma before_assoc: "before (Some (s @ t)) u = before (Some s) (before (Some t) u)"
  by (simp add: before_def joined_def split: option.splits)

lemma output_template_text:
  "CHR ''%'' \<notin> set s \<Longrightarrow> output_template oe operands (s @ t) = before (Some s) (output_template oe operands t)"
proof (induction s)
  case Nil
  then show ?case by (simp add: before_def joined_def split: option.splits)
next
  case (Cons c s)
  then have "output_template oe operands ((c # s) @ t) = before (Some [c]) (before (Some s) (output_template oe operands t))"
    by (subst output_template.simps) auto
  then show ?case using before_assoc [of "[c]" s] by simp
qed

lemma hd_print_nat: "print_nat k = c # u \<Longrightarrow> is_digit c"
  using digits_of_print_nat [of c k] by simp

lemma letter_no_digit: "is_letter c \<Longrightarrow> \<not> is_digit c" "is_letter c \<Longrightarrow> c \<noteq> CHR ''%''" "is_letter c \<Longrightarrow> c \<noteq> CHR ''=''"
    "is_digit c \<Longrightarrow> c \<noteq> CHR ''%''" "is_digit c \<Longrightarrow> c \<noteq> CHR ''=''"
  by (auto simp: is_letter_def digit_value_def)

lemma output_template_operand:
  assumes "letter = CHR 0x00 \<or> is_letter letter" "t = [] \<or> \<not> is_digit (hd t)"
  shows "output_template oe operands (piece_source (Operand letter k) @ t)
    = before (output_with_letter oe operands letter k) (output_template oe operands t)"
proof -
  obtain c u where cu: "print_nat k = c # u" using print_nat_nonempty [of k] by (cases "print_nat k") auto
  have c: "is_digit c" using hd_print_nat [OF cu] .
  note k = digits_scan [OF assms(2), of k, unfolded cu] atoi_print_nat [OF assms(2), of k, unfolded cu]
  show ?thesis
  proof (cases "letter = CHR 0x00")
    case True
    then show ?thesis
      using k c letter_no_digit [of c] cu by (subst output_template.simps) (auto simp del: not_None_eq)
  next
    case False
    then have "is_letter letter" using assms(1) by simp
    then show ?thesis
      using k c False letter_no_digit [of letter] cu by (subst output_template.simps) (auto simp del: not_None_eq)
  qed
qed

text \<open>C15. A template is the text it stands for: every operand reference is replaced by the text of the operand
  it names for its letter, a doubled percent sign by one, the counter reference by the number of the
  insn, and all other text is copied, between a tab and the end of the line; if the text
  of one of the references is an error, so is the output.\<close>

theorem templates_substituted:
  assumes "separated ps" "template_of ps \<noteq> []"
  shows "output_asm_insn oe (template_of ps) operands
    = map_option (\<lambda>s. CHR 0x09 # s @ [CHR 0x0A]) (all_texts (map (piece_text oe operands) ps))"
proof -
  have "output_template oe operands (template_of ps) = all_texts (map (piece_text oe operands) ps)"
    using assms(1)
  proof (induction ps)
    case Nil
    then show ?case by (simp add: template_of_def output_template.simps [of _ _ "[]"])
  next
    case (Cons p ps)
    show ?case
    proof (cases p)
      case (Text s)
      then show ?thesis using Cons by (simp add: template_of_def output_template_text)
    next
      case (Operand letter k)
      then show ?thesis using Cons output_template_operand [of letter "template_of ps" oe operands k]
        by (simp add: template_of_def)
    next
      case Percent
      then show ?thesis using Cons by (simp add: template_of_def) (subst output_template.simps, simp)
    next
      case Counter
      then show ?thesis using Cons by (simp add: template_of_def) (subst output_template.simps, simp)
    qed
  qed
  then show ?thesis using assms(2) by (simp add: output_asm_insn_def)
qed

theorem templates_substituted_witness:
  "output_asm_insn \<lparr>oe_parts = after_reload, oe_renumber = None, oe_label_number = (\<lambda>_. 0), oe_double = (\<lambda>_ _. []),
      oe_counter = 1, oe_asm_operands = None\<rparr> (template_of [Text ''ld a,'', Operand (CHR ''h'') 1])
      [gen_rtx_REG QImode 0, gen_rtx_REG QImode 1]
    = Some (CHR 0x09 # ''ld a,h'' @ [CHR 0x0A])"
proof -
  let ?oe = "\<lparr>oe_parts = after_reload, oe_renumber = None, oe_label_number = (\<lambda>_. 0), oe_double = (\<lambda>_ _. []),
      oe_counter = 1, oe_asm_operands = None\<rparr>" and ?ps = "[Text ''ld a,'', Operand (CHR ''h'') 1]"
    and ?xs = "[gen_rtx_REG QImode 0, gen_rtx_REG QImode 1]"
  have "output_asm_insn ?oe (template_of ?ps) ?xs
      = map_option (\<lambda>s. CHR 0x09 # s @ [CHR 0x0A]) (all_texts (map (piece_text ?oe ?xs) ?ps))"
    by (rule templates_substituted) (simp_all add: template_of_def is_letter_def)
  also have "all_texts (map (piece_text ?oe ?xs) ?ps) = Some ''ld a,h''"
    by (simp add: before_def joined_def output_with_letter_def operand_text_def output_operand_def PRINT_OPERAND_def
        z80_gen_highpart_def target_simps REG_P_def asm_print_register_def REGISTER_NAMES_def)
  finally show ?thesis by simp
qed

end
