(* ===== verification/Jump_Conditions.thy ===== *)
theory Jump_Conditions
  imports Rtl
begin

text \<open>
  The condition codes of comparisons (gcc/jump.c): negating a comparison, swapping its
  operands, changing its signedness, and when one comparison implies another. The
  reference semantics of a code is \<open>cond_holds\<close>, over machine words of any width; the
  lemmas show that each table of the source does to the code what its comment says.
  An \<open>abort\<close> is \<open>None\<close>.
\<close>

fun reverse_condition :: "rtx_code \<Rightarrow> rtx_code option" where
  "reverse_condition code =
     (if code = EQ then Some NE
      else if code = NE then Some EQ
      else if code = GT then Some LE
      else if code = GE then Some LT
      else if code = LT then Some GE
      else if code = LE then Some GT
      else if code = GTU then Some LEU
      else if code = GEU then Some LTU
      else if code = LTU then Some GEU
      else if code = LEU then Some GTU
      else None)"

fun swap_condition :: "rtx_code \<Rightarrow> rtx_code option" where
  "swap_condition code =
     (if code = EQ \<or> code = NE then Some code
      else if code = GT then Some LT
      else if code = GE then Some LE
      else if code = LT then Some GT
      else if code = LE then Some GE
      else if code = GTU then Some LTU
      else if code = GEU then Some LEU
      else if code = LTU then Some GTU
      else if code = LEU then Some GEU
      else None)"

fun unsigned_condition :: "rtx_code \<Rightarrow> rtx_code option" where
  "unsigned_condition code =
     (if code \<in> {EQ, NE, GTU, GEU, LTU, LEU} then Some code
      else if code = GT then Some GTU
      else if code = GE then Some GEU
      else if code = LT then Some LTU
      else if code = LE then Some LEU
      else None)"

fun signed_condition :: "rtx_code \<Rightarrow> rtx_code option" where
  "signed_condition code =
     (if code \<in> {EQ, NE, GT, GE, LT, LE} then Some code
      else if code = GTU then Some GT
      else if code = GEU then Some GE
      else if code = LTU then Some LT
      else if code = LEU then Some LE
      else None)"

definition comparison_dominates_p :: "rtx_code \<Rightarrow> rtx_code \<Rightarrow> bool" where
  "comparison_dominates_p code1 code2 =
     (if code1 = code2 then True
      else if code1 = EQ then code2 = LE \<or> code2 = LEU \<or> code2 = GE \<or> code2 = GEU
      else if code1 = LT then code2 = LE \<or> code2 = NE
      else if code1 = GT then code2 = GE \<or> code2 = NE
      else if code1 = LTU then code2 = LEU \<or> code2 = NE
      else if code1 = GTU then code2 = GEU \<or> code2 = NE
      else False)"

section \<open>The reference semantics\<close>

text \<open>Whether a comparison code holds of two words; \<open>None\<close> for a code that is not a
  comparison.\<close>

definition cond_holds :: "rtx_code \<Rightarrow> 'a::len word \<Rightarrow> 'a word \<Rightarrow> bool option" where
  "cond_holds code a b =
     (if code = EQ then Some (a = b)
      else if code = NE then Some (a \<noteq> b)
      else if code = GT then Some (b <s a)
      else if code = GE then Some (b \<le>s a)
      else if code = LT then Some (a <s b)
      else if code = LE then Some (a \<le>s b)
      else if code = GTU then Some (b < a)
      else if code = GEU then Some (b \<le> a)
      else if code = LTU then Some (a < b)
      else if code = LEU then Some (a \<le> b)
      else None)"

lemma sless_not: "(a <s b) = (\<not> b \<le>s a)"
  by (simp add: word_sless_alt word_sle_eq not_le)

lemma cond_holds_defined: "(\<exists>t. cond_holds code a b = Some t) \<longleftrightarrow> reverse_condition code \<noteq> None"
  by (simp add: cond_holds_def)

lemma cond_holds_class: "cond_holds code a b = Some t \<Longrightarrow> GET_RTX_CLASS code = CHR ''<''"
  by (simp add: cond_holds_def GET_RTX_CLASS_def rtx_table_def split: if_splits)

lemma swap_defined: "swap_condition code = None \<longleftrightarrow> reverse_condition code = None"
  by simp

lemma cond_holds_swap:
  "swap_condition code = Some code' \<Longrightarrow> cond_holds code' b a = cond_holds code a b"
  by (auto simp: cond_holds_def split: if_splits)

lemma cond_holds_reverse:
  "reverse_condition code = Some code' \<Longrightarrow> cond_holds code' a b = map_option Not (cond_holds code a b)"
  by (auto simp: cond_holds_def sless_not not_le not_less split: if_splits)

text \<open>Negating a comparison code negates the comparison, for every comparison code and
  every pair of words, and negating twice gives the code back; the routine aborts exactly
  on the codes that are not comparisons.\<close>

theorem reverse_condition_sound:
  fixes a b :: "'a::len word"
  shows "case reverse_condition code of
      None \<Rightarrow> cond_holds code a b = None
    | Some code' \<Rightarrow> reverse_condition code' = Some code
        \<and> (\<exists>t. cond_holds code a b = Some t \<and> cond_holds code' a b = Some (\<not> t))"
proof (cases "reverse_condition code")
  case None
  then show ?thesis by (simp add: cond_holds_def split: if_splits)
next
  case (Some code')
  then have "reverse_condition code' = Some code" by (auto split: if_splits)
  moreover obtain t where "cond_holds code a b = Some t"
    using Some cond_holds_defined [of code a b] by auto
  ultimately show ?thesis
    using Some cond_holds_reverse [OF Some, of a b] by simp
qed

text \<open>Swapping the two operands of a comparison together with its code keeps its value,
  for signed, unsigned and equality codes alike, and swapping twice gives the code back.\<close>

theorem swap_condition_sound:
  fixes a b :: "'a::len word"
  shows "case swap_condition code of
      None \<Rightarrow> cond_holds code a b = None
    | Some code' \<Rightarrow> swap_condition code' = Some code \<and> cond_holds code' b a = cond_holds code a b"
proof (cases "swap_condition code")
  case None
  then show ?thesis by (simp add: cond_holds_def split: if_splits)
next
  case (Some code')
  then have "swap_condition code' = Some code" by (auto split: if_splits)
  with Some cond_holds_swap [OF Some, of b a] show ?thesis by simp
qed

text \<open>One comparison code dominates another only when the truth of the first implies the
  truth of the second, whatever words are compared.\<close>

theorem comparison_dominates_sound:
  fixes a b :: "'a::len word"
  assumes "comparison_dominates_p code1 code2" and "cond_holds code1 a b = Some True"
  shows "cond_holds code2 a b = Some True"
  using assms by (auto simp: comparison_dominates_p_def cond_holds_def sless_not word_sle_eq
      split: if_splits)

theorem comparison_dominates_sound_witness:
  "comparison_dominates_p LTU NE \<and> cond_holds LTU (3 :: 16 word) 5 = Some True
     \<and> cond_holds NE (3 :: 16 word) 5 = Some True"
proof -
  have d: "comparison_dominates_p LTU NE" by (simp add: comparison_dominates_p_def)
  have h: "cond_holds LTU (3 :: 16 word) 5 = Some True" by (simp add: cond_holds_def)
  show ?thesis using d h comparison_dominates_sound [OF d h] by simp
qed

lemma signed_unsigned_agree:
  fixes a b :: "'a::len word"
  assumes "0 \<le> sint a" and "0 \<le> sint b"
  shows "(a <s b) = (a < b)" and "(a \<le>s b) = (a \<le> b)"
  using assms by (simp_all add: word_sless_alt word_sle_eq sint_nonneg_uint word_less_def word_le_def)

text \<open>The signed and the unsigned variant of a comparison code agree with the code on
  operands whose sign bits are clear, and each conversion undoes the other on the codes
  that have a signedness.\<close>

theorem signedness_conversion_sound:
  fixes a b :: "'a::len word"
  assumes "0 \<le> sint a" and "0 \<le> sint b"
    and "unsigned_condition code = Some ucode" and "signed_condition code = Some scode"
  shows "cond_holds ucode a b = cond_holds code a b \<and> cond_holds scode a b = cond_holds code a b
    \<and> signed_condition ucode = Some scode \<and> unsigned_condition scode = Some ucode"
  using assms(3,4) by (auto simp: cond_holds_def signed_unsigned_agree assms(1,2) split: if_splits)

theorem signedness_conversion_sound_witness:
  "0 \<le> sint (3 :: 16 word) \<and> unsigned_condition LT = Some LTU
     \<and> cond_holds LTU (3 :: 16 word) 5 = cond_holds LT (3 :: 16 word) 5"
  using signedness_conversion_sound [of "3 :: 16 word" 5 LT LTU LT] by (simp add: cond_holds_def)

end
