(* ===== verification/Cc_Status.thy ===== *)
theory Cc_Status
  imports Rtl_Notes Rtl_Effects Jump_Conditions
begin

text \<open>
  What is known of the condition codes during final output: the status of conditions.h, the
  change of a jump to a nonstandard setting of the flags (\<open>alter_cond\<close>, gcc/final.c), the record of
  what the flags describe (\<open>NOTICE_UPDATE_CC\<close> and \<open>notice_update_cc_on_set\<close>, gcc/config/z80), and the
  test for redundant comparisons of \<open>final_scan_insn\<close>.  A null pointer is \<open>NULL_RTX\<close>, an \<open>abort\<close> is
  \<open>None\<close>.
\<close>

section \<open>The status\<close>

definition CC_REVERSED :: "32 word" where "CC_REVERSED = 1"
definition CC_NOT_POSITIVE :: "32 word" where "CC_NOT_POSITIVE = 2"
definition CC_NOT_NEGATIVE :: "32 word" where "CC_NOT_NEGATIVE = 4"
definition CC_NO_OVERFLOW :: "32 word" where "CC_NO_OVERFLOW = 8"
definition CC_Z_IN_NOT_N :: "32 word" where "CC_Z_IN_NOT_N = 16"
definition CC_Z_IN_N :: "32 word" where "CC_Z_IN_N = 32"
definition CC_INVERTED :: "32 word" where "CC_INVERTED = 64"
definition CC_NOT_SIGNED :: "32 word" where "CC_NOT_SIGNED = 128"

lemmas cc_flag_defs = CC_REVERSED_def CC_NOT_POSITIVE_def CC_NOT_NEGATIVE_def CC_NO_OVERFLOW_def
  CC_Z_IN_NOT_N_def CC_Z_IN_N_def CC_INVERTED_def CC_NOT_SIGNED_def

record CC_STATUS =
  cc_flags :: "32 word"
  cc_value1 :: rtx
  cc_value2 :: rtx

definition CC_STATUS_INIT :: CC_STATUS where
  "CC_STATUS_INIT = \<lparr>cc_flags = 0, cc_value1 = NULL_RTX, cc_value2 = NULL_RTX\<rparr>"

section \<open>Jumps on nonstandard flags\<close>

text \<open>A step returns at once, with 1 or -1 and the condition as it stands, or goes on with the value and the condition.\<close>

datatype cond_step = Return int rtx_code | Go int rtx_code

definition and_then :: "cond_step \<Rightarrow> (int \<Rightarrow> rtx_code \<Rightarrow> cond_step) \<Rightarrow> cond_step" where
  "and_then s f = (case s of Return v c \<Rightarrow> Return v c | Go v c \<Rightarrow> f v c)"

definition not_positive_step :: "int \<Rightarrow> rtx_code \<Rightarrow> cond_step" where
  "not_positive_step v c =
     (if c \<in> {LE, LEU, GEU} then Return 1 c
      else if c \<in> {GT, GTU, LTU} then Return (- 1) c
      else if c = GE then Go 2 EQ
      else if c = LT then Go 2 NE
      else Go v c)"

definition not_negative_step :: "int \<Rightarrow> rtx_code \<Rightarrow> cond_step" where
  "not_negative_step v c =
     (if c \<in> {GE, GEU} then Return 1 c
      else if c \<in> {LT, LTU} then Return (- 1) c
      else if c \<in> {LE, LEU} then Go 2 EQ
      else if c \<in> {GT, GTU} then Go 2 NE
      else Go v c)"

definition no_overflow_step :: "int \<Rightarrow> rtx_code \<Rightarrow> cond_step" where
  "no_overflow_step v c =
     (if c = GEU then Return 1 c
      else if c = LEU then Go 2 EQ
      else if c = GTU then Go 2 NE
      else if c = LTU then Return (- 1) c
      else Go v c)"

definition z_in_n_step :: "32 word \<Rightarrow> int \<Rightarrow> rtx_code \<Rightarrow> cond_step option" where
  "z_in_n_step flags v c =
     (if c = NE then Some (Go 2 (if and flags CC_Z_IN_N \<noteq> 0 then GE else LT))
      else if c = EQ then Some (Go 2 (if and flags CC_Z_IN_N \<noteq> 0 then LT else GE))
      else None)"

definition not_signed_step :: "int \<Rightarrow> rtx_code \<Rightarrow> cond_step" where
  "not_signed_step v c =
     (if c = LE then Go 2 LEU else if c = LT then Go 2 LTU else if c = GT then Go 2 GTU
      else if c = GE then Go 2 GEU else Go v c)"

text \<open>The result and the code the condition has afterwards.\<close>

definition alter_cond :: "32 word \<Rightarrow> rtx_code \<Rightarrow> (int \<times> rtx_code) option" where
  "alter_cond flags cond =
     Option.bind (if and flags CC_REVERSED \<noteq> 0 then map_option (Go 2) (swap_condition cond) else Some (Go 0 cond)) (\<lambda>s1.
     Option.bind (if and flags CC_INVERTED \<noteq> 0
                  then (case s1 of Go v c \<Rightarrow> map_option (Go 2) (reverse_condition c) | Return v c \<Rightarrow> None)
                  else Some s1) (\<lambda>s2.
     let s3 = (if and flags CC_NOT_POSITIVE \<noteq> 0 then and_then s2 not_positive_step else s2);
         s4 = (if and flags CC_NOT_NEGATIVE \<noteq> 0 then and_then s3 not_negative_step else s3);
         s5 = (if and flags CC_NO_OVERFLOW \<noteq> 0 then and_then s4 no_overflow_step else s4) in
     Option.bind (if and flags (or CC_Z_IN_NOT_N CC_Z_IN_N) \<noteq> 0
                  then (case s5 of Go v c \<Rightarrow> z_in_n_step flags v c | Return v c \<Rightarrow> Some s5)
                  else Some s5) (\<lambda>s6.
     case (if and flags CC_NOT_SIGNED \<noteq> 0 then and_then s6 not_signed_step else s6) of
       Return v c \<Rightarrow> Some (v, c) | Go v c \<Rightarrow> Some (v, c))))"

section \<open>What the flags describe\<close>

definition tracked_source :: "rtx \<Rightarrow> bool" where
  "tracked_source x \<longleftrightarrow> GET_CODE x \<in> {PLUS, MINUS, AND, IOR, XOR, NOT, NEG, REG, MEM}"

definition remembered_overlap :: "bool \<Rightarrow> rtx \<Rightarrow> rtx \<Rightarrow> bool option" where
  "remembered_overlap fvm x v = (if v = NULL_RTX then Some False else reg_overlap_mentioned_p fvm x v)"

definition drop_second :: "bool \<Rightarrow> CC_STATUS \<Rightarrow> CC_STATUS option" where
  "drop_second fvm s =
     (if cc_value1 s \<noteq> NULL_RTX \<and> GET_CODE (cc_value1 s) = REG \<and> cc_value2 s \<noteq> NULL_RTX
      then map_option (\<lambda>b. if b then s\<lparr>cc_value2 := NULL_RTX\<rparr> else s)
             (reg_overlap_mentioned_p fvm (cc_value1 s) (cc_value2 s))
      else Some s)"

definition notice_update_cc_on_set :: "bool \<Rightarrow> rtx \<Rightarrow> CC_STATUS \<Rightarrow> CC_STATUS option" where
  "notice_update_cc_on_set fvm exp s =
     (if GET_CODE (SET_DEST exp) = CC0 then
        Some \<lparr>cc_flags = 0, cc_value1 = SET_DEST exp, cc_value2 = SET_SRC exp\<rparr>
      else if (GET_CODE (SET_DEST exp) = REG \<or> GET_CODE (SET_DEST exp) = MEM)
        \<and> GET_CODE (SET_SRC exp) \<noteq> PC
        \<and> (GET_MODE (SET_DEST exp) = HImode \<or> GET_MODE (SET_DEST exp) = QImode)
        \<and> tracked_source (SET_SRC exp) then
        map_option
          (\<lambda>s. if cc_value1 s \<noteq> NULL_RTX \<and> GET_CODE (cc_value1 s) = MEM
               \<and> cc_value2 s \<noteq> NULL_RTX \<and> GET_CODE (cc_value2 s) = MEM
             then s\<lparr>cc_value2 := NULL_RTX\<rparr> else s)
          (drop_second fvm \<lparr>cc_flags = 0, cc_value1 = SET_SRC exp, cc_value2 = SET_DEST exp\<rparr>)
      else if GET_CODE (SET_SRC exp) = CALL then Some CC_STATUS_INIT
      else if GET_CODE (SET_DEST exp) = REG then
        (case (remembered_overlap fvm (SET_DEST exp) (cc_value1 s), remembered_overlap fvm (SET_DEST exp) (cc_value2 s)) of
           (Some b1, Some b2) \<Rightarrow>
             Some (s\<lparr>cc_value1 := if b1 then NULL_RTX else cc_value1 s, cc_value2 := if b2 then NULL_RTX else cc_value2 s\<rparr>)
         | _ \<Rightarrow> None)
      else if SET_DEST exp = pc_rtx then Some s
      else Some CC_STATUS_INIT)"

definition NOTICE_UPDATE_CC :: "bool \<Rightarrow> rtx \<Rightarrow> CC_STATUS \<Rightarrow> CC_STATUS option" where
  "NOTICE_UPDATE_CC fvm exp s =
     Option.bind
       (if GET_CODE exp = SET then notice_update_cc_on_set fvm exp s
        else if GET_CODE exp = PARALLEL \<and> GET_CODE (XVECEXP exp 0 0) = SET
          then notice_update_cc_on_set fvm (XVECEXP exp 0 0) s
        else if GET_CODE exp = CALL then Some CC_STATUS_INIT
        else Some s)
       (drop_second fvm)"

text \<open>The test for a redundant comparison, after the subregs of its operands are altered.\<close>

definition redundant_test :: "bool \<Rightarrow> CC_STATUS \<Rightarrow> rtx \<Rightarrow> rtx \<Rightarrow> bool" where
  "redundant_test fvm s insn set_exp \<longleftrightarrow>
     set_exp \<noteq> NULL_RTX \<and> GET_CODE (SET_DEST set_exp) = CC0
     \<and> (cc_value1 s \<noteq> NULL_RTX \<and> rtx_equal_p fvm (SET_SRC set_exp) (cc_value1 s)
        \<or> cc_value2 s \<noteq> NULL_RTX \<and> rtx_equal_p fvm (SET_SRC set_exp) (cc_value2 s))
     \<and> find_reg_note insn REG_INC NULL_RTX = NULL_RTX \<and> \<not> volatile_refs_p (PATTERN insn)"

section \<open>Altered jumps decide as before\<close>

text \<open>The outcome of a jump on the flags: zero, less (signed) and below (unsigned).\<close>

definition flag_test :: "rtx_code \<Rightarrow> bool \<Rightarrow> bool \<Rightarrow> bool \<Rightarrow> bool" where
  "flag_test code z n c =
     (if code = EQ then z else if code = NE then \<not> z
      else if code = LT then n else if code = GE then \<not> n
      else if code = LE then n \<or> z else if code = GT then \<not> n \<and> \<not> z
      else if code = LTU then c else if code = GEU then \<not> c
      else if code = LEU then c \<or> z else \<not> c \<and> \<not> z)"

text \<open>
  The flags stand for the comparison of two words in the way the bits of the status say.  With
  no bit set they are those of the comparison; each bit says how they deviate, and for
  which conditions they can be used.
\<close>

definition flags_stand_for :: "32 word \<Rightarrow> rtx_code \<Rightarrow> 'a::len word \<Rightarrow> 'a word \<Rightarrow> bool \<Rightarrow> bool \<Rightarrow> bool \<Rightarrow> bool" where
  "flags_stand_for f code a b z n c \<longleftrightarrow>
     (f = 0 \<and> z = (a = b) \<and> n = (a <s b) \<and> c = (a < b))
     \<or> (f = CC_REVERSED \<and> z = (a = b) \<and> n = (b <s a) \<and> c = (b < a))
     \<or> (f = CC_INVERTED \<and> code \<in> {EQ, NE} \<and> z = (a \<noteq> b))
     \<or> (f = CC_NOT_POSITIVE \<and> b = 0 \<and> a \<le>s 0 \<and> z = (a = 0))
     \<or> (f = CC_NOT_NEGATIVE \<and> b = 0 \<and> 0 \<le>s a \<and> z = (a = 0))
     \<or> (f = CC_NO_OVERFLOW \<and> b = 0 \<and> z = (a = 0) \<and> n = (a <s 0))
     \<or> (f = CC_Z_IN_NOT_N \<and> code \<in> {EQ, NE} \<and> n = (a \<noteq> b))
     \<or> (f = CC_Z_IN_N \<and> code \<in> {EQ, NE} \<and> n = (a = b))
     \<or> (f = CC_NOT_SIGNED \<and> code \<in> {EQ, NE, LT, LE, GT, GE} \<and> z = (a = b) \<and> c = (a <s b))"

definition jumps :: "int \<times> rtx_code \<Rightarrow> bool \<Rightarrow> bool \<Rightarrow> bool \<Rightarrow> bool" where
  "jumps r z n c = (case r of (v, code) \<Rightarrow> v = 1 \<or> v \<noteq> - 1 \<and> flag_test code z n c)"

text \<open>One bit alone takes one step.\<close>

definition outcome :: "cond_step \<Rightarrow> int \<times> rtx_code" where
  "outcome s = (case s of Return v c \<Rightarrow> (v, c) | Go v c \<Rightarrow> (v, c))"

lemma alter_cond_bit:
  "alter_cond 0 c = Some (0, c)"
  "alter_cond CC_REVERSED c = map_option (Pair 2) (swap_condition c)"
  "alter_cond CC_INVERTED c = map_option (Pair 2) (reverse_condition c)"
  "alter_cond CC_NOT_POSITIVE c = Some (outcome (not_positive_step 0 c))"
  "alter_cond CC_NOT_NEGATIVE c = Some (outcome (not_negative_step 0 c))"
  "alter_cond CC_NO_OVERFLOW c = Some (outcome (no_overflow_step 0 c))"
  "alter_cond CC_Z_IN_NOT_N c = map_option outcome (z_in_n_step CC_Z_IN_NOT_N 0 c)"
  "alter_cond CC_Z_IN_N c = map_option outcome (z_in_n_step CC_Z_IN_N 0 c)"
  "alter_cond CC_NOT_SIGNED c = Some (outcome (not_signed_step 0 c))"
proof -
  show "alter_cond 0 c = Some (0, c)" by (simp add: alter_cond_def)
  show "alter_cond CC_REVERSED c = map_option (Pair 2) (swap_condition c)"
    by (cases "swap_condition c") (simp_all add: alter_cond_def cc_flag_defs)
  show "alter_cond CC_INVERTED c = map_option (Pair 2) (reverse_condition c)"
    by (cases "reverse_condition c") (simp_all add: alter_cond_def cc_flag_defs)
  show "alter_cond CC_NOT_POSITIVE c = Some (outcome (not_positive_step 0 c))"
    by (simp add: alter_cond_def cc_flag_defs and_then_def outcome_def split: cond_step.split)
  show "alter_cond CC_NOT_NEGATIVE c = Some (outcome (not_negative_step 0 c))"
    by (simp add: alter_cond_def cc_flag_defs and_then_def outcome_def split: cond_step.split)
  show "alter_cond CC_NO_OVERFLOW c = Some (outcome (no_overflow_step 0 c))"
    by (simp add: alter_cond_def cc_flag_defs and_then_def outcome_def split: cond_step.split)
  show "alter_cond CC_Z_IN_NOT_N c = map_option outcome (z_in_n_step CC_Z_IN_NOT_N 0 c)"
    by (simp add: alter_cond_def cc_flag_defs outcome_def z_in_n_step_def)
  show "alter_cond CC_Z_IN_N c = map_option outcome (z_in_n_step CC_Z_IN_N 0 c)"
    by (simp add: alter_cond_def cc_flag_defs outcome_def z_in_n_step_def)
  show "alter_cond CC_NOT_SIGNED c = Some (outcome (not_signed_step 0 c))"
    by (simp add: alter_cond_def cc_flag_defs and_then_def outcome_def split: cond_step.split)
qed

lemma flag_test_compares:
  fixes a b :: "'a::len word"
  assumes "cond_holds code a b = Some t"
  shows "flag_test code (a = b) (a <s b) (a < b) = t"
proof -
  have "(a = b) = (sint a = sint b)" "(a = b) = (uint a = uint b)" by (simp_all add: word_eq_iff_signed word_eq_iff_unsigned)
  then show ?thesis
    using assms by (auto simp: cond_holds_def flag_test_def word_sless_alt word_sle_eq word_less_def word_le_def split: if_splits)
qed

text \<open>C20. A jump altered for nonstandard flags jumps when the original condition holds: for each
  bit of the status alone, except for the unsigned conditions at most and above on flags known
  to come from a value that is not positive.\<close>

theorem alter_cond_correct:
  fixes a b :: "'a::len word"
  assumes "flags_stand_for f code a b z n c" and "cond_holds code a b = Some t"
    and "f = CC_NOT_POSITIVE \<longrightarrow> code \<noteq> LEU \<and> code \<noteq> GTU"
  shows "\<exists>r. alter_cond f code = Some r \<and> jumps r z n c = t"
proof -
  have codes: "code \<in> {EQ, NE, GT, GE, LT, LE, GTU, GEU, LTU, LEU}"
    using assms(2) by (auto simp: cond_holds_def split: if_splits)
  note steps = not_positive_step_def not_negative_step_def no_overflow_step_def z_in_n_step_def not_signed_step_def
    outcome_def jumps_def
  have zero_iff: "a = 0 \<longleftrightarrow> sint a = 0" using signed_eq_0_iff [of a] by metis
  consider "f = 0" | "f = CC_REVERSED" | "f = CC_INVERTED" | "f = CC_NOT_POSITIVE" | "f = CC_NOT_NEGATIVE"
    | "f = CC_NO_OVERFLOW" | "f = CC_Z_IN_NOT_N" | "f = CC_Z_IN_N" | "f = CC_NOT_SIGNED"
    using assms(1) by (auto simp: flags_stand_for_def)
  then show ?thesis
  proof cases
    case 1
    then show ?thesis using assms(1,2) flag_test_compares [of code a b t]
      by (simp add: alter_cond_bit flags_stand_for_def cc_flag_defs jumps_def)
  next
    case 2
    obtain code' where sw: "swap_condition code = Some code'" using codes by (cases "swap_condition code") auto
    then have "cond_holds code' b a = Some t" using cond_holds_swap [of code code' b a] assms(2) by simp
    from flag_test_compares [OF this] have t: "flag_test code' z n c = t"
      using assms(1) 2 by (auto simp: flags_stand_for_def cc_flag_defs)
    show ?thesis unfolding 2 alter_cond_bit sw using t by (simp add: jumps_def)
  next
    case 3
    have c: "code \<in> {EQ, NE}" "z = (a \<noteq> b)"
      using assms(1) 3 by (auto simp: flags_stand_for_def cc_flag_defs)
    from assms(2) show ?thesis unfolding 3 alter_cond_bit using c(1)
      by (elim insertE emptyE) (simp_all add: c jumps_def cond_holds_def flag_test_def)
  next
    case 4
    have "b = 0" "sint a \<le> 0" "z = (sint a = 0)" "a = 0 \<longleftrightarrow> sint a = 0"
      using assms(1) 4 by (auto simp: flags_stand_for_def cc_flag_defs word_sle_eq word_sless_alt zero_iff)
    then show ?thesis unfolding 4 alter_cond_bit using assms(2) assms(3) codes 4
      by (auto simp: steps cond_holds_def flag_test_def word_sle_eq word_sless_alt cc_flag_defs)
  next
    case 5
    have "b = 0" "0 \<le> sint a" "z = (sint a = 0)" "a = 0 \<longleftrightarrow> sint a = 0"
      using assms(1) 5 by (auto simp: flags_stand_for_def cc_flag_defs word_sle_eq word_sless_alt zero_iff)
    then show ?thesis unfolding 5 alter_cond_bit using assms(2) codes
      by (auto simp: steps cond_holds_def flag_test_def word_sle_eq word_sless_alt cc_flag_defs word_gt_0)
  next
    case 6
    have "b = 0" "z = (sint a = 0)" "n = (sint a < 0)" "a = 0 \<longleftrightarrow> sint a = 0"
      using assms(1) 6 by (auto simp: flags_stand_for_def cc_flag_defs word_sle_eq word_sless_alt zero_iff)
    then show ?thesis unfolding 6 alter_cond_bit using assms(2) codes
      by (auto simp: steps cond_holds_def flag_test_def word_sle_eq word_sless_alt cc_flag_defs word_gt_0)
  next
    case 7
    have "code \<in> {EQ, NE}" "n = (a \<noteq> b)"
      using assms(1) 7 by (auto simp: flags_stand_for_def cc_flag_defs word_sle_eq word_sless_alt)
    then show ?thesis unfolding 7 alter_cond_bit using assms(2) codes
      by (auto simp: steps cond_holds_def flag_test_def word_sle_eq word_sless_alt cc_flag_defs)
  next
    case 8
    have "code \<in> {EQ, NE}" "n = (a = b)"
      using assms(1) 8 by (auto simp: flags_stand_for_def cc_flag_defs word_sle_eq word_sless_alt)
    then show ?thesis unfolding 8 alter_cond_bit using assms(2) codes
      by (auto simp: steps cond_holds_def flag_test_def word_sle_eq word_sless_alt cc_flag_defs)
  next
    case 9
    have c: "code \<in> {EQ, NE, LT, LE, GT, GE}" "z = (a = b)" "c = (sint a < sint b)"
      using assms(1) 9 by (auto simp: flags_stand_for_def cc_flag_defs word_sless_alt)
    from flag_test_compares [OF assms(2)] show ?thesis unfolding 9 alter_cond_bit using c(1)
      by (elim insertE emptyE) (simp_all add: steps c flag_test_def word_sless_alt)
  qed
qed

theorem alter_cond_correct_witness:
  "\<exists>r. alter_cond CC_REVERSED LT = Some r \<and> jumps r False False False = ((3 :: 16 word) <s 5)"
  by (rule alter_cond_correct [of CC_REVERSED LT "3 :: 16 word" 5])
    (simp_all add: flags_stand_for_def cc_flag_defs cond_holds_def word_sless_alt)

text \<open>For the unsigned condition at most, on flags of a value that is negative, the altered jump
  is always taken although the condition does not hold, and above is never taken although it holds.\<close>

theorem not_positive_unsigned_wrong:
  "flags_stand_for CC_NOT_POSITIVE code (- 1 :: 16 word) 0 False n c
    \<and> (code = LEU \<longrightarrow> alter_cond CC_NOT_POSITIVE code = Some (1, code) \<and> cond_holds code (- 1 :: 16 word) 0 = Some False)
    \<and> (code = GTU \<longrightarrow> alter_cond CC_NOT_POSITIVE code = Some (- 1, code) \<and> cond_holds code (- 1 :: 16 word) 0 = Some True)"
  by (simp add: flags_stand_for_def alter_cond_bit not_positive_step_def outcome_def cond_holds_def word_sle_eq word_gt_0)

section \<open>Remembered expressions\<close>

text \<open>The two words the flags describe: those of a comparison, or a value and 0.\<close>

definition flag_operands :: "rtl_state \<Rightarrow> rtx \<Rightarrow> 16 word option \<times> 16 word option" where
  "flag_operands st v = (if GET_CODE v = COMPARE then (rtx_value st (XEXP v 0), rtx_value st (XEXP v 1))
     else (rtx_value st v, Some 0))"

lemma exp_value: "rtx_value st (XEXP (Rtx c m f fs) n) = (if n < length fs then fld_value st (fs ! n) else None)"
  by (cases "n < length fs"; cases "fs ! n") (simp_all add: XEXP_def fld_at_def)

lemma equal_flds:
  "flds_equal fvm fs gs \<Longrightarrow> length fs = length gs \<and> (\<forall>i<length fs. fld_equal fvm (fs ! i) (gs ! i))"
proof (induction fs arbitrary: gs)
  case (Cons f fs)
  then show ?case by (cases gs) (auto simp: nth_Cons split: nat.splits)
qed simp

lemma equal_wide: "fld_equal fvm f g \<Longrightarrow> fld_int f = fld_int g"
  by (cases f; cases g) auto

lemma equal_values:
  "rtx_equal_p fvm x y \<longrightarrow> rtx_value st x = rtx_value st y"
  "flds_equal fvm fs gs \<longrightarrow> map (fld_value st) fs = map (fld_value st) gs"
  "fld_equal fvm f g \<longrightarrow> fld_value st f = fld_value st g"
  "vec_equal fvm xs ys \<longrightarrow> True"
proof (induction fvm x y and fvm fs gs and fvm f g and fvm xs ys rule: rtx_equal_p_flds_equal_fld_equal_vec_equal.induct)
  case (2 fvm c m f fs y)
  show ?case
  proof
    assume eq: "rtx_equal_p fvm (Rtx c m f fs) y"
    show "rtx_value st (Rtx c m f fs) = rtx_value st y"
    proof (cases "y = Rtx c m f fs")
      case False
      with eq obtain f' gs where y: "y = Rtx c m f' gs" by (cases y) (auto split: if_splits)
      consider "c = REG" | "c = LABEL_REF" | "c = SYMBOL_REF" | "c = CONST_DOUBLE"
        | "c \<notin> {REG, LABEL_REF, SYMBOL_REF, CONST_DOUBLE, SCRATCH}" "flds_equal fvm fs gs"
        using eq False y by (auto split: if_splits)
      then show ?thesis
      proof cases
        case 5
        then have m: "map (fld_value st) fs = map (fld_value st) gs" using 2 eq False y by auto
        have "INTVAL (Rtx d k f fs) = INTVAL (Rtx d k f' gs)" for d k
          using equal_flds [OF 5(2)] equal_wide [of fvm "fs ! 0" "gs ! 0"] by (auto simp: INTVAL_def fld_access fld_at_def)
        then show ?thesis using 5(1) m y
          by (cases fs; cases gs) (simp_all add: Let_def)
      qed (use eq False y in \<open>auto simp: Let_def split: if_splits\<close>)
    qed simp
  qed
qed (auto split: list.splits fld.splits)

lemma equal_operands:
  assumes "rtx_equal_p fvm x y" "GET_CODE x \<noteq> CC0"
  shows "flag_operands st x = flag_operands st y" "GET_CODE y = GET_CODE x" "x \<noteq> NULL_RTX \<longrightarrow> y \<noteq> NULL_RTX"
proof -
  obtain c m f fs where x: "x = NULL_RTX \<or> x = Rtx c m f fs" by (cases x) auto
  show code: "GET_CODE y = GET_CODE x" "x \<noteq> NULL_RTX \<longrightarrow> y \<noteq> NULL_RTX"
    using assms(1) x by (auto split: if_splits)
  show "flag_operands st x = flag_operands st y"
  proof (cases "GET_CODE x = COMPARE \<and> x \<noteq> y")
    case True
    with x assms(1) obtain f' gs where y: "x = Rtx COMPARE m f fs" "y = Rtx COMPARE m f' gs" "flds_equal fvm fs gs"
      by (cases y) (auto split: if_splits)
    have "map (fld_value st) fs = map (fld_value st) gs" using equal_values(2) y(3) by blast
    then have "rtx_value st (XEXP x n) = rtx_value st (XEXP y n)" for n
      unfolding y(1,2) exp_value by (metis length_map nth_map)
    then show ?thesis by (simp add: flag_operands_def y(1,2))
  next
    case False
    then show ?thesis using equal_values(1) assms(1) code by (auto simp: flag_operands_def)
  qed
qed

text \<open>A store into a register that an expression does not mention keeps what the expression describes.\<close>

lemma kept_operands:
  assumes "reg_overlap_mentioned_p fvm x v = Some False" "GET_CODE x = REG" "stores_into x st st'" "constants_ok v"
  shows "flag_operands st' v = flag_operands st v"
proof (cases "GET_CODE v = COMPARE")
  case True
  then obtain m f fs where v: "v = Rtx COMPARE m f fs" by (cases v) auto
  have agree: "agree_outside (dest_regno x) (dest_endregno x) st st'"
    using assms(3,2) by (cases rule: stores_into.cases) auto
  have "\<not> refers_to_regno_p (dest_regno x) (dest_endregno x) v"
    using assms(1,2) True by (simp add: reg_overlap_mentioned_p.simps [of fvm x v] overlap_dest_def not_constant CONSTANT_P_def [of v] del: refers_to_regno_p.simps)
  then have "\<not> refers_to_regno_fld (dest_regno x) (dest_endregno x) g" if "g \<in> set fs" for g
    using that v by (auto split: if_splits)
  then have "fld_value st' g = fld_value st g" if "g \<in> set fs" for g
    using that not_refers_value [OF _ agree] by (cases g) (simp_all, metis refers_to_regno_fld.simps(2))
  then have "rtx_value st' (XEXP v n) = rtx_value st (XEXP v n)" for n
    unfolding v exp_value by simp
  then show ?thesis using True by (simp add: flag_operands_def)
next
  case False
  then show ?thesis using reg_overlap_mentioned_sound [OF assms(3,1,4)] by (simp add: flag_operands_def)
qed

text \<open>
  Execution as the port expects it: a comparison sets the flags from its operands; an
  arithmetic insn or a load the port tracks sets them from the value it stores; an insn that stores into a
  register something else, and a jump, leave them alone; after a call or any other store the
  flags describe anything.
\<close>

definition tracks :: "rtx \<Rightarrow> bool" where
  "tracks body \<longleftrightarrow> (GET_CODE (SET_DEST body) = REG \<or> GET_CODE (SET_DEST body) = MEM)
     \<and> (GET_MODE (SET_DEST body) = HImode \<or> GET_MODE (SET_DEST body) = QImode) \<and> tracked_source (SET_SRC body)"

inductive flag_step :: "bool \<Rightarrow> rtx \<Rightarrow> rtl_state \<times> (16 word option \<times> 16 word option)
    \<Rightarrow> rtl_state \<times> (16 word option \<times> 16 word option) \<Rightarrow> bool" for fvm where
  comparison: "GET_CODE body = SET \<Longrightarrow> GET_CODE (SET_DEST body) = CC0 \<Longrightarrow> constants_ok (SET_SRC body)
     \<Longrightarrow> flag_step fvm body (st, fl) (st, flag_operands st (SET_SRC body))"
| arithmetic: "GET_CODE body = SET \<Longrightarrow> tracks body \<Longrightarrow> stores_into (SET_DEST body) st st'
     \<Longrightarrow> rtx_value st' (SET_DEST body) = rtx_value st (SET_SRC body)
     \<Longrightarrow> reg_overlap_mentioned_p fvm (SET_DEST body) (SET_SRC body) = Some False
     \<Longrightarrow> constants_ok (SET_SRC body) \<Longrightarrow> constants_ok (SET_DEST body)
     \<Longrightarrow> flag_step fvm body (st, fl) (st', flag_operands st' (SET_DEST body))"
| plain_store: "GET_CODE body = SET \<Longrightarrow> GET_CODE (SET_DEST body) = REG \<Longrightarrow> \<not> tracks body
     \<Longrightarrow> GET_CODE (SET_SRC body) \<noteq> CALL \<Longrightarrow> stores_into (SET_DEST body) st st' \<Longrightarrow> flag_step fvm body (st, fl) (st', fl)"
| jump: "GET_CODE body = SET \<Longrightarrow> SET_DEST body = pc_rtx \<Longrightarrow> flag_step fvm body (st, fl) (st, fl)"
| other: "GET_CODE body = CALL \<or> GET_CODE body = SET \<and> GET_CODE (SET_SRC body) = CALL
       \<or> GET_CODE body = SET \<and> GET_CODE (SET_DEST body) \<notin> {CC0, REG, PC} \<and> \<not> tracks body
     \<Longrightarrow> \<not> tracks body \<Longrightarrow> GET_CODE (SET_DEST body) \<noteq> CC0 \<Longrightarrow> flag_step fvm body (st, fl) (st', fl')"

definition describes :: "rtl_state \<Rightarrow> 16 word option \<times> 16 word option \<Rightarrow> rtx \<Rightarrow> bool" where
  "describes st fl v \<longleftrightarrow> v = NULL_RTX \<or> GET_CODE v = CC0 \<or> constants_ok v \<and> flag_operands st v = fl"

definition truthful :: "CC_STATUS \<Rightarrow> rtl_state \<times> (16 word option \<times> 16 word option) \<Rightarrow> bool" where
  "truthful s m \<longleftrightarrow> describes (fst m) (snd m) (cc_value1 s) \<and> describes (fst m) (snd m) (cc_value2 s)"

lemma drop_second_truthful: "drop_second fvm s = Some s' \<Longrightarrow> truthful s m \<Longrightarrow> truthful s' m"
  by (auto simp: drop_second_def truthful_def describes_def split: if_splits)

lemma truthful_init: "truthful CC_STATUS_INIT m"
  by (simp add: truthful_def CC_STATUS_INIT_def describes_def)

lemma overlap_symmetric_part:
  "reg_overlap_mentioned_p fvm x v = Some False \<Longrightarrow> GET_CODE x = REG \<Longrightarrow> stores_into x st st' \<Longrightarrow> describes st fl v
    \<Longrightarrow> describes st' fl v"
  using kept_operands by (auto simp: describes_def)

lemma notice_keeps_truth:
  assumes "flag_step fvm body m m'" "NOTICE_UPDATE_CC fvm body s = Some s'" "truthful s m"
  shows "truthful s' m'"
  using assms(1)
proof cases
  case (comparison st fl)
  then have "truthful \<lparr>cc_flags = 0, cc_value1 = SET_DEST body, cc_value2 = SET_SRC body\<rparr> m'"
    by (simp add: truthful_def describes_def)
  with comparison assms(2) show ?thesis
    by (auto simp: NOTICE_UPDATE_CC_def notice_update_cc_on_set_def intro: drop_second_truthful)
next
  case (arithmetic st st' fl)
  have "GET_CODE (SET_SRC body) \<noteq> COMPARE" "GET_CODE (SET_DEST body) \<noteq> COMPARE" "GET_CODE (SET_DEST body) \<noteq> CC0"
    "GET_CODE (SET_SRC body) \<noteq> PC"
    using arithmetic(4) by (auto simp: tracks_def tracked_source_def)
  moreover have "rtx_value st' (SET_SRC body) = rtx_value st (SET_SRC body)"
    using reg_overlap_mentioned_sound arithmetic by blast
  ultimately have truth: "truthful \<lparr>cc_flags = 0, cc_value1 = SET_SRC body, cc_value2 = SET_DEST body\<rparr> m'"
    using arithmetic by (simp add: truthful_def describes_def flag_operands_def)
  have on_set: "notice_update_cc_on_set fvm body s = map_option
          (\<lambda>s. if cc_value1 s \<noteq> NULL_RTX \<and> GET_CODE (cc_value1 s) = MEM
               \<and> cc_value2 s \<noteq> NULL_RTX \<and> GET_CODE (cc_value2 s) = MEM
             then s\<lparr>cc_value2 := NULL_RTX\<rparr> else s)
          (drop_second fvm \<lparr>cc_flags = 0, cc_value1 = SET_SRC body, cc_value2 = SET_DEST body\<rparr>)"
    using arithmetic(4) by (auto simp: notice_update_cc_on_set_def tracks_def tracked_source_def)
  from assms(2) arithmetic(3) obtain s1 where s1: "notice_update_cc_on_set fvm body s = Some s1" "drop_second fvm s1 = Some s'"
    by (auto simp: NOTICE_UPDATE_CC_def split: Option.bind_splits)
  then obtain s0 where "drop_second fvm \<lparr>cc_flags = 0, cc_value1 = SET_SRC body, cc_value2 = SET_DEST body\<rparr> = Some s0"
    "s1 = s0 \<or> s1 = s0\<lparr>cc_value2 := NULL_RTX\<rparr>" using on_set by (auto split: if_splits)
  moreover from this(1) have "truthful s0 m'" by (rule drop_second_truthful [OF _ truth])
  ultimately have "truthful s1 m'" by (auto simp: truthful_def describes_def)
  then show ?thesis using drop_second_truthful s1(2) by blast
next
  case (plain_store st st' fl)
  from assms(2) plain_store(3) obtain s1 where s1: "notice_update_cc_on_set fvm body s = Some s1" "drop_second fvm s1 = Some s'"
    by (auto simp: NOTICE_UPDATE_CC_def split: Option.bind_splits)
  have "notice_update_cc_on_set fvm body s =
      (case (remembered_overlap fvm (SET_DEST body) (cc_value1 s), remembered_overlap fvm (SET_DEST body) (cc_value2 s)) of
         (Some b1, Some b2) \<Rightarrow>
           Some (s\<lparr>cc_value1 := if b1 then NULL_RTX else cc_value1 s, cc_value2 := if b2 then NULL_RTX else cc_value2 s\<rparr>)
       | _ \<Rightarrow> None)"
    unfolding notice_update_cc_on_set_def using plain_store(4,5,6) by (simp add: tracks_def) blast
  with s1(1) obtain b1 b2 where b: "remembered_overlap fvm (SET_DEST body) (cc_value1 s) = Some b1"
    "remembered_overlap fvm (SET_DEST body) (cc_value2 s) = Some b2"
    "s1 = s\<lparr>cc_value1 := if b1 then NULL_RTX else cc_value1 s, cc_value2 := if b2 then NULL_RTX else cc_value2 s\<rparr>"
    by (auto split: option.splits)
  have "describes st' fl (if b then NULL_RTX else v)"
    if "remembered_overlap fvm (SET_DEST body) v = Some b" "describes st fl v" for v b
    using that overlap_symmetric_part [OF _ plain_store(4,7), of fvm v fl]
    by (auto simp: remembered_overlap_def describes_def split: if_splits)
  then have "truthful s1 m'" using b assms(3) plain_store(1,2) by (simp add: truthful_def)
  then show ?thesis using drop_second_truthful s1(2) by blast
next
  case (jump st fl)
  then show ?thesis using assms(2,3)
    by (auto simp: NOTICE_UPDATE_CC_def notice_update_cc_on_set_def intro: drop_second_truthful truthful_init split: if_splits)
next
  case (other st fl st' fl')
  then show ?thesis using assms(2) drop_second_truthful truthful_init
    by (auto simp: NOTICE_UPDATE_CC_def notice_update_cc_on_set_def tracks_def split: if_splits)
qed

text \<open>A run of insns and the status recorded along it.\<close>

inductive flag_run :: "bool \<Rightarrow> rtx list \<Rightarrow> rtl_state \<times> (16 word option \<times> 16 word option)
    \<Rightarrow> rtl_state \<times> (16 word option \<times> 16 word option) \<Rightarrow> bool" for fvm where
  run_nil: "flag_run fvm [] m m"
| run_cons: "flag_step fvm body m m' \<Longrightarrow> flag_run fvm bodies m' m'' \<Longrightarrow> flag_run fvm (body # bodies) m m''"

fun notice_all :: "bool \<Rightarrow> rtx list \<Rightarrow> CC_STATUS \<Rightarrow> CC_STATUS option" where
  "notice_all fvm [] s = Some s"
| "notice_all fvm (body # bodies) s = Option.bind (NOTICE_UPDATE_CC fvm body s) (notice_all fvm bodies)"

lemma run_keeps_truth: "flag_run fvm bodies m m' \<Longrightarrow> notice_all fvm bodies s = Some s' \<Longrightarrow> truthful s m \<Longrightarrow> truthful s' m'"
proof (induction arbitrary: s rule: flag_run.induct)
  case (run_cons body m m' bodies m'')
  from run_cons.prems(1) obtain s1 where s1: "NOTICE_UPDATE_CC fvm body s = Some s1" "notice_all fvm bodies s1 = Some s'"
    by (auto split: Option.bind_splits)
  have "truthful s1 m'" using notice_keeps_truth [OF run_cons.hyps(1) s1(1) run_cons.prems(2)] .
  then show ?case using run_cons.IH s1(2) by blast
qed simp


definition compare_hl_de :: rtx where
  "compare_hl_de = gen_rtx_fmt_ee SET VOIDmode cc0_rtx (gen_rtx_fmt_ee COMPARE VOIDmode (gen_rtx_REG HImode 1) (gen_rtx_REG HImode 2))"

definition load_bc :: rtx where
  "load_bc = gen_rtx_fmt_ee SET VOIDmode (gen_rtx_REG HImode 3) (GEN_INT 5)"


text \<open>C21. The expressions the port records are in the wrong order, so that the check for a destination that its
  source mentions is made the wrong way round: after a load of hl from the word hl points to, the status
  still says that the flags describe the word hl points to, although hl points to another word now.\<close>

theorem stale_source_remembered:
  "\<exists>st st' s. stores_into (gen_rtx_REG HImode 1) st st'
    \<and> rtx_value st' (gen_rtx_REG HImode 1) = rtx_value st (gen_rtx_MEM HImode (gen_rtx_REG HImode 1))
    \<and> NOTICE_UPDATE_CC fvm (gen_rtx_fmt_ee SET VOIDmode (gen_rtx_REG HImode 1) (gen_rtx_MEM HImode (gen_rtx_REG HImode 1)))
        CC_STATUS_INIT = Some s
    \<and> cc_value1 s \<noteq> NULL_RTX \<and> flag_operands st' (cc_value1 s) \<noteq> flag_operands st' (gen_rtx_REG HImode 1)"
proof -
  let ?hl = "gen_rtx_REG HImode 1" and ?m = "gen_rtx_MEM HImode (gen_rtx_REG HImode 1)"
  let ?st = "\<lparr>rs_regs = (\<lambda>_. 0), rs_mem = (\<lambda>_. 0)(0 := 2), rs_sym = (\<lambda>_. 0), rs_label = (\<lambda>_. 0)\<rparr>"
  let ?st' = "?st\<lparr>rs_regs := (\<lambda>_. 0)(1 := 2)\<rparr>"
  let ?s = "\<lparr>cc_flags = 0, cc_value1 = ?m, cc_value2 = ?hl\<rparr>"
  have "stores_into ?hl ?st ?st'"
    by (rule stores_reg) (auto simp: dest_regno_def dest_endregno_def agree_outside_def HARD_REGNO_NREGS_def target_simps)
  moreover have "rtx_value ?st' ?hl = rtx_value ?st ?m" "flag_operands ?st' ?m \<noteq> flag_operands ?st' ?hl"
    by (simp_all add: gen_rtx_defs fld_access REGNO_def load16_def flag_operands_def)
  moreover have "NOTICE_UPDATE_CC fvm (gen_rtx_fmt_ee SET VOIDmode ?hl ?m) CC_STATUS_INIT = Some ?s"
    by (simp add: NOTICE_UPDATE_CC_def notice_update_cc_on_set_def SET_DEST_def SET_SRC_def tracked_source_def drop_second_def)
  ultimately show ?thesis by - (rule exI [of _ ?st], rule exI [of _ ?st'], rule exI [of _ ?s], simp add: gen_rtx_defs)
qed

text \<open>A shift is recorded as an insn that leaves the flags alone, although the assembler output of the shift
  patterns sets them.\<close>

theorem shift_keeps_status:
  "NOTICE_UPDATE_CC fvm (gen_rtx_fmt_ee SET VOIDmode (gen_rtx_REG HImode 1)
      (gen_rtx_fmt_ee ASHIFT HImode (gen_rtx_REG HImode 1) (GEN_INT 1)))
      \<lparr>cc_flags = 0, cc_value1 = cc0_rtx, cc_value2 = gen_rtx_fmt_ee COMPARE VOIDmode (gen_rtx_REG HImode 3) (gen_rtx_REG HImode 2)\<rparr>
    = Some \<lparr>cc_flags = 0, cc_value1 = cc0_rtx, cc_value2 = gen_rtx_fmt_ee COMPARE VOIDmode (gen_rtx_REG HImode 3) (gen_rtx_REG HImode 2)\<rparr>"
  by (simp add: NOTICE_UPDATE_CC_def notice_update_cc_on_set_def SET_DEST_def SET_SRC_def tracked_source_def
      remembered_overlap_def reg_overlap_mentioned_p.simps overlap_dest_def CONSTANT_P_def dest_regno_def dest_endregno_def
      drop_second_def)
    (simp add: gen_rtx_defs HARD_REGNO_NREGS_def target_simps REGNO_def fld_access)

end
