(* ===== verification/Cse_Fold.thy ===== *)
theory Cse_Fold
  imports Rtl_Constants Emit_Parts Jump_Conditions "HOL-Library.Signed_Division"
begin

text \<open>
  Folding of operations on integer constants (gcc/cse.c): the integer parts of
  \<open>simplify_unary_operation\<close>, \<open>simplify_binary_operation\<close>, \<open>simplify_relational_operation\<close> and
  \<open>simplify_ternary_operation\<close>.  The host computes with 32-bit words; a \<open>HOST_WIDE_INT\<close> is used signed through
  \<open>sint\<close> and its arithmetic wraps.  A folder gives \<open>None\<close> where the source aborts or the
  host operation is undefined, \<open>Some None\<close> where it does not fold, and otherwise
  the folded word.  The semantics is that of words of the width of the mode.
\<close>

section \<open>Results in a mode\<close>

text \<open>The end of the functions: the bits outside the mode are cleared unless they and the sign bit are
  all one, and a value of a word of the target is sign extended.\<close>

definition clip_to_mode :: "nat \<Rightarrow> hwi \<Rightarrow> hwi" where
  "clip_to_mode width val =
     (if width < 32 \<and> and val (ones_from (width - 1)) \<noteq> ones_from (width - 1)
      then and val (low_mask width) else val)"

definition mode_result :: "nat \<Rightarrow> hwi \<Rightarrow> hwi" where
  "mode_result width val =
     (let val = clip_to_mode width val
      in if BITS_PER_WORD < 32 \<and> BITS_PER_WORD = width \<and> and val (push_bit (width - 1) 1) \<noteq> 0
         then or val (ones_from width) else val)"

section \<open>Operations on one constant\<close>

function log_loop :: "hwi \<Rightarrow> int \<Rightarrow> int" where
  "log_loop x log = (let x = drop_bit 1 x in if x \<noteq> 0 then log_loop x (log + 1) else log)"
  by pat_completeness auto
termination
proof (relation "measure (unat \<circ> fst)", simp_all)
  fix x :: hwi
  assume "drop_bit (Suc 0) x \<noteq> 0"
  then have "0 < unat x" by (auto simp: unat_gt_0)
  then have "unat x div 2 < unat x" by simp
  then show "unat (drop_bit (Suc 0) x) < unat x" by (simp add: drop_bit_Suc unat_div)
qed

declare log_loop.simps [simp del]

definition exact_log2_wide :: "hwi \<Rightarrow> int" where
  "exact_log2_wide x = (if x = 0 \<or> x \<noteq> and x (- x) then - 1 else log_loop x 0)"

definition zero_extend_from :: "nat \<Rightarrow> hwi \<Rightarrow> hwi" where
  "zero_extend_from bits val = and val (not (ones_from bits))"

definition sign_extend_from :: "nat \<Rightarrow> hwi \<Rightarrow> hwi" where
  "sign_extend_from bits val =
     (let val = zero_extend_from bits val
      in if and val (push_bit (bits - 1) 1) \<noteq> 0 then val - push_bit bits 1 else val)"

text \<open>The width of the mode extended from; \<open>None\<close> for \<open>abort\<close>, and no folding from wider modes.\<close>

definition extend_with :: "(nat \<Rightarrow> hwi \<Rightarrow> hwi) \<Rightarrow> machine_mode \<Rightarrow> machine_mode \<Rightarrow> hwi \<Rightarrow> hwi option option" where
  "extend_with f mode op_mode arg0 =
     (let op_mode = (if op_mode = VOIDmode then mode else op_mode)
      in if mode_bits op_mode = 32 then (if mode_bits mode \<noteq> mode_bits op_mode then None else Some (Some arg0))
         else if mode_bits op_mode < 32 then Some (Some (f (mode_bits op_mode) arg0))
         else Some None)"

definition fold_unary_value :: "rtx_code \<Rightarrow> machine_mode \<Rightarrow> machine_mode \<Rightarrow> hwi \<Rightarrow> hwi option option" where
  "fold_unary_value code mode op_mode arg0 =
     (if code = NOT then Some (Some (not arg0))
      else if code = NEG then Some (Some (- arg0))
      else if code = ABS then Some (Some (if sint arg0 \<ge> 0 then arg0 else - arg0))
      else if code = FFS then
        (let arg0 = and arg0 (GET_MODE_MASK mode)
         in Some (Some (word_of_int (exact_log2_wide (and arg0 (- arg0)) + 1))))
      else if code = TRUNCATE then Some (Some arg0)
      else if code = ZERO_EXTEND then extend_with zero_extend_from mode op_mode arg0
      else if code = SIGN_EXTEND then extend_with sign_extend_from mode op_mode arg0
      else if code = SQRT then Some None
      else None)"

definition fold_unary_int :: "rtx_code \<Rightarrow> machine_mode \<Rightarrow> machine_mode \<Rightarrow> hwi \<Rightarrow> hwi option option" where
  "fold_unary_int code mode op_mode arg0 =
     map_option (map_option (mode_result (mode_bits mode))) (fold_unary_value code mode op_mode arg0)"

section \<open>Operations on two constants\<close>

definition zero_extended :: "nat \<Rightarrow> hwi \<Rightarrow> hwi" where
  "zero_extended width arg = (if width < 32 then and arg (low_mask width) else arg)"

definition sign_extended :: "nat \<Rightarrow> hwi \<Rightarrow> hwi" where
  "sign_extended width arg =
     (let arg = zero_extended width arg
      in if width < 32 \<and> and arg (push_bit (width - 1) 1) \<noteq> 0 then or arg (ones_from width) else arg)"

text \<open>Division of signed words; the quotient of the smallest word and -1 is undefined on the host.\<close>

definition divide_signed :: "(int \<Rightarrow> int \<Rightarrow> int) \<Rightarrow> hwi \<Rightarrow> hwi \<Rightarrow> hwi option option" where
  "divide_signed f a b =
     (if b = 0 then Some None else if sint a = - 2147483648 \<and> b = - 1 then None
      else Some (Some (word_of_int (f (sint a) (sint b)))))"

definition divide_unsigned :: "(hwi \<Rightarrow> hwi \<Rightarrow> hwi) \<Rightarrow> hwi \<Rightarrow> hwi \<Rightarrow> hwi option option" where
  "divide_unsigned f a b = (if b = 0 then Some None else Some (Some (f a b)))"

text \<open>A shift count is reduced modulo the width (\<open>SHIFT_COUNT_TRUNCATED\<close>), and a negative one not folded.
  A rotation shifts by the rest of the width, which is undefined for a whole host word.\<close>

definition shift_with :: "(hwi \<Rightarrow> nat \<Rightarrow> hwi) \<Rightarrow> nat \<Rightarrow> hwi \<Rightarrow> hwi \<Rightarrow> hwi option option" where
  "shift_with f width a count = (if sint count < 0 then Some None else Some (Some (f a (unat count mod width))))"

definition shift_right_signed :: "hwi \<Rightarrow> nat \<Rightarrow> hwi" where
  "shift_right_signed a n =
     (let val = signed_drop_bit n a
      in if sint a < 0 \<and> 0 < n then or val (ones_from (32 - n)) else val)"

definition rotate_with :: "(nat \<Rightarrow> nat \<Rightarrow> hwi \<Rightarrow> hwi) \<Rightarrow> nat \<Rightarrow> hwi \<Rightarrow> hwi \<Rightarrow> hwi option option" where
  "rotate_with f width a count =
     (if sint count < 0 then Some None
      else (let n = unat count mod width in if width - n \<ge> 32 then None else Some (Some (f width n a))))"

definition rotated_right :: "nat \<Rightarrow> nat \<Rightarrow> hwi \<Rightarrow> hwi" where
  "rotated_right width n a = or (push_bit (width - n) a) (drop_bit n a)"

definition rotated_left :: "nat \<Rightarrow> nat \<Rightarrow> hwi \<Rightarrow> hwi" where
  "rotated_left width n a = or (push_bit n a) (drop_bit (width - n) a)"

definition fold_binary_value :: "rtx_code \<Rightarrow> nat \<Rightarrow> hwi \<Rightarrow> hwi \<Rightarrow> hwi option option" where
  "fold_binary_value code width op0 op1 =
     (let arg0 = zero_extended width op0; arg1 = zero_extended width op1;
          arg0s = sign_extended width op0; arg1s = sign_extended width op1
      in if code = PLUS then Some (Some (arg0s + arg1s))
         else if code = MINUS then Some (Some (arg0s - arg1s))
         else if code = MULT then Some (Some (arg0s * arg1s))
         else if code = DIV then divide_signed (sdiv) arg0s arg1s
         else if code = MOD then divide_signed (smod) arg0s arg1s
         else if code = UDIV then divide_unsigned (div) arg0 arg1
         else if code = UMOD then divide_unsigned (mod) arg0 arg1
         else if code = AND then Some (Some (and arg0 arg1))
         else if code = IOR then Some (Some (or arg0 arg1))
         else if code = XOR then Some (Some (xor arg0 arg1))
         else if code = LSHIFTRT then shift_with (\<lambda>a n. drop_bit n a) width arg0 arg1
         else if code = ASHIFT then shift_with (\<lambda>a n. push_bit n a) width arg0 arg1
         else if code = ASHIFTRT then
           (if sint arg1 < 0 then Some None else Some (Some (shift_right_signed arg0s (unat arg1 mod width))))
         else if code = ROTATERT then rotate_with rotated_right width arg0 arg1
         else if code = ROTATE then rotate_with rotated_left width arg0 arg1
         else if code = COMPARE then Some None
         else if code = SMIN then Some (Some (if sint arg0s \<le> sint arg1s then arg0s else arg1s))
         else if code = UMIN then Some (Some (if arg0 \<le> arg1 then arg0 else arg1))
         else if code = SMAX then Some (Some (if sint arg0s > sint arg1s then arg0s else arg1s))
         else if code = UMAX then Some (Some (if arg0 > arg1 then arg0 else arg1))
         else None)"

definition fold_binary_int :: "rtx_code \<Rightarrow> machine_mode \<Rightarrow> hwi \<Rightarrow> hwi \<Rightarrow> hwi option option" where
  "fold_binary_int code mode op0 op1 =
     map_option (map_option (mode_result (mode_bits mode))) (fold_binary_value code (mode_bits mode) op0 op1)"

section \<open>Comparisons\<close>

text \<open>The two words of each constant, low and high, first signed then unsigned.\<close>

definition compare_words_in :: "nat \<Rightarrow> hwi \<times> hwi \<Rightarrow> (hwi \<times> hwi) \<times> (hwi \<times> hwi)" where
  "compare_words_in width x =
     (let l = fst x; h = snd x;
          hs = (if width \<noteq> 0 \<and> width \<le> 32 then (if sless0 l then - 1 else 0) else h);
          hu = (if width \<noteq> 0 \<and> width \<le> 32 then 0 else h);
          lu = (if width \<noteq> 0 \<and> width < 32 then and l (low_mask width) else l);
          ls = (if width \<noteq> 0 \<and> width < 32 \<and> and l (push_bit (width - 1) 1) \<noteq> 0 then or l (ones_from width) else l)
      in ((ls, hs), (lu, hu)))"

definition less_signed_pair :: "hwi \<times> hwi \<Rightarrow> hwi \<times> hwi \<Rightarrow> bool" where
  "less_signed_pair x y \<longleftrightarrow> snd x <s snd y \<or> snd x = snd y \<and> fst x <s fst y"

definition less_unsigned_pair :: "hwi \<times> hwi \<Rightarrow> hwi \<times> hwi \<Rightarrow> bool" where
  "less_unsigned_pair x y \<longleftrightarrow> snd x < snd y \<or> snd x = snd y \<and> fst x < fst y"

text \<open>The last switch of the function: the result for the flags of a comparison.\<close>

definition relation_of :: "rtx_code \<Rightarrow> bool \<Rightarrow> bool \<Rightarrow> bool \<Rightarrow> bool \<Rightarrow> bool \<Rightarrow> bool option" where
  "relation_of code equal op0lt op1lt op0ltu op1ltu =
     (if code = EQ then Some equal
      else if code = NE then Some (\<not> equal)
      else if code = LT then Some op0lt
      else if code = GT then Some op1lt
      else if code = LTU then Some op0ltu
      else if code = GTU then Some op1ltu
      else if code = LE then Some (equal \<or> op0lt)
      else if code = GE then Some (equal \<or> op1lt)
      else if code = LEU then Some (equal \<or> op0ltu)
      else if code = GEU then Some (equal \<or> op1ltu)
      else None)"

definition fold_relational_int :: "rtx_code \<Rightarrow> machine_mode \<Rightarrow> hwi \<times> hwi \<Rightarrow> hwi \<times> hwi \<Rightarrow> bool option" where
  "fold_relational_int code mode x y =
     (case (compare_words_in (mode_bits mode) x, compare_words_in (mode_bits mode) y) of
        ((xs, xu), (ys, yu)) \<Rightarrow>
          relation_of code (snd xu = snd yu \<and> fst xu = fst yu) (less_signed_pair xs ys) (less_signed_pair ys xs)
            (less_unsigned_pair xu yu) (less_unsigned_pair yu xu))"

section \<open>Bit fields\<close>

text \<open>Extraction of a field of \<open>len\<close> bits from bit \<open>pos\<close>; shifts by a negative count or a whole word are undefined,
  and so is a sum of the two that is no host word.\<close>

definition fold_extract :: "rtx_code \<Rightarrow> machine_mode \<Rightarrow> machine_mode \<Rightarrow> hwi \<Rightarrow> int \<Rightarrow> int \<Rightarrow> hwi option option" where
  "fold_extract code mode op0_mode x len pos =
     (let width = (if mode_bits mode = 0 then 32 else mode_bits mode)
      in if len + pos < - 2147483648 \<or> len + pos > 2147483647 then None
         else if len + pos \<le> int (mode_bits op0_mode) \<and> width \<le> 32 then
           (if pos < 0 \<or> pos \<ge> 32 \<or> len < 0 \<or> len > 32 \<or> len = 0 \<and> code = SIGN_EXTRACT then None
            else
              (let val = signed_drop_bit (nat pos) x;
                   val = (if len \<noteq> 32 then
                            (let val = and val (low_mask (nat len))
                             in if code = SIGN_EXTRACT \<and> and val (push_bit (nat len - 1) 1) \<noteq> 0
                                then or val (not (low_mask (nat len))) else val)
                          else val)
               in Some (Some (clip_to_mode width val))))
         else Some None)"

section \<open>The low bits of host words\<close>

lemma and_single: "and x (push_bit n 1) \<noteq> 0 \<longleftrightarrow> n < 32 \<and> bit x n" for x :: hwi
  by (simp only: bit_eq_iff [of "and x (push_bit n 1)" 0]) (auto simp: bit_simps)

lemma narrow_bits: "bit (ucast x :: 'a::len word) k \<longleftrightarrow> k < LENGTH('a) \<and> bit x k" for x :: hwi
  by (simp add: bit_ucast_iff)

lemma narrow_of_int: "LENGTH('a) \<le> 32 \<Longrightarrow> ucast (word_of_int i :: hwi) = (word_of_int i :: 'a::len word)"
  by (rule bit_word_eqI) (simp add: narrow_bits bit_simps)

lemma narrow_mode_result: "LENGTH('a) \<le> 32 \<Longrightarrow> ucast (mode_result LENGTH('a) v) = (ucast v :: 'a::len word)"
  by (rule bit_word_eqI) (auto simp: narrow_bits mode_result_def clip_to_mode_def Let_def bit_simps bit_low_mask bit_ones_from)

lemma zero_extended_widen:
  "LENGTH('a) \<le> 32 \<Longrightarrow> zero_extended LENGTH('a) x = ucast (ucast x :: 'a::len word)"
  by (rule bit_word_eqI) (auto simp: zero_extended_def bit_simps bit_low_mask dest: bit_imp_le_length)

lemma sign_extended_widen:
  "LENGTH('a) \<le> 32 \<Longrightarrow> sign_extended LENGTH('a) x = scast (ucast x :: 'a::len word)"
proof (rule bit_word_eqI)
  fix k :: nat
  assume l: "LENGTH('a) \<le> 32" and k: "k < LENGTH(32)"
  have z: "and (zero_extended LENGTH('a) x) (push_bit (LENGTH('a) - 1) 1) \<noteq> 0 \<longleftrightarrow> bit x (LENGTH('a) - 1)"
    unfolding and_single using l by (auto simp: zero_extended_def bit_simps bit_low_mask)
  show "bit (sign_extended LENGTH('a) x) k = bit (scast (ucast x :: 'a word) :: hwi) k"
  proof (cases "k = LENGTH('a) - 1")
    case True
    then show ?thesis unfolding sign_extended_def Let_def z using l k
      by (auto simp: zero_extended_def bit_simps bit_low_mask bit_ones_from)
  next
    case False
    then have "k < LENGTH('a) - 1 \<or> LENGTH('a) \<le> k" by linarith
    then show ?thesis unfolding sign_extended_def Let_def z using l k
      by (auto simp: zero_extended_def bit_simps bit_low_mask bit_ones_from min_def)
  qed
qed

lemma uint_widen: "LENGTH('a) \<le> 32 \<Longrightarrow> uint (ucast a :: hwi) = uint a" for a :: "'a::len word"
  by (rule uint_up_ucast) (simp add: is_up)

lemma sint_widen: "LENGTH('a) \<le> 32 \<Longrightarrow> sint (scast a :: hwi) = sint a" for a :: "'a::len word"
  by (rule sint_up_scast) (simp add: is_up)

section \<open>Folding is the operation on words\<close>

text \<open>The operation of a code on words of the width of the mode; shift counts are taken modulo the width.
  \<open>None\<close>: division by zero, and codes that are no operations of words.\<close>

definition word_operation :: "rtx_code \<Rightarrow> 'a::len word \<Rightarrow> 'a word \<Rightarrow> 'a word option" where
  "word_operation code a b =
     (let n = unat b mod LENGTH('a)
      in if code = PLUS then Some (a + b)
         else if code = MINUS then Some (a - b)
         else if code = MULT then Some (a * b)
         else if code = DIV then (if b = 0 then None else Some (word_of_int (sint a sdiv sint b)))
         else if code = MOD then (if b = 0 then None else Some (word_of_int (sint a smod sint b)))
         else if code = UDIV then (if b = 0 then None else Some (a div b))
         else if code = UMOD then (if b = 0 then None else Some (a mod b))
         else if code = AND then Some (and a b)
         else if code = IOR then Some (or a b)
         else if code = XOR then Some (xor a b)
         else if code = LSHIFTRT then Some (drop_bit n a)
         else if code = ASHIFT then Some (push_bit n a)
         else if code = ASHIFTRT then Some (signed_drop_bit n a)
         else if code = ROTATERT then Some (word_rotr n a)
         else if code = ROTATE then Some (word_rotl n a)
         else if code = SMIN then Some (if a \<le>s b then a else b)
         else if code = UMIN then Some (min a b)
         else if code = SMAX then Some (if b <s a then a else b)
         else if code = UMAX then Some (max a b)
         else None)"

lemma narrow_arith:
  fixes a b :: "'a::len word"
  assumes "LENGTH('a) \<le> 32"
  shows "ucast (scast a + scast b :: hwi) = a + b" "ucast (scast a - scast b :: hwi) = a - b"
    "ucast (scast a * scast b :: hwi) = a * b" "ucast (scast a :: hwi) = a" "ucast (ucast a :: hwi) = a"
    "(scast a :: hwi) = 0 \<longleftrightarrow> a = 0" "(ucast a :: hwi) = 0 \<longleftrightarrow> a = 0"
    "((ucast a :: hwi) \<le> ucast b) = (a \<le> b)" "((ucast a :: hwi) < ucast b) = (a < b)" "unat (ucast a :: hwi) = unat a"
proof -
  note n = narrow_of_int [OF assms]
  have s: "scast a = (word_of_int (sint a) :: hwi)" "scast b = (word_of_int (sint b) :: hwi)" by (rule scast_eq)+
  show "ucast (scast a + scast b :: hwi) = a + b" unfolding s wi_hom_add n by simp
  show "ucast (scast a - scast b :: hwi) = a - b" unfolding s wi_hom_sub n by simp
  show "ucast (scast a * scast b :: hwi) = a * b" unfolding s wi_hom_mult n by simp
  show "ucast (scast a :: hwi) = a" unfolding s n by simp
  have u: "uint (ucast x :: hwi) = uint x" for x :: "'a word" by (rule uint_widen [OF assms])
  have "ucast (ucast a :: hwi) = (word_of_int (uint (ucast a :: hwi)) :: 'a word)" by simp
  then show "ucast (ucast a :: hwi) = a" unfolding u by simp
  show "(scast a :: hwi) = 0 \<longleftrightarrow> a = 0" using sint_widen [OF assms, of a] signed_eq_0_iff by metis
  show "(ucast a :: hwi) = 0 \<longleftrightarrow> a = 0" unfolding word_uint_eq_iff u by simp
  show "((ucast a :: hwi) \<le> ucast b) = (a \<le> b)" unfolding word_le_def u ..
  show "((ucast a :: hwi) < ucast b) = (a < b)" unfolding word_less_def u ..
  show "unat (ucast a :: hwi) = unat a" unfolding unat_eq_nat_uint u ..
qed

lemma narrow_div:
  fixes a b :: "'a::len word"
  assumes "LENGTH('a) \<le> 32"
  shows "ucast (ucast a div ucast b :: hwi) = a div b" "ucast (ucast a mod ucast b :: hwi) = a mod b"
proof -
  have "(ucast a div ucast b :: hwi) = word_of_int (uint a div uint b)" "(ucast a mod ucast b :: hwi) = word_of_int (uint a mod uint b)"
    by (simp_all add: word_div_def word_mod_def uint_widen [OF assms])
  then show "ucast (ucast a div ucast b :: hwi) = a div b" "ucast (ucast a mod ucast b :: hwi) = a mod b"
    by (simp_all add: narrow_of_int [OF assms] word_div_def word_mod_def)
qed

lemma narrow_bitwise:
  fixes a b :: "'a::len word"
  assumes "LENGTH('a) \<le> 32"
  shows "ucast (and (ucast a) (ucast b) :: hwi) = and a b" "ucast (or (ucast a) (ucast b) :: hwi) = or a b"
    "ucast (xor (ucast a) (ucast b) :: hwi) = xor a b"
    "ucast (drop_bit n (ucast a) :: hwi) = drop_bit n a" "ucast (push_bit n (ucast a) :: hwi) = push_bit n a"
  using assms by (intro bit_word_eqI; auto simp: bit_simps dest: bit_imp_le_length)+

lemma narrow_shift_signed:
  fixes a :: "'a::len word"
  assumes "LENGTH('a) \<le> 32" "n < LENGTH('a)"
  shows "ucast (shift_right_signed (scast a) n) = signed_drop_bit n a"
proof (rule bit_word_eqI)
  fix k
  assume k: "k < LENGTH('a)"
  then have "\<not> 32 - n \<le> k \<or> k + n \<ge> 32" by linarith
  have top: "bit (scast a :: hwi) 31 = bit a (LENGTH('a) - 1)"
    using assms by (auto simp: bit_simps min_def)
  have neg: "sint (scast a :: hwi) < 0 \<longleftrightarrow> bit a (LENGTH('a) - 1)"
    using sint_widen [OF assms(1), of a] sint_neg_bit [of a] by simp
  show "bit (ucast (shift_right_signed (scast a) n) :: 'a word) k = bit (signed_drop_bit n a) k"
  proof (cases "n + k = LENGTH('a) - 1")
    case True
    then have "\<not> LENGTH('a) - 1 < n + k" "k = LENGTH('a) - 1 - n" by simp_all
    then show ?thesis unfolding shift_right_signed_def Let_def neg using assms k True
      by (auto simp: bit_simps bit_ones_from min_def)
  next
    case False
    then show ?thesis unfolding shift_right_signed_def Let_def neg using assms k
      by (auto simp: bit_simps bit_ones_from min_def)
  qed
qed

lemma narrow_rotate:
  fixes a :: "'a::len word"
  assumes "LENGTH('a) \<le> 32" "n < LENGTH('a)"
  shows "ucast (rotated_right LENGTH('a) n (ucast a)) = word_rotr n a"
    "ucast (rotated_left LENGTH('a) n (ucast a)) = word_rotl n a"
proof -
  show "ucast (rotated_right LENGTH('a) n (ucast a)) = word_rotr n a"
  proof (rule bit_word_eqI)
    fix k
    assume k: "k < LENGTH('a)"
    show "bit (ucast (rotated_right LENGTH('a) n (ucast a)) :: 'a word) k = bit (word_rotr n a) k"
      using assms k by (cases "k + n < LENGTH('a)")
        (auto simp: rotated_right_def bit_simps mod_if add.commute dest: bit_imp_le_length)
  qed
  show "ucast (rotated_left LENGTH('a) n (ucast a)) = word_rotl n a"
  proof (rule bit_word_eqI)
    fix k
    assume k: "k < LENGTH('a)"
    show "bit (ucast (rotated_left LENGTH('a) n (ucast a)) :: 'a word) k = bit (word_rotl n a) k"
      using assms k by (cases "n \<le> k")
        (auto simp: rotated_left_def bit_simps mod_if add.commute dest: bit_imp_le_length)
  qed
qed

text \<open>The low bits of the folded word are the result of the operation on the low bits of the operands.\<close>

lemma low_bits_fold:
  fixes x y :: hwi
  assumes w: "LENGTH('a::len) \<le> 32"
    and r: "fold_binary_value code LENGTH('a) x y = Some (Some r)"
  shows "word_operation code (ucast x :: 'a word) (ucast y) = Some (ucast r)"
proof -
  define a where "a = (ucast x :: 'a word)"
  define b where "b = (ucast y :: 'a word)"
  have zx: "zero_extended LENGTH('a) x = ucast a" "zero_extended LENGTH('a) y = ucast b"
    "sign_extended LENGTH('a) x = scast a" "sign_extended LENGTH('a) y = scast b"
    by (simp_all add: zero_extended_widen [OF w] sign_extended_widen [OF w] a_def b_def)
  note n = narrow_arith [OF w] narrow_div [OF w] narrow_bitwise [OF w] sint_widen [OF w]
  have mod: "unat b mod LENGTH('a) < LENGTH('a)" by simp
  note sh = narrow_shift_signed [OF w mod, of a] narrow_rotate [OF w mod, of a]
  note r' = r [unfolded fold_binary_value_def zx Let_def]
  have "code \<in> {PLUS, MINUS, MULT, DIV, MOD, UDIV, UMOD, AND, IOR, XOR, LSHIFTRT, ASHIFT, ASHIFTRT, ROTATERT, ROTATE,
      SMIN, UMIN, SMAX, UMAX}"
    using r' by (auto split: if_splits)
  then show ?thesis
    unfolding a_def [symmetric] b_def [symmetric]
    using r' by (elim insertE emptyE)
      (auto simp: word_operation_def divide_signed_def divide_unsigned_def shift_with_def rotate_with_def n sh Let_def
        narrow_of_int [OF w] word_sle_eq word_sless_alt min_def max_def split: if_splits)
qed

text \<open>A constant of a mode: a negative value of the mode, or an unsigned one; of a target word, a signed value.\<close>

definition in_mode :: "nat \<Rightarrow> hwi \<Rightarrow> bool" where
  "in_mode width v \<longleftrightarrow> - (2 ^ (width - 1)) \<le> sint v \<and> sint v < 2 ^ width
     \<and> (width = BITS_PER_WORD \<longrightarrow> sint v < 2 ^ (width - 1))"

lemma bits_agree_range:
  fixes v :: hwi
  assumes "n < 32" "\<And>k. n \<le> k \<Longrightarrow> k < 32 \<Longrightarrow> bit v k = bit v n"
  shows "- (2 ^ n) \<le> sint v \<and> sint v < 2 ^ n"
proof -
  have "signed_take_bit n (sint v) = sint v"
  proof (rule bit_eqI)
    fix k
    have b: "bit (sint v) j = bit v (if j < 32 then j else 31)" for j
      by (auto simp: bit_sint_iff min_def dest: bit_imp_le_length)
    show "bit (signed_take_bit n (sint v)) k = bit (sint v) k"
      unfolding bit_signed_take_bit_iff b using assms(1) assms(2) [of k] assms(2) [of 31] by (auto simp: min_def)
  qed
  then show ?thesis by (simp add: signed_take_bit_int_eq_self_iff)
qed

lemma bit_31_sign: "bit v 31 \<longleftrightarrow> sint v < 0" for v :: hwi
  using sint_neg_bit [of v] by simp

lemma all_ones_bits: "and v (ones_from n) = ones_from n \<longleftrightarrow> (\<forall>k. n \<le> k \<and> k < 32 \<longrightarrow> bit v k)" for v :: hwi
  by (auto simp: bit_eq_iff [of "and v (ones_from n)"] bit_simps bit_ones_from)

lemma mode_result_in_mode:
  assumes "0 < width" "width \<le> 32"
  shows "in_mode width (mode_result width v)"
proof (cases "width = 32")
  case True
  have "sint v < 2 ^ 31" "- (2 ^ 31) \<le> sint v" using sint_lt [of v] sint_ge [of v] by simp_all
  then show ?thesis using True by (simp add: in_mode_def mode_result_def clip_to_mode_def)
next
  case False
  then have w: "width < 32" using assms by simp
  show ?thesis
  proof (cases "and v (ones_from (width - 1)) = ones_from (width - 1)")
    case True
    then have ones: "bit v k" if "width - 1 \<le> k" "k < 32" for k using that by (auto simp: all_ones_bits)
    have "mode_result width v = v"
    proof (rule bit_word_eqI)
      fix k :: nat
      assume "k < LENGTH(32)"
      then show "bit (mode_result width v) k = bit v k"
        using True ones [of k] assms w by (auto simp: mode_result_def clip_to_mode_def bit_simps bit_ones_from)
    qed
    moreover have "- (2 ^ (width - 1)) \<le> sint v \<and> sint v < 2 ^ (width - 1)"
      using bits_agree_range [of "width - 1" v] ones w assms by auto
    moreover have "(2 :: int) ^ (width - 1) \<le> 2 ^ width" by (rule power_increasing) auto
    ultimately have "mode_result width v = v" "- (2 ^ (width - 1)) \<le> sint v" "sint v < 2 ^ (width - 1)" "sint v < 2 ^ width"
      by linarith+
    then show ?thesis by (simp only: in_mode_def simp_thms)
  next
    case False
    define c where "c = and v (low_mask width)"
    have cb: "bit c k \<longleftrightarrow> k < width \<and> bit v k" for k using w by (auto simp: c_def bit_simps bit_low_mask)
    have r: "mode_result width v = (if 16 = width \<and> bit c 15 then or c (ones_from 16) else c)"
      using False w and_single [of c 15] by (auto simp: mode_result_def clip_to_mode_def c_def [symmetric])
    have c0: "0 \<le> sint c" using bit_31_sign [of c] cb [of 31] w by auto
    have c1: "sint c < 2 ^ width" using bits_agree_range [of width c] cb w by auto
    show ?thesis
    proof (cases "width = 16")
      case True
      show ?thesis
      proof (cases "bit c 15")
        case True
        have "bit (or c (ones_from 16)) k" if "15 \<le> k" "k < 32" for k
          using that True by (cases "k = 15") (auto simp: bit_simps bit_ones_from)
        then have "- (2 ^ 15) \<le> sint (or c (ones_from 16)) \<and> sint (or c (ones_from 16)) < 2 ^ 15"
          by (intro bits_agree_range) auto
        then show ?thesis using \<open>width = 16\<close> True r by (auto simp: in_mode_def)
      next
        case False
        have "bit c k = bit c 15" if "15 \<le> k" "k < 32" for k
          using that False cb [of k] \<open>width = 16\<close> by (cases "k = 15") auto
        from bits_agree_range [of 15 c, OF _ this] have "sint c < 2 ^ 15" by simp
        moreover have "mode_result width v = c" using r False by simp
        ultimately show ?thesis using \<open>width = 16\<close> c0 by (simp add: in_mode_def)
      qed
    next
      case False
      have "- (2 ^ (width - 1)) \<le> (0 :: int)" by simp
      then have "- (2 ^ (width - 1)) \<le> sint c" using c0 by linarith
      moreover have "mode_result width v = c" using r False by simp
      ultimately show ?thesis using c1 False by (simp add: in_mode_def)
    qed
  qed
qed

text \<open>The codes the folder knows.\<close>

definition folded_codes :: "rtx_code set" where
  "folded_codes = {PLUS, MINUS, MULT, DIV, MOD, UDIV, UMOD, AND, IOR, XOR, LSHIFTRT, ASHIFT, ASHIFTRT, ROTATERT, ROTATE,
      SMIN, UMIN, SMAX, UMAX}"

lemma fold_binary_total:
  fixes x y :: hwi
  assumes "LENGTH('a::len) < 32" and "word_operation code (ucast x :: 'a word) (ucast y) \<noteq> None"
  shows "\<exists>r. fold_binary_value code LENGTH('a) x y = Some (Some r)"
proof -
  have w: "LENGTH('a) \<le> 32" using assms(1) by simp
  define a where "a = (ucast x :: 'a word)"
  define b where "b = (ucast y :: 'a word)"
  have zx: "zero_extended LENGTH('a) x = ucast a" "zero_extended LENGTH('a) y = ucast b"
    "sign_extended LENGTH('a) x = scast a" "sign_extended LENGTH('a) y = scast b"
    by (simp_all add: zero_extended_widen [OF w] sign_extended_widen [OF w] a_def b_def)
  have pos: "\<not> sint (ucast b :: hwi) < 0"
    using assms(1) by (simp add: sint_neg_bit bit_simps) (auto dest: bit_imp_le_length)
  have "- (2 ^ (LENGTH('a) - 1)) \<le> sint a" by (rule sint_ge)
  moreover have "(2 :: int) ^ (LENGTH('a) - 1) \<le> 2 ^ 30" using assms(1) by (intro power_increasing) auto
  ultimately have big: "sint (scast a :: hwi) \<noteq> - 2147483648" unfolding sint_widen [OF w] by simp
  have rot: "\<not> 32 \<le> LENGTH('a) - k" for k using assms(1) by simp
  show ?thesis
    using assms(2) unfolding a_def [symmetric] b_def [symmetric]
    unfolding fold_binary_value_def zx Let_def word_operation_def
    by (auto simp: divide_signed_def divide_unsigned_def shift_with_def rotate_with_def pos big rot narrow_arith [OF w]
        split: if_splits)
qed

text \<open>C32. Folding an operation on two constants is the operation on words of the width of the mode: whenever
  the operation is defined, in a mode narrower than a host word, the folder gives a constant of the mode with that
  value; in a mode of a whole host word what it gives is right; a division by zero is not folded.\<close>

theorem fold_binary_correct:
  fixes x y :: hwi
  assumes "mode_bits mode = LENGTH('a::len)" and "LENGTH('a) \<le> 32"
  shows "case word_operation code (ucast x :: 'a word) (ucast y) of
      Some c \<Rightarrow> (LENGTH('a) < 32 \<longrightarrow> (\<exists>r. fold_binary_int code mode x y = Some (Some r)))
        \<and> (\<forall>r. fold_binary_int code mode x y = Some (Some r) \<longrightarrow> ucast r = c \<and> in_mode LENGTH('a) r)
    | None \<Rightarrow> \<forall>r. fold_binary_int code mode x y \<noteq> Some (Some r)"
proof -
  have r: "word_operation code (ucast x :: 'a word) (ucast y) = Some (ucast r) \<and> in_mode LENGTH('a) r"
    if "fold_binary_int code mode x y = Some (Some r)" for r
  proof -
    from that assms(1) obtain v where v: "fold_binary_value code LENGTH('a) x y = Some (Some v)" "r = mode_result LENGTH('a) v"
      by (auto simp: fold_binary_int_def)
    then show ?thesis
      using low_bits_fold [OF assms(2) v(1)] narrow_mode_result [OF assms(2), of v] mode_result_in_mode [OF _ assms(2)] by simp
  qed
  show ?thesis
  proof (cases "word_operation code (ucast x :: 'a word) (ucast y)")
    case None
    then show ?thesis using r by auto
  next
    case (Some c)
    then have "LENGTH('a) < 32 \<longrightarrow> (\<exists>r. fold_binary_int code mode x y = Some (Some r))"
      using fold_binary_total [where 'a = 'a, of code x y] assms(1) by (auto simp: fold_binary_int_def)
    then show ?thesis using Some r by auto
  qed
qed

theorem fold_binary_correct_witness:
  "\<exists>r. fold_binary_int ROTATE HImode 0x8001 4 = Some (Some r) \<and> ucast r = (word_rotl 4 0x8001 :: 16 word)"
  using fold_binary_correct [where 'a = 16, of HImode ROTATE "0x8001" 4]
  by (auto simp: mode_bits_def word_operation_def)

text \<open>In a mode of a whole host word the smallest number divided by -1 makes the host divide it.\<close>

theorem host_division_undefined:
  "mode_bits mode = 32 \<Longrightarrow> fold_binary_int DIV mode (- 2147483648) (- 1) = None"
  by (simp add: fold_binary_int_def fold_binary_value_def Let_def divide_signed_def sign_extended_def zero_extended_def)

section \<open>Operations on one constant\<close>

definition lowest_bit :: "'a::len word \<Rightarrow> nat" where
  "lowest_bit a = (LEAST k. bit a k)"

text \<open>The operation of a code on a word of the width of the mode; for extensions the operand has the type of
  the narrower mode.\<close>

definition word_unary :: "rtx_code \<Rightarrow> 'a::len word \<Rightarrow> 'b::len word \<Rightarrow> 'a word option" where
  "word_unary code a b =
     (if code = NOT then Some (not a)
      else if code = NEG then Some (- a)
      else if code = ABS then Some (if a <s 0 then - a else a)
      else if code = FFS then Some (if a = 0 then 0 else word_of_nat (lowest_bit a + 1))
      else if code = TRUNCATE then Some a
      else if code = ZERO_EXTEND then Some (ucast b)
      else if code = SIGN_EXTEND then Some (scast b)
      else None)"

lemma log_loop_power: "n < 32 \<Longrightarrow> log_loop (push_bit n 1) k = k + int n"
proof (induction n arbitrary: k)
  case 0
  then show ?case by (simp add: log_loop.simps)
next
  case (Suc n)
  have d: "drop_bit 1 (push_bit (Suc n) 1 :: hwi) = push_bit n 1"
    using Suc.prems by (intro bit_word_eqI) (auto simp: bit_simps)
  have "(push_bit n 1 :: hwi) \<noteq> 0"
    using Suc.prems bit_eq_iff [of "push_bit n 1 :: hwi" 0] by (auto simp: bit_simps)
  then show ?case using Suc d by (subst log_loop.simps) (simp add: Let_def)
qed

lemma odd_isolated: "odd y \<Longrightarrow> and y (- y) = 1" for y :: "'a::len word"
proof -
  assume y: "odd y"
  define z where "z = and y (not 1)"
  have "z + 1 = or z 1" by (rule disjunctive_add) (auto simp: z_def bit_simps)
  also have "\<dots> = y" using y by (intro bit_eqI) (auto simp: z_def bit_simps bit_0)
  finally have "y - 1 = z" by (metis add_diff_cancel_right')
  then have "- y = not z" by (metis minus_eq_not_minus_1)
  then show ?thesis using y
    by (simp only:) (rule bit_word_eqI, auto simp: z_def bit_simps bit_0)
qed

lemma lowest_bit_isolated:
  fixes x :: hwi
  assumes "x \<noteq> 0"
  shows "and x (- x) = push_bit (lowest_bit x) 1" "lowest_bit x < 32"
proof -
  obtain k where k: "bit x k" using assms by (auto simp: bit_eq_iff)
  let ?k = "lowest_bit x"
  have low: "bit x ?k" unfolding lowest_bit_def using k by (rule LeastI)
  have below: "\<not> bit x j" if "j < ?k" for j using that unfolding lowest_bit_def by (rule not_less_Least)
  show "?k < 32" using bit_imp_le_length [OF low] by simp
  define y where "y = drop_bit ?k x"
  have x: "x = push_bit ?k y"
  proof (rule bit_word_eqI)
    fix n
    show "bit x n = bit (push_bit ?k y) n" if "n < LENGTH(32)"
      using that below [of n] by (cases "?k \<le> n") (auto simp: y_def bit_simps)
  qed
  have "odd y" using low by (simp add: y_def bit_iff_odd drop_bit_eq_div)
  then have "and y (- y) = 1" by (rule odd_isolated)
  then show "and x (- x) = push_bit ?k 1"
    by (metis x push_bit_and push_bit_minus)
qed

lemma exact_log2_lowest:
  fixes x :: hwi
  shows "exact_log2_wide (and x (- x)) + 1 = (if x = 0 then 0 else int (lowest_bit x + 1))"
proof (cases "x = 0")
  case False
  note l = lowest_bit_isolated [OF False]
  have one: "and (push_bit k 1) (- push_bit k 1) = (push_bit k 1 :: hwi)" for k
  proof -
    have "push_bit k (and 1 (- 1)) = and (push_bit k 1) (push_bit k (- 1 :: hwi))" by (rule push_bit_and)
    then show ?thesis by (simp add: push_bit_minus)
  qed
  have "(push_bit (lowest_bit x) 1 :: hwi) \<noteq> 0" using l and_single [of "- 1" "lowest_bit x"] by auto
  then show ?thesis using l one [of "lowest_bit x"] log_loop_power [OF l(2), of 0] False
    by (simp add: exact_log2_wide_def l(1))
qed (simp add: exact_log2_wide_def)

lemma lowest_bit_narrow:
  assumes "LENGTH('a::len) \<le> 32"
  shows "lowest_bit (ucast a :: hwi) = lowest_bit (a :: 'a word)"
proof -
  have "bit (ucast a :: hwi) k = bit a k" for k using assms by (auto simp: bit_simps dest: bit_imp_le_length)
  then show ?thesis by (simp add: lowest_bit_def)
qed

lemma zero_extend_widen: "LENGTH('b::len) \<le> 32 \<Longrightarrow> zero_extend_from LENGTH('b) x = ucast (ucast x :: 'b word)"
  by (rule bit_word_eqI) (auto simp: zero_extend_from_def bit_simps bit_ones_from dest: bit_imp_le_length)

lemma sign_extend_widen:
  assumes "LENGTH('b::len) < 32"
  shows "sign_extend_from LENGTH('b) x = scast (ucast x :: 'b word)"
proof -
  define b where "b = (ucast x :: 'b word)"
  have w: "LENGTH('b) \<le> 32" using assms by simp
  have z: "zero_extend_from LENGTH('b) x = ucast b" unfolding b_def by (rule zero_extend_widen [OF w])
  have top: "and (ucast b :: hwi) (push_bit (LENGTH('b) - 1) 1) \<noteq> 0 \<longleftrightarrow> bit b (LENGTH('b) - 1)"
    unfolding and_single using w by (auto simp: bit_simps)
  have u: "(ucast b :: hwi) = word_of_int (uint b)" by simp
  have p: "(push_bit LENGTH('b) 1 :: hwi) = word_of_int (2 ^ LENGTH('b))" by (simp add: push_bit_eq_mult)
  have s: "(scast b :: hwi) = word_of_int (sint b)" by (rule scast_eq)
  have e: "sign_extend_from LENGTH('b) x = (if bit b (LENGTH('b) - 1) then ucast b - push_bit LENGTH('b) 1 else ucast b)"
    unfolding sign_extend_from_def Let_def z using top by presburger
  show ?thesis unfolding b_def [symmetric] s
  proof (cases "bit b (LENGTH('b) - 1)")
    case True
    then have "sint b = uint b - 2 ^ LENGTH('b)" using sint_uint_bit [of b] by simp
    then show "sign_extend_from LENGTH('b) x = word_of_int (sint b)"
      unfolding e u p wi_hom_sub using True by (simp only: if_True)
  next
    case False
    then have "sint b = uint b" using sint_uint_bit [of b] by simp
    then show "sign_extend_from LENGTH('b) x = word_of_int (sint b)" unfolding e u using False by (simp only: if_False)
  qed
qed

lemma narrow_unary:
  fixes x :: hwi
  assumes "LENGTH('a::len) \<le> 32"
  shows "ucast (not x) = (not (ucast x) :: 'a word)" "ucast (- x) = (- ucast x :: 'a word)"
    "and x (if 32 \<le> LENGTH('a) then - 1 else push_bit LENGTH('a) 1 - 1) = ucast (ucast x :: 'a word)"
proof -
  show "ucast (not x) = (not (ucast x) :: 'a word)"
    using assms by (intro bit_word_eqI) (auto simp: bit_simps)
  have x: "x = word_of_int (uint x)" by simp
  have "- x = word_of_int (- uint x)" by (metis wi_hom_neg x)
  then have "ucast (- x) = (ucast (word_of_int (- uint x) :: hwi) :: 'a word)" by (simp only:)
  also have "\<dots> = - word_of_int (uint x)" unfolding narrow_of_int [OF assms] by (simp only: wi_hom_neg)
  also have "word_of_int (uint x) = (ucast x :: 'a word)" by (metis narrow_of_int [OF assms] x)
  finally show "ucast (- x) = (- ucast x :: 'a word)" .
  show "and x (if 32 \<le> LENGTH('a) then - 1 else push_bit LENGTH('a) 1 - 1) = ucast (ucast x :: 'a word)"
    using assms bit_low_mask [of "LENGTH('a)"]
    by (intro bit_word_eqI) (auto simp: low_mask_def bit_and_iff bit_ucast_iff dest: bit_imp_le_length)
qed

lemma narrow_extended:
  fixes x :: hwi
  assumes "LENGTH('b::len) \<le> LENGTH('a::len)" "LENGTH('a) \<le> 32"
  shows "ucast (ucast (b :: 'b word) :: hwi) = (ucast b :: 'a word)" "ucast (scast (b :: 'b word) :: hwi) = (scast b :: 'a word)"
    "LENGTH('b) = 32 \<Longrightarrow> ucast (ucast x :: 'b word) = (ucast x :: 'a word) \<and> scast (ucast x :: 'b word) = (ucast x :: 'a word)"
proof -
  show "ucast (ucast (b :: 'b word) :: hwi) = (ucast b :: 'a word)"
    using assms by (intro bit_word_eqI) (auto simp: bit_simps)
  show "ucast (scast (b :: 'b word) :: hwi) = (scast b :: 'a word)"
    using assms by (intro bit_word_eqI) (auto simp: bit_simps)
  show "ucast (ucast x :: 'b word) = (ucast x :: 'a word) \<and> scast (ucast x :: 'b word) = (ucast x :: 'a word)"
    if "LENGTH('b) = 32"
  proof -
    have last: "n = 31" if "31 \<le> n" "n < 32" for n :: nat using that by simp
    show ?thesis using assms that by (intro conjI bit_word_eqI) (auto simp: bit_simps min_def dest!: last)
  qed
qed

text \<open>C33. Folding an operation on one constant is the operation on words of the width of the mode; an extension
  starts from the width of the operand's mode. An absolute value is right when the constant is the signed value of its
  low bits.\<close>

theorem fold_unary_correct:
  fixes x :: hwi
  assumes "mode_bits mode = LENGTH('a::len)" "LENGTH('a) \<le> 32" "mode \<noteq> VOIDmode"
    and "mode_bits op_mode = LENGTH('b::len)" "LENGTH('b) \<le> LENGTH('a)"
    and "word_unary code (ucast x :: 'a word) (ucast x :: 'b word) = Some c"
    and "code = ABS \<longrightarrow> sint x = sint (ucast x :: 'a word)"
  shows "\<exists>r. fold_unary_int code mode op_mode x = Some (Some r) \<and> ucast r = c \<and> in_mode LENGTH('a) r"
proof -
  define a where "a = (ucast x :: 'a word)"
  define b where "b = (ucast x :: 'b word)"
  have w: "LENGTH('b) \<le> 32" "op_mode \<noteq> VOIDmode" using assms(2,5) assms(4) by (auto simp: mode_bits_def)
  have "\<exists>v. fold_unary_value code mode op_mode x = Some (Some v) \<and> (ucast v :: 'a word) = c"
  proof -
    have "code \<in> {NOT, NEG, ABS, FFS, TRUNCATE, ZERO_EXTEND, SIGN_EXTEND}"
      using assms(6) by (auto simp: word_unary_def split: if_splits)
    then show ?thesis
    proof (elim insertE emptyE)
      assume "code = ABS"
      then show ?thesis using assms(6,7) narrow_unary(2) [OF assms(2), of x]
        by (auto simp: fold_unary_value_def word_unary_def word_sless_alt)
    next
      assume "code = FFS"
      have m: "and x (GET_MODE_MASK mode) = ucast a"
        unfolding GET_MODE_MASK_def assms(1) a_def by (rule narrow_unary(3) [OF assms(2)])
      have "fold_unary_value code mode op_mode x
          = Some (Some (word_of_int (if a = 0 then 0 else int (lowest_bit a + 1))))"
        unfolding fold_unary_value_def Let_def m exact_log2_lowest lowest_bit_narrow [OF assms(2)] narrow_arith(7) [OF assms(2)]
        using \<open>code = FFS\<close> by simp
      moreover have "c = word_of_int (if a = 0 then 0 else int (lowest_bit a + 1))"
        using assms(6) \<open>code = FFS\<close> by (auto simp: word_unary_def a_def)
      ultimately show ?thesis using narrow_of_int [OF assms(2)] by metis
    next
      assume "code = ZERO_EXTEND"
      then show ?thesis
        using assms(2,5,6) w(2) narrow_extended [OF assms(5,2)] zero_extend_widen [OF w(1), of x]
        by (cases "LENGTH('b) = 32") (auto simp: fold_unary_value_def word_unary_def extend_with_def assms(1,4))
    next
      assume "code = SIGN_EXTEND"
      then show ?thesis
        using assms(2,5,6) w narrow_extended [OF assms(5,2)] sign_extend_widen [where 'b = 'b, of x]
        by (cases "LENGTH('b) = 32") (auto simp: fold_unary_value_def word_unary_def extend_with_def assms(1,4))
    qed (use assms(6) narrow_unary [OF assms(2)] in \<open>auto simp: fold_unary_value_def word_unary_def\<close>)
  qed
  then show ?thesis
    using narrow_mode_result [OF assms(2)] mode_result_in_mode [OF _ assms(2)] assms(1) by (auto simp: fold_unary_int_def)
qed

theorem fold_unary_correct_witness:
  "\<exists>r. fold_unary_int SIGN_EXTEND HImode QImode 128 = Some (Some r) \<and> ucast r = (scast (128 :: 8 word) :: 16 word)
    \<and> in_mode 16 r"
  using fold_unary_correct [where 'a = 16 and 'b = 8, of HImode QImode SIGN_EXTEND 128]
  by (simp add: mode_bits_def word_unary_def)

text \<open>The absolute value of a byte constant is folded wrongly: the sum of 100 and 100 is folded to the byte constant
  200, which stands for -56, and its absolute value to 200 again instead of 56.\<close>

theorem absolute_value_misfolded:
  "\<exists>s r. fold_binary_int PLUS QImode 100 100 = Some (Some s) \<and> fold_unary_int ABS QImode QImode s = Some (Some r)
    \<and> word_operation PLUS (100 :: 8 word) 100 = Some (ucast s)
    \<and> word_unary ABS (ucast s :: 8 word) (ucast s :: 8 word) = Some 56 \<and> (ucast r :: 8 word) = 200"
proof -
  have s: "fold_binary_int PLUS QImode 100 100 = Some (Some 200)" by code_simp
  have r: "fold_unary_int ABS QImode QImode 200 = Some (Some 200)" by code_simp
  show ?thesis using s r by (intro exI [of _ 200]) (simp add: word_operation_def word_unary_def word_sless_alt)
qed

section \<open>Folded comparisons\<close>

definition ordered_codes :: "rtx_code set" where
  "ordered_codes = {LT, LE, GT, GE}"

lemma relation_of_holds:
  fixes a b :: "'a::len word"
  assumes "cond_holds code a b = Some t" "e = (a = b)" "ultab = (a < b)" "ultba = (b < a)"
    and "code \<in> ordered_codes \<longrightarrow> sltab = (a <s b) \<and> sltba = (b <s a)"
  shows "relation_of code e sltab sltba ultab ultba = Some t"
proof -
  have "(a \<le>s b) = (a <s b \<or> a = b)" for a b :: "'a word"
    using signed_word_eqI [of a b] by (auto simp: word_sle_eq word_sless_alt order_le_less)
  then show ?thesis using assms
    by (auto simp: cond_holds_def relation_of_def ordered_codes_def order_le_less split: if_splits)
qed

text \<open>C34. A comparison of two constants folds to its truth on words of the width of the mode, for the conditions of
  equality and of unsigned order always, and for signed order when each constant is the signed
  value of its low bits.\<close>

theorem fold_relational_correct:
  fixes x y :: hwi
  assumes "mode_bits mode = LENGTH('a::len)" "LENGTH('a) \<le> 32"
    and "cond_holds code (ucast x :: 'a word) (ucast y) = Some t"
    and "code \<in> ordered_codes \<longrightarrow> sint x = sint (ucast x :: 'a word) \<and> sint y = sint (ucast y :: 'a word)"
  shows "fold_relational_int code mode (x, hx) (y, hy) = Some t"
proof -
  define a where "a = (ucast x :: 'a word)"
  define b where "b = (ucast y :: 'a word)"
  have low: "(if LENGTH('a) < 32 then and v (low_mask LENGTH('a)) else v) = ucast (ucast v :: 'a word)" for v :: hwi
    using zero_extended_widen [OF assms(2), of v] by (simp add: zero_extended_def)
  have sign: "(if LENGTH('a) < 32 \<and> and v (push_bit (LENGTH('a) - 1) 1) \<noteq> 0 then or v (ones_from LENGTH('a)) else v) = v"
    if "sint v = sint (ucast v :: 'a word)" for v :: hwi
  proof -
    have "v = scast (ucast v :: 'a word)"
      by (rule signed_word_eqI) (rule trans [OF that sint_widen [OF assms(2), symmetric]])
    then have top: "bit v k = bit (scast (ucast v :: 'a word) :: hwi) k" for k by (rule arg_cong)
    have top: "bit v k = bit v (LENGTH('a) - 1)" if "LENGTH('a) \<le> k" "k < 32" for k
      using that assms(2) by (subst top) (auto simp: bit_simps min_def)
    have "or v (ones_from LENGTH('a)) = v" if "bit v (LENGTH('a) - 1)"
    proof (rule bit_word_eqI)
      fix k :: nat
      assume "k < LENGTH(32)"
      then show "bit (or v (ones_from LENGTH('a))) k = bit v k"
        using top [of k] that by (auto simp: bit_or_iff bit_ones_from)
    qed
    then show ?thesis unfolding and_single by auto
  qed
  have sw: "compare_words_in LENGTH('a) (v, h) = ((v, if sless0 v then - 1 else 0), (ucast (ucast v :: 'a word), 0))"
    if "sint v = sint (ucast v :: 'a word)" for v h
    using assms(2) low [of v] sign [OF that] by (simp add: compare_words_in_def)
  have uw: "snd (compare_words_in LENGTH('a) (v, h)) = (ucast (ucast v :: 'a word), 0)" for v h
    using assms(2) low [of v] by (simp add: compare_words_in_def)
  obtain sx where sx: "compare_words_in LENGTH('a) (x, hx) = (sx, (ucast a, 0))"
    using uw [of x hx] by (metis a_def surjective_pairing)
  obtain sy where sy: "compare_words_in LENGTH('a) (y, hy) = (sy, (ucast b, 0))"
    using uw [of y hy] by (metis b_def surjective_pairing)
  have eq: "((ucast a :: hwi) = ucast b) = (a = b)" by (metis narrow_arith(5) [OF assms(2)])
  note lt = narrow_arith(9) [OF assms(2), of a b] narrow_arith(9) [OF assms(2), of b a]
  have f: "fold_relational_int code mode (x, hx) (y, hy)
      = relation_of code (a = b) (less_signed_pair sx sy) (less_signed_pair sy sx) (a < b) (b < a)"
    by (simp only: fold_relational_int_def assms(1) sx sy less_unsigned_pair_def prod.case fst_conv snd_conv eq lt simp_thms
        less_irrefl)
  have "code \<in> ordered_codes \<longrightarrow> less_signed_pair sx sy = (a <s b) \<and> less_signed_pair sy sx = (b <s a)"
  proof
    assume "code \<in> ordered_codes"
    then have s: "sint x = sint a" "sint y = sint b" using assms(4) by (simp_all add: a_def b_def)
    have pairs: "sx = (x, if sless0 x then - 1 else 0)" "sy = (y, if sless0 y then - 1 else 0)"
      using sw [of x hx] sw [of y hy] s sx sy by (simp_all add: a_def b_def)
    show "less_signed_pair sx sy = (a <s b) \<and> less_signed_pair sy sx = (b <s a)"
      unfolding pairs less_signed_pair_def word_sless_alt s [symmetric] by (auto simp: sless0_def)
  qed
  then show ?thesis unfolding f by (rule relation_of_holds [OF assms(3) [folded a_def b_def] refl refl refl])
qed

theorem fold_relational_correct_witness:
  "fold_relational_int LT QImode (- 56, 0) (- 1, 0) = Some True"
proof (rule fold_relational_correct [where 'a = 8])
  show "cond_holds LT (ucast (- 56 :: hwi) :: 8 word) (ucast (- 1 :: hwi)) = Some True" by code_simp
  show "LT \<in> ordered_codes \<longrightarrow> sint (- 56 :: hwi) = sint (ucast (- 56 :: hwi) :: 8 word)
      \<and> sint (- 1 :: hwi) = sint (ucast (- 1 :: hwi) :: 8 word)" by code_simp
qed (simp_all add: mode_bits_def)


section \<open>Folded fields\<close>

text \<open>Folding the extraction of a bit field gives the bits of the field, extended by zeros or by
  the top bit of the field to the mode of the result.\<close>

theorem fold_extract_correct:
  fixes x :: hwi
  assumes "mode_bits mode = LENGTH('a::len)" "LENGTH('a) \<le> 32" "mode_bits op0_mode \<le> 32"
    and "0 < len" "len + pos \<le> mode_bits op0_mode"
  shows "\<exists>r. fold_extract code mode op0_mode x (int len) (int pos) = Some (Some r)
    \<and> (ucast r :: 'a word) = word_of_int ((if code = SIGN_EXTRACT then signed_take_bit (len - 1) else take_bit len)
        (drop_bit pos (uint x)))"
proof -
  define v where "v = and (signed_drop_bit pos x) (low_mask len)"
  define w where "w = (if len = 32 then x
    else if code = SIGN_EXTRACT \<and> and v (push_bit (len - 1) 1) \<noteq> 0 then or v (not (low_mask len)) else v)"
  have b: "0 < mode_bits op0_mode" "len \<le> 32" "pos < 32" "len = 32 \<longrightarrow> pos = 0" "len + pos \<le> 32" using assms(3-5) by auto
  have val: "fold_extract code mode op0_mode x (int len) (int pos) = Some (Some (clip_to_mode LENGTH('a) w))"
    using assms(1,2,4,5) b by (auto simp: fold_extract_def w_def v_def Let_def)
  have v: "bit v k \<longleftrightarrow> k < len \<and> bit x (pos + k)" for k
    using b by (auto simp: v_def bit_simps bit_low_mask min_def)
  have top: "and v (push_bit (len - 1) 1) \<noteq> 0 \<longleftrightarrow> bit x (pos + (len - 1))"
    unfolding and_single v using assms(4) b by auto
  have w: "bit w k \<longleftrightarrow> (if k < len then bit x (pos + k) else code = SIGN_EXTRACT \<and> bit x (pos + (len - 1)))" if "k < 32" for k
    using that b assms(4) unfolding w_def top by (auto simp: v bit_or_iff bit_not_iff bit_low_mask)
  have w: "bit w k \<longleftrightarrow> (if code = SIGN_EXTRACT then bit x (pos + min (len - 1) k) else k < len \<and> bit x (pos + k))"
    if "k < 32" for k
  proof -
    have "min (len - 1) k = (if k < len then k else len - 1)" using assms(4) by auto
    then show ?thesis using w [OF that] by auto
  qed
  have "(ucast (clip_to_mode LENGTH('a) w) :: 'a word) = ucast w"
    using assms(2) by (intro bit_word_eqI) (auto simp: narrow_bits clip_to_mode_def bit_and_iff bit_low_mask)
  also have "\<dots> = word_of_int ((if code = SIGN_EXTRACT then signed_take_bit (len - 1) else take_bit len) (drop_bit pos (uint x)))"
  proof (rule bit_word_eqI)
    fix k :: nat
    assume k: "k < LENGTH('a)"
    then have "bit (ucast w :: 'a word) k \<longleftrightarrow> bit w k" "k < 32" using assms(2) by (simp_all add: narrow_bits)
    then show "bit (ucast w :: 'a word) k = bit (word_of_int ((if code = SIGN_EXTRACT then signed_take_bit (len - 1)
        else take_bit len) (drop_bit pos (uint x))) :: 'a word) k"
      using k w [of k] assms(4) by (auto simp: bit_simps)
  qed
  finally show ?thesis using val by blast
qed

theorem fold_extract_correct_witness:
  "\<exists>r. fold_extract SIGN_EXTRACT HImode HImode 0x0f40 (int 4) (int 8) = Some (Some r) \<and> (ucast r :: 16 word) = - 1"
  using fold_extract_correct [where 'a = 16, of HImode HImode 4 8 SIGN_EXTRACT "0x0f40"]
  by (simp add: mode_bits_def drop_bit_eq_div signed_take_bit_Suc)

end
