(* ===== verification/Sbitmap.thy ===== *)
theory Sbitmap
  imports Prelude
begin

unbundle bit_operations_syntax

text \<open>
  Simple bitmaps (gcc/sbitmap.c, sbitmap.h): bit sets of a fixed size in words of the host,
  on which the dataflow passes work.  A bitmap is its C structure, the words a list; fresh
  memory is a parameter, since sbitmap_alloc does not clear what xmalloc returns.  A vector of
  bitmaps is a list.  Numbers of bits, words and blocks are naturals far below the range of
  int.  Every operation is related to the set of the bits that are on.
\<close>

section \<open>Data\<close>

type_synonym elt = "32 word"

abbreviation SBITMAP_ELT_BITS :: nat where "SBITMAP_ELT_BITS \<equiv> 32"

record sbitmap =
  n_bits :: nat
  sb_size :: nat
  bytes :: nat
  elms :: "elt list"

definition SBITMAP_SET_SIZE :: "nat \<Rightarrow> nat" where
  "SBITMAP_SET_SIZE n = (n + SBITMAP_ELT_BITS - 1) div SBITMAP_ELT_BITS"

text \<open>The words of fresh memory are given by their index.\<close>

definition sbitmap_alloc :: "(nat \<Rightarrow> elt) \<Rightarrow> nat \<Rightarrow> sbitmap" where
  "sbitmap_alloc fresh n_elms =
    (let words = SBITMAP_SET_SIZE n_elms in
     \<lparr>n_bits = n_elms, sb_size = words, bytes = words * 4, elms = map fresh [0..<words]\<rparr>)"

definition sbitmap_vector_alloc :: "(nat \<Rightarrow> nat \<Rightarrow> elt) \<Rightarrow> nat \<Rightarrow> nat \<Rightarrow> sbitmap list" where
  "sbitmap_vector_alloc fresh n_vecs n_elms =
    map (\<lambda>i. sbitmap_alloc (fresh i) n_elms) [0..<n_vecs]"

section \<open>Single bits\<close>

definition bit_word :: "nat \<Rightarrow> elt" where
  "bit_word bitno = push_bit (bitno mod SBITMAP_ELT_BITS) 1"

definition SET_BIT :: "sbitmap \<Rightarrow> nat \<Rightarrow> sbitmap" where
  "SET_BIT bitmap bitno = (let i = bitno div SBITMAP_ELT_BITS in
     bitmap\<lparr>elms := (elms bitmap)[i := (elms bitmap ! i) OR bit_word bitno]\<rparr>)"

definition TEST_BIT :: "sbitmap \<Rightarrow> nat \<Rightarrow> bool" where
  "TEST_BIT bitmap bitno =
    (drop_bit (bitno mod SBITMAP_ELT_BITS) (elms bitmap ! (bitno div SBITMAP_ELT_BITS)) AND 1 \<noteq> 0)"

definition RESET_BIT :: "sbitmap \<Rightarrow> nat \<Rightarrow> sbitmap" where
  "RESET_BIT bitmap bitno = (let i = bitno div SBITMAP_ELT_BITS in
     bitmap\<lparr>elms := (elms bitmap)[i := (elms bitmap ! i) AND NOT (bit_word bitno)]\<rparr>)"

section \<open>Whole bitmaps\<close>

definition sbitmap_copy :: "sbitmap \<Rightarrow> sbitmap \<Rightarrow> sbitmap" where
  "sbitmap_copy dst src = dst\<lparr>elms := map (\<lambda>i. elms src ! i) [0..<sb_size dst]\<rparr>"

definition sbitmap_zero :: "sbitmap \<Rightarrow> sbitmap" where
  "sbitmap_zero bmap = bmap\<lparr>elms := replicate (bytes bmap div 4) 0\<rparr>"

definition sbitmap_ones :: "sbitmap \<Rightarrow> sbitmap" where
  "sbitmap_ones bmap = bmap\<lparr>elms := replicate (bytes bmap div 4) (- 1)\<rparr>"

definition sbitmap_vector_zero :: "sbitmap list \<Rightarrow> nat \<Rightarrow> sbitmap list" where
  "sbitmap_vector_zero bmap n_vecs = map sbitmap_zero (take n_vecs bmap) @ drop n_vecs bmap"

definition sbitmap_vector_ones :: "sbitmap list \<Rightarrow> nat \<Rightarrow> sbitmap list" where
  "sbitmap_vector_ones bmap n_vecs = map sbitmap_ones (take n_vecs bmap) @ drop n_vecs bmap"

text \<open>
  The loops over the words of a destination store the value of an expression in each word and
  tell whether a word changed.  They read a word of an operand before they write the word of
  the same index, so an operand may be the destination.
\<close>

definition store_words :: "(nat \<Rightarrow> elt) \<Rightarrow> sbitmap \<Rightarrow> bool \<times> sbitmap" where
  "store_words tmp dst =
    (list_ex (\<lambda>i. elms dst ! i \<noteq> tmp i) [0..<sb_size dst],
     dst\<lparr>elms := map tmp [0..<sb_size dst]\<rparr>)"

definition sbitmap_union_of_diff ::
    "sbitmap \<Rightarrow> sbitmap \<Rightarrow> sbitmap \<Rightarrow> sbitmap \<Rightarrow> bool \<times> sbitmap" where
  "sbitmap_union_of_diff dst a b c =
    store_words (\<lambda>i. elms a ! i OR (elms b ! i AND NOT (elms c ! i))) dst"

definition sbitmap_not :: "sbitmap \<Rightarrow> sbitmap \<Rightarrow> sbitmap" where
  "sbitmap_not dst src = snd (store_words (\<lambda>i. NOT (elms src ! i)) dst)"

definition sbitmap_difference :: "sbitmap \<Rightarrow> sbitmap \<Rightarrow> sbitmap \<Rightarrow> sbitmap" where
  "sbitmap_difference dst a b = snd (store_words (\<lambda>i. elms a ! i AND NOT (elms b ! i)) dst)"

definition sbitmap_a_and_b :: "sbitmap \<Rightarrow> sbitmap \<Rightarrow> sbitmap \<Rightarrow> bool \<times> sbitmap" where
  "sbitmap_a_and_b dst a b = store_words (\<lambda>i. elms a ! i AND elms b ! i) dst"

definition sbitmap_a_or_b :: "sbitmap \<Rightarrow> sbitmap \<Rightarrow> sbitmap \<Rightarrow> bool \<times> sbitmap" where
  "sbitmap_a_or_b dst a b = store_words (\<lambda>i. elms a ! i OR elms b ! i) dst"

definition sbitmap_a_or_b_and_c ::
    "sbitmap \<Rightarrow> sbitmap \<Rightarrow> sbitmap \<Rightarrow> sbitmap \<Rightarrow> bool \<times> sbitmap" where
  "sbitmap_a_or_b_and_c dst a b c =
    store_words (\<lambda>i. elms a ! i OR (elms b ! i AND elms c ! i)) dst"

definition sbitmap_a_and_b_or_c ::
    "sbitmap \<Rightarrow> sbitmap \<Rightarrow> sbitmap \<Rightarrow> sbitmap \<Rightarrow> bool \<times> sbitmap" where
  "sbitmap_a_and_b_or_c dst a b c =
    store_words (\<lambda>i. elms a ! i AND (elms b ! i OR elms c ! i)) dst"

section \<open>Neighbours in the flow graph\<close>

text \<open>
  A list of neighbours holds block numbers and the two marks of basic-block.h for the ends of
  the function, which the combining routines skip.  When every neighbour is a mark the
  destination keeps what it held.
\<close>

abbreviation ENTRY_BLOCK :: int where "ENTRY_BLOCK \<equiv> - 1"
abbreviation EXIT_BLOCK :: int where "EXIT_BLOCK \<equiv> - 2"

definition function_end :: "int \<Rightarrow> bool" where
  "function_end ps_bb = (ps_bb = ENTRY_BLOCK \<or> ps_bb = EXIT_BLOCK)"

definition combine_predsucc ::
    "(elt \<Rightarrow> elt \<Rightarrow> elt) \<Rightarrow> sbitmap \<Rightarrow> sbitmap list \<Rightarrow> int list \<Rightarrow> sbitmap" where
  "combine_predsucc comb dst src ps =
    (case dropWhile function_end ps of
       [] \<Rightarrow> dst
     | first # rest \<Rightarrow>
         fold (\<lambda>ps_bb r.
             if function_end ps_bb then r
             else snd (store_words (\<lambda>i. comb (elms r ! i) (elms (src ! nat ps_bb) ! i)) r))
           rest (sbitmap_copy dst (src ! nat first)))"

definition sbitmap_intersect_of_predsucc ::
    "sbitmap \<Rightarrow> sbitmap list \<Rightarrow> nat \<Rightarrow> int list list \<Rightarrow> sbitmap" where
  "sbitmap_intersect_of_predsucc dst src bb pred_succ =
    (if pred_succ ! bb = [] then sbitmap_ones dst
     else combine_predsucc (AND) dst src (pred_succ ! bb))"

definition sbitmap_union_of_predsucc ::
    "sbitmap \<Rightarrow> sbitmap list \<Rightarrow> nat \<Rightarrow> int list list \<Rightarrow> sbitmap" where
  "sbitmap_union_of_predsucc dst src bb pred_succ =
    (if pred_succ ! bb = [] then sbitmap_zero dst
     else combine_predsucc (OR) dst src (pred_succ ! bb))"

section \<open>Visiting the bits\<close>

text \<open>The values of N for which EXECUTE_IF_SET_IN_SBITMAP runs its code, in order.\<close>

definition word_members :: "nat \<Rightarrow> nat \<Rightarrow> elt \<Rightarrow> nat list" where
  "word_members word_num bit_num word =
    map (\<lambda>j. word_num * SBITMAP_ELT_BITS + j)
      (filter (\<lambda>j. word AND push_bit j 1 \<noteq> 0) [bit_num..<SBITMAP_ELT_BITS])"

definition EXECUTE_IF_SET_IN_SBITMAP :: "sbitmap \<Rightarrow> nat \<Rightarrow> nat list" where
  "EXECUTE_IF_SET_IN_SBITMAP bmap lo =
    (let first = lo div SBITMAP_ELT_BITS in
     concat (map (\<lambda>word_num. word_members word_num
         (if word_num = first then lo mod SBITMAP_ELT_BITS else 0) (elms bmap ! word_num))
       [first..<sb_size bmap]))"

text \<open>dump_sbitmap prints the bits as digits in groups of ten.\<close>

definition dump_sbitmap :: "sbitmap \<Rightarrow> string" where
  "dump_sbitmap bmap =
    ''  '' @ concat (map (\<lambda>n. (if n \<noteq> 0 \<and> n mod 10 = 0 then '' '' else [])
         @ (if elms bmap ! (n div SBITMAP_ELT_BITS) AND push_bit (n mod SBITMAP_ELT_BITS) 1 \<noteq> 0
            then ''1'' else ''0''))
       [0..<min (n_bits bmap) (sb_size bmap * SBITMAP_ELT_BITS)]) @ [CHR 0x0A]"

section \<open>Bitmaps as sets\<close>

text \<open>A bitmap of w words is well formed, and stands for the set of its bits.\<close>

definition wf_bitmap :: "nat \<Rightarrow> sbitmap \<Rightarrow> bool" where
  "wf_bitmap w b \<longleftrightarrow> sb_size b = w \<and> bytes b = w * 4 \<and> length (elms b) = w"

definition wf_vector :: "nat \<Rightarrow> nat \<Rightarrow> sbitmap list \<Rightarrow> bool" where
  "wf_vector n w v \<longleftrightarrow> length v = n \<and> (\<forall>b\<in>set v. wf_bitmap w b)"

abbreviation all_bits :: "nat \<Rightarrow> nat set" where
  "all_bits w \<equiv> {..<w * SBITMAP_ELT_BITS}"

definition members :: "sbitmap \<Rightarrow> nat set" where
  "members b = {k \<in> all_bits (sb_size b). TEST_BIT b k}"

lemma TEST_BIT_bit: "TEST_BIT b k = bit (elms b ! (k div 32)) (k mod 32)"
  by (simp add: TEST_BIT_def and_one_eq bit_iff_odd_drop_bit odd_iff_mod_2_eq_one)

lemma members_bit: "wf_bitmap w b \<Longrightarrow> k \<in> members b \<longleftrightarrow> k < w * 32 \<and> bit (elms b ! (k div 32)) (k mod 32)"
  by (simp add: members_def wf_bitmap_def TEST_BIT_bit)

lemma wf_bitmap_alloc: "wf_bitmap (SBITMAP_SET_SIZE n) (sbitmap_alloc fresh n)"
  by (simp add: sbitmap_alloc_def wf_bitmap_def Let_def)

lemma wf_vector_alloc: "wf_vector m (SBITMAP_SET_SIZE n) (sbitmap_vector_alloc fresh m n)"
  by (auto simp: sbitmap_vector_alloc_def wf_vector_def wf_bitmap_alloc)

lemma wf_nth: "wf_vector n w v \<Longrightarrow> i < n \<Longrightarrow> wf_bitmap w (v ! i)"
  by (simp add: wf_vector_def)

lemma wf_vector_update: "wf_vector n w v \<Longrightarrow> wf_bitmap w b \<Longrightarrow> wf_vector n w (v[i := b])"
  using set_update_subset_insert [of v i b] by (auto simp: wf_vector_def)

lemma wf_store: "wf_bitmap w d \<Longrightarrow> wf_bitmap w (snd (store_words f d))"
  by (simp add: wf_bitmap_def store_words_def)

lemma members_sub: "wf_bitmap w b \<Longrightarrow> members b \<subseteq> all_bits w"
  by (auto simp: members_def wf_bitmap_def)

lemma finite_members [simp]: "finite (members b)"
  by (simp add: members_def)

lemma word_bit_eq: "x = y \<longleftrightarrow> (\<forall>j<32. bit x j = bit y j)" for x y :: elt
  by (auto intro!: bit_word_eqI)

text \<open>Two bitmaps of one size hold the same words when they stand for the same set.\<close>

lemma members_eq_iff:
  assumes "wf_bitmap w a" "wf_bitmap w b"
  shows "members a = members b \<longleftrightarrow> elms a = elms b"
proof
  assume eq: "members a = members b"
  show "elms a = elms b"
  proof (rule nth_equalityI)
    show "length (elms a) = length (elms b)" using assms by (simp add: wf_bitmap_def)
    fix i assume i: "i < length (elms a)"
    show "elms a ! i = elms b ! i"
    proof (rule bit_word_eqI)
      fix j assume j: "j < LENGTH(32)"
      have "i * 32 + j \<in> members a \<longleftrightarrow> i * 32 + j \<in> members b" by (simp add: eq)
      moreover have "i * 32 + j < w * 32" using assms i j by (simp add: wf_bitmap_def)
      ultimately show "bit (elms a ! i) j = bit (elms b ! i) j"
        using j by (simp add: members_bit [OF assms(1)] members_bit [OF assms(2)])
    qed
  qed
next
  assume "elms a = elms b"
  then show "members a = members b" using assms by (simp add: members_def TEST_BIT_def wf_bitmap_def)
qed

lemma members_store:
  assumes "wf_bitmap w d"
  shows "members (snd (store_words f d)) = {k \<in> all_bits w. bit (f (k div 32)) (k mod 32)}"
  using assms by (auto simp: members_def store_words_def TEST_BIT_bit wf_bitmap_def less_mult_imp_div_less)

lemma changed_store:
  assumes "wf_bitmap w d"
  shows "fst (store_words f d) \<longleftrightarrow> members (snd (store_words f d)) \<noteq> members d"
proof -
  have "elms (snd (store_words f d)) = elms d \<longleftrightarrow> (\<forall>i<w. elms d ! i = f i)"
    using assms by (auto simp: store_words_def wf_bitmap_def list_eq_iff_nth_eq)
  moreover have "fst (store_words f d) \<longleftrightarrow> \<not> (\<forall>i<w. elms d ! i = f i)"
    using assms by (auto simp: store_words_def list_ex_iff wf_bitmap_def)
  ultimately show ?thesis
    using members_eq_iff [OF wf_store [OF assms] assms, of f] by simp
qed

lemma wf_operations:
  assumes "wf_bitmap w d"
  shows "wf_bitmap w (snd (sbitmap_union_of_diff d a b c))" "wf_bitmap w (sbitmap_not d a)"
    "wf_bitmap w (sbitmap_difference d a b)" "wf_bitmap w (snd (sbitmap_a_and_b d a b))"
    "wf_bitmap w (snd (sbitmap_a_or_b d a b))" "wf_bitmap w (snd (sbitmap_a_or_b_and_c d a b c))"
    "wf_bitmap w (snd (sbitmap_a_and_b_or_c d a b c))" "wf_bitmap w (sbitmap_copy d a)"
    "wf_bitmap w (sbitmap_zero d)" "wf_bitmap w (sbitmap_ones d)" "wf_bitmap w (SET_BIT d k)"
    "wf_bitmap w (RESET_BIT d k)"
  using assms
  by (simp_all add: sbitmap_union_of_diff_def sbitmap_not_def sbitmap_difference_def
      sbitmap_a_and_b_def sbitmap_a_or_b_def sbitmap_a_or_b_and_c_def sbitmap_a_and_b_or_c_def
      store_words_def sbitmap_copy_def sbitmap_zero_def sbitmap_ones_def SET_BIT_def RESET_BIT_def
      wf_bitmap_def Let_def)

lemma members_operations:
  assumes "wf_bitmap w d" "wf_bitmap w a" "wf_bitmap w b" "wf_bitmap w c"
  shows "members (snd (sbitmap_union_of_diff d a b c)) = members a \<union> (members b - members c)"
    "members (sbitmap_not d a) = all_bits w - members a"
    "members (sbitmap_difference d a b) = members a - members b"
    "members (snd (sbitmap_a_and_b d a b)) = members a \<inter> members b"
    "members (snd (sbitmap_a_or_b d a b)) = members a \<union> members b"
    "members (snd (sbitmap_a_or_b_and_c d a b c)) = members a \<union> (members b \<inter> members c)"
    "members (snd (sbitmap_a_and_b_or_c d a b c)) = members a \<inter> (members b \<union> members c)"
    "members (sbitmap_copy d a) = members a"
    "members (sbitmap_zero d) = {}"
    "members (sbitmap_ones d) = all_bits w"
proof -
  have copy: "sbitmap_copy d a = snd (store_words (\<lambda>i. elms a ! i) d)"
    by (simp add: sbitmap_copy_def store_words_def)
  have const: "sbitmap_zero d = snd (store_words (\<lambda>i. 0) d)"
    "sbitmap_ones d = snd (store_words (\<lambda>i. - 1) d)"
    using assms(1) by (simp_all add: sbitmap_zero_def sbitmap_ones_def store_words_def wf_bitmap_def
        map_replicate_const)
  note defs = sbitmap_union_of_diff_def sbitmap_not_def sbitmap_difference_def
      sbitmap_a_and_b_def sbitmap_a_or_b_def sbitmap_a_or_b_and_c_def sbitmap_a_and_b_or_c_def
      copy const
  note bits = members_store [OF assms(1)] members_bit [OF assms(2)] members_bit [OF assms(3)]
      members_bit [OF assms(4)] bit_simps
  show "members (snd (sbitmap_union_of_diff d a b c)) = members a \<union> (members b - members c)"
    by (auto simp: defs bits)
  show "members (sbitmap_not d a) = all_bits w - members a" by (auto simp: defs bits)
  show "members (sbitmap_difference d a b) = members a - members b" by (auto simp: defs bits)
  show "members (snd (sbitmap_a_and_b d a b)) = members a \<inter> members b" by (auto simp: defs bits)
  show "members (snd (sbitmap_a_or_b d a b)) = members a \<union> members b" by (auto simp: defs bits)
  show "members (snd (sbitmap_a_or_b_and_c d a b c)) = members a \<union> (members b \<inter> members c)"
    by (auto simp: defs bits)
  show "members (snd (sbitmap_a_and_b_or_c d a b c)) = members a \<inter> (members b \<union> members c)"
    by (auto simp: defs bits)
  show "members (sbitmap_copy d a) = members a" by (auto simp: defs bits)
  show "members (sbitmap_zero d) = {}" by (auto simp: defs bits)
  show "members (sbitmap_ones d) = all_bits w" by (auto simp: defs bits)
qed


lemma changed_operations:
  assumes "wf_bitmap w d"
  shows "fst (sbitmap_union_of_diff d a b c) \<longleftrightarrow>
      members (snd (sbitmap_union_of_diff d a b c)) \<noteq> members d"
    "fst (sbitmap_a_and_b d a b) \<longleftrightarrow> members (snd (sbitmap_a_and_b d a b)) \<noteq> members d"
    "fst (sbitmap_a_or_b d a b) \<longleftrightarrow> members (snd (sbitmap_a_or_b d a b)) \<noteq> members d"
    "fst (sbitmap_a_or_b_and_c d a b c) \<longleftrightarrow>
      members (snd (sbitmap_a_or_b_and_c d a b c)) \<noteq> members d"
    "fst (sbitmap_a_and_b_or_c d a b c) \<longleftrightarrow>
      members (snd (sbitmap_a_and_b_or_c d a b c)) \<noteq> members d"
  using assms
  by (simp_all add: sbitmap_union_of_diff_def sbitmap_a_and_b_def sbitmap_a_or_b_def
      sbitmap_a_or_b_and_c_def sbitmap_a_and_b_or_c_def changed_store)

text \<open>A well-formed bitmap that does not change as a set does not change at all.\<close>

lemma same_words:
  assumes "wf_bitmap w a" "wf_bitmap w b" "members a = members b" "n_bits a = n_bits b"
  shows "a = b"
  using assms members_eq_iff [OF assms(1,2)] by (simp add: wf_bitmap_def)

subsection \<open>Single bits\<close>

lemma bit_word_iff: "j < 32 \<Longrightarrow> bit (bit_word k) j \<longleftrightarrow> j = k mod 32"
  by (auto simp: bit_word_def bit_simps)

lemma same_position: "k div 32 = m div 32 \<and> k mod 32 = m mod 32 \<longleftrightarrow> k = m" for k m :: nat
  by (metis div_mult_mod_eq)

lemma members_SET_BIT:
  assumes "wf_bitmap w b" "k < w * 32"
  shows "members (SET_BIT b k) = insert k (members b)"
proof -
  have "wf_bitmap w (SET_BIT b k)" by (rule wf_operations [OF assms(1)])
  moreover have "k div 32 < length (elms b)"
    using assms by (simp add: wf_bitmap_def less_mult_imp_div_less)
  ultimately show ?thesis
    using assms
    by (auto simp: members_bit SET_BIT_def Let_def nth_list_update bit_simps bit_word_iff
        same_position [of _ k, symmetric] split: if_split_asm)
qed

lemma members_RESET_BIT:
  assumes "wf_bitmap w b" "k < w * 32"
  shows "members (RESET_BIT b k) = members b - {k}"
proof -
  have "wf_bitmap w (RESET_BIT b k)" by (rule wf_operations [OF assms(1)])
  moreover have "k div 32 < length (elms b)"
    using assms by (simp add: wf_bitmap_def less_mult_imp_div_less)
  ultimately show ?thesis
    using assms
    by (auto simp: members_bit RESET_BIT_def Let_def nth_list_update bit_simps bit_word_iff
        same_position [of _ k, symmetric] split: if_split_asm)
qed

lemma TEST_BIT_members: "wf_bitmap w b \<Longrightarrow> k < w * 32 \<Longrightarrow> TEST_BIT b k \<longleftrightarrow> k \<in> members b"
  by (simp add: members_def wf_bitmap_def)

subsection \<open>Neighbours\<close>

text \<open>The blocks among the neighbours.\<close>

definition blocks_of :: "int list \<Rightarrow> nat set" where
  "blocks_of ps = nat ` {p \<in> set ps. \<not> function_end p}"

lemma blocks_of_Cons: "blocks_of (p # ps) = (if function_end p then {} else {nat p}) \<union> blocks_of ps"
  by (auto simp: blocks_of_def)

lemma blocks_of_empty: "blocks_of ps = {} \<longleftrightarrow> dropWhile function_end ps = []"
  by (auto simp: blocks_of_def)

lemma blocks_of_dropWhile: "blocks_of (dropWhile function_end ps) = blocks_of ps"
  by (induction ps) (auto simp: blocks_of_Cons)

lemma fold_combine:
  assumes "wf_bitmap w r" "\<forall>i\<in>blocks_of ps. wf_bitmap w (src ! i)"
    and step: "\<And>r b. wf_bitmap w r \<Longrightarrow> wf_bitmap w b \<Longrightarrow>
      members (snd (store_words (\<lambda>i. comb (elms r ! i) (elms b ! i)) r)) = op (members r) (members b)"
  shows "wf_bitmap w (fold (\<lambda>ps_bb r. if function_end ps_bb then r
      else snd (store_words (\<lambda>i. comb (elms r ! i) (elms (src ! nat ps_bb) ! i)) r)) ps r)
    \<and> members (fold (\<lambda>ps_bb r. if function_end ps_bb then r
      else snd (store_words (\<lambda>i. comb (elms r ! i) (elms (src ! nat ps_bb) ! i)) r)) ps r)
    = fold (\<lambda>i. \<lambda>s. op s (members (src ! i))) (map nat (filter (Not \<circ> function_end) ps)) (members r)"
  using assms(1,2)
  by (induction ps arbitrary: r) (simp_all add: blocks_of_Cons wf_store step split: if_splits)

lemma fold_blocks:
  "fold (\<lambda>i s. s \<inter> f i) (map nat (filter (Not \<circ> function_end) ps)) s = s \<inter> (\<Inter>i\<in>blocks_of ps. f i)"
  "fold (\<lambda>i s. s \<union> f i) (map nat (filter (Not \<circ> function_end) ps)) s = s \<union> (\<Union>i\<in>blocks_of ps. f i)"
  by (induction ps arbitrary: s) (auto simp: blocks_of_def)

lemma combine_predsucc_cases:
  assumes "wf_bitmap w d" "\<forall>i\<in>blocks_of ps. wf_bitmap w (src ! i)"
  shows "wf_bitmap w (combine_predsucc comb d src ps)"
    and "blocks_of ps = {} \<Longrightarrow> combine_predsucc comb d src ps = d"
    and "blocks_of ps \<noteq> {} \<Longrightarrow>
      members (combine_predsucc (AND) d src ps) = (\<Inter>i\<in>blocks_of ps. members (src ! i))"
    and "blocks_of ps \<noteq> {} \<Longrightarrow>
      members (combine_predsucc (OR) d src ps) = (\<Union>i\<in>blocks_of ps. members (src ! i))"
proof -
  have cases: "wf_bitmap w (combine_predsucc comb d src ps) \<and>
    (if blocks_of ps = {} then combine_predsucc comb d src ps = d
     else \<exists>p rest. blocks_of ps = insert (nat p) (blocks_of rest) \<and>
       members (combine_predsucc comb d src ps) = fold (\<lambda>i. \<lambda>s. op s (members (src ! i)))
         (map nat (filter (Not \<circ> function_end) rest)) (members (src ! nat p)))"
    if step: "\<And>r b. wf_bitmap w r \<Longrightarrow> wf_bitmap w b \<Longrightarrow>
      members (snd (store_words (\<lambda>i. comb (elms r ! i) (elms b ! i)) r)) = op (members r) (members b)"
    for comb op
  proof (cases "dropWhile function_end ps")
    case Nil
    then show ?thesis using assms by (simp add: combine_predsucc_def blocks_of_empty del: dropWhile_eq_Nil_conv)
  next
    case (Cons p rest)
    then have p: "\<not> function_end p" using hd_dropWhile [of function_end ps] by simp
    have all: "blocks_of ps = insert (nat p) (blocks_of rest)"
      using blocks_of_dropWhile [of ps] p by (simp add: Cons blocks_of_Cons)
    then have wf: "wf_bitmap w (src ! nat p)" "\<forall>i\<in>blocks_of rest. wf_bitmap w (src ! i)"
      using assms(2) by auto
    have copy: "members (sbitmap_copy d (src ! nat p)) = members (src ! nat p)"
      using members_operations(8) [OF assms(1) wf(1) wf(1) wf(1)] .
    show ?thesis
      using fold_combine [where comb = comb and op = op, OF wf_operations(8) [OF assms(1)] wf(2) step]
        Cons all
      by (auto simp: combine_predsucc_def copy)
  qed
  have and_step: "members (snd (store_words (\<lambda>i. elms r ! i AND elms b ! i) r)) = members r \<inter> members b"
    if "wf_bitmap w r" "wf_bitmap w b" for r b
    using members_operations(4) [OF that(1) that(1) that(2) that(2)] by (simp add: sbitmap_a_and_b_def)
  have or_step: "members (snd (store_words (\<lambda>i. elms r ! i OR elms b ! i) r)) = members r \<union> members b"
    if "wf_bitmap w r" "wf_bitmap w b" for r b
    using members_operations(5) [OF that(1) that(1) that(2) that(2)] by (simp add: sbitmap_a_or_b_def)
  show "wf_bitmap w (combine_predsucc comb d src ps)"
  proof (cases "dropWhile function_end ps")
    case (Cons p qs)
    have "wf_bitmap w (fold (\<lambda>ps_bb r. if function_end ps_bb then r
      else snd (store_words (\<lambda>i. comb (elms r ! i) (elms (src ! nat ps_bb) ! i)) r)) qs r)"
      if "wf_bitmap w r" for r
      using that by (induction qs arbitrary: r) (simp_all add: wf_store)
    then show ?thesis using Cons assms(1) by (simp add: combine_predsucc_def wf_operations)
  qed (use assms in \<open>simp add: combine_predsucc_def del: dropWhile_eq_Nil_conv\<close>)
  show "blocks_of ps = {} \<Longrightarrow> combine_predsucc comb d src ps = d"
    by (simp add: combine_predsucc_def blocks_of_empty del: dropWhile_eq_Nil_conv)
  show "blocks_of ps \<noteq> {} \<Longrightarrow>
      members (combine_predsucc (AND) d src ps) = (\<Inter>i\<in>blocks_of ps. members (src ! i))"
    using cases [where comb = "(AND)" and op = "(\<inter>)", OF and_step] by (auto simp: fold_blocks)
  show "blocks_of ps \<noteq> {} \<Longrightarrow>
      members (combine_predsucc (OR) d src ps) = (\<Union>i\<in>blocks_of ps. members (src ! i))"
    using cases [where comb = "(OR)" and op = "(\<union>)", OF or_step] by (auto simp: fold_blocks)
qed


subsection \<open>Visiting\<close>

lemma word_members_filter:
  assumes "i < sb_size b" "c \<le> 32"
  shows "word_members i c (elms b ! i) = filter (TEST_BIT b) [i * 32 + c..<i * 32 + 32]"
proof -
  have shift: "[i * 32 + c..<i * 32 + 32] = map (\<lambda>j. i * 32 + j) [c..<32]"
    by (rule nth_equalityI) (use assms(2) in auto)
  have test: "TEST_BIT b (i * 32 + j) \<longleftrightarrow> elms b ! i AND push_bit j 1 \<noteq> 0" if "j < 32" for j
  proof -
    have "elms b ! i AND push_bit j 1 = (if bit (elms b ! i) j then push_bit j 1 else 0)"
      by (rule bit_word_eqI) (auto simp: bit_simps)
    moreover have "bit (push_bit j 1 :: elt) j" using that by (simp add: bit_simps)
    then have "push_bit j 1 \<noteq> (0 :: elt)" using that by (metis bit_0_eq bot_apply bot_bool_def)
    ultimately show ?thesis using that by (simp add: TEST_BIT_bit)
  qed
  show ?thesis
    unfolding word_members_def shift filter_map
    by (auto simp: test intro!: map_cong filter_cong)
qed

text \<open>The macro visits the bits that are on from the least one it is asked for, in order.\<close>

lemma EXECUTE_IF_SET_filter:
  "EXECUTE_IF_SET_IN_SBITMAP b lo = filter (TEST_BIT b) [lo..<sb_size b * 32]"
proof -
  have rest: "concat (map (\<lambda>i. word_members i 0 (elms b ! i)) [m..<sb_size b])
      = filter (TEST_BIT b) [m * 32..<sb_size b * 32]" if "m \<le> sb_size b" for m
    using that
  proof (induction rule: inc_induct)
    case (step m)
    have "[m * 32..<sb_size b * 32] = [m * 32..<m * 32 + 32] @ [Suc m * 32..<sb_size b * 32]"
      using step.hyps upt_add_eq_append [of "m * 32" "m * 32 + 32" "sb_size b * 32 - (m * 32 + 32)"]
      by (simp add: algebra_simps)
    then show ?case using step by (simp add: upt_conv_Cons word_members_filter)
  qed simp
  let ?f = "lo div 32"
  show ?thesis
  proof (cases "?f < sb_size b")
    case True
    have "lo \<le> ?f * 32 + 32" using div_mult_mod_eq [of lo 32] mod_less_divisor [of 32 lo] by linarith
    moreover have "?f * 32 + 32 \<le> sb_size b * 32" using True by linarith
    ultimately have "[lo..<sb_size b * 32] = [lo..<?f * 32 + 32] @ [Suc ?f * 32..<sb_size b * 32]"
      using upt_add_eq_append [of lo "?f * 32 + 32" "sb_size b * 32 - (?f * 32 + 32)"]
      by (simp add: algebra_simps)
    moreover have "word_members ?f (lo mod 32) (elms b ! ?f) = filter (TEST_BIT b) [lo..<?f * 32 + 32]"
      using word_members_filter [OF True, of "lo mod 32"] by simp
    moreover have "concat (map (\<lambda>i. word_members i (if i = ?f then lo mod 32 else 0) (elms b ! i)) [Suc ?f..<sb_size b])
        = concat (map (\<lambda>i. word_members i 0 (elms b ! i)) [Suc ?f..<sb_size b])"
      by (intro arg_cong [where f = concat] map_cong) auto
    ultimately show ?thesis
      using rest [of "Suc ?f"] True by (simp add: EXECUTE_IF_SET_IN_SBITMAP_def Let_def upt_conv_Cons)
  next
    case False
    then have "sb_size b * 32 \<le> lo" using div_mult_mod_eq [of lo 32] by linarith
    then show ?thesis using False by (simp add: EXECUTE_IF_SET_IN_SBITMAP_def)
  qed
qed

section \<open>The contract\<close>



end
