(* ===== verification/Block_Iteration.thy ===== *)
theory Block_Iteration
  imports Sbitmap "HOL-Library.While_Combinator"
begin

text \<open>
  The loops of the dataflow passes (gcc/lcm.c, gcc/gcse.c): sweeps over the blocks until
  nothing changes, plain or with the bitmaps old_changed and new_changed that let a sweep skip
  a block none of whose neighbours changed.  The locales state what a pass has to say of the
  visit of one block, and prove once that the loop ends, that it ends in the extreme solution
  of the equations of the pass, and that skipping changes nothing.
\<close>

section \<open>The loops\<close>

text \<open>One round of the loop: changed is cleared, and set by any block that changes.\<close>

definition sweep :: "(nat \<Rightarrow> 'c \<Rightarrow> bool \<times> 'c) \<Rightarrow> nat list \<Rightarrow> bool \<Rightarrow> 'c \<Rightarrow> bool \<times> 'c" where
  "sweep visit bs changed c =
    fold (\<lambda>bb (changed, c). case visit bb c of (ch, c') \<Rightarrow> (changed \<or> ch, c')) bs (changed, c)"

definition iterate :: "(nat \<Rightarrow> 'c \<Rightarrow> bool \<times> 'c) \<Rightarrow> nat list \<Rightarrow> 'c \<Rightarrow> 'c option" where
  "iterate visit bs c =
    map_option snd (while_option fst (\<lambda>(_, c). sweep visit bs False c) (True, c))"

text \<open>With the bitmaps of changed blocks.\<close>

definition neighbour_changed :: "int list \<Rightarrow> sbitmap \<Rightarrow> sbitmap \<Rightarrow> bool" where
  "neighbour_changed ps old_changed new_changed =
    list_ex (\<lambda>p. function_end p \<or> TEST_BIT old_changed (nat p) \<or> TEST_BIT new_changed (nat p)) ps"

definition visit_changed ::
    "int list list \<Rightarrow> (nat \<Rightarrow> 'c \<Rightarrow> bool \<times> 'c) \<Rightarrow> sbitmap \<Rightarrow> nat
      \<Rightarrow> bool \<times> sbitmap \<times> 'c \<Rightarrow> bool \<times> sbitmap \<times> 'c" where
  "visit_changed pred_succ visit old_changed bb = (\<lambda>(changed, new_changed, c).
     if neighbour_changed (pred_succ ! bb) old_changed new_changed
     then (case visit bb c of (ch, c') \<Rightarrow>
       if ch then (True, SET_BIT new_changed bb, c') else (changed, new_changed, c'))
     else (changed, new_changed, c))"

definition sweep_changed ::
    "int list list \<Rightarrow> (nat \<Rightarrow> 'c \<Rightarrow> bool \<times> 'c) \<Rightarrow> nat list
      \<Rightarrow> bool \<times> sbitmap \<times> sbitmap \<times> 'c \<Rightarrow> bool \<times> sbitmap \<times> sbitmap \<times> 'c" where
  "sweep_changed pred_succ visit bs = (\<lambda>(_, old_changed, new_changed, c).
     case fold (visit_changed pred_succ visit old_changed) bs (False, sbitmap_zero new_changed, c) of
       (changed, new_changed, c) \<Rightarrow> (changed, sbitmap_copy old_changed new_changed, new_changed, c))"

definition iterate_changed ::
    "(nat \<Rightarrow> elt) \<times> (nat \<Rightarrow> elt) \<Rightarrow> nat \<Rightarrow> int list list \<Rightarrow> (nat \<Rightarrow> 'c \<Rightarrow> bool \<times> 'c) \<Rightarrow> nat list
      \<Rightarrow> 'c \<Rightarrow> 'c option" where
  "iterate_changed fresh n_blocks pred_succ visit bs c =
    map_option (snd \<circ> snd \<circ> snd)
      (while_option fst (sweep_changed pred_succ visit bs)
        (True, sbitmap_ones (sbitmap_alloc (fst fresh) n_blocks), sbitmap_alloc (snd fresh) n_blocks, c))"

text \<open>
  The two shapes that the bodies of these loops have.  The state holds the vector that the
  neighbours are read from and the vector that takes what was read.  A body of the second shape
  reads into one temporary bitmap, which it uses again for a complement, and reports changes of
  both vectors.  One block, edge, keeps what it was given before the loop.
\<close>

definition visit_block ::
    "(sbitmap \<Rightarrow> sbitmap list \<Rightarrow> nat \<Rightarrow> int list list \<Rightarrow> sbitmap) \<Rightarrow> nat \<Rightarrow> int list list
      \<Rightarrow> (nat \<Rightarrow> sbitmap \<Rightarrow> sbitmap \<Rightarrow> bool \<times> sbitmap) \<Rightarrow> nat
      \<Rightarrow> sbitmap list \<times> sbitmap list \<Rightarrow> bool \<times> sbitmap list \<times> sbitmap list" where
  "visit_block combine edge pred_succ compute bb = (\<lambda>(p, q).
     let q = (if bb \<noteq> edge then q[bb := combine (q ! bb) p bb pred_succ] else q) in
     case compute bb (p ! bb) (q ! bb) of (changed, v) \<Rightarrow> (changed, p[bb := v], q))"

definition visit_delayed ::
    "nat \<Rightarrow> int list list \<Rightarrow> sbitmap list \<Rightarrow> sbitmap list \<Rightarrow> nat
      \<Rightarrow> sbitmap \<times> sbitmap list \<times> sbitmap list \<Rightarrow> bool \<times> sbitmap \<times> sbitmap list \<times> sbitmap list" where
  "visit_delayed edge pred_succ both loc bb = (\<lambda>(temp_bitmap, q, p).
     let (changed1, temp_bitmap, q) =
           (if bb \<noteq> edge
            then let temp_bitmap = sbitmap_intersect_of_predsucc temp_bitmap p bb pred_succ in
              case sbitmap_a_or_b (q ! bb) (both ! bb) temp_bitmap of
                (ch, v) \<Rightarrow> (ch, temp_bitmap, q[bb := v])
            else (False, temp_bitmap, q));
         temp_bitmap = sbitmap_not temp_bitmap (loc ! bb) in
     case sbitmap_a_and_b (p ! bb) temp_bitmap (q ! bb) of
       (changed2, v) \<Rightarrow> (changed1 \<or> changed2, temp_bitmap, q, p[bb := v]))"

lemma sweep_simps:
  "sweep visit [] changed c = (changed, c)"
  "sweep visit (b # bs) changed c =
    (case visit b c of (ch, c') \<Rightarrow> sweep visit bs (changed \<or> ch) c')"
  by (simp_all add: sweep_def split: prod.splits)

section \<open>What the loop computes\<close>

text \<open>
  A visit of block b recomputes an input value of the block from the values that its neighbours
  have for output, and from it the output value of the block; incoming and outgoing are read in the
  direction of the flow that the pass follows.  The invariant is indexed by the blocks still to
  be visited in the sweep.  The order has finite rank, and the equations respect it.
\<close>

locale block_equations =
  fixes bs :: "nat list"
    and visit :: "nat \<Rightarrow> 'c \<Rightarrow> bool \<times> 'c"
    and inv :: "nat list \<Rightarrow> 'c \<Rightarrow> bool"
    and incoming outgoing :: "'c \<Rightarrow> nat \<Rightarrow> 'v"
    and gather :: "nat \<Rightarrow> (nat \<Rightarrow> 'v) \<Rightarrow> 'v"
    and transfer :: "nat \<Rightarrow> 'v \<Rightarrow> 'v"
    and le :: "'v \<Rightarrow> 'v \<Rightarrow> bool"
    and vals :: "'v set"
    and rank :: "'v \<Rightarrow> nat"
  assumes restart: "inv [] c \<Longrightarrow> inv bs c"
    and keeps: "inv (b # ys) c \<Longrightarrow> b \<in> set bs \<Longrightarrow> visit b c = (ch, c') \<Longrightarrow> inv ys c'"
    and gathers: "inv (b # ys) c \<Longrightarrow> b \<in> set bs \<Longrightarrow> visit b c = (ch, c') \<Longrightarrow>
      incoming c' = (incoming c)(b := gather b (outgoing c))"
    and transfers: "inv (b # ys) c \<Longrightarrow> b \<in> set bs \<Longrightarrow> visit b c = (ch, c') \<Longrightarrow>
      outgoing c' = (outgoing c)(b := transfer b (gather b (outgoing c)))"
    and reports: "inv (b # ys) c \<Longrightarrow> b \<in> set bs \<Longrightarrow> visit b c = (ch, c') \<Longrightarrow>
      outgoing c' b \<noteq> outgoing c b \<Longrightarrow> ch"
    and honest: "inv (b # ys) c \<Longrightarrow> b \<in> set bs \<Longrightarrow> visit b c = (ch, c') \<Longrightarrow> ch \<Longrightarrow>
      outgoing c' b \<noteq> outgoing c b \<or> incoming c' b \<noteq> incoming c b"
    and legal: "inv ys c \<Longrightarrow> b \<in> set bs \<Longrightarrow> outgoing c b \<in> vals"
    and refl: "le v v"
    and trans: "le u v \<Longrightarrow> le v w \<Longrightarrow> le u w"
    and antisym: "le u v \<Longrightarrow> le v u \<Longrightarrow> u = v"
    and ranked: "u \<in> vals \<Longrightarrow> v \<in> vals \<Longrightarrow> le u v \<Longrightarrow> u \<noteq> v \<Longrightarrow> rank u < rank v"
    and monotone: "b \<in> set bs \<Longrightarrow> (\<And>i. le (X i) (Y i)) \<Longrightarrow>
      le (transfer b (gather b X)) (transfer b (gather b Y))"
begin

definition descending :: "'c \<Rightarrow> bool" where
  "descending c \<longleftrightarrow> (\<forall>b\<in>set bs. le (transfer b (gather b (outgoing c))) (outgoing c b))"

definition settled :: "'c \<Rightarrow> nat \<Rightarrow> bool" where
  "settled c b \<longleftrightarrow> incoming c b = gather b (outgoing c) \<and> outgoing c b = transfer b (incoming c b)"

definition below :: "(nat \<Rightarrow> 'v) \<Rightarrow> (nat \<Rightarrow> 'v) \<Rightarrow> bool" where
  "below X Y \<longleftrightarrow> (\<forall>i. le (X i) (Y i))"

lemma below_refl: "below X X" by (simp add: below_def refl)

lemma below_trans: "below X Y \<Longrightarrow> below Y Z \<Longrightarrow> below X Z"
  unfolding below_def using trans by blast

lemma below_antisym: "below X Y \<Longrightarrow> below Y X \<Longrightarrow> X = Y"
  unfolding below_def using antisym by blast

lemma equation_mono: "b \<in> set bs \<Longrightarrow> below X Y \<Longrightarrow> le (transfer b (gather b X)) (transfer b (gather b Y))"
  unfolding below_def by (rule monotone) auto

lemma visit_descends:
  assumes "inv (b # ys) c" "b \<in> set bs" "visit b c = (ch, c')" "descending c"
  shows "below (outgoing c') (outgoing c)" "descending c'"
proof -
  note new = transfers [OF assms(1-3)]
  show down: "below (outgoing c') (outgoing c)"
    using assms(2,4) by (simp add: new below_def descending_def refl)
  show "descending c'"
    unfolding descending_def
  proof
    fix i assume i: "i \<in> set bs"
    have "le (transfer i (gather i (outgoing c'))) (transfer i (gather i (outgoing c)))"
      by (rule equation_mono [OF i down])
    then show "le (transfer i (gather i (outgoing c'))) (outgoing c' i)"
      using assms(4) i trans by (auto simp: new descending_def)
  qed
qed

lemma sweep_descends:
  assumes "inv ys c" "set ys \<subseteq> set bs" "sweep visit ys ch0 c = (ch, c')" "descending c"
  shows "inv [] c' \<and> descending c' \<and> below (outgoing c') (outgoing c) \<and> (ch0 \<longrightarrow> ch)
    \<and> (\<forall>i. i \<notin> set ys \<longrightarrow> outgoing c' i = outgoing c i \<and> incoming c' i = incoming c i)"
  using assms
proof (induction ys arbitrary: c ch0)
  case Nil
  then show ?case by (simp add: sweep_simps below_refl)
next
  case (Cons b ys)
  obtain ch1 c1 where v: "visit b c = (ch1, c1)" by fastforce
  have b: "b \<in> set bs" using Cons.prems(2) by simp
  note step = Cons.prems(1) b v
  have "inv ys c1" by (rule keeps [OF step])
  then have rest: "inv [] c' \<and> descending c' \<and> below (outgoing c') (outgoing c1) \<and> (ch0 \<or> ch1 \<longrightarrow> ch)
      \<and> (\<forall>i. i \<notin> set ys \<longrightarrow> outgoing c' i = outgoing c1 i \<and> incoming c' i = incoming c1 i)"
    using Cons.IH [OF _ _ _ visit_descends(2) [OF step Cons.prems(4)], of "ch0 \<or> ch1"] Cons.prems(2,3)
    by (simp add: sweep_simps v)
  have "below (outgoing c') (outgoing c)"
    using rest below_trans visit_descends(1) [OF step Cons.prems(4)] by blast
  then show ?case using rest by (simp add: transfers [OF step] gathers [OF step])
qed

text \<open>A sweep that leaves the outputs alone has recomputed the inputs from them.\<close>

lemma sweep_stable:
  assumes "inv ys c" "set ys \<subseteq> set bs" "sweep visit ys ch0 c = (ch, c')" "descending c"
    and "outgoing c' = outgoing c"
  shows "(\<forall>b\<in>set ys. settled c' b) \<and> (ch \<longrightarrow> ch0 \<or> (\<exists>b\<in>set ys. incoming c b \<noteq> gather b (outgoing c)))"
  using assms
proof (induction ys arbitrary: c ch0)
  case Nil
  then show ?case by (simp add: sweep_simps)
next
  case (Cons b ys)
  obtain ch1 c1 where v: "visit b c = (ch1, c1)" by fastforce
  have b: "b \<in> set bs" using Cons.prems(2) by simp
  note step = Cons.prems(1) b v
  have inv: "inv ys c1" by (rule keeps [OF step])
  have tail: "sweep visit ys (ch0 \<or> ch1) c1 = (ch, c')" using Cons.prems(3) by (simp add: sweep_simps v)
  have sub: "set ys \<subseteq> set bs" using Cons.prems(2) by simp
  note down = visit_descends [OF step Cons.prems(4)]
  note after = sweep_descends [OF inv sub tail down(2)]
  have same: "outgoing c1 = outgoing c"
    using below_antisym [OF down(1)] after Cons.prems(5) by metis
  have rest: "(\<forall>b\<in>set ys. settled c' b)
      \<and> (ch \<longrightarrow> (ch0 \<or> ch1) \<or> (\<exists>b\<in>set ys. incoming c1 b \<noteq> gather b (outgoing c1)))"
    using Cons.IH [OF inv sub tail down(2)] Cons.prems(5) same by simp
  have "settled c1 b"
    using fun_cong [OF same, of b] by (simp add: settled_def gathers [OF step] transfers [OF step] same)
  then have "settled c' b" if "b \<notin> set ys"
    using after that same Cons.prems(5) by (simp add: settled_def)
  moreover have "ch1 \<longrightarrow> incoming c b \<noteq> gather b (outgoing c)"
    using honest [OF step] same gathers [OF step] by auto
  moreover have "incoming c1 i \<noteq> gather i (outgoing c1) \<longrightarrow> incoming c i \<noteq> gather i (outgoing c)" for i
    using gathers [OF step] by (simp add: same)
  ultimately show ?case using rest by auto
qed

lemma sweep_unchanged:
  assumes "inv ys c" "set ys \<subseteq> set bs" "sweep visit ys ch0 c = (False, c')" "descending c"
  shows "outgoing c' = outgoing c"
  using assms
proof (induction ys arbitrary: c ch0)
  case Nil
  then show ?case by (simp add: sweep_simps)
next
  case (Cons b ys)
  obtain ch1 c1 where v: "visit b c = (ch1, c1)" by fastforce
  have b: "b \<in> set bs" using Cons.prems(2) by simp
  note step = Cons.prems(1) b v
  have inv: "inv ys c1" by (rule keeps [OF step])
  have tail: "sweep visit ys (ch0 \<or> ch1) c1 = (False, c')" using Cons.prems(3) by (simp add: sweep_simps v)
  have sub: "set ys \<subseteq> set bs" using Cons.prems(2) by simp
  note down = visit_descends [OF step Cons.prems(4)]
  have "\<not> ch1" using sweep_descends [OF inv sub tail down(2)] by simp
  then have "outgoing c1 b = outgoing c b" using reports [OF step] by blast
  then have "outgoing c1 = outgoing c" by (auto simp: transfers [OF step])
  then show ?case using Cons.IH [OF inv sub tail down(2)] by simp
qed

text \<open>Everything below the start that the equations support stays below.\<close>

lemma sweep_above:
  assumes "inv ys c" "set ys \<subseteq> set bs" "sweep visit ys ch0 c = (ch, c')"
    and "\<And>b. b \<in> set bs \<Longrightarrow> le (Y b) (transfer b (gather b Y))" and "below Y (outgoing c)"
  shows "below Y (outgoing c')"
  using assms(1,2,3,5)
proof (induction ys arbitrary: c ch0)
  case Nil
  then show ?case by (simp add: sweep_simps)
next
  case (Cons b ys)
  obtain ch1 c1 where v: "visit b c = (ch1, c1)" by fastforce
  have b: "b \<in> set bs" using Cons.prems(2) by simp
  note step = Cons.prems(1) b v
  have "below Y (outgoing c1)"
    using Cons.prems(4) trans [OF assms(4) [OF b] equation_mono [OF b Cons.prems(4)]]
    by (simp add: transfers [OF step] below_def)
  then show ?case
    using Cons.IH [OF keeps [OF step], of "ch0 \<or> ch1"] Cons.prems(2,3) by (simp add: sweep_simps v)
qed

text \<open>The rank of the outputs, and whether an incoming is out of date, bound the number of sweeps.\<close>

definition work :: "'c \<Rightarrow> nat" where
  "work c = 2 * (\<Sum>b\<in>set bs. rank (outgoing c b))
    + (if \<exists>b\<in>set bs. incoming c b \<noteq> gather b (outgoing c) then 1 else 0)"

lemma sweep_works:
  assumes "inv [] c" "descending c" "sweep visit bs False c = (True, c')"
  shows "work c' < work c"
proof -
  note inv = restart [OF assms(1)]
  note down = sweep_descends [OF inv subset_refl assms(3,2)]
  have le: "rank (outgoing c' b) \<le> rank (outgoing c b)" if "b \<in> set bs" for b
    using ranked [OF legal legal, of "[]" c' b bs c b] down inv that
    by (cases "outgoing c' b = outgoing c b") (auto simp: below_def intro: less_imp_le)
  show ?thesis
  proof (cases "outgoing c' = outgoing c")
    case True
    note stable = sweep_stable [OF inv subset_refl assms(3,2) True]
    then have "\<not> (\<exists>b\<in>set bs. incoming c' b \<noteq> gather b (outgoing c'))" by (simp add: settled_def)
    moreover have "\<exists>b\<in>set bs. incoming c b \<noteq> gather b (outgoing c)" using stable by simp
    ultimately show ?thesis by (simp add: work_def True)
  next
    case False
    then obtain b where b: "outgoing c' b \<noteq> outgoing c b" by blast
    then have bs: "b \<in> set bs" using down by blast
    have "rank (outgoing c' b) < rank (outgoing c b)"
      using ranked [OF legal legal, of "[]" c' b bs c b] down inv bs b by (simp add: below_def)
    then have "(\<Sum>b\<in>set bs. rank (outgoing c' b)) < (\<Sum>b\<in>set bs. rank (outgoing c b))"
      using le bs by (intro sum_strict_mono_ex1) auto
    then show ?thesis by (simp add: work_def)
  qed
qed

theorem iterate_solves:
  assumes "inv [] c" "descending c"
  obtains c' where "iterate visit bs c = Some c'" "inv [] c'" "\<And>b. b \<in> set bs \<Longrightarrow> settled c' b"
    "below (outgoing c') (outgoing c)" "\<And>i. i \<notin> set bs \<Longrightarrow> outgoing c' i = outgoing c i \<and> incoming c' i = incoming c i"
    "\<And>Y. (\<And>b. b \<in> set bs \<Longrightarrow> le (Y b) (transfer b (gather b Y))) \<Longrightarrow> below Y (outgoing c) \<Longrightarrow>
      below Y (outgoing c')"
proof -
  let ?loop = "\<lambda>(_ :: bool, c). sweep visit bs False c"
  let ?good = "\<lambda>(ch, d). inv [] d \<and> descending d \<and> (\<not> ch \<longrightarrow> (\<forall>b\<in>set bs. settled d b))
    \<and> below (outgoing d) (outgoing c)
    \<and> (\<forall>i. i \<notin> set bs \<longrightarrow> outgoing d i = outgoing c i \<and> incoming d i = incoming c i)
    \<and> (\<forall>Y. (\<forall>b\<in>set bs. le (Y b) (transfer b (gather b Y))) \<longrightarrow> below Y (outgoing c) \<longrightarrow> below Y (outgoing d))"
  have body: "?good (?loop s)" if "?good s" "fst s" for s
  proof -
    obtain ch d where s: "s = (ch, d)" by fastforce
    obtain ch' d' where sw: "sweep visit bs False d = (ch', d')" by fastforce
    from that(1) have d: "inv [] d" "descending d" "below (outgoing d) (outgoing c)"
      "\<forall>i. i \<notin> set bs \<longrightarrow> outgoing d i = outgoing c i \<and> incoming d i = incoming c i"
      "\<forall>Y. (\<forall>b\<in>set bs. le (Y b) (transfer b (gather b Y))) \<longrightarrow> below Y (outgoing c) \<longrightarrow> below Y (outgoing d)"
      by (simp_all add: s)
    note inv = restart [OF d(1)]
    note down = sweep_descends [OF inv subset_refl sw d(2)]
    have settled: "\<not> ch' \<longrightarrow> (\<forall>b\<in>set bs. settled d' b)"
      using sweep_stable [OF inv subset_refl sw d(2)] sweep_unchanged [OF inv subset_refl _ d(2)] sw
      by (cases ch') simp_all
    have low: "below (outgoing d') (outgoing c)" using down below_trans [OF _ d(3)] by blast
    have above: "\<forall>Y. (\<forall>b\<in>set bs. le (Y b) (transfer b (gather b Y))) \<longrightarrow> below Y (outgoing c) \<longrightarrow>
        below Y (outgoing d')"
      using sweep_above [OF inv subset_refl sw] d(5) by blast
    have other: "\<forall>i. i \<notin> set bs \<longrightarrow> outgoing d' i = outgoing c i \<and> incoming d' i = incoming c i"
      using down d(4) by simp
    show ?thesis
      unfolding s using down settled low above other by (simp only: split_conv sw)
  qed
  have start: "?good (True, c)" using assms by (simp add: below_refl)
  have "\<exists>t. while_option fst ?loop (True, c) = Some t"
  proof (rule measure_while_option_Some [where P = ?good and f = "\<lambda>(ch, d). if ch then Suc (work d) else 0"])
    fix s assume s: "?good s" "fst s"
    obtain d where d: "s = (True, d)" using s(2) by (cases s) auto
    obtain ch' d' where sw: "sweep visit bs False d = (ch', d')" by fastforce
    have "ch' \<longrightarrow> work d' < work d" using sweep_works s(1) sw by (auto simp: d)
    then show "?good (?loop s) \<and> (case ?loop s of (ch, d) \<Rightarrow> if ch then Suc (work d) else 0)
        < (case s of (ch, d) \<Rightarrow> if ch then Suc (work d) else 0)"
      using body [OF s] by (simp add: d sw)
  qed (rule start)
  then obtain t where t: "while_option fst ?loop (True, c) = Some t" by blast
  obtain ch d where d: "t = (ch, d)" by fastforce
  have "\<not> ch" using while_option_stop [OF t] by (simp add: d)
  then have good: "?good (False, d)" using while_option_rule [where P = ?good, OF body t start] by (simp only: d)
  show ?thesis
  proof (rule that [of d])
    show "iterate visit bs c = Some d" by (simp add: iterate_def t d)
    show "below (outgoing d) (outgoing c)" "inv [] d" using good by simp_all
    show "settled d b" if "b \<in> set bs" for b using good that by simp
    show "outgoing d i = outgoing c i \<and> incoming d i = incoming c i" if "i \<notin> set bs" for i
      using good that by simp
    show "below Y (outgoing d)"
      if "\<And>b. b \<in> set bs \<Longrightarrow> le (Y b) (transfer b (gather b Y))" "below Y (outgoing c)" for Y
    proof -
      have "\<forall>Y. (\<forall>b\<in>set bs. le (Y b) (transfer b (gather b Y))) \<longrightarrow> below Y (outgoing c) \<longrightarrow>
          below Y (outgoing d)" using good by simp
      then show ?thesis using that by blast
    qed
  qed
qed

end


section \<open>Skipping blocks\<close>

text \<open>
  With the bitmaps of changed blocks a block is visited when it borders an end of the function
  or one of its neighbours changed since its last visit.  A block without neighbours is never
  visited.  The equations of the locale are those of the blocks that have neighbours; they read
  the outputs of the neighbours only, and a visit of a settled block does nothing.
\<close>

locale changed_blocks = block_equations +
  fixes order :: "nat list" and pred_succ :: "int list list" and w :: nat
  assumes visited: "bs = filter (\<lambda>b. pred_succ ! b \<noteq> []) order"
    and local: "b \<in> set bs \<Longrightarrow> (\<And>i. i \<in> blocks_of (pred_succ ! b) \<Longrightarrow> X i = Y i) \<Longrightarrow>
      gather b X = gather b Y"
    and exact: "inv (b # ys) c \<Longrightarrow> b \<in> set bs \<Longrightarrow> visit b c = (ch, c') \<Longrightarrow> ch \<Longrightarrow>
      outgoing c' b \<noteq> outgoing c b"
    and idle: "inv (b # ys) c \<Longrightarrow> b \<in> set bs \<Longrightarrow> incoming c b = gather b (outgoing c) \<Longrightarrow>
      outgoing c b = transfer b (incoming c b) \<Longrightarrow> visit b c = (False, c)"
    and room: "inv ys c \<Longrightarrow> b \<in> set bs \<Longrightarrow> b < w * 32"
    and neighbours: "inv ys c \<Longrightarrow> b \<in> set bs \<Longrightarrow> i \<in> blocks_of (pred_succ ! b) \<Longrightarrow> i < w * 32"
begin

text \<open>Why a block need not be visited, with the blocks left in the sweep.\<close>

definition covered :: "nat list \<Rightarrow> sbitmap \<Rightarrow> sbitmap \<Rightarrow> 'a \<Rightarrow> bool" where
  "covered ys old new c \<longleftrightarrow> (\<forall>b\<in>set bs. settled c b \<or> (\<exists>p\<in>set (pred_succ ! b). function_end p)
     \<or> (b \<in> set ys \<and> blocks_of (pred_succ ! b) \<inter> members old \<noteq> {})
     \<or> blocks_of (pred_succ ! b) \<inter> members new \<noteq> {})"

lemma neighbour_changed_iff:
  assumes "wf_bitmap w old" "wf_bitmap w new" "b \<in> set bs" "inv ys c"
  shows "neighbour_changed (pred_succ ! b) old new \<longleftrightarrow>
    (\<exists>p\<in>set (pred_succ ! b). function_end p)
    \<or> blocks_of (pred_succ ! b) \<inter> (members old \<union> members new) \<noteq> {}"
proof -
  have "TEST_BIT old (nat p) \<longleftrightarrow> nat p \<in> members old" "TEST_BIT new (nat p) \<longleftrightarrow> nat p \<in> members new"
    if "p \<in> set (pred_succ ! b)" "\<not> function_end p" for p
  proof -
    have "nat p < w * 32" using that neighbours [OF assms(4,3)] by (simp add: blocks_of_def)
    then show "TEST_BIT old (nat p) \<longleftrightarrow> nat p \<in> members old" "TEST_BIT new (nat p) \<longleftrightarrow> nat p \<in> members new"
      using TEST_BIT_members assms(1,2) by blast+
  qed
  then have "neighbour_changed (pred_succ ! b) old new \<longleftrightarrow>
    (\<exists>p\<in>set (pred_succ ! b). function_end p \<or> nat p \<in> members old \<or> nat p \<in> members new)"
    by (auto simp: neighbour_changed_def list_ex_iff)
  moreover have "blocks_of (pred_succ ! b) \<inter> (members old \<union> members new) \<noteq> {} \<longleftrightarrow>
    (\<exists>p\<in>set (pred_succ ! b). \<not> function_end p \<and> (nat p \<in> members old \<or> nat p \<in> members new))"
    unfolding blocks_of_def by blast
  ultimately show ?thesis by blast
qed

lemma covered_visit:
  assumes "inv (b # ys) c" "b \<in> set bs" "visit b c = (ch, c')" "wf_bitmap w new"
    and "covered (b # ys) old new c"
  shows "covered ys old (if ch then SET_BIT new b else new) c'"
  unfolding covered_def
proof
  note step = assms(1-3)
  let ?new = "if ch then SET_BIT new b else new"
  have new: "members ?new = (if ch then insert b (members new) else members new)"
    using members_SET_BIT [OF assms(4) room [OF assms(1,2)]] by simp
  have same: "outgoing c' = outgoing c" if "\<not> ch"
    using reports [OF step] that fun_upd_triv [of "outgoing c" b] transfers [OF step] by (metis fun_upd_same)
  fix i assume i: "i \<in> set bs"
  have gather: "gather i (outgoing c') = gather i (outgoing c)"
    if "blocks_of (pred_succ ! i) \<inter> members ?new = {}"
  proof (cases ch)
    case True
    then have "b \<notin> blocks_of (pred_succ ! i)" using that new by auto
    then show ?thesis by (intro local [OF i]) (auto simp: transfers [OF step])
  qed (simp add: same)
  have "settled c' i" if "blocks_of (pred_succ ! i) \<inter> members ?new = {}" "i = b \<or> settled c i"
    using that(2) gather [OF that(1)]
    by (cases "i = b") (auto simp: settled_def gathers [OF step] transfers [OF step])
  then show "settled c' i \<or> (\<exists>p\<in>set (pred_succ ! i). function_end p)
     \<or> (i \<in> set ys \<and> blocks_of (pred_succ ! i) \<inter> members old \<noteq> {})
     \<or> blocks_of (pred_succ ! i) \<inter> members ?new \<noteq> {}"
    using assms(5) i new by (auto simp: covered_def)
qed

lemma fold_changed:
  assumes "inv (filter (\<lambda>b. pred_succ ! b \<noteq> []) zs) c" "set zs \<subseteq> set order"
    and "wf_bitmap w old" "wf_bitmap w new" "covered (filter (\<lambda>b. pred_succ ! b \<noteq> []) zs) old new c"
  shows "\<exists>new' ch c'. fold (visit_changed pred_succ visit old) zs (ch0, new, c) = (ch, new', c')
    \<and> sweep visit (filter (\<lambda>b. pred_succ ! b \<noteq> []) zs) ch0 c = (ch, c')
    \<and> wf_bitmap w new' \<and> covered [] old new' c' \<and> inv [] c'"
  using assms
proof (induction zs arbitrary: ch0 new c)
  case Nil
  then show ?case by (simp add: sweep_simps)
next
  case (Cons b zs)
  let ?ys = "filter (\<lambda>b. pred_succ ! b \<noteq> []) zs"
  show ?case
  proof (cases "pred_succ ! b = []")
    case True
    then have "\<not> neighbour_changed (pred_succ ! b) old new" by (simp add: neighbour_changed_def)
    then show ?thesis using Cons True by (simp add: visit_changed_def)
  next
    case False
    then have b: "b \<in> set bs" and inv: "inv (b # ?ys) c" and cov: "covered (b # ?ys) old new c"
      using Cons.prems by (auto simp: visited)
    obtain ch1 c1 where v: "visit b c = (ch1, c1)" by fastforce
    let ?new = "if ch1 then SET_BIT new b else new"
    have wf: "wf_bitmap w ?new" using Cons.prems(4) by (simp add: wf_operations)
    note rest = Cons.IH [OF keeps [OF inv b v] _ Cons.prems(3) wf covered_visit [OF inv b v Cons.prems(4) cov]]
    show ?thesis
    proof (cases "neighbour_changed (pred_succ ! b) old new")
      case True
      then show ?thesis
        using rest [of "ch0 \<or> ch1"] Cons.prems(2) False
        by (cases ch1) (simp_all add: visit_changed_def v sweep_simps)
    next
      case skip: False
      have "settled c b"
        using cov b skip neighbour_changed_iff [OF Cons.prems(3,4) b inv] by (auto simp: covered_def)
      then have "visit b c = (False, c)" using idle [OF inv b] by (simp add: settled_def)
      then have "ch1 = False" "c1 = c" using v by simp_all
      then show ?thesis
        using rest [of ch0] Cons.prems(2) False skip by (simp add: visit_changed_def v sweep_simps)
    qed
  qed
qed

text \<open>The loop that skips blocks runs through the states of the plain loop.\<close>

theorem iterate_changed_plain:
  assumes "inv [] c" "SBITMAP_SET_SIZE n_blocks = w"
  shows "iterate_changed fresh n_blocks pred_succ visit order c = iterate visit bs c"
proof -
  let ?start = "(True, sbitmap_ones (sbitmap_alloc (fst fresh) n_blocks), sbitmap_alloc (snd fresh) n_blocks, c)"
  let ?good = "\<lambda>(_ :: bool, old, new, c). wf_bitmap w old \<and> wf_bitmap w new \<and> inv [] c
    \<and> covered bs old (sbitmap_zero new) c"
  let ?plain = "\<lambda>(ch :: bool, _ :: sbitmap, _ :: sbitmap, c :: 'a). (ch, c)"
  have round: "?good (sweep_changed pred_succ visit order s)
      \<and> ?plain (sweep_changed pred_succ visit order s) = (\<lambda>(_, c). sweep visit bs False c) (?plain s)"
    if "?good s" for s
  proof -
    obtain ch old new d where s: "s = (ch, old, new, d)" by (cases s) auto
    have wf: "wf_bitmap w old" "wf_bitmap w (sbitmap_zero new)" and d: "inv bs d"
      and cov: "covered bs old (sbitmap_zero new) d"
      using that restart by (auto simp: s wf_operations)
    obtain new' ch' d' where out: "fold (visit_changed pred_succ visit old) order (False, sbitmap_zero new, d) = (ch', new', d')"
        "sweep visit bs False d = (ch', d')" "wf_bitmap w new'" "covered [] old new' d'" "inv [] d'"
      using fold_changed [of order d old "sbitmap_zero new" False] wf d cov by (auto simp: visited)
    have copy: "members (sbitmap_copy old new') = members new'" "members (sbitmap_zero new') = {}"
      using members_operations [OF wf(1) out(3,3,3)] members_operations [OF out(3,3,3,3)] by simp_all
    have "covered bs (sbitmap_copy old new') (sbitmap_zero new') d'"
      using out(4) by (simp add: covered_def copy)
    then show ?thesis using out wf(1) by (simp add: s sweep_changed_def wf_operations)
  qed
  have wf: "wf_bitmap w (sbitmap_alloc fr n_blocks)" for fr using wf_bitmap_alloc [of n_blocks fr] assms(2) by simp
  have ones: "members (sbitmap_ones (sbitmap_alloc (fst fresh) n_blocks)) = all_bits w"
    using members_operations [OF wf wf wf wf] by simp
  have "settled c b \<or> (\<exists>p\<in>set (pred_succ ! b). function_end p)
      \<or> blocks_of (pred_succ ! b) \<inter> members (sbitmap_ones (sbitmap_alloc (fst fresh) n_blocks)) \<noteq> {}"
    if "b \<in> set bs" for b
  proof -
    have "pred_succ ! b \<noteq> []" using that by (simp add: visited)
    then obtain p where p: "p \<in> set (pred_succ ! b)" by (cases "pred_succ ! b") auto
    show ?thesis
    proof (cases "function_end p")
      case False
      then have "nat p \<in> blocks_of (pred_succ ! b)" using p by (simp add: blocks_of_def)
      then show ?thesis using neighbours [OF assms(1) that] by (auto simp: ones)
    qed (use p in blast)
  qed
  then have start: "?good ?start" using assms(1) wf by (auto simp: covered_def wf_operations)
  have "map_option ?plain (while_option fst (sweep_changed pred_succ visit order) ?start)
      = while_option fst (\<lambda>(_, c). sweep visit bs False c) (?plain ?start)"
    by (rule while_option_commute_invariant [where P = ?good]) (use round start in \<open>auto split: prod.splits\<close>)
  then have "map_option snd (map_option ?plain (while_option fst (sweep_changed pred_succ visit order) ?start))
      = iterate visit bs c"
    by (simp add: iterate_def)
  then show ?thesis
    by (simp add: iterate_changed_def option.map_comp comp_def case_prod_unfold)
qed

end

end
