(* ===== verification/Vector_Passes.thy ===== *)
theory Vector_Passes
  imports Block_Iteration
begin

text \<open>
  Passes on two vectors of bitmaps, one bitmap of each per block: a visit combines the bitmaps
  that the neighbours of the block have in the first vector into the second, except at one
  block, and recomputes the bitmap of the first from it.  Such a pass gives block equations, on
  the sets of bits, in both orders: from below when it starts with empty sets, from above when it
  starts with full ones.
\<close>

section \<open>Flow graphs and values\<close>

definition wf_graph :: "nat \<Rightarrow> int list list \<Rightarrow> bool" where
  "wf_graph n g \<longleftrightarrow> length g = n \<and> (\<forall>ps\<in>set g. \<forall>p\<in>set ps. function_end p \<or> 0 \<le> p \<and> p < int n)"

lemma wf_graph_blocks: "wf_graph n g \<Longrightarrow> b < n \<Longrightarrow> i \<in> blocks_of (g ! b) \<Longrightarrow> i < n"
  by (fastforce simp: wf_graph_def blocks_of_def)

lemma has_blocks: "s \<in> blocks_of ps \<Longrightarrow> ps \<noteq> []"
  by (auto simp: blocks_of_def)

definition combine_blocks ::
    "bool \<Rightarrow> sbitmap \<Rightarrow> sbitmap list \<Rightarrow> nat \<Rightarrow> int list list \<Rightarrow> sbitmap" where
  "combine_blocks meet = (if meet then sbitmap_intersect_of_predsucc else sbitmap_union_of_predsucc)"

text \<open>The value a visit reads, when the given blocks keep what they started with.\<close>

definition keeps_input :: "nat option \<Rightarrow> int list list \<Rightarrow> nat \<Rightarrow> bool" where
  "keeps_input edge g b \<longleftrightarrow> Some b = edge \<or> (g ! b \<noteq> [] \<and> blocks_of (g ! b) = {})"

definition gather_bits ::
    "nat \<Rightarrow> bool \<Rightarrow> nat option \<Rightarrow> int list list \<Rightarrow> (nat \<Rightarrow> nat set) \<Rightarrow> nat \<Rightarrow> (nat \<Rightarrow> nat set) \<Rightarrow> nat set" where
  "gather_bits w meet edge g start b X =
    (if keeps_input edge g b then start b
     else if g ! b = [] then (if meet then all_bits w else {})
     else if meet then (\<Inter>i\<in>blocks_of (g ! b). X i) else (\<Union>i\<in>blocks_of (g ! b). X i))"

lemma combine_blocks_bits:
  assumes "wf_vector n w v" "wf_bitmap w d" "wf_graph n g" "b < n"
  shows "wf_bitmap w (combine_blocks meet d v b g)"
    and "members (combine_blocks meet d v b g) =
      (if g ! b \<noteq> [] \<and> blocks_of (g ! b) = {} then members d
       else gather_bits w meet None g start b (\<lambda>i. members (v ! i)))"
proof -
  have wf: "\<forall>i\<in>blocks_of (g ! b). wf_bitmap w (v ! i)"
    using wf_graph_blocks [OF assms(3,4)] wf_nth [OF assms(1)] by blast
  note comb = combine_predsucc_cases [OF assms(2) wf]
  show "wf_bitmap w (combine_blocks meet d v b g)"
    using comb(1) assms(2)
    by (auto simp: combine_blocks_def sbitmap_intersect_of_predsucc_def sbitmap_union_of_predsucc_def
        wf_operations)
  have none: "blocks_of ps = {}" if "ps = []" for ps using that by (simp add: blocks_of_def)
  show "members (combine_blocks meet d v b g) =
      (if g ! b \<noteq> [] \<and> blocks_of (g ! b) = {} then members d
       else gather_bits w meet None g start b (\<lambda>i. members (v ! i)))"
    using comb members_operations(9,10) [OF assms(2,2,2,2)]
    by (auto simp: combine_blocks_def sbitmap_intersect_of_predsucc_def sbitmap_union_of_predsucc_def
        gather_bits_def keeps_input_def none)
qed

lemma combine_blocks_fixed:
  "g ! b \<noteq> [] \<Longrightarrow> blocks_of (g ! b) = {} \<Longrightarrow> combine_blocks meet d v b g = d"
  by (auto simp: combine_blocks_def sbitmap_intersect_of_predsucc_def sbitmap_union_of_predsucc_def
      combine_predsucc_def blocks_of_empty simp del: dropWhile_eq_Nil_conv)

lemma gather_bits_mono:
  "(\<And>i. X i \<subseteq> Y i) \<Longrightarrow> gather_bits w meet edge g start b X \<subseteq> gather_bits w meet edge g start b Y"
  unfolding gather_bits_def by auto (blast+)?

lemma gather_bits_local:
  "(\<And>i. i \<in> blocks_of (g ! b) \<Longrightarrow> X i = Y i) \<Longrightarrow>
    gather_bits w meet edge g start b X = gather_bits w meet edge g start b Y"
  unfolding gather_bits_def by auto

lemma combine_blocks_n_bits: "n_bits (combine_blocks meet d v b g) = n_bits d"
proof -
  have "n_bits (fold (\<lambda>ps_bb r. if function_end ps_bb then r
      else snd (store_words (\<lambda>i. comb (elms r ! i) (elms (v ! nat ps_bb) ! i)) r)) ps r) = n_bits r"
    for comb ps r
    by (induction ps arbitrary: r) (simp_all add: store_words_def)
  then show ?thesis
    by (simp add: combine_blocks_def sbitmap_intersect_of_predsucc_def sbitmap_union_of_predsucc_def
        combine_predsucc_def sbitmap_ones_def sbitmap_zero_def sbitmap_copy_def split: list.splits)
qed

abbreviation bits_of :: "sbitmap list \<Rightarrow> nat \<Rightarrow> nat set" where
  "bits_of v i \<equiv> members (v ! i)"

lemma bits_of_update: "b < length v \<Longrightarrow> bits_of (v[b := x]) = (bits_of v)(b := members x)"
  by (rule ext) (simp add: nth_list_update)

lemma wf_vector_start:
  assumes "wf_vector n w v" "0 < n"
  shows "wf_vector n w (sbitmap_vector_ones v n)" "wf_vector n w (sbitmap_vector_zero v n)"
    "b < n \<Longrightarrow> bits_of (sbitmap_vector_ones v n) b = all_bits w"
    "b < n \<Longrightarrow> bits_of (sbitmap_vector_zero v n) b = {}"
proof -
  have "length v = n" using assms(1) by (simp add: wf_vector_def)
  then have maps: "sbitmap_vector_ones v n = map sbitmap_ones v" "sbitmap_vector_zero v n = map sbitmap_zero v"
    by (simp_all add: sbitmap_vector_ones_def sbitmap_vector_zero_def)
  show "wf_vector n w (sbitmap_vector_ones v n)" "wf_vector n w (sbitmap_vector_zero v n)"
    using assms(1) by (auto simp: maps wf_vector_def wf_operations)
  have wf: "wf_bitmap w (v ! b)" if "b < n" for b by (rule wf_nth [OF assms(1) that])
  show "b < n \<Longrightarrow> bits_of (sbitmap_vector_ones v n) b = all_bits w"
    "b < n \<Longrightarrow> bits_of (sbitmap_vector_zero v n) b = {}"
    using members_operations(9,10) [OF wf wf wf wf, of b b b b] \<open>length v = n\<close> by (simp_all add: maps)
qed

lemma wf_edge:
  assumes "wf_vector n w v" "i < n"
  shows "wf_vector n w (v[i := sbitmap_ones (v ! i)])" "wf_vector n w (v[i := sbitmap_zero (v ! i)])"
    "bits_of (v[i := sbitmap_ones (v ! i)]) i = all_bits w"
    "bits_of (v[i := sbitmap_zero (v ! i)]) i = {}"
proof -
  note wf = wf_nth [OF assms]
  have "i < length v" using assms by (simp add: wf_vector_def)
  then show "wf_vector n w (v[i := sbitmap_ones (v ! i)])" "wf_vector n w (v[i := sbitmap_zero (v ! i)])"
    "bits_of (v[i := sbitmap_ones (v ! i)]) i = all_bits w"
    "bits_of (v[i := sbitmap_zero (v ! i)]) i = {}"
    using wf_vector_update [OF assms(1)] wf_operations(9,10) [OF wf] members_operations(9,10) [OF wf wf wf wf]
    by simp_all
qed

lemma members_bound: "wf_vector n w v \<Longrightarrow> b < n \<Longrightarrow> bits_of v b \<subseteq> all_bits w"
  by (rule members_sub [OF wf_nth])

lemma gather_edge: "gather_bits w meet (Some e) g start e X = start e"
  by (simp add: gather_bits_def keeps_input_def)

lemma gather_meet:
  "b \<noteq> e \<Longrightarrow> i \<in> blocks_of (g ! b) \<Longrightarrow> gather_bits w True (Some e) g start b X \<subseteq> X i"
  by (auto simp: gather_bits_def keeps_input_def blocks_of_def)

lemma gather_join:
  "b \<noteq> e \<Longrightarrow> i \<in> blocks_of (g ! b) \<Longrightarrow> X i \<subseteq> gather_bits w False (Some e) g start b X"
  by (auto simp: gather_bits_def keeps_input_def blocks_of_def)

section \<open>The pass\<close>

locale vector_pass =
  fixes n w :: nat
    and valid :: bool
    and bs :: "nat list"
    and edge :: nat
    and pred_succ :: "int list list"
    and meet :: bool
    and compute :: "nat \<Rightarrow> sbitmap \<Rightarrow> sbitmap \<Rightarrow> bool \<times> sbitmap"
    and transfer :: "nat \<Rightarrow> nat set \<Rightarrow> nat set"
    and start :: "nat \<Rightarrow> nat set"
  assumes graph: "valid \<Longrightarrow> wf_graph n pred_succ"
    and blocks: "b \<in> set bs \<Longrightarrow> b < n"
    and compute_wf: "valid \<Longrightarrow> b < n \<Longrightarrow> wf_bitmap w d \<Longrightarrow> wf_bitmap w x \<Longrightarrow>
      wf_bitmap w (snd (compute b d x))"
    and compute_bits: "valid \<Longrightarrow> b < n \<Longrightarrow> wf_bitmap w d \<Longrightarrow> wf_bitmap w x \<Longrightarrow>
      members (snd (compute b d x)) = transfer b (members x)"
    and compute_changed: "valid \<Longrightarrow> b < n \<Longrightarrow> wf_bitmap w d \<Longrightarrow> wf_bitmap w x \<Longrightarrow>
      fst (compute b d x) \<longleftrightarrow> members (snd (compute b d x)) \<noteq> members d"
    and compute_n_bits: "n_bits (snd (compute b d x)) = n_bits d"
    and transfer_mono: "X \<subseteq> Y \<Longrightarrow> transfer b X \<subseteq> transfer b Y"
    and transfer_bits: "valid \<Longrightarrow> b < n \<Longrightarrow> X \<subseteq> all_bits w \<Longrightarrow> transfer b X \<subseteq> all_bits w"
begin

abbreviation visit :: "nat \<Rightarrow> sbitmap list \<times> sbitmap list \<Rightarrow> bool \<times> sbitmap list \<times> sbitmap list" where
  "visit \<equiv> visit_block (combine_blocks meet) edge pred_succ compute"

definition inv :: "nat list \<Rightarrow> sbitmap list \<times> sbitmap list \<Rightarrow> bool" where
  "inv ys = (\<lambda>(p, q). valid \<and> wf_vector n w p \<and> wf_vector n w q
     \<and> (\<forall>b\<in>set bs. keeps_input (Some edge) pred_succ b \<longrightarrow> bits_of q b = start b))"

abbreviation gather :: "nat \<Rightarrow> (nat \<Rightarrow> nat set) \<Rightarrow> nat set" where
  "gather \<equiv> gather_bits w meet (Some edge) pred_succ start"

abbreviation outputs :: "sbitmap list \<times> sbitmap list \<Rightarrow> nat \<Rightarrow> nat set" where
  "outputs c \<equiv> bits_of (fst c)"

abbreviation inputs :: "sbitmap list \<times> sbitmap list \<Rightarrow> nat \<Rightarrow> nat set" where
  "inputs c \<equiv> bits_of (snd c)"

lemma visit_steps:
  assumes "inv ys c" "b \<in> set bs" "visit b c = (ch, c')"
  shows "inv zs c' \<and> inputs c' = (inputs c)(b := gather b (outputs c))
    \<and> outputs c' = (outputs c)(b := transfer b (gather b (outputs c)))
    \<and> (ch \<longleftrightarrow> outputs c' b \<noteq> outputs c b)"
proof -
  obtain p q where c: "c = (p, q)" by fastforce
  from assms(1) have valid: valid and wf: "wf_vector n w p" "wf_vector n w q"
    and kept: "\<forall>b\<in>set bs. keeps_input (Some edge) pred_succ b \<longrightarrow> bits_of q b = start b"
    by (auto simp: c inv_def)
  note b = blocks [OF assms(2)]
  have len: "b < length p" "b < length q" using wf b by (simp_all add: wf_vector_def)
  define q' where "q' = (if b \<noteq> edge then q[b := combine_blocks meet (q ! b) p b pred_succ] else q)"
  note comb = combine_blocks_bits [OF wf(1) wf_nth [OF wf(2) b] graph [OF valid] b]
  have wfq: "wf_vector n w q'" using wf_vector_update [OF wf(2) comb(1)] wf(2) by (simp add: q'_def)
  have q: "bits_of q' = (bits_of q)(b := gather b (bits_of p))"
  proof (cases "keeps_input (Some edge) pred_succ b")
    case True
    then have kept_q: "q' = q" using combine_blocks_fixed [of pred_succ b]
      by (cases "b = edge") (auto simp: keeps_input_def q'_def)
    have "(bits_of q)(b := gather b (bits_of p)) = bits_of q"
      by (rule fun_upd_idem) (use True kept assms(2) in \<open>simp add: gather_bits_def\<close>)
    then show ?thesis unfolding kept_q by (rule sym)
  next
    case False
    then have "members (combine_blocks meet (q ! b) p b pred_succ) = gather b (bits_of p)"
      using comb(2) [of meet start] by (auto simp: keeps_input_def gather_bits_def)
    then show ?thesis using bits_of_update [OF len(2)] False by (simp add: keeps_input_def q'_def)
  qed
  note args = valid b wf_nth [OF wf(1) b] wf_nth [OF wfq b]
  have new: "members (snd (compute b (p ! b) (q' ! b))) = transfer b (gather b (bits_of p))"
    using compute_bits [OF args] fun_cong [OF q, of b] by simp
  have c': "c' = (p[b := snd (compute b (p ! b) (q' ! b))], q')" and ch: "ch = fst (compute b (p ! b) (q' ! b))"
    using assms(3) unfolding c visit_block_def Let_def q'_def by (auto split: prod.splits)
  have "bits_of q' i = start i" if "i \<in> set bs" "keeps_input (Some edge) pred_succ i" for i
  proof -
    have "bits_of q' i = ((bits_of q)(b := gather b (bits_of p))) i" by (rule fun_cong [OF q])
    also have "\<dots> = start i" using kept that by (cases "i = b") (simp_all add: gather_bits_def)
    finally show ?thesis .
  qed
  then have "inv zs c'"
    using valid wf_vector_update [OF wf(1) compute_wf [OF args]] wfq unfolding c' inv_def by simp
  moreover have "ch \<longleftrightarrow> transfer b (gather b (bits_of p)) \<noteq> bits_of p b"
    unfolding ch compute_changed [OF args] new by simp
  moreover have "bits_of (p[b := snd (compute b (p ! b) (q' ! b))])
      = (bits_of p)(b := transfer b (gather b (bits_of p)))"
    by (simp add: bits_of_update [OF len(1)] new)
  ultimately show ?thesis using q len(1) by (simp add: c' c new)
qed

lemma visit_idle:
  assumes "inv ys c" "b \<in> set bs" "inputs c b = gather b (outputs c)"
    and "outputs c b = transfer b (inputs c b)"
  shows "visit b c = (False, c)"
proof -
  obtain p q where c: "c = (p, q)" by fastforce
  from assms(1) have valid: valid and wf: "wf_vector n w p" "wf_vector n w q" by (auto simp: c inv_def)
  note b = blocks [OF assms(2)]
  obtain ch c' where v: "visit b c = (ch, c')" by (cases "visit b c") blast
  note steps = visit_steps [OF assms(1,2) v]
  let ?q = "if b \<noteq> edge then q[b := combine_blocks meet (q ! b) p b pred_succ] else q"
  have c': "c' = (p[b := snd (compute b (p ! b) (?q ! b))], ?q)"
    using v unfolding c visit_block_def Let_def by (auto split: prod.splits)
  have new: "inputs c' = (inputs c)(b := gather b (outputs c))"
    "outputs c' = (outputs c)(b := transfer b (gather b (outputs c)))" "ch \<longleftrightarrow> outputs c' b \<noteq> outputs c b"
    using steps by blast+
  have same: "inputs c' = inputs c" "outputs c' = outputs c"
    unfolding new(1,2) by (rule fun_upd_idem, use assms(3,4) in simp)+
  have "\<not> ch" using new(3) fun_cong [OF same(2), of b] by simp
  have "combine_blocks meet (q ! b) p b pred_succ = q ! b" if "b \<noteq> edge"
  proof (rule same_words)
    show "wf_bitmap w (combine_blocks meet (q ! b) p b pred_succ)"
      by (rule combine_blocks_bits(1) [OF wf(1) wf_nth [OF wf(2) b] graph [OF valid] b])
    have "b < length q" using wf(2) b by (simp add: wf_vector_def)
    then show "members (combine_blocks meet (q ! b) p b pred_succ) = members (q ! b)"
      using fun_cong [OF same(1), of b] that by (simp add: c' c)
  qed (simp_all add: wf_nth [OF wf(2) b] combine_blocks_n_bits)
  then have q: "?q = q" by (metis list_update_id)
  have "snd (compute b (p ! b) (?q ! b)) = p ! b"
  proof (rule same_words)
    show "wf_bitmap w (snd (compute b (p ! b) (?q ! b)))"
      unfolding q by (rule compute_wf [OF valid b wf_nth [OF wf(1) b] wf_nth [OF wf(2) b]])
    have "b < length p" using wf(1) b by (simp add: wf_vector_def)
    then show "members (snd (compute b (p ! b) (?q ! b))) = members (p ! b)"
      using fun_cong [OF same(2), of b] by (simp add: c' c)
  qed (simp_all add: wf_nth [OF wf(1) b] compute_n_bits)
  then show ?thesis using v \<open>\<not> ch\<close> q by (simp add: c c')
qed

lemma inv_any: "inv ys c \<Longrightarrow> inv zs c"
  by (simp only: inv_def)

lemma visit_facts:
  assumes "inv (b # ys) c" "b \<in> set bs" "visit b c = (ch, c')"
  shows "inv ys c'" "inputs c' = (inputs c)(b := gather b (outputs c))"
    "outputs c' = (outputs c)(b := transfer b (gather b (outputs c)))"
    "outputs c' b \<noteq> outputs c b \<Longrightarrow> ch" "ch \<Longrightarrow> outputs c' b \<noteq> outputs c b"
    "ch \<Longrightarrow> outputs c' b \<noteq> outputs c b \<or> inputs c' b \<noteq> inputs c b"
  using visit_steps [OF assms] by blast+

lemma outputs_legal: "inv ys c \<Longrightarrow> b \<in> set bs \<Longrightarrow> outputs c b \<in> Pow (all_bits w)"
  using members_sub wf_nth blocks by (fastforce simp: inv_def split: prod.splits)

lemma equations_mono:
  "(\<And>i. X i \<subseteq> Y i) \<Longrightarrow> transfer b (gather b X) \<subseteq> transfer b (gather b Y)"
  by (intro transfer_mono gather_bits_mono)

end

sublocale vector_pass \<subseteq> down: block_equations bs visit inv inputs outputs gather transfer
  "(\<subseteq>)" "Pow (all_bits w)" card
proof unfold_locales
  fix u v assume "u \<in> Pow (all_bits w)" "v \<in> Pow (all_bits w)" "u \<subseteq> v" "u \<noteq> v"
  then show "card u < card v" by (intro psubset_card_mono) (auto intro: finite_subset)
qed (fact inv_any visit_facts outputs_legal subset_refl subset_trans subset_antisym | rule equations_mono)+

sublocale vector_pass \<subseteq> up: block_equations bs visit inv inputs outputs gather transfer
  "\<lambda>u v. v \<subseteq> u" "Pow (all_bits w)" "\<lambda>v. card (all_bits w - v)"
proof unfold_locales
  fix u v assume "u \<in> Pow (all_bits w)" "v \<in> Pow (all_bits w)" "v \<subseteq> u" "u \<noteq> v"
  then show "card (all_bits w - u) < card (all_bits w - v)" by (intro psubset_card_mono) auto
next
  show "transfer b (gather b Y) \<subseteq> transfer b (gather b X)" if "\<And>i. Y i \<subseteq> X i" for b X Y
    using that by (rule equations_mono)
qed (fact inv_any visit_facts outputs_legal subset_refl subset_antisym | blast)+


text \<open>
  A pass that starts with full sets ends in the greatest solution, one that starts with empty
  sets in the least.
\<close>

context vector_pass
begin

definition solved :: "sbitmap list \<times> sbitmap list \<Rightarrow> sbitmap list \<times> sbitmap list \<Rightarrow> bool" where
  "solved c c' \<longleftrightarrow> wf_vector n w (fst c') \<and> wf_vector n w (snd c')
     \<and> (\<forall>b\<in>set bs. inputs c' b = gather b (outputs c') \<and> outputs c' b = transfer b (inputs c' b))
     \<and> (\<forall>b. b \<notin> set bs \<longrightarrow> outputs c' b = outputs c b \<and> inputs c' b = inputs c b)"

lemma inv_vectors: "inv [] c \<Longrightarrow> wf_vector n w (fst c) \<and> wf_vector n w (snd c)"
  unfolding inv_def by (cases c) simp

lemma gather_legal:
  assumes "inv [] c" "b \<in> set bs"
  shows "gather b (outputs c) \<subseteq> all_bits w"
proof -
  obtain p q where c: "c = (p, q)" by fastforce
  from assms(1) have valid and wf: "wf_vector n w p" "wf_vector n w q"
    and kept: "\<forall>b\<in>set bs. keeps_input (Some edge) pred_succ b \<longrightarrow> bits_of q b = start b"
    unfolding c inv_def by simp_all
  have legal: "bits_of v i \<subseteq> all_bits w" if "wf_vector n w v" "i < n" for v i
    using members_sub [OF wf_nth [OF that]] .
  note b = blocks [OF assms(2)]
  have near: "bits_of p i \<subseteq> all_bits w" if "i \<in> blocks_of (pred_succ ! b)" for i
    using legal [OF wf(1) wf_graph_blocks [OF graph [OF \<open>valid\<close>] b that]] .
  have "start b \<subseteq> all_bits w" if "keeps_input (Some edge) pred_succ b"
    using kept that assms(2) legal [OF wf(2) b] by simp
  moreover have "(\<Inter>i\<in>blocks_of (pred_succ ! b). bits_of p i) \<subseteq> all_bits w"
    if "blocks_of (pred_succ ! b) \<noteq> {}"
    using that near by blast
  moreover have "(\<Union>i\<in>blocks_of (pred_succ ! b). bits_of p i) \<subseteq> all_bits w" using near by blast
  moreover have "blocks_of (pred_succ ! b) \<noteq> {}"
    if "\<not> keeps_input (Some edge) pred_succ b" "pred_succ ! b \<noteq> []"
    using that by (simp add: keeps_input_def)
  ultimately show ?thesis by (simp add: gather_bits_def c)
qed

theorem from_above:
  assumes "inv [] c" "\<And>b. b \<in> set bs \<Longrightarrow> outputs c b = all_bits w"
  obtains c' where "iterate visit bs c = Some c'" "solved c c'"
    "\<And>Y i. (\<And>b. b \<in> set bs \<Longrightarrow> Y b \<subseteq> transfer b (gather b Y)) \<Longrightarrow> (\<And>b. Y b \<subseteq> outputs c b) \<Longrightarrow>
      Y i \<subseteq> outputs c' i"
proof -
  have valid using assms(1) unfolding inv_def by (cases c) simp
  have desc: "down.descending c"
    unfolding down.descending_def
    using assms(2) transfer_bits [OF \<open>valid\<close> blocks gather_legal [OF assms(1)]] by blast
  show ?thesis
  proof (rule down.iterate_solves [OF assms(1) desc], rule that)
    fix c' assume c': "iterate visit bs c = Some c'" "inv [] c'"
      "\<And>b. b \<in> set bs \<Longrightarrow> down.settled c' b" "down.below (outputs c') (outputs c)"
      "\<And>i. i \<notin> set bs \<Longrightarrow> outputs c' i = outputs c i \<and> inputs c' i = inputs c i"
      "\<And>Y. (\<And>b. b \<in> set bs \<Longrightarrow> Y b \<subseteq> transfer b (gather b Y)) \<Longrightarrow> down.below Y (outputs c) \<Longrightarrow>
        down.below Y (outputs c')"
    show "iterate visit bs c = Some c'" by (rule c'(1))
    show "solved c c'"
      unfolding solved_def using c'(3,5) inv_vectors [OF c'(2)] by (simp add: down.settled_def)
    show "Y i \<subseteq> outputs c' i"
      if "\<And>b. b \<in> set bs \<Longrightarrow> Y b \<subseteq> transfer b (gather b Y)" "\<And>b. Y b \<subseteq> outputs c b" for Y i
      using c'(6) [of Y] that unfolding down.below_def by simp
  qed
qed

theorem from_below:
  assumes "inv [] c" "\<And>b. b \<in> set bs \<Longrightarrow> outputs c b = {}"
  obtains c' where "iterate visit bs c = Some c'" "solved c c'"
    "\<And>Y i. (\<And>b. b \<in> set bs \<Longrightarrow> transfer b (gather b Y) \<subseteq> Y b) \<Longrightarrow> (\<And>b. outputs c b \<subseteq> Y b) \<Longrightarrow>
      outputs c' i \<subseteq> Y i"
proof -
  have desc: "up.descending c" unfolding up.descending_def using assms(2) by blast
  show ?thesis
  proof (rule up.iterate_solves [OF assms(1) desc], rule that)
    fix c' assume c': "iterate visit bs c = Some c'" "inv [] c'"
      "\<And>b. b \<in> set bs \<Longrightarrow> up.settled c' b" "up.below (outputs c') (outputs c)"
      "\<And>i. i \<notin> set bs \<Longrightarrow> outputs c' i = outputs c i \<and> inputs c' i = inputs c i"
      "\<And>Y. (\<And>b. b \<in> set bs \<Longrightarrow> transfer b (gather b Y) \<subseteq> Y b) \<Longrightarrow> up.below Y (outputs c) \<Longrightarrow>
        up.below Y (outputs c')"
    show "iterate visit bs c = Some c'" by (rule c'(1))
    show "solved c c'"
      unfolding solved_def using c'(3,5) inv_vectors [OF c'(2)] by (simp add: up.settled_def)
    show "outputs c' i \<subseteq> Y i"
      if "\<And>b. b \<in> set bs \<Longrightarrow> transfer b (gather b Y) \<subseteq> Y b" "\<And>b. outputs c b \<subseteq> Y b" for Y i
      using c'(6) [of Y] that unfolding up.below_def by simp
  qed
qed

lemma solved_edge:
  assumes "solved (p, q) (p', q')" "start = bits_of q"
  shows "bits_of q' edge = bits_of q edge"
proof (cases "edge \<in> set bs")
  case True
  then have "bits_of q' edge = gather edge (bits_of p')" using assms(1) unfolding solved_def by simp
  then show ?thesis using assms(2) by (simp add: gather_edge)
next
  case False
  then show ?thesis using assms(1) unfolding solved_def by simp
qed

lemma solved_neighbours:
  assumes "solved (p, q) (p', q')" "b \<in> set bs" "b \<noteq> edge" "s \<in> blocks_of (pred_succ ! b)"
  shows "if meet then bits_of q' b \<subseteq> bits_of p' s else bits_of p' s \<subseteq> bits_of q' b"
proof -
  have "bits_of q' b = gather b (bits_of p')" using assms(1,2) unfolding solved_def by simp
  then show ?thesis
    using gather_meet [OF assms(3,4), of w start "bits_of p'"] gather_join [OF assms(3,4), of "bits_of p'" w start]
    by (cases meet) simp_all
qed

text \<open>The two ways to start a pass, as the code does, and what holds of the result.\<close>

definition result :: "nat set \<Rightarrow> sbitmap list \<Rightarrow> sbitmap list \<Rightarrow> sbitmap list \<Rightarrow> bool" where
  "result first q p' q' \<longleftrightarrow> wf_vector n w p' \<and> wf_vector n w q' \<and> bits_of q' edge = bits_of q edge
     \<and> (\<forall>b\<in>set bs. bits_of p' b = transfer b (bits_of q' b))
     \<and> (\<forall>b<n. b \<notin> set bs \<longrightarrow> bits_of p' b = first)
     \<and> (\<forall>b\<in>set bs. b \<noteq> edge \<longrightarrow> (\<forall>s\<in>blocks_of (pred_succ ! b).
          if meet then bits_of q' b \<subseteq> bits_of p' s else bits_of p' s \<subseteq> bits_of q' b))"

lemma solved_result:
  assumes "solved (p, q) (p', q')" "start = bits_of q" "\<And>b. b < n \<Longrightarrow> bits_of p b = first"
  shows "result first q p' q'"
  unfolding result_def
proof (intro conjI)
  show "\<forall>b\<in>set bs. b \<noteq> edge \<longrightarrow> (\<forall>s\<in>blocks_of (pred_succ ! b).
      if meet then bits_of q' b \<subseteq> bits_of p' s else bits_of p' s \<subseteq> bits_of q' b)"
    using solved_neighbours [OF assms(1)] by blast
qed (use assms(1,3) solved_edge [OF assms(1,2)] in \<open>simp_all add: solved_def\<close>)

theorem run_above:
  assumes valid "wf_vector n w p" "wf_vector n w q" "0 < n" "start = bits_of q"
  obtains p' q' where "iterate visit bs (sbitmap_vector_ones p n, q) = Some (p', q')"
    "inv [] (sbitmap_vector_ones p n, q)" "result (all_bits w) q p' q'"
    "\<And>Y i. (\<And>b. b \<in> set bs \<Longrightarrow> Y b \<subseteq> transfer b (gather b Y)) \<Longrightarrow>
      (\<And>b. Y b \<subseteq> bits_of (sbitmap_vector_ones p n) b) \<Longrightarrow> Y i \<subseteq> bits_of p' i"
proof -
  let ?p = "sbitmap_vector_ones p n"
  note p = wf_vector_start [OF assms(2,4)]
  have inv: "inv [] (?p, q)" unfolding inv_def using assms p by simp
  show ?thesis
  proof (rule from_above [OF inv])
    show "outputs (?p, q) b = all_bits w" if "b \<in> set bs" for b using p blocks [OF that] by simp
    fix c' assume c': "iterate visit bs (?p, q) = Some c'" "solved (?p, q) c'"
      "\<And>Y i. (\<And>b. b \<in> set bs \<Longrightarrow> Y b \<subseteq> transfer b (gather b Y)) \<Longrightarrow> (\<And>b. Y b \<subseteq> outputs (?p, q) b) \<Longrightarrow>
        Y i \<subseteq> outputs c' i"
    obtain p' q' where e: "c' = (p', q')" by fastforce
    show ?thesis
      by (rule that [OF c'(1) [unfolded e] inv solved_result [OF c'(2) [unfolded e] assms(5)]])
        (use p c'(3) in \<open>simp_all add: e\<close>)
  qed
qed

theorem run_below:
  assumes valid "wf_vector n w p" "wf_vector n w q" "0 < n" "start = bits_of q"
  obtains p' q' where "iterate visit bs (sbitmap_vector_zero p n, q) = Some (p', q')"
    "inv [] (sbitmap_vector_zero p n, q)" "result {} q p' q'"
    "\<And>Y i. (\<And>b. b \<in> set bs \<Longrightarrow> transfer b (gather b Y) \<subseteq> Y b) \<Longrightarrow>
      (\<And>b. bits_of (sbitmap_vector_zero p n) b \<subseteq> Y b) \<Longrightarrow> bits_of p' i \<subseteq> Y i"
proof -
  let ?p = "sbitmap_vector_zero p n"
  note p = wf_vector_start [OF assms(2,4)]
  have inv: "inv [] (?p, q)" unfolding inv_def using assms p by simp
  show ?thesis
  proof (rule from_below [OF inv])
    show "outputs (?p, q) b = {}" if "b \<in> set bs" for b using p blocks [OF that] by simp
    fix c' assume c': "iterate visit bs (?p, q) = Some c'" "solved (?p, q) c'"
      "\<And>Y i. (\<And>b. b \<in> set bs \<Longrightarrow> transfer b (gather b Y) \<subseteq> Y b) \<Longrightarrow> (\<And>b. outputs (?p, q) b \<subseteq> Y b) \<Longrightarrow>
        outputs c' i \<subseteq> Y i"
    obtain p' q' where e: "c' = (p', q')" by fastforce
    show ?thesis
      by (rule that [OF c'(1) [unfolded e] inv solved_result [OF c'(2) [unfolded e] assms(5)]])
        (use p c'(3) in \<open>simp_all add: e\<close>)
  qed
qed

end

text \<open>With the bitmaps of changed blocks, of which there is a bit for every block.\<close>

locale changed_pass = vector_pass +
  fixes order :: "nat list"
  assumes has_neighbours: "bs = filter (\<lambda>b. pred_succ ! b \<noteq> []) order"

lemma set_size_room: "n \<le> SBITMAP_SET_SIZE n * 32"
  using div_mult_mod_eq [of "n + 31" 32] mod_less_divisor [of 32 "n + 31"]
  by (simp add: SBITMAP_SET_SIZE_def)

context changed_pass
begin

lemma blocks_room: "inv ys c \<Longrightarrow> b \<in> set bs \<Longrightarrow> b < SBITMAP_SET_SIZE n * 32"
  using blocks set_size_room [of n] by fastforce

lemma neighbours_room:
  "inv ys c \<Longrightarrow> b \<in> set bs \<Longrightarrow> i \<in> blocks_of (pred_succ ! b) \<Longrightarrow> i < SBITMAP_SET_SIZE n * 32"
  using wf_graph_blocks [OF graph blocks] set_size_room [of n] by (fastforce simp: inv_def)

lemma gather_local:
  "b \<in> set bs \<Longrightarrow> (\<And>i. i \<in> blocks_of (pred_succ ! b) \<Longrightarrow> X i = Y i) \<Longrightarrow> gather b X = gather b Y"
  by (rule gather_bits_local)

end

sublocale changed_pass \<subseteq> down_changed: changed_blocks bs visit inv inputs outputs gather transfer
  "(\<subseteq>)" "Pow (all_bits w)" card order pred_succ "SBITMAP_SET_SIZE n"
  by unfold_locales (fact has_neighbours gather_local visit_facts visit_idle blocks_room neighbours_room)+

sublocale changed_pass \<subseteq> up_changed: changed_blocks bs visit inv inputs outputs gather transfer
  "\<lambda>u v. v \<subseteq> u" "Pow (all_bits w)" "\<lambda>v. card (all_bits w - v)" order pred_succ "SBITMAP_SET_SIZE n"
  by unfold_locales (fact has_neighbours gather_local visit_facts visit_idle blocks_room neighbours_room)+


section \<open>The delayed pass\<close>

text \<open>
  The second shape: the value read is an intersection, joined with a given set, and the value
  passed on is what is left outside another given set.  A block that borders only the ends of
  the function reads what the visit before left in the temporary bitmap: the complement for
  the block before it in the order.
\<close>

locale delayed_pass =
  fixes n w :: nat
    and valid :: bool
    and bs :: "nat list"
    and edge :: nat
    and pred_succ :: "int list list"
    and both loc :: "sbitmap list"
    and before :: "nat \<Rightarrow> nat"
    and start :: "nat set"
  assumes graph: "valid \<Longrightarrow> wf_graph n pred_succ"
    and vectors: "valid \<Longrightarrow> wf_vector n w both" "valid \<Longrightarrow> wf_vector n w loc"
    and blocks: "b \<in> set bs \<Longrightarrow> b < n"
    and first: "valid \<Longrightarrow> bs = b # ys \<Longrightarrow> b = edge"
    and order: "bs = xs @ a # b # ys \<Longrightarrow> before b = a"
begin

abbreviation visit :: "nat \<Rightarrow> sbitmap \<times> sbitmap list \<times> sbitmap list
    \<Rightarrow> bool \<times> sbitmap \<times> sbitmap list \<times> sbitmap list" where
  "visit \<equiv> visit_delayed edge pred_succ both loc"

definition rest_of :: "nat \<Rightarrow> nat set" where
  "rest_of b = all_bits w - bits_of loc b"

definition inv :: "nat list \<Rightarrow> sbitmap \<times> sbitmap list \<times> sbitmap list \<Rightarrow> bool" where
  "inv ys = (\<lambda>(t, q, p). valid \<and> wf_bitmap w t \<and> wf_vector n w p \<and> wf_vector n w q
     \<and> bits_of q edge = start
     \<and> (\<exists>xs. bs = xs @ ys \<and> (xs \<noteq> [] \<longrightarrow> ys \<noteq> [] \<longrightarrow> members t = rest_of (last xs))))"

definition gather :: "nat \<Rightarrow> (nat \<Rightarrow> nat set) \<Rightarrow> nat set" where
  "gather b X = (if b = edge then start
     else bits_of both b \<union> gather_bits w True None pred_succ (\<lambda>b. rest_of (before b)) b X)"

definition transfer :: "nat \<Rightarrow> nat set \<Rightarrow> nat set" where
  "transfer b X = rest_of b \<inter> X"

abbreviation outputs :: "sbitmap \<times> sbitmap list \<times> sbitmap list \<Rightarrow> nat \<Rightarrow> nat set" where
  "outputs c \<equiv> bits_of (snd (snd c))"

abbreviation inputs :: "sbitmap \<times> sbitmap list \<times> sbitmap list \<Rightarrow> nat \<Rightarrow> nat set" where
  "inputs c \<equiv> bits_of (fst (snd c))"

text \<open>The reading half of a visit.\<close>

lemma read_step:
  assumes "inv (b # ys) (t, q, p)" "b \<in> set bs" "b \<noteq> edge"
    and "t' = sbitmap_intersect_of_predsucc t p b pred_succ"
  shows "wf_bitmap w t'"
    and "wf_vector n w (q[b := snd (sbitmap_a_or_b (q ! b) (both ! b) t')])"
    and "bits_of (q[b := snd (sbitmap_a_or_b (q ! b) (both ! b) t')]) = (bits_of q)(b := gather b (bits_of p))"
    and "fst (sbitmap_a_or_b (q ! b) (both ! b) t') \<longleftrightarrow> gather b (bits_of p) \<noteq> bits_of q b"
proof -
  from assms(1) obtain xs where valid: valid and wf: "wf_bitmap w t" "wf_vector n w p" "wf_vector n w q"
    and xs: "bs = xs @ b # ys" "xs \<noteq> [] \<longrightarrow> members t = rest_of (last xs)"
    by (auto simp: inv_def)
  note b = blocks [OF assms(2)]
  have t': "t' = combine_blocks True t p b pred_succ" by (simp add: assms(4) combine_blocks_def)
  have "xs \<noteq> []" using first [OF valid, of b ys] xs(1) assms(3) by auto
  then obtain xs' a where "xs = xs' @ [a]" by (cases xs rule: rev_cases) auto
  then have "members t = rest_of (before b)" using xs order [of xs' a b ys] by simp
  then have bits: "members t' = gather_bits w True None pred_succ (\<lambda>b. rest_of (before b)) b (bits_of p)"
    using combine_blocks_bits(2) [OF wf(2,1) graph [OF valid] b, of True "\<lambda>b. rest_of (before b)"]
    unfolding t' by (auto simp: gather_bits_def keeps_input_def)
  show wft: "wf_bitmap w t'"
    unfolding t' by (rule combine_blocks_bits(1) [OF wf(2,1) graph [OF valid] b])
  note args = wf_nth [OF wf(3) b] wf_nth [OF vectors(1) [OF valid] b] wft
  have new: "members (snd (sbitmap_a_or_b (q ! b) (both ! b) t')) = gather b (bits_of p)"
    using members_operations(5) [OF args(1,2,3,3)] assms(3) bits by (simp add: gather_def)
  show "wf_vector n w (q[b := snd (sbitmap_a_or_b (q ! b) (both ! b) t')])"
    by (rule wf_vector_update [OF wf(3) wf_operations(5) [OF args(1)]])
  have "b < length q" using wf(3) b by (simp add: wf_vector_def)
  then show "bits_of (q[b := snd (sbitmap_a_or_b (q ! b) (both ! b) t')]) = (bits_of q)(b := gather b (bits_of p))"
    by (simp add: bits_of_update new)
  show "fst (sbitmap_a_or_b (q ! b) (both ! b) t') \<longleftrightarrow> gather b (bits_of p) \<noteq> bits_of q b"
    using changed_operations(3) [OF args(1)] new by simp
qed

lemma visit_steps:
  assumes "inv (b # ys) c" "b \<in> set bs" "visit b c = (ch, c')"
  shows "inv ys c' \<and> inputs c' = (inputs c)(b := gather b (outputs c))
    \<and> outputs c' = (outputs c)(b := transfer b (gather b (outputs c)))
    \<and> (ch \<longleftrightarrow> inputs c' b \<noteq> inputs c b \<or> outputs c' b \<noteq> outputs c b)"
proof -
  obtain t q p where c: "c = (t, q, p)" by (cases c)
  from assms(1) obtain xs where valid: valid and wf: "wf_bitmap w t" "wf_vector n w p" "wf_vector n w q"
    and edge: "bits_of q edge = start" and xs: "bs = xs @ b # ys"
    by (auto simp: inv_def c)
  note b = blocks [OF assms(2)]
  obtain ch1 t1 q1 where read: "(ch1, t1, q1) = (if b \<noteq> edge
      then let t' = sbitmap_intersect_of_predsucc t p b pred_succ in
        case sbitmap_a_or_b (q ! b) (both ! b) t' of (ch, v) \<Rightarrow> (ch, t', q[b := v])
      else (False, t, q))"
    by (cases "if b \<noteq> edge
      then let t' = sbitmap_intersect_of_predsucc t p b pred_succ in
        case sbitmap_a_or_b (q ! b) (both ! b) t' of (ch, v) \<Rightarrow> (ch, t', q[b := v])
      else (False, t, q)") auto
  have q1: "wf_bitmap w t1 \<and> wf_vector n w q1 \<and> bits_of q1 = (bits_of q)(b := gather b (bits_of p))
      \<and> (ch1 \<longleftrightarrow> gather b (bits_of p) \<noteq> bits_of q b)"
  proof (cases "b = edge")
    case True
    have "(bits_of q)(b := gather b (bits_of p)) = bits_of q"
      by (rule fun_upd_idem) (simp add: True edge gather_def)
    then show ?thesis using read True wf edge by (simp add: gather_def)
  next
    case False
    then show ?thesis
      using read read_step [OF assms(1) [unfolded c] assms(2) False refl]
      by (auto simp: Let_def split: prod.splits)
  qed
  have "bits_of q1 b = ((bits_of q)(b := gather b (bits_of p))) b"
    using q1 by (elim conjE) (rule fun_cong)
  then have read_bits: "bits_of q1 b = gather b (bits_of p)" by simp
  define t2 where "t2 = sbitmap_not t1 (loc ! b)"
  have loc: "wf_bitmap w (loc ! b)" by (rule wf_nth [OF vectors(2) [OF valid] b])
  have t2: "wf_bitmap w t2" "members t2 = rest_of b"
    using q1 wf_operations(2) members_operations(2) [OF _ loc loc loc] by (auto simp: t2_def rest_of_def)
  have wfq: "wf_bitmap w (q1 ! b)" using q1 wf_nth b by blast
  note args = wf_nth [OF wf(2) b] t2(1) wfq
  have new: "members (snd (sbitmap_a_and_b (p ! b) t2 (q1 ! b))) = transfer b (gather b (bits_of p))"
    using members_operations(4) [OF args(1,2,3,3)] t2(2) read_bits by (simp add: transfer_def)
  have c': "c' = (t2, q1, p[b := snd (sbitmap_a_and_b (p ! b) t2 (q1 ! b))])"
    and ch: "ch = (ch1 \<or> fst (sbitmap_a_and_b (p ! b) t2 (q1 ! b)))"
    using assms(3) read unfolding c visit_delayed_def Let_def t2_def
    by (auto split: prod.splits if_splits)
  have len: "b < length p" using wf(2) b by (simp add: wf_vector_def)
  have "bits_of q1 edge = ((bits_of q)(b := gather b (bits_of p))) edge"
    using q1 by (elim conjE) (rule fun_cong)
  then have "bits_of q1 edge = start" using edge by (cases "b = edge") (simp_all add: gather_def)
  moreover have "\<exists>xs. bs = xs @ ys \<and> (xs \<noteq> [] \<longrightarrow> ys \<noteq> [] \<longrightarrow> members t2 = rest_of (last xs))"
    by (rule exI [of _ "xs @ [b]"]) (simp add: xs t2)
  ultimately have "inv ys c'"
    using valid t2(1) q1 wf_vector_update [OF wf(2) wf_operations(4) [OF args(1)]]
    unfolding c' inv_def by simp
  moreover have "bits_of (p[b := snd (sbitmap_a_and_b (p ! b) t2 (q1 ! b))])
      = (bits_of p)(b := transfer b (gather b (bits_of p)))"
    by (simp add: bits_of_update [OF len] new)
  moreover have "ch \<longleftrightarrow> gather b (bits_of p) \<noteq> bits_of q b \<or> transfer b (gather b (bits_of p)) \<noteq> bits_of p b"
    using q1 changed_operations(2) [OF args(1), of t2 "q1 ! b"] new by (simp add: ch)
  ultimately show ?thesis using q1 len read_bits by (simp add: c' c new)
qed

lemma inv_restart: "inv [] c \<Longrightarrow> inv bs c"
  unfolding inv_def by (auto intro: exI [of _ "[]"])

lemma visit_facts:
  assumes "inv (b # ys) c" "b \<in> set bs" "visit b c = (ch, c')"
  shows "inv ys c'" "inputs c' = (inputs c)(b := gather b (outputs c))"
    "outputs c' = (outputs c)(b := transfer b (gather b (outputs c)))"
    "outputs c' b \<noteq> outputs c b \<Longrightarrow> ch"
    "ch \<Longrightarrow> outputs c' b \<noteq> outputs c b \<or> inputs c' b \<noteq> inputs c b"
proof -
  note steps = visit_steps [OF assms]
  show "inv ys c'" using steps by (elim conjE)
  show "inputs c' = (inputs c)(b := gather b (outputs c))" using steps by (elim conjE)
  show "outputs c' = (outputs c)(b := transfer b (gather b (outputs c)))" using steps by (elim conjE)
  have "ch \<longleftrightarrow> inputs c' b \<noteq> inputs c b \<or> outputs c' b \<noteq> outputs c b" using steps by (elim conjE)
  then show "outputs c' b \<noteq> outputs c b \<Longrightarrow> ch" "ch \<Longrightarrow> outputs c' b \<noteq> outputs c b \<or> inputs c' b \<noteq> inputs c b"
    by argo+
qed

lemma outputs_legal:
  assumes "inv ys c" "b \<in> set bs"
  shows "outputs c b \<in> Pow (all_bits w)"
proof -
  have "wf_vector n w (snd (snd c))" using assms(1) unfolding inv_def by (cases c) auto
  then show ?thesis using members_sub [OF wf_nth] blocks [OF assms(2)] by blast
qed

lemma equations_mono:
  "(\<And>i. X i \<subseteq> Y i) \<Longrightarrow> transfer b (gather b X) \<subseteq> transfer b (gather b Y)"
  using gather_bits_mono [of X Y w True None pred_succ "\<lambda>b. rest_of (before b)" b]
  by (auto simp: transfer_def gather_def)

end

sublocale delayed_pass \<subseteq> up: block_equations bs visit inv inputs outputs gather transfer
  "\<lambda>u v. v \<subseteq> u" "Pow (all_bits w)" "\<lambda>v. card (all_bits w - v)"
proof unfold_locales
  fix u v assume "u \<in> Pow (all_bits w)" "v \<in> Pow (all_bits w)" "v \<subseteq> u" "u \<noteq> v"
  then show "card (all_bits w - u) < card (all_bits w - v)" by (intro psubset_card_mono) auto
next
  show "transfer b (gather b Y) \<subseteq> transfer b (gather b X)" if "\<And>i. Y i \<subseteq> X i" for b X Y
    using that by (rule equations_mono)
qed (fact inv_restart visit_facts outputs_legal subset_refl subset_antisym | blast)+


context delayed_pass
begin

definition solved :: "sbitmap list \<Rightarrow> sbitmap list \<Rightarrow> sbitmap list \<Rightarrow> sbitmap list \<Rightarrow> bool" where
  "solved q p q' p' \<longleftrightarrow> wf_vector n w q' \<and> wf_vector n w p'
     \<and> (\<forall>b\<in>set bs. bits_of q' b = gather b (bits_of p') \<and> bits_of p' b = transfer b (bits_of q' b))
     \<and> (\<forall>b. b \<notin> set bs \<longrightarrow> bits_of p' b = bits_of p b \<and> bits_of q' b = bits_of q b)"

theorem from_below:
  assumes "inv [] (t, q, p)" "\<And>b. b \<in> set bs \<Longrightarrow> bits_of p b = {}"
  obtains t' q' p' where "iterate visit bs (t, q, p) = Some (t', q', p')" "solved q p q' p'"
    "\<And>Y i. (\<And>b. b \<in> set bs \<Longrightarrow> transfer b (gather b Y) \<subseteq> Y b) \<Longrightarrow> (\<And>b. bits_of p b \<subseteq> Y b) \<Longrightarrow>
      bits_of p' i \<subseteq> Y i"
proof -
  have desc: "up.descending (t, q, p)" unfolding up.descending_def using assms(2) by simp
  show ?thesis
  proof (rule up.iterate_solves [OF assms(1) desc])
    fix c' assume c': "iterate visit bs (t, q, p) = Some c'" "inv [] c'"
      "\<And>b. b \<in> set bs \<Longrightarrow> up.settled c' b" "up.below (outputs c') (outputs (t, q, p))"
      "\<And>i. i \<notin> set bs \<Longrightarrow> outputs c' i = outputs (t, q, p) i \<and> inputs c' i = inputs (t, q, p) i"
      "\<And>Y. (\<And>b. b \<in> set bs \<Longrightarrow> transfer b (gather b Y) \<subseteq> Y b) \<Longrightarrow> up.below Y (outputs (t, q, p)) \<Longrightarrow>
        up.below Y (outputs c')"
    obtain t' q' p' where e: "c' = (t', q', p')" by (cases c')
    have wf: "wf_vector n w q'" "wf_vector n w p'" using c'(2) unfolding inv_def e by simp_all
    show ?thesis
    proof (rule that [of t' q' p'])
      show "iterate visit bs (t, q, p) = Some (t', q', p')" using c'(1) by (simp only: e)
      show "solved q p q' p'"
        unfolding solved_def using c'(3,5) wf by (simp add: up.settled_def e)
      show "bits_of p' i \<subseteq> Y i"
        if "\<And>b. b \<in> set bs \<Longrightarrow> transfer b (gather b Y) \<subseteq> Y b" "\<And>b. bits_of p b \<subseteq> Y b" for Y i
        using c'(6) [of Y] that unfolding up.below_def e by simp
    qed
  qed
qed

end

end
