(* ===== verification/Lcm.thy ===== *)
theory Lcm
  imports Vector_Passes "HOL-Library.Monad_Syntax"
begin

text \<open>
  Lazy code motion (gcc/lcm.c): the passes that place the computations of expressions, and the
  two entry points pre_lcm and pre_rev_lcm.  The contents of fresh memory are a parameter,
  indexed by the number of the allocation, the bitmap of a vector and the word; freeing memory
  is left out.  A loop that did not end would give None.  The passes are instances of the
  locales of Vector_Passes, which gives their solutions.
\<close>

section \<open>The passes\<close>

type_synonym memory = "nat \<Rightarrow> nat \<Rightarrow> nat \<Rightarrow> elt"

definition after_allocations :: "nat \<Rightarrow> memory \<Rightarrow> memory" where
  "after_allocations k mem = (\<lambda>i. mem (k + i))"

text \<open>A loop over the blocks that stores a bitmap for each.\<close>

definition store_blocks :: "nat \<Rightarrow> (nat \<Rightarrow> sbitmap \<Rightarrow> sbitmap) \<Rightarrow> sbitmap list \<Rightarrow> sbitmap list" where
  "store_blocks n_blocks value v = map (\<lambda>bb. value bb (v ! bb)) [0..<n_blocks] @ drop n_blocks v"

definition compute_antinout ::
    "memory \<Rightarrow> nat \<Rightarrow> int list list \<Rightarrow> sbitmap list \<Rightarrow> sbitmap list \<Rightarrow> sbitmap list \<Rightarrow> sbitmap list
      \<Rightarrow> (sbitmap list \<times> sbitmap list) option" where
  "compute_antinout mem n_blocks s_succs antloc transparent antin antout =
    iterate_changed (mem 0 0, mem 1 0) n_blocks s_succs
      (visit_block sbitmap_intersect_of_predsucc (n_blocks - 1) s_succs
        (\<lambda>bb antin_bb antout_bb. sbitmap_a_or_b_and_c antin_bb (antloc ! bb) (transparent ! bb) antout_bb))
      (rev [0..<n_blocks])
      (sbitmap_vector_ones antin n_blocks,
       antout[n_blocks - 1 := sbitmap_zero (antout ! (n_blocks - 1))])"

definition compute_earlyinout ::
    "memory \<Rightarrow> nat \<Rightarrow> nat \<Rightarrow> int list list \<Rightarrow> sbitmap list \<Rightarrow> sbitmap list \<Rightarrow> sbitmap list \<Rightarrow> sbitmap list
      \<Rightarrow> (sbitmap list \<times> sbitmap list) option" where
  "compute_earlyinout mem n_blocks n_exprs s_preds transparent antin earlyin earlyout =
    (let temp_bitmap = sbitmap_alloc (mem 0 0) n_exprs in
     map_option prod.swap
      (iterate_changed (mem 1 0, mem 2 0) n_blocks s_preds
        (visit_block sbitmap_union_of_predsucc 0 s_preds
          (\<lambda>bb earlyout_bb earlyin_bb.
             sbitmap_union_of_diff earlyout_bb (sbitmap_not temp_bitmap (transparent ! bb)) earlyin_bb (antin ! bb)))
        [0..<n_blocks]
        (sbitmap_vector_zero earlyout n_blocks, earlyin[0 := sbitmap_ones (earlyin ! 0)])))"

definition compute_delayinout ::
    "memory \<Rightarrow> nat \<Rightarrow> nat \<Rightarrow> int list list \<Rightarrow> sbitmap list \<Rightarrow> sbitmap list \<Rightarrow> sbitmap list \<Rightarrow> sbitmap list
      \<Rightarrow> sbitmap list \<Rightarrow> (sbitmap list \<times> sbitmap list) option" where
  "compute_delayinout mem n_blocks n_exprs s_preds antloc antin earlyin delayin delayout =
    (let temp_bitmap = sbitmap_alloc (mem 0 0) n_exprs;
         anti_and_early = store_blocks n_blocks
           (\<lambda>bb v. snd (sbitmap_a_and_b v (antin ! bb) (earlyin ! bb)))
           (sbitmap_vector_alloc (mem 1) n_blocks n_exprs) in
     map_option snd
      (iterate (visit_delayed 0 s_preds anti_and_early antloc) [0..<n_blocks]
        (temp_bitmap, delayin[0 := sbitmap_copy (delayin ! 0) (anti_and_early ! 0)],
         sbitmap_vector_zero delayout n_blocks)))"

definition compute_latein ::
    "memory \<Rightarrow> nat \<Rightarrow> nat \<Rightarrow> int list list \<Rightarrow> sbitmap list \<Rightarrow> sbitmap list \<Rightarrow> sbitmap list \<Rightarrow> sbitmap list" where
  "compute_latein mem n_blocks n_exprs s_succs antloc delayin latein =
    snd (fold (\<lambda>bb (temp_bitmap, latein).
       let temp_bitmap =
         (if bb = n_blocks - 1
          then let temp_bitmap = sbitmap_intersect_of_predsucc temp_bitmap delayin bb s_succs in
            sbitmap_not temp_bitmap temp_bitmap
          else sbitmap_ones temp_bitmap) in
       (temp_bitmap,
        latein[bb := snd (sbitmap_a_and_b_or_c (latein ! bb) (delayin ! bb) (antloc ! bb) temp_bitmap)]))
      [0..<n_blocks] (sbitmap_alloc (mem 0 0) n_exprs, latein))"

definition compute_isoinout ::
    "nat \<Rightarrow> int list list \<Rightarrow> sbitmap list \<Rightarrow> sbitmap list \<Rightarrow> sbitmap list \<Rightarrow> sbitmap list
      \<Rightarrow> (sbitmap list \<times> sbitmap list) option" where
  "compute_isoinout n_blocks s_succs antloc latein isoin isoout =
    iterate (visit_block sbitmap_intersect_of_predsucc (n_blocks - 1) s_succs
        (\<lambda>bb isoin_bb isoout_bb. sbitmap_union_of_diff isoin_bb (latein ! bb) isoout_bb (antloc ! bb)))
      (rev [0..<n_blocks])
      (sbitmap_vector_zero isoin n_blocks,
       isoout[n_blocks - 1 := sbitmap_zero (isoout ! (n_blocks - 1))])"

definition compute_optimal ::
    "nat \<Rightarrow> sbitmap list \<Rightarrow> sbitmap list \<Rightarrow> sbitmap list \<Rightarrow> sbitmap list" where
  "compute_optimal n_blocks latein isoout optimal =
    store_blocks n_blocks (\<lambda>bb v. sbitmap_difference v (latein ! bb) (isoout ! bb)) optimal"

definition compute_redundant ::
    "memory \<Rightarrow> nat \<Rightarrow> nat \<Rightarrow> sbitmap list \<Rightarrow> sbitmap list \<Rightarrow> sbitmap list \<Rightarrow> sbitmap list \<Rightarrow> sbitmap list" where
  "compute_redundant mem n_blocks n_exprs antloc latein isoout redundant =
    (let temp_bitmap = sbitmap_alloc (mem 0 0) n_exprs in
     store_blocks n_blocks
       (\<lambda>bb v. sbitmap_difference v (antloc ! bb)
          (snd (sbitmap_a_or_b temp_bitmap (latein ! bb) (isoout ! bb)))) redundant)"

subsection \<open>On the reversed graph\<close>

definition compute_avinout ::
    "nat \<Rightarrow> int list list \<Rightarrow> sbitmap list \<Rightarrow> sbitmap list \<Rightarrow> sbitmap list \<Rightarrow> sbitmap list
      \<Rightarrow> (sbitmap list \<times> sbitmap list) option" where
  "compute_avinout n_blocks s_preds avloc transparent avin avout =
    map_option prod.swap
      (iterate (visit_block sbitmap_intersect_of_predsucc 0 s_preds
          (\<lambda>bb avout_bb avin_bb. sbitmap_a_or_b_and_c avout_bb (avloc ! bb) (transparent ! bb) avin_bb))
        [0..<n_blocks]
        (sbitmap_vector_ones avout n_blocks, avin[0 := sbitmap_zero (avin ! 0)]))"

definition compute_fartherinout ::
    "memory \<Rightarrow> nat \<Rightarrow> nat \<Rightarrow> int list list \<Rightarrow> sbitmap list \<Rightarrow> sbitmap list \<Rightarrow> sbitmap list \<Rightarrow> sbitmap list
      \<Rightarrow> (sbitmap list \<times> sbitmap list) option" where
  "compute_fartherinout mem n_blocks n_exprs s_succs transparent avout fartherin fartherout =
    (let temp_bitmap = sbitmap_alloc (mem 0 0) n_exprs in
     iterate (visit_block sbitmap_union_of_predsucc (n_blocks - 1) s_succs
          (\<lambda>bb fartherin_bb fartherout_bb.
             sbitmap_union_of_diff fartherin_bb (sbitmap_not temp_bitmap (transparent ! bb)) fartherout_bb (avout ! bb)))
        (rev [0..<n_blocks])
        (sbitmap_vector_zero fartherin n_blocks,
         fartherout[n_blocks - 1 := sbitmap_ones (fartherout ! (n_blocks - 1))]))"

definition compute_earlierinout ::
    "memory \<Rightarrow> nat \<Rightarrow> nat \<Rightarrow> int list list \<Rightarrow> sbitmap list \<Rightarrow> sbitmap list \<Rightarrow> sbitmap list \<Rightarrow> sbitmap list
      \<Rightarrow> sbitmap list \<Rightarrow> (sbitmap list \<times> sbitmap list) option" where
  "compute_earlierinout mem n_blocks n_exprs s_succs avloc avout fartherout earlierin earlierout =
    (let temp_bitmap = sbitmap_alloc (mem 0 0) n_exprs;
         av_and_farther = store_blocks n_blocks
           (\<lambda>bb v. snd (sbitmap_a_and_b v (avout ! bb) (fartherout ! bb)))
           (sbitmap_vector_alloc (mem 1) n_blocks n_exprs) in
     map_option (prod.swap \<circ> snd)
      (iterate (visit_delayed (n_blocks - 1) s_succs av_and_farther avloc) (rev [0..<n_blocks])
        (temp_bitmap,
         earlierout[n_blocks - 1 := sbitmap_copy (earlierout ! (n_blocks - 1)) (av_and_farther ! (n_blocks - 1))],
         sbitmap_vector_zero earlierin n_blocks)))"

definition compute_firstout ::
    "memory \<Rightarrow> nat \<Rightarrow> nat \<Rightarrow> int list list \<Rightarrow> sbitmap list \<Rightarrow> sbitmap list \<Rightarrow> sbitmap list \<Rightarrow> sbitmap list" where
  "compute_firstout mem n_blocks n_exprs s_preds avloc earlierout firstout =
    snd (fold (\<lambda>bb (temp_bitmap, firstout).
       let temp_bitmap =
         (if bb \<noteq> 0
          then let temp_bitmap = sbitmap_intersect_of_predsucc temp_bitmap earlierout bb s_preds in
            sbitmap_not temp_bitmap temp_bitmap
          else sbitmap_ones temp_bitmap) in
       (temp_bitmap,
        firstout[bb := snd (sbitmap_a_and_b_or_c (firstout ! bb) (earlierout ! bb) (avloc ! bb) temp_bitmap)]))
      [0..<n_blocks] (sbitmap_alloc (mem 0 0) n_exprs, firstout))"

definition compute_rev_isoinout ::
    "nat \<Rightarrow> int list list \<Rightarrow> sbitmap list \<Rightarrow> sbitmap list \<Rightarrow> sbitmap list \<Rightarrow> sbitmap list
      \<Rightarrow> (sbitmap list \<times> sbitmap list) option" where
  "compute_rev_isoinout n_blocks s_preds avloc firstout rev_isoin rev_isoout =
    map_option prod.swap
      (iterate (visit_block sbitmap_intersect_of_predsucc 0 s_preds
          (\<lambda>bb rev_isoout_bb rev_isoin_bb.
             sbitmap_union_of_diff rev_isoout_bb (firstout ! bb) rev_isoin_bb (avloc ! bb)))
        [0..<n_blocks]
        (sbitmap_vector_zero rev_isoout n_blocks, rev_isoin[0 := sbitmap_zero (rev_isoin ! 0)]))"

section \<open>The entry points\<close>

text \<open>
  The allocations of an entry point are numbered in program order: two vectors before each pass
  with two results, and the temporaries of the pass behind them.
\<close>

definition pre_lcm ::
    "memory \<Rightarrow> nat \<Rightarrow> nat \<Rightarrow> int list list \<Rightarrow> int list list \<Rightarrow> sbitmap list \<Rightarrow> sbitmap list
      \<Rightarrow> sbitmap list \<Rightarrow> sbitmap list \<Rightarrow> (sbitmap list \<times> sbitmap list) option" where
  "pre_lcm mem n_blocks n_exprs s_preds s_succs transparent antloc redundant optimal =
    (let vector = (\<lambda>k. sbitmap_vector_alloc (mem k) n_blocks n_exprs) in
     do {
       (antin, antout) \<leftarrow> compute_antinout (after_allocations 2 mem) n_blocks s_succs antloc transparent
         (vector 0) (vector 1);
       (earlyin, earlyout) \<leftarrow> compute_earlyinout (after_allocations 6 mem) n_blocks n_exprs s_preds
         transparent antin (vector 4) (vector 5);
       (delayin, delayout) \<leftarrow> compute_delayinout (after_allocations 11 mem) n_blocks n_exprs s_preds
         antloc antin earlyin (vector 9) (vector 10);
       let latein = compute_latein (after_allocations 14 mem) n_blocks n_exprs s_succs antloc delayin
         (vector 13);
       (isoin, isoout) \<leftarrow> compute_isoinout n_blocks s_succs antloc latein (vector 15) (vector 16);
       let optimal = compute_optimal n_blocks latein isoout optimal;
       let redundant = compute_redundant (after_allocations 17 mem) n_blocks n_exprs antloc latein isoout
         redundant;
       Some (redundant, optimal)
     })"

definition pre_rev_lcm ::
    "memory \<Rightarrow> nat \<Rightarrow> nat \<Rightarrow> int list list \<Rightarrow> int list list \<Rightarrow> sbitmap list \<Rightarrow> sbitmap list
      \<Rightarrow> sbitmap list \<Rightarrow> sbitmap list \<Rightarrow> (sbitmap list \<times> sbitmap list) option" where
  "pre_rev_lcm mem n_blocks n_exprs s_preds s_succs transparent avloc redundant optimal =
    (let vector = (\<lambda>k. sbitmap_vector_alloc (mem k) n_blocks n_exprs) in
     do {
       (avin, avout) \<leftarrow> compute_avinout n_blocks s_preds avloc transparent (vector 0) (vector 1);
       (fartherin, fartherout) \<leftarrow> compute_fartherinout (after_allocations 4 mem) n_blocks n_exprs s_succs
         transparent avout (vector 2) (vector 3);
       (earlierin, earlierout) \<leftarrow> compute_earlierinout (after_allocations 7 mem) n_blocks n_exprs s_succs
         avloc avout fartherout (vector 5) (vector 6);
       let firstout = compute_firstout (after_allocations 10 mem) n_blocks n_exprs s_preds avloc earlierout
         (vector 9);
       (rev_isoin, rev_isoout) \<leftarrow> compute_rev_isoinout n_blocks s_preds avloc firstout (vector 11) (vector 12);
       let optimal = compute_optimal n_blocks firstout rev_isoin optimal;
       let redundant = compute_redundant (after_allocations 13 mem) n_blocks n_exprs avloc firstout rev_isoin
         redundant;
       Some (redundant, optimal)
     })"

end
