(* ===== verification/Lcm_Solutions.thy ===== *)
theory Lcm_Solutions
  imports Lcm
begin

text \<open>
  What the passes of lcm.c compute: every loop is an instance of a locale of Vector_Passes, so
  it ends on every flow graph, and its result solves the equations of the pass, as sets of bits.
\<close>

section \<open>The loops as passes\<close>

lemmas bitmap_facts = members_operations changed_operations wf_operations

lemma n_bits_operations:
  "n_bits (snd (sbitmap_union_of_diff d a b c)) = n_bits d"
  "n_bits (snd (sbitmap_a_or_b_and_c d a b c)) = n_bits d"
  by (simp_all add: sbitmap_union_of_diff_def sbitmap_a_or_b_and_c_def store_words_def)

lemma combine_is:
  "sbitmap_intersect_of_predsucc = combine_blocks True"
  "sbitmap_union_of_predsucc = combine_blocks False"
  by (simp_all add: combine_blocks_def)

text \<open>The inputs of a pass: a graph, and two vectors of its size.\<close>

definition pass_inputs :: "nat \<Rightarrow> nat \<Rightarrow> int list list \<Rightarrow> sbitmap list \<Rightarrow> sbitmap list \<Rightarrow> bool" where
  "pass_inputs n w g u v \<longleftrightarrow> 0 < n \<and> wf_graph n g \<and> wf_vector n w u \<and> wf_vector n w v"

lemma pass_inputs_nth:
  "pass_inputs n w g u v \<Longrightarrow> b < n \<Longrightarrow> wf_bitmap w (u ! b)"
  "pass_inputs n w g u v \<Longrightarrow> b < n \<Longrightarrow> wf_bitmap w (v ! b)"
  unfolding pass_inputs_def by (blast intro: wf_nth)+

text \<open>The three ways in which a value is computed from what a block read.\<close>

lemma vector_pass_gen_or_pass:
  assumes "\<And>b. b \<in> set bs \<Longrightarrow> b < n"
  shows "vector_pass n w (pass_inputs n w g gen pass) bs g
    (\<lambda>bb d x. sbitmap_a_or_b_and_c d (gen ! bb) (pass ! bb) x)
    (\<lambda>b X. bits_of gen b \<union> (bits_of pass b \<inter> X))"
proof
  fix b d x assume "pass_inputs n w g gen pass" "b < n" "wf_bitmap w d" "wf_bitmap w x"
  then show "members (snd (sbitmap_a_or_b_and_c d (gen ! b) (pass ! b) x))
      = bits_of gen b \<union> (bits_of pass b \<inter> members x)"
    using pass_inputs_nth by (simp add: members_operations)
next
  show "bits_of gen b \<union> (bits_of pass b \<inter> X) \<subseteq> all_bits w"
    if "pass_inputs n w g gen pass" "b < n" "X \<subseteq> all_bits w" for b X
    using that(3) members_sub [OF pass_inputs_nth(1) [OF that(1,2)]]
      members_sub [OF pass_inputs_nth(2) [OF that(1,2)]] by blast
qed (use assms in \<open>auto simp: pass_inputs_def changed_operations wf_operations n_bits_operations\<close>)

lemma vector_pass_gen_or_keep:
  assumes "\<And>b. b \<in> set bs \<Longrightarrow> b < n"
  shows "vector_pass n w (pass_inputs n w g gen kill) bs g
    (\<lambda>bb d x. sbitmap_union_of_diff d (gen ! bb) x (kill ! bb))
    (\<lambda>b X. bits_of gen b \<union> (X - bits_of kill b))"
proof
  fix b d x assume "pass_inputs n w g gen kill" "b < n" "wf_bitmap w d" "wf_bitmap w x"
  then show "members (snd (sbitmap_union_of_diff d (gen ! b) x (kill ! b)))
      = bits_of gen b \<union> (members x - bits_of kill b)"
    using pass_inputs_nth by (simp add: members_operations)
next
  show "bits_of gen b \<union> (X - bits_of kill b) \<subseteq> all_bits w"
    if "pass_inputs n w g gen kill" "b < n" "X \<subseteq> all_bits w" for b X
    using that(3) members_sub [OF pass_inputs_nth(1) [OF that(1,2)]]
      members_sub [OF pass_inputs_nth(2) [OF that(1,2)]] by blast
qed (use assms in \<open>auto simp: pass_inputs_def changed_operations wf_operations n_bits_operations\<close>)

lemma vector_pass_not_or_keep:
  assumes "\<And>b. b \<in> set bs \<Longrightarrow> b < n"
  shows "vector_pass n w (wf_bitmap w temp \<and> pass_inputs n w g pass kill) bs g
    (\<lambda>bb d x. sbitmap_union_of_diff d (sbitmap_not temp (pass ! bb)) x (kill ! bb))
    (\<lambda>b X. (all_bits w - bits_of pass b) \<union> (X - bits_of kill b))"
proof
  fix b d x assume in_: "wf_bitmap w temp \<and> pass_inputs n w g pass kill" "b < n" "wf_bitmap w d" "wf_bitmap w x"
  then have wf: "wf_bitmap w temp" "wf_bitmap w (pass ! b)" "wf_bitmap w (kill ! b)"
    using pass_inputs_nth by blast+
  note neg = wf_operations(2) [OF wf(1), of "pass ! b"] members_operations(2) [OF wf(1,2,2,2)]
  show "members (snd (sbitmap_union_of_diff d (sbitmap_not temp (pass ! b)) x (kill ! b)))
      = (all_bits w - bits_of pass b) \<union> (members x - bits_of kill b)"
    using members_operations(1) [OF in_(3) neg(1) in_(4) wf(3)] neg(2) by simp
qed (use assms in \<open>auto simp: pass_inputs_def changed_operations wf_operations n_bits_operations\<close>)

interpretation antinout: changed_pass n w "pass_inputs n w s_succs antloc transparent"
  "filter (\<lambda>b. s_succs ! b \<noteq> []) (rev [0..<n])" "n - 1" s_succs True
  "\<lambda>bb d x. sbitmap_a_or_b_and_c d (antloc ! bb) (transparent ! bb) x"
  "\<lambda>b X. bits_of antloc b \<union> (bits_of transparent b \<inter> X)" start "rev [0..<n]"
  for n w s_succs antloc transparent start
  by (intro changed_pass.intro vector_pass_gen_or_pass changed_pass_axioms.intro) auto

interpretation earlyinout: changed_pass n w "wf_bitmap w temp \<and> pass_inputs n w s_preds transparent antin"
  "filter (\<lambda>b. s_preds ! b \<noteq> []) [0..<n]" 0 s_preds False
  "\<lambda>bb d x. sbitmap_union_of_diff d (sbitmap_not temp (transparent ! bb)) x (antin ! bb)"
  "\<lambda>b X. (all_bits w - bits_of transparent b) \<union> (X - bits_of antin b)" start "[0..<n]"
  for n w temp s_preds transparent antin start
  by (intro changed_pass.intro vector_pass_not_or_keep changed_pass_axioms.intro) auto

interpretation isoinout: vector_pass n w "pass_inputs n w s_succs latein antloc" "rev [0..<n]" "n - 1"
  s_succs True "\<lambda>bb d x. sbitmap_union_of_diff d (latein ! bb) x (antloc ! bb)"
  "\<lambda>b X. bits_of latein b \<union> (X - bits_of antloc b)" start
  for n w s_succs latein antloc start
  by (rule vector_pass_gen_or_keep) auto

interpretation avinout: vector_pass n w "pass_inputs n w s_preds avloc transparent" "[0..<n]" 0 s_preds True
  "\<lambda>bb d x. sbitmap_a_or_b_and_c d (avloc ! bb) (transparent ! bb) x"
  "\<lambda>b X. bits_of avloc b \<union> (bits_of transparent b \<inter> X)" start
  for n w s_preds avloc transparent start
  by (rule vector_pass_gen_or_pass) auto

interpretation fartherinout: vector_pass n w "wf_bitmap w temp \<and> pass_inputs n w s_succs transparent avout"
  "rev [0..<n]" "n - 1" s_succs False
  "\<lambda>bb d x. sbitmap_union_of_diff d (sbitmap_not temp (transparent ! bb)) x (avout ! bb)"
  "\<lambda>b X. (all_bits w - bits_of transparent b) \<union> (X - bits_of avout b)" start
  for n w temp s_succs transparent avout start
  by (rule vector_pass_not_or_keep) auto

interpretation rev_isoinout: vector_pass n w "pass_inputs n w s_preds firstout avloc" "[0..<n]" 0
  s_preds True "\<lambda>bb d x. sbitmap_union_of_diff d (firstout ! bb) x (avloc ! bb)"
  "\<lambda>b X. bits_of firstout b \<union> (X - bits_of avloc b)" start
  for n w s_preds firstout avloc start
  by (rule vector_pass_gen_or_keep) auto

lemma upt_order: "[0..<n] = xs @ a # b # ys \<Longrightarrow> b - 1 = a"
proof -
  assume eq: "[0..<n] = xs @ a # b # ys"
  let ?k = "length xs"
  have "length [0..<n] = ?k + 2 + length ys" by (simp only: eq) simp
  then have "?k + 1 < n" by simp
  moreover have "[0..<n] ! ?k = a" "[0..<n] ! (?k + 1) = b" by (simp_all only: eq) (simp_all add: nth_append)
  ultimately show ?thesis by simp
qed

lemma rev_upt_order: "rev [0..<n] = xs @ a # b # ys \<Longrightarrow> Suc b = a"
proof -
  assume "rev [0..<n] = xs @ a # b # ys"
  then have eq: "[0..<n] = rev ys @ b # a # rev xs" by (metis append.assoc append_Cons append_Nil rev_append rev_rev_ident rev.simps)
  have "0 < a"
  proof (rule ccontr)
    assume "\<not> 0 < a"
    then have "[0..<n] = rev ys @ b # 0 # rev xs" using eq by simp
    then have "sorted (rev ys @ b # 0 # rev xs)" "distinct (rev ys @ b # 0 # rev xs)"
      by (metis sorted_upt, metis distinct_upt)
    then show False by (simp add: sorted_append)
  qed
  then show ?thesis using upt_order [OF eq] by simp
qed

interpretation delayinout: delayed_pass n w "pass_inputs n w s_preds both antloc" "[0..<n]" 0 s_preds
  both antloc "\<lambda>b. b - 1" start
  for n w s_preds both antloc start
  by unfold_locales (auto simp: pass_inputs_def upt_order [simplified] upt_eq_Cons_conv)

interpretation earlierinout: delayed_pass n w "pass_inputs n w s_succs both avloc" "rev [0..<n]" "n - 1"
  s_succs both avloc Suc start
  for n w s_succs both avloc start
proof
  fix b ys assume "pass_inputs n w s_succs both avloc" "rev [0..<n] = b # ys"
  then have "rev [0..<n] ! 0 = b" "0 < n" by (simp_all add: pass_inputs_def)
  then show "b = n - 1" by (simp add: rev_nth)
qed (auto simp: pass_inputs_def rev_upt_order)


section \<open>The results\<close>

text \<open>Anticipatability.\<close>

lemma compute_antinout_solves:
  assumes "pass_inputs n w s_succs antloc transparent" "wf_vector n w antin" "wf_vector n w antout"
  obtains antin' antout' where
    "compute_antinout mem n s_succs antloc transparent antin antout = Some (antin', antout')"
    "wf_vector n w antin'" "bits_of antout' (n - 1) = {}"
    "\<And>b. b < n \<Longrightarrow> s_succs ! b \<noteq> [] \<Longrightarrow>
      bits_of antin' b = bits_of antloc b \<union> (bits_of transparent b \<inter> bits_of antout' b)"
    "\<And>b. b < n \<Longrightarrow> s_succs ! b = [] \<Longrightarrow> bits_of antin' b = all_bits w"
    "\<And>b s. b < n \<Longrightarrow> b \<noteq> n - 1 \<Longrightarrow> s \<in> blocks_of (s_succs ! b) \<Longrightarrow> bits_of antout' b \<subseteq> bits_of antin' s"
proof -
  let ?q = "antout[n - 1 := sbitmap_zero (antout ! (n - 1))]"
  have n: "0 < n" using assms(1) by (simp add: pass_inputs_def)
  have last: "n - 1 < n" using n by simp
  note q = wf_edge [OF assms(3) last]
  from antinout.run_above [OF assms(1,2) q(2) n refl] obtain p' q' where
    r: "iterate (visit_block (combine_blocks True) (n - 1) s_succs
        (\<lambda>bb d x. sbitmap_a_or_b_and_c d (antloc ! bb) (transparent ! bb) x))
        (filter (\<lambda>b. s_succs ! b \<noteq> []) (rev [0..<n])) (sbitmap_vector_ones antin n, ?q) = Some (p', q')"
      "antinout.inv n w s_succs antloc transparent (bits_of ?q) [] (sbitmap_vector_ones antin n, ?q)"
      "antinout.result n w s_succs antloc transparent (all_bits w) ?q p' q'" .
  have "compute_antinout mem n s_succs antloc transparent antin antout = Some (p', q')"
    unfolding compute_antinout_def combine_is r(1) [symmetric]
    by (rule antinout.down_changed.iterate_changed_plain [OF r(2) refl])
  then show ?thesis
    by (rule that) (use r(3) [unfolded antinout.result_def] q(4) n has_blocks in simp_all)
qed

text \<open>Earliness.\<close>

lemma compute_earlyinout_solves:
  assumes "pass_inputs n w s_preds transparent antin" "w = SBITMAP_SET_SIZE n_exprs"
    "wf_vector n w earlyin" "wf_vector n w earlyout"
  obtains earlyin' earlyout' where
    "compute_earlyinout mem n n_exprs s_preds transparent antin earlyin earlyout = Some (earlyin', earlyout')"
    "wf_vector n w earlyin'" "bits_of earlyin' 0 = all_bits w"
    "\<And>b. b < n \<Longrightarrow> s_preds ! b \<noteq> [] \<Longrightarrow>
      bits_of earlyout' b = (all_bits w - bits_of transparent b) \<union> (bits_of earlyin' b - bits_of antin b)"
    "\<And>b s. b < n \<Longrightarrow> b \<noteq> 0 \<Longrightarrow> s \<in> blocks_of (s_preds ! b) \<Longrightarrow> bits_of earlyout' s \<subseteq> bits_of earlyin' b"
proof -
  let ?q = "earlyin[0 := sbitmap_ones (earlyin ! 0)]" and ?temp = "sbitmap_alloc (mem 0 0) n_exprs"
  have n: "0 < n" using assms(1) by (simp add: pass_inputs_def)
  note q = wf_edge [OF assms(3) n]
  have valid: "wf_bitmap w ?temp \<and> pass_inputs n w s_preds transparent antin"
    using assms(1,2) wf_bitmap_alloc by blast
  from earlyinout.run_below [OF valid assms(4) q(1) n refl] obtain p' q' where
    r: "iterate (visit_block (combine_blocks False) 0 s_preds
        (\<lambda>bb d x. sbitmap_union_of_diff d (sbitmap_not ?temp (transparent ! bb)) x (antin ! bb)))
        (filter (\<lambda>b. s_preds ! b \<noteq> []) [0..<n]) (sbitmap_vector_zero earlyout n, ?q) = Some (p', q')"
      "earlyinout.inv n w ?temp s_preds transparent antin (bits_of ?q) [] (sbitmap_vector_zero earlyout n, ?q)"
      "earlyinout.result n w s_preds transparent antin {} ?q p' q'" .
  have "iterate_changed (mem 1 0, mem 2 0) n s_preds (visit_block (combine_blocks False) 0 s_preds
        (\<lambda>bb d x. sbitmap_union_of_diff d (sbitmap_not ?temp (transparent ! bb)) x (antin ! bb)))
        [0..<n] (sbitmap_vector_zero earlyout n, ?q) = Some (p', q')"
    unfolding r(1) [symmetric] by (rule earlyinout.up_changed.iterate_changed_plain [OF r(2) refl])
  then have "compute_earlyinout mem n n_exprs s_preds transparent antin earlyin earlyout = Some (q', p')"
    unfolding compute_earlyinout_def combine_is Let_def by simp
  then show ?thesis
    by (rule that) (use r(3) [unfolded earlyinout.result_def] q(3) n has_blocks in simp_all)
qed

text \<open>Isolation.\<close>

lemma compute_isoinout_solves:
  assumes "pass_inputs n w s_succs latein antloc" "wf_vector n w isoin" "wf_vector n w isoout"
  obtains isoin' isoout' where
    "compute_isoinout n s_succs antloc latein isoin isoout = Some (isoin', isoout')"
    "wf_vector n w isoout'" "bits_of isoout' (n - 1) = {}"
    "\<And>b. b < n \<Longrightarrow> bits_of isoin' b = bits_of latein b \<union> (bits_of isoout' b - bits_of antloc b)"
    "\<And>b s. b < n \<Longrightarrow> b \<noteq> n - 1 \<Longrightarrow> s \<in> blocks_of (s_succs ! b) \<Longrightarrow> bits_of isoout' b \<subseteq> bits_of isoin' s"
proof -
  let ?q = "isoout[n - 1 := sbitmap_zero (isoout ! (n - 1))]"
  have n: "0 < n" using assms(1) by (simp add: pass_inputs_def)
  have last: "n - 1 < n" using n by simp
  note q = wf_edge [OF assms(3) last]
  from isoinout.run_below [OF assms(1,2) q(2) n refl] obtain p' q' where
    r: "iterate (visit_block (combine_blocks True) (n - 1) s_succs
        (\<lambda>bb d x. sbitmap_union_of_diff d (latein ! bb) x (antloc ! bb)))
        (rev [0..<n]) (sbitmap_vector_zero isoin n, ?q) = Some (p', q')"
      "isoinout.result n w s_succs latein antloc {} ?q p' q'" .
  then have "compute_isoinout n s_succs antloc latein isoin isoout = Some (p', q')"
    unfolding compute_isoinout_def combine_is by simp
  then show ?thesis
    by (rule that) (use r(2) [unfolded isoinout.result_def] q(4) in simp_all)
qed


text \<open>Loops that store one bitmap for each block.\<close>

lemma store_blocks_facts:
  assumes "wf_vector n w v" "\<And>b d. b < n \<Longrightarrow> wf_bitmap w d \<Longrightarrow> wf_bitmap w (value b d)"
  shows "wf_vector n w (store_blocks n value v)"
    "b < n \<Longrightarrow> store_blocks n value v ! b = value b (v ! b)"
proof -
  have len: "length v = n" using assms(1) by (simp add: wf_vector_def)
  show "wf_vector n w (store_blocks n value v)"
    using assms len by (auto simp: store_blocks_def wf_vector_def)
  show "b < n \<Longrightarrow> store_blocks n value v ! b = value b (v ! b)"
    by (simp add: store_blocks_def len)
qed

text \<open>Delayedness.\<close>

lemma wf_copied:
  assumes "wf_vector n w v" "wf_bitmap w b" "i < n"
  shows "wf_vector n w (v[i := sbitmap_copy (v ! i) b])" "bits_of (v[i := sbitmap_copy (v ! i) b]) i = members b"
proof -
  note wf = wf_nth [OF assms(1,3)]
  have "i < length v" using assms by (simp add: wf_vector_def)
  then show "wf_vector n w (v[i := sbitmap_copy (v ! i) b])" "bits_of (v[i := sbitmap_copy (v ! i) b]) i = members b"
    using wf_vector_update [OF assms(1)] wf_operations(8) [OF wf] members_operations(8) [OF wf assms(2,2,2)]
    by simp_all
qed

lemma both_facts:
  assumes "wf_vector n w u" "wf_vector n w v" "wf_vector n w d"
  shows "wf_vector n w (store_blocks n (\<lambda>bb x. snd (sbitmap_a_and_b x (u ! bb) (v ! bb))) d)"
    "b < n \<Longrightarrow> bits_of (store_blocks n (\<lambda>bb x. snd (sbitmap_a_and_b x (u ! bb) (v ! bb))) d) b
      = bits_of u b \<inter> bits_of v b"
proof -
  have wf: "wf_bitmap w (snd (sbitmap_a_and_b x (u ! b) (v ! b)))" if "wf_bitmap w x" for b x
    by (rule wf_operations(4) [OF that])
  show "wf_vector n w (store_blocks n (\<lambda>bb x. snd (sbitmap_a_and_b x (u ! bb) (v ! bb))) d)"
    by (rule store_blocks_facts(1) [OF assms(3)]) (rule wf)
  assume b: "b < n"
  note args = wf_nth [OF assms(3) b] wf_nth [OF assms(1) b] wf_nth [OF assms(2) b]
  show "bits_of (store_blocks n (\<lambda>bb x. snd (sbitmap_a_and_b x (u ! bb) (v ! bb))) d) b
      = bits_of u b \<inter> bits_of v b"
    using store_blocks_facts(2) [OF assms(3) wf b] members_operations(4) [OF args args(3)] by simp
qed

lemma compute_delayinout_solves:
  assumes "0 < n" "wf_graph n s_preds" "wf_vector n w antloc" "wf_vector n w antin" "wf_vector n w earlyin"
    "w = SBITMAP_SET_SIZE n_exprs" "wf_vector n w delayin" "wf_vector n w delayout"
  obtains delayin' delayout' where
    "compute_delayinout mem n n_exprs s_preds antloc antin earlyin delayin delayout = Some (delayin', delayout')"
    "wf_vector n w delayin'" "bits_of delayin' 0 = bits_of antin 0 \<inter> bits_of earlyin 0"
    "\<And>b. b < n \<Longrightarrow> bits_of delayout' b = (all_bits w - bits_of antloc b) \<inter> bits_of delayin' b"
    "\<And>b. b < n \<Longrightarrow> bits_of antin b \<inter> bits_of earlyin b \<subseteq> bits_of delayin' b"
    "\<And>b s. b < n \<Longrightarrow> b \<noteq> 0 \<Longrightarrow> s \<in> blocks_of (s_preds ! b) \<Longrightarrow>
      bits_of delayin' b \<subseteq> (bits_of antin b \<inter> bits_of earlyin b) \<union> bits_of delayout' s"
    "\<And>Y i. (\<And>b X. b < n \<Longrightarrow> b \<noteq> 0 \<Longrightarrow> (\<And>s. s \<in> blocks_of (s_preds ! b) \<Longrightarrow> X \<subseteq> Y s) \<Longrightarrow>
         (all_bits w - bits_of antloc b) \<inter> ((bits_of antin b \<inter> bits_of earlyin b) \<union> X) \<subseteq> Y b) \<Longrightarrow>
       (all_bits w - bits_of antloc 0) \<inter> (bits_of antin 0 \<inter> bits_of earlyin 0) \<subseteq> Y 0 \<Longrightarrow>
       i < n \<Longrightarrow> bits_of delayout' i \<subseteq> Y i"
proof -
  let ?t = "sbitmap_alloc (mem 0 0) n_exprs" and ?d = "sbitmap_vector_alloc (mem 1) n n_exprs"
  let ?both = "store_blocks n (\<lambda>bb v. snd (sbitmap_a_and_b v (antin ! bb) (earlyin ! bb))) ?d"
  let ?q = "delayin[0 := sbitmap_copy (delayin ! 0) (?both ! 0)]" and ?p = "sbitmap_vector_zero delayout n"
  have wf: "wf_bitmap w ?t" "wf_vector n w ?d" using assms(6) wf_bitmap_alloc wf_vector_alloc by blast+
  note both = both_facts [OF assms(4,5) wf(2)]
  note q = wf_copied [OF assms(7) wf_nth [OF both(1) assms(1)] assms(1)]
  note p = wf_vector_start [OF assms(8,1)]
  have valid: "pass_inputs n w s_preds ?both antloc" using assms both(1) by (simp add: pass_inputs_def)
  let ?start = "bits_of ?q 0"
  have inv: "delayinout.inv n w s_preds ?both antloc ?start [] (?t, ?q, ?p)"
    unfolding delayinout.inv_def using valid wf(1) p(2) q(1) by simp
  have zero: "bits_of ?p b = {}" if "b \<in> set [0..<n]" for b using p that by simp
  show ?thesis
  proof (rule delayinout.from_below [OF inv zero])
  fix t' q' p' assume
    r: "iterate (visit_delayed 0 s_preds ?both antloc) [0..<n] (?t, ?q, ?p) = Some (t', q', p')"
      "delayinout.solved n w s_preds ?both antloc ?start ?q ?p q' p'"
      "\<And>Y i. (\<And>b. b \<in> set [0..<n] \<Longrightarrow>
         delayinout.transfer w antloc b (delayinout.gather w s_preds ?both antloc ?start b Y) \<subseteq> Y b) \<Longrightarrow>
         (\<And>b. bits_of ?p b \<subseteq> Y b) \<Longrightarrow> bits_of p' i \<subseteq> Y i"
  note sol = r(2) [unfolded delayinout.solved_def delayinout.gather_def delayinout.transfer_def delayinout.rest_of_def]
  show ?thesis
  proof (rule that [of q' p'])
    show "compute_delayinout mem n n_exprs s_preds antloc antin earlyin delayin delayout = Some (q', p')"
      unfolding compute_delayinout_def Let_def r(1) by simp
    show "wf_vector n w q'" using sol by simp
    show "bits_of q' 0 = bits_of antin 0 \<inter> bits_of earlyin 0"
      using sol assms(1) q(2) both(2) [OF assms(1)] by simp
    show "bits_of p' b = (all_bits w - bits_of antloc b) \<inter> bits_of q' b" if "b < n" for b
      using sol that by simp
    show "bits_of antin b \<inter> bits_of earlyin b \<subseteq> bits_of q' b" if "b < n" for b
      using sol that q(2) both(2) [OF that] by (cases "b = 0") auto
    show "bits_of q' b \<subseteq> (bits_of antin b \<inter> bits_of earlyin b) \<union> bits_of p' s"
      if "b < n" "b \<noteq> 0" "s \<in> blocks_of (s_preds ! b)" for b s
      using sol that both(2) [OF that(1)] has_blocks [OF that(3)]
      by (auto simp: gather_bits_def keeps_input_def)
  next
    fix Y i
    assume Y: "\<And>b X. b < n \<Longrightarrow> b \<noteq> 0 \<Longrightarrow> (\<And>s. s \<in> blocks_of (s_preds ! b) \<Longrightarrow> X \<subseteq> Y s) \<Longrightarrow>
         (all_bits w - bits_of antloc b) \<inter> ((bits_of antin b \<inter> bits_of earlyin b) \<union> X) \<subseteq> Y b"
      "(all_bits w - bits_of antloc 0) \<inter> (bits_of antin 0 \<inter> bits_of earlyin 0) \<subseteq> Y 0" "i < n"
    let ?Y = "\<lambda>b. if b < n then Y b else UNIV"
    have "bits_of p' i \<subseteq> ?Y i"
    proof (rule r(3))
      fix b assume b: "b \<in> set [0..<n]"
      let ?g = "gather_bits w True None s_preds (\<lambda>b. all_bits w - bits_of antloc (b - 1)) b ?Y"
      show "delayinout.transfer w antloc b (delayinout.gather w s_preds ?both antloc ?start b ?Y) \<subseteq> ?Y b"
      proof (cases "b = 0")
        case True
        then show ?thesis
          using Y(2) b q(2) both(2) [OF assms(1)]
          unfolding delayinout.transfer_def delayinout.gather_def delayinout.rest_of_def by simp
      next
        case False
        have "?g \<subseteq> Y s" if "s \<in> blocks_of (s_preds ! b)" for s
          using that has_blocks [OF that] wf_graph_blocks [OF assms(2) _ that] b
          by (auto simp: gather_bits_def keeps_input_def split: if_splits)
        from Y(1) [OF _ False this] show ?thesis
          using b False both(2) [of b]
          unfolding delayinout.transfer_def delayinout.gather_def delayinout.rest_of_def by simp
      qed
    next
      show "bits_of ?p b \<subseteq> ?Y b" for b using p(4) by simp
    qed
    then show "bits_of p' i \<subseteq> Y i" using Y(3) by simp
  qed
  qed
qed


text \<open>Latestness.\<close>

lemma gather_meet_all: "i \<in> blocks_of (g ! b) \<Longrightarrow> gather_bits w True None g start b X \<subseteq> X i"
  by (auto simp: gather_bits_def keeps_input_def blocks_of_def)

lemma compute_latein_solves:
  fixes mem
  assumes "0 < n" "wf_graph n s_succs" "wf_vector n w antloc" "wf_vector n w delayin"
    "w = SBITMAP_SET_SIZE n_exprs" "wf_vector n w latein"
  defines "latein' \<equiv> compute_latein mem n n_exprs s_succs antloc delayin latein"
  shows "wf_vector n w latein'"
    and "b < n - 1 \<Longrightarrow> bits_of latein' b = bits_of delayin b"
    and "bits_of delayin (n - 1) \<inter> bits_of antloc (n - 1) \<subseteq> bits_of latein' (n - 1)"
    and "bits_of latein' (n - 1) \<subseteq> bits_of delayin (n - 1)"
    and "s \<in> blocks_of (s_succs ! (n - 1)) \<Longrightarrow>
      bits_of delayin (n - 1) - bits_of delayin s \<subseteq> bits_of latein' (n - 1)"
proof -
  define step where "step = (\<lambda>bb (temp_bitmap, latein).
       let temp_bitmap =
         (if bb = n - 1
          then let temp_bitmap = sbitmap_intersect_of_predsucc temp_bitmap delayin bb s_succs in
            sbitmap_not temp_bitmap temp_bitmap
          else sbitmap_ones temp_bitmap) in
       (temp_bitmap,
        latein[bb := snd (sbitmap_a_and_b_or_c (latein ! bb) (delayin ! bb) (antloc ! bb) temp_bitmap)]))"
  define state where "state m = fold step [0..<m] (sbitmap_alloc (mem 0 0) n_exprs, latein)" for m
  have state_Suc: "state (Suc m) = step m (state m)" for m by (simp add: state_def)
  have step_other: "step m (t, v) = (sbitmap_ones t,
      v[m := snd (sbitmap_a_and_b_or_c (v ! m) (delayin ! m) (antloc ! m) (sbitmap_ones t))])"
    if "m \<noteq> n - 1" for m t v using that by (simp add: step_def Let_def)
  have step_last: "snd (step (n - 1) (t, v)) = (let i = sbitmap_intersect_of_predsucc t delayin (n - 1) s_succs in
      v[n - 1 := snd (sbitmap_a_and_b_or_c (v ! (n - 1)) (delayin ! (n - 1)) (antloc ! (n - 1)) (sbitmap_not i i))])"
    for t v by (simp add: step_def Let_def)
  have early: "wf_bitmap w (fst (state m)) \<and> wf_vector n w (snd (state m))
      \<and> (\<forall>b<m. bits_of (snd (state m)) b = bits_of delayin b)" if "m < n" for m
    using that
  proof (induction m)
    case 0
    then show ?case using assms(5,6) wf_bitmap_alloc by (auto simp: state_def)
  next
    case (Suc m)
    obtain t v where tv: "state m = (t, v)" by fastforce
    have IH: "wf_bitmap w t" "wf_vector n w v" "\<forall>b<m. bits_of v b = bits_of delayin b"
      using Suc by (auto simp: tv)
    have m: "m < n" "m \<noteq> n - 1" using Suc.prems by auto
    let ?t = "sbitmap_ones t"
    have t: "wf_bitmap w ?t" "members ?t = all_bits w"
      using wf_operations(10) members_operations(10) IH(1) by blast+
    note args = wf_nth [OF IH(2) m(1)] wf_nth [OF assms(4) m(1)] wf_nth [OF assms(3) m(1)] t(1)
    let ?v = "v[m := snd (sbitmap_a_and_b_or_c (v ! m) (delayin ! m) (antloc ! m) ?t)]"
    have "state (Suc m) = (?t, ?v)" by (simp only: state_Suc tv step_other [OF m(2)])
    moreover have "wf_vector n w ?v" by (rule wf_vector_update [OF IH(2) wf_operations(7) [OF args(1)]])
    moreover have "bits_of ?v m = bits_of delayin m"
      using members_operations(7) [OF args] t(2) members_bound [OF assms(4) m(1)] IH(2) m(1)
      by (auto simp: wf_vector_def)
    then have "bits_of ?v b = bits_of delayin b" if "b < Suc m" for b
      using IH(3) that by (cases "b = m") auto
    ultimately show ?case using t(1) by simp
  qed
  obtain t v where tv: "state (n - 1) = (t, v)" by fastforce
  have IH: "wf_bitmap w t" "wf_vector n w v" "\<forall>b<n - 1. bits_of v b = bits_of delayin b"
    using early [of "n - 1", unfolded tv] assms(1) by auto
  have last: "n - 1 < n" using assms(1) by simp
  let ?i = "sbitmap_intersect_of_predsucc t delayin (n - 1) s_succs"
  let ?t = "sbitmap_not ?i ?i"
  let ?new = "snd (sbitmap_a_and_b_or_c (v ! (n - 1)) (delayin ! (n - 1)) (antloc ! (n - 1)) ?t)"
  note i = combine_blocks_bits [OF assms(4) IH(1) assms(2) last, of True, folded combine_is]
  have t: "wf_bitmap w ?t" "members ?t = all_bits w - members ?i"
    using wf_operations(2) [OF i(1)] members_operations(2) [OF i(1,1,1,1)] by blast+
  note args = wf_nth [OF IH(2) last] wf_nth [OF assms(4) last] wf_nth [OF assms(3) last] t(1)
  have "latein' = v[n - 1 := ?new]"
  proof -
    have "latein' = snd (state (Suc (n - 1)))"
      using assms(1) unfolding latein'_def compute_latein_def state_def step_def by simp
    then show ?thesis by (simp only: state_Suc tv step_last Let_def)
  qed
  moreover have "length v = n" using IH(2) by (simp add: wf_vector_def)
  ultimately have bits: "bits_of latein' (n - 1) = members ?new"
    "b < n - 1 \<Longrightarrow> bits_of latein' b = bits_of v b" using last by auto
  note new = members_operations(7) [OF args]
  show "wf_vector n w latein'"
    unfolding \<open>latein' = _\<close> by (rule wf_vector_update [OF IH(2) wf_operations(7) [OF args(1)]])
  show "b < n - 1 \<Longrightarrow> bits_of latein' b = bits_of delayin b" using bits(2) IH(3) by simp
  show "bits_of delayin (n - 1) \<inter> bits_of antloc (n - 1) \<subseteq> bits_of latein' (n - 1)"
    "bits_of latein' (n - 1) \<subseteq> bits_of delayin (n - 1)"
    using bits(1) new by auto
  show "bits_of delayin (n - 1) - bits_of delayin s \<subseteq> bits_of latein' (n - 1)"
    if "s \<in> blocks_of (s_succs ! (n - 1))"
  proof -
    have "members ?i \<subseteq> bits_of delayin s"
      using i(2) [of "\<lambda>_. {}"] gather_meet_all [OF that, of w "\<lambda>_. {}" "bits_of delayin"] that by auto
    then show ?thesis using bits(1) new t(2) members_bound [OF assms(4) last] by auto
  qed
qed

text \<open>Insertions and deletions.\<close>

lemma compute_optimal_bits:
  assumes "wf_vector n w latein" "wf_vector n w isoout" "wf_vector n w optimal"
  shows "wf_vector n w (compute_optimal n latein isoout optimal)"
    "b < n \<Longrightarrow> bits_of (compute_optimal n latein isoout optimal) b = bits_of latein b - bits_of isoout b"
proof -
  have wf: "wf_bitmap w (sbitmap_difference d (latein ! b) (isoout ! b))" if "wf_bitmap w d" for b d
    by (rule wf_operations(3) [OF that])
  show "wf_vector n w (compute_optimal n latein isoout optimal)"
    unfolding compute_optimal_def by (rule store_blocks_facts(1) [OF assms(3) wf])
  assume b: "b < n"
  note args = wf_nth [OF assms(3) b] wf_nth [OF assms(1) b] wf_nth [OF assms(2) b]
  show "bits_of (compute_optimal n latein isoout optimal) b = bits_of latein b - bits_of isoout b"
    using store_blocks_facts(2) [OF assms(3) wf b] members_operations(3) [OF args args(3)]
    by (simp add: compute_optimal_def)
qed

lemma compute_redundant_bits:
  assumes "wf_vector n w antloc" "wf_vector n w latein" "wf_vector n w isoout" "wf_vector n w redundant"
    "w = SBITMAP_SET_SIZE n_exprs"
  shows "wf_vector n w (compute_redundant mem n n_exprs antloc latein isoout redundant)"
    "b < n \<Longrightarrow> bits_of (compute_redundant mem n n_exprs antloc latein isoout redundant) b
      = bits_of antloc b - (bits_of latein b \<union> bits_of isoout b)"
proof -
  let ?t = "sbitmap_alloc (mem 0 0) n_exprs"
  let ?or = "\<lambda>b. snd (sbitmap_a_or_b ?t (latein ! b) (isoout ! b))"
  have wf: "wf_bitmap w (sbitmap_difference d (antloc ! b) (?or b))" if "wf_bitmap w d" for b d
    by (rule wf_operations(3) [OF that])
  have t: "wf_bitmap w ?t" using assms(5) wf_bitmap_alloc by simp
  show "wf_vector n w (compute_redundant mem n n_exprs antloc latein isoout redundant)"
    unfolding compute_redundant_def Let_def by (rule store_blocks_facts(1) [OF assms(4) wf])
  assume b: "b < n"
  note args = t wf_nth [OF assms(2) b] wf_nth [OF assms(3) b]
  have o: "wf_bitmap w (?or b)" "members (?or b) = bits_of latein b \<union> bits_of isoout b"
    using wf_operations(5) [OF t] members_operations(5) [OF args args(3)] by blast+
  show "bits_of (compute_redundant mem n n_exprs antloc latein isoout redundant) b
      = bits_of antloc b - (bits_of latein b \<union> bits_of isoout b)"
    using store_blocks_facts(2) [OF assms(4) wf b]
      members_operations(3) [OF wf_nth [OF assms(4) b] wf_nth [OF assms(1) b] o(1,1)] o(2)
    by (simp add: compute_redundant_def)
qed

section \<open>Skipping blocks\<close>

text \<open>C7. Skipping the blocks none of whose neighbours changed does not change the result of
  compute_antinout: the loop with the bitmaps of changed blocks goes through the same states as
  the plain loop over the blocks that have successors, so the memory that the two bitmaps are
  made of does not matter either.\<close>

theorem compute_antinout_plain:
  assumes "0 < n" "wf_graph n s_succs" "wf_vector n w antloc" "wf_vector n w transparent"
    "wf_vector n w antin" "wf_vector n w antout"
  shows "compute_antinout mem n s_succs antloc transparent antin antout =
    iterate (visit_block sbitmap_intersect_of_predsucc (n - 1) s_succs
        (\<lambda>bb antin_bb antout_bb. sbitmap_a_or_b_and_c antin_bb (antloc ! bb) (transparent ! bb) antout_bb))
      (filter (\<lambda>b. s_succs ! b \<noteq> []) (rev [0..<n]))
      (sbitmap_vector_ones antin n, antout[n - 1 := sbitmap_zero (antout ! (n - 1))])"
proof -
  let ?q = "antout[n - 1 := sbitmap_zero (antout ! (n - 1))]"
  have inputs: "pass_inputs n w s_succs antloc transparent" using assms(1-4) by (simp add: pass_inputs_def)
  have last: "n - 1 < n" using assms(1) by simp
  from antinout.run_above [OF inputs assms(5) wf_edge(2) [OF assms(6) last] assms(1) refl] obtain p' q' where
    r: "iterate (visit_block (combine_blocks True) (n - 1) s_succs
        (\<lambda>bb d x. sbitmap_a_or_b_and_c d (antloc ! bb) (transparent ! bb) x))
        (filter (\<lambda>b. s_succs ! b \<noteq> []) (rev [0..<n])) (sbitmap_vector_ones antin n, ?q) = Some (p', q')"
      "antinout.inv n w s_succs antloc transparent (bits_of ?q) [] (sbitmap_vector_ones antin n, ?q)"
      "antinout.result n w s_succs antloc transparent (all_bits w) ?q p' q'" .
  show ?thesis
    unfolding compute_antinout_def combine_is
    by (rule antinout.down_changed.iterate_changed_plain [OF r(2) refl])
qed

theorem compute_antinout_plain_witness:
  "compute_antinout (\<lambda>_ _ _. 7) 1 [[- 2]] [sbitmap_alloc (\<lambda>_. 1) 1] [sbitmap_alloc (\<lambda>_. 1) 1]
      [sbitmap_alloc (\<lambda>_. 3) 1] [sbitmap_alloc (\<lambda>_. 9) 1]
    = iterate (visit_block sbitmap_intersect_of_predsucc 0 [[- 2]]
        (\<lambda>bb antin_bb antout_bb. sbitmap_a_or_b_and_c antin_bb ([sbitmap_alloc (\<lambda>_. 1) 1] ! bb)
          ([sbitmap_alloc (\<lambda>_. 1) 1] ! bb) antout_bb))
      [0] (sbitmap_vector_ones [sbitmap_alloc (\<lambda>_. 3) 1] 1, [sbitmap_zero (sbitmap_alloc (\<lambda>_. 9) 1)])"
proof -
  have vec: "wf_vector 1 (SBITMAP_SET_SIZE 1) [sbitmap_alloc f 1]" for f
    using wf_bitmap_alloc by (simp add: wf_vector_def)
  have graph: "wf_graph 1 [[- 2]]" by (simp add: wf_graph_def function_end_def)
  show ?thesis
    using compute_antinout_plain [OF _ graph vec vec vec vec, of "\<lambda>_ _ _. 7"] by simp
qed
end
