(* ===== verification/Code_Motion.thy ===== *)
theory Code_Motion
  imports Lcm_Solutions
begin

text \<open>
  What lazy code motion promises its users: on every path through the function, a computation
  that is deleted is preceded by one that was inserted, with nothing in between that changes
  its value; and nothing is inserted on a path where it would not have been computed anyway.
\<close>

section \<open>Paths\<close>

definition edges_match :: "nat \<Rightarrow> int list list \<Rightarrow> int list list \<Rightarrow> bool" where
  "edges_match n s_preds s_succs \<longleftrightarrow>
    (\<forall>a<n. \<forall>b<n. b \<in> blocks_of (s_succs ! a) \<longleftrightarrow> a \<in> blocks_of (s_preds ! b))"

definition flow_path :: "int list list \<Rightarrow> nat list \<Rightarrow> bool" where
  "flow_path g bs \<longleftrightarrow> bs \<noteq> [] \<and> (\<forall>i. Suc i < length bs \<longrightarrow> bs ! Suc i \<in> blocks_of (g ! (bs ! i)))"

lemma flow_path_step: "flow_path g bs \<Longrightarrow> Suc i < length bs \<Longrightarrow> bs ! Suc i \<in> blocks_of (g ! (bs ! i))"
  by (simp add: flow_path_def)

lemma flow_path_blocks:
  assumes "flow_path g bs" "wf_graph n g" "hd bs < n" "i < length bs"
  shows "bs ! i < n"
  using assms(4)
proof (induction i)
  case 0
  then show ?case using assms(1,3) by (simp add: flow_path_def hd_conv_nth)
next
  case (Suc i)
  then show ?case using wf_graph_blocks [OF assms(2)] flow_path_step [OF assms(1)] by simp
qed

text \<open>The last index with a property.\<close>

lemma last_index:
  assumes "P i" "i \<le> m"
  obtains j where "i \<le> j" "j \<le> m" "P j" "\<And>k. j < k \<Longrightarrow> k \<le> m \<Longrightarrow> \<not> P (k :: nat)"
proof -
  let ?S = "{j. j \<le> m \<and> P j}"
  have fin: "finite ?S" by simp
  have i: "i \<in> ?S" using assms by simp
  have max: "Max ?S \<in> ?S" using fin i by (intro Max_in) auto
  have above: "k \<le> Max ?S" if "k \<in> ?S" for k using fin that by simp
  show ?thesis
    by (rule that [of "Max ?S"]) (use max above [OF i] above in \<open>auto simp: not_le [symmetric]\<close>)
qed

section \<open>The argument, on sets\<close>

text \<open>
  The equations that the passes leave behind, for one expression, along a path p of m steps
  from the block where everything is early.
\<close>

lemma deletion_is_covered:
  fixes p :: "nat \<Rightarrow> nat" and ant early late iso_in iso_out delay :: "nat \<Rightarrow> bool"
  assumes start: "early (p 0)"
    and early: "\<And>i. i < m \<Longrightarrow> \<not> early (p (Suc i)) \<Longrightarrow> tr (p i) \<and> (early (p i) \<longrightarrow> ant (p i))"
    and both: "\<And>i. i \<le> m \<Longrightarrow> ant (p i) \<Longrightarrow> early (p i) \<Longrightarrow> delay (p i)"
    and late: "\<And>i. i < m \<Longrightarrow> delay (p i) \<Longrightarrow> \<not> delay (p (Suc i)) \<Longrightarrow> late (p i)"
    and late_delay: "\<And>i. i \<le> m \<Longrightarrow> late (p i) \<Longrightarrow> delay (p i)"
    and late_local: "delay (p m) \<Longrightarrow> loc (p m) \<Longrightarrow> late (p m)"
    and iso: "\<And>i. i \<le> m \<Longrightarrow> iso_in (p i) \<Longrightarrow> late (p i) \<or> iso_out (p i) \<and> \<not> loc (p i)"
    and iso_step: "\<And>i. i < m \<Longrightarrow> iso_out (p i) \<Longrightarrow> iso_in (p (Suc i))"
    and ant: "ant (p m)" and used: "loc (p m)" "\<not> late (p m)" "\<not> iso_out (p m)"
  shows "\<exists>i<m. late (p i) \<and> \<not> iso_out (p i) \<and> (\<forall>j. i \<le> j \<longrightarrow> j < m \<longrightarrow> tr (p j))"
proof -
  have not_delay: "\<not> delay (p m)" using late_local used by blast
  obtain e where e: "e \<le> m" "early (p e)" "\<And>k. e < k \<Longrightarrow> k \<le> m \<Longrightarrow> \<not> early (p k)"
    using last_index [of "\<lambda>k. early (p k)" 0 m] start by blast
  have "e \<noteq> m" using e(2) ant both not_delay by blast
  then have less: "e < m" using e(1) by simp
  have tr: "tr (p j)" if "e \<le> j" "j < m" for j
    using early [OF that(2)] e(3) [of "Suc j"] that by simp
  have "delay (p e)" using both [of e] early [OF less] e(2) e(3) [of "Suc e"] less by simp
  then obtain i where i: "e \<le> i" "i \<le> m" "delay (p i)" "\<And>k. i < k \<Longrightarrow> k \<le> m \<Longrightarrow> \<not> delay (p k)"
    using last_index [of "\<lambda>k. delay (p k)" e m] e(1) by blast
  have im: "i < m" using i(2,3) not_delay by (cases "i = m") auto
  have "\<not> iso_in (p k)" if "i < k" "k \<le> m" for k
    using that(2,1)
  proof (induction rule: inc_induct)
    case base
    then show ?case using iso [of m] used by blast
  next
    case (step k)
    have "\<not> late (p k)" using late_delay [of k] i(4) [of k] step.prems step.hyps by auto
    moreover have "\<not> iso_out (p k)" using iso_step [of k] step by auto
    ultimately show ?case using iso [of k] step.hyps by auto
  qed
  then have "\<not> iso_out (p i)" using iso_step [OF im] im by auto
  moreover have "late (p i)" using late [OF im] i(3) i(4) [of "Suc i"] im by simp
  ultimately show ?thesis using im tr i(1) by (intro exI [of _ i]) auto
qed

lemma anticipated_is_computed:
  fixes p :: "nat \<Rightarrow> nat"
  assumes "\<And>i. i < m \<Longrightarrow> ant (p i) \<Longrightarrow> \<not> loc (p i) \<Longrightarrow> tr (p i) \<and> ant (p (Suc i))"
    and "ant (p m) \<Longrightarrow> loc (p m)" and "ant (p 0)"
  shows "\<exists>i\<le>m. loc (p i) \<and> (\<forall>j<i. tr (p j))"
proof (rule ccontr)
  assume none: "\<not> ?thesis"
  have "ant (p i) \<and> (\<forall>j<i. tr (p j))" if "i \<le> m" for i
    using that
  proof (induction i)
    case 0
    then show ?case using assms(3) by simp
  next
    case (Suc i)
    then have "\<not> loc (p i)" using none by (auto dest: Suc_leD)
    then show ?case using assms(1) [of i] Suc by (auto simp: less_Suc_eq)
  qed
  then show False using assms(2) none by blast
qed

section \<open>Motion against the flow\<close>

definition lcm_inputs ::
    "nat \<Rightarrow> nat \<Rightarrow> int list list \<Rightarrow> int list list \<Rightarrow> sbitmap list \<Rightarrow> sbitmap list
      \<Rightarrow> sbitmap list \<Rightarrow> sbitmap list \<Rightarrow> bool" where
  "lcm_inputs n n_exprs s_preds s_succs transparent local redundant optimal \<longleftrightarrow>
    0 < n \<and> wf_graph n s_preds \<and> wf_graph n s_succs
    \<and> (\<forall>v\<in>{transparent, local, redundant, optimal}. wf_vector n (SBITMAP_SET_SIZE n_exprs) v)"

lemma lcm_inputs_vectors:
  assumes "lcm_inputs n n_exprs s_preds s_succs transparent local redundant optimal"
  shows "0 < n" "wf_graph n s_preds" "wf_graph n s_succs"
    "wf_vector n (SBITMAP_SET_SIZE n_exprs) transparent" "wf_vector n (SBITMAP_SET_SIZE n_exprs) local"
    "wf_vector n (SBITMAP_SET_SIZE n_exprs) redundant" "wf_vector n (SBITMAP_SET_SIZE n_exprs) optimal"
  using assms by (simp_all add: lcm_inputs_def)

text \<open>What the sets of pre_lcm satisfy.\<close>

lemma pre_lcm_solves:
  fixes mem
  assumes "lcm_inputs n n_exprs s_preds s_succs transparent antloc redundant optimal"
  defines "w \<equiv> SBITMAP_SET_SIZE n_exprs"
  obtains redundant' optimal' antin antout earlyin earlyout delayin delayout latein isoin isoout where
    "pre_lcm mem n n_exprs s_preds s_succs transparent antloc redundant optimal = Some (redundant', optimal')"
    "wf_vector n w redundant'" "wf_vector n w optimal'"
    "bits_of antout (n - 1) = {}"
    "\<And>b. b < n \<Longrightarrow> s_succs ! b \<noteq> [] \<Longrightarrow>
      bits_of antin b = bits_of antloc b \<union> (bits_of transparent b \<inter> bits_of antout b)"
    "\<And>b. b < n \<Longrightarrow> s_succs ! b = [] \<Longrightarrow> bits_of antin b = all_bits w"
    "\<And>b s. b < n \<Longrightarrow> b \<noteq> n - 1 \<Longrightarrow> s \<in> blocks_of (s_succs ! b) \<Longrightarrow> bits_of antout b \<subseteq> bits_of antin s"
    "bits_of earlyin 0 = all_bits w"
    "\<And>b. b < n \<Longrightarrow> s_preds ! b \<noteq> [] \<Longrightarrow>
      bits_of earlyout b = (all_bits w - bits_of transparent b) \<union> (bits_of earlyin b - bits_of antin b)"
    "\<And>b s. b < n \<Longrightarrow> b \<noteq> 0 \<Longrightarrow> s \<in> blocks_of (s_preds ! b) \<Longrightarrow> bits_of earlyout s \<subseteq> bits_of earlyin b"
    "bits_of delayin 0 = bits_of antin 0 \<inter> bits_of earlyin 0"
    "\<And>b. b < n \<Longrightarrow> bits_of delayout b = (all_bits w - bits_of antloc b) \<inter> bits_of delayin b"
    "\<And>b. b < n \<Longrightarrow> bits_of antin b \<inter> bits_of earlyin b \<subseteq> bits_of delayin b"
    "\<And>b s. b < n \<Longrightarrow> b \<noteq> 0 \<Longrightarrow> s \<in> blocks_of (s_preds ! b) \<Longrightarrow>
      bits_of delayin b \<subseteq> (bits_of antin b \<inter> bits_of earlyin b) \<union> bits_of delayout s"
    "\<And>Y i. (\<And>b X. b < n \<Longrightarrow> b \<noteq> 0 \<Longrightarrow> (\<And>s. s \<in> blocks_of (s_preds ! b) \<Longrightarrow> X \<subseteq> Y s) \<Longrightarrow>
         (all_bits w - bits_of antloc b) \<inter> ((bits_of antin b \<inter> bits_of earlyin b) \<union> X) \<subseteq> Y b) \<Longrightarrow>
       (all_bits w - bits_of antloc 0) \<inter> (bits_of antin 0 \<inter> bits_of earlyin 0) \<subseteq> Y 0 \<Longrightarrow>
       i < n \<Longrightarrow> bits_of delayout i \<subseteq> Y i"
    "\<And>b. b < n - 1 \<Longrightarrow> bits_of latein b = bits_of delayin b"
    "bits_of delayin (n - 1) \<inter> bits_of antloc (n - 1) \<subseteq> bits_of latein (n - 1)"
    "bits_of latein (n - 1) \<subseteq> bits_of delayin (n - 1)"
    "\<And>s. s \<in> blocks_of (s_succs ! (n - 1)) \<Longrightarrow> bits_of delayin (n - 1) - bits_of delayin s \<subseteq> bits_of latein (n - 1)"
    "bits_of isoout (n - 1) = {}"
    "\<And>b. b < n \<Longrightarrow> bits_of isoin b = bits_of latein b \<union> (bits_of isoout b - bits_of antloc b)"
    "\<And>b s. b < n \<Longrightarrow> b \<noteq> n - 1 \<Longrightarrow> s \<in> blocks_of (s_succs ! b) \<Longrightarrow> bits_of isoout b \<subseteq> bits_of isoin s"
    "\<And>b. b < n \<Longrightarrow> bits_of optimal' b = bits_of latein b - bits_of isoout b"
    "\<And>b. b < n \<Longrightarrow> bits_of redundant' b = bits_of antloc b - (bits_of latein b \<union> bits_of isoout b)"
proof -
  note inputs = lcm_inputs_vectors [OF assms(1), folded w_def]
  let ?vector = "\<lambda>k. sbitmap_vector_alloc (mem k) n n_exprs"
  have vec: "wf_vector n w (?vector k)" for k unfolding w_def by (rule wf_vector_alloc)
  have w: "w = SBITMAP_SET_SIZE n_exprs" by (simp add: w_def)
  have "pass_inputs n w s_succs antloc transparent" using inputs by (simp add: pass_inputs_def)
  from compute_antinout_solves [OF this vec vec] obtain antin antout where ant:
    "compute_antinout (after_allocations 2 mem) n s_succs antloc transparent (?vector 0) (?vector 1) = Some (antin, antout)"
    "wf_vector n w antin" "bits_of antout (n - 1) = {}"
    "\<And>b. b < n \<Longrightarrow> s_succs ! b \<noteq> [] \<Longrightarrow>
      bits_of antin b = bits_of antloc b \<union> (bits_of transparent b \<inter> bits_of antout b)"
    "\<And>b. b < n \<Longrightarrow> s_succs ! b = [] \<Longrightarrow> bits_of antin b = all_bits w"
    "\<And>b s. b < n \<Longrightarrow> b \<noteq> n - 1 \<Longrightarrow> s \<in> blocks_of (s_succs ! b) \<Longrightarrow> bits_of antout b \<subseteq> bits_of antin s"
    by blast
  have "pass_inputs n w s_preds transparent antin" using inputs ant(2) by (simp add: pass_inputs_def)
  from compute_earlyinout_solves [OF this w vec vec] obtain earlyin earlyout where early:
    "compute_earlyinout (after_allocations 6 mem) n n_exprs s_preds transparent antin (?vector 4) (?vector 5)
      = Some (earlyin, earlyout)"
    "wf_vector n w earlyin" "bits_of earlyin 0 = all_bits w"
    "\<And>b. b < n \<Longrightarrow> s_preds ! b \<noteq> [] \<Longrightarrow>
      bits_of earlyout b = (all_bits w - bits_of transparent b) \<union> (bits_of earlyin b - bits_of antin b)"
    "\<And>b s. b < n \<Longrightarrow> b \<noteq> 0 \<Longrightarrow> s \<in> blocks_of (s_preds ! b) \<Longrightarrow> bits_of earlyout s \<subseteq> bits_of earlyin b"
    by blast
  show ?thesis
  proof (rule compute_delayinout_solves [OF inputs(1,2,5) ant(2) early(2) w vec [of 9] vec [of 10],
        where mem = "after_allocations 11 mem"])
    fix delayin delayout assume delay:
      "compute_delayinout (after_allocations 11 mem) n n_exprs s_preds antloc antin earlyin (?vector 9) (?vector 10)
        = Some (delayin, delayout)"
      "wf_vector n w delayin" "bits_of delayin 0 = bits_of antin 0 \<inter> bits_of earlyin 0"
      "\<And>b. b < n \<Longrightarrow> bits_of delayout b = (all_bits w - bits_of antloc b) \<inter> bits_of delayin b"
      "\<And>b. b < n \<Longrightarrow> bits_of antin b \<inter> bits_of earlyin b \<subseteq> bits_of delayin b"
      "\<And>b s. b < n \<Longrightarrow> b \<noteq> 0 \<Longrightarrow> s \<in> blocks_of (s_preds ! b) \<Longrightarrow>
        bits_of delayin b \<subseteq> (bits_of antin b \<inter> bits_of earlyin b) \<union> bits_of delayout s"
      "\<And>Y i. (\<And>b X. b < n \<Longrightarrow> b \<noteq> 0 \<Longrightarrow> (\<And>s. s \<in> blocks_of (s_preds ! b) \<Longrightarrow> X \<subseteq> Y s) \<Longrightarrow>
           (all_bits w - bits_of antloc b) \<inter> ((bits_of antin b \<inter> bits_of earlyin b) \<union> X) \<subseteq> Y b) \<Longrightarrow>
         (all_bits w - bits_of antloc 0) \<inter> (bits_of antin 0 \<inter> bits_of earlyin 0) \<subseteq> Y 0 \<Longrightarrow>
         i < n \<Longrightarrow> bits_of delayout i \<subseteq> Y i"
    let ?latein = "compute_latein (after_allocations 14 mem) n n_exprs s_succs antloc delayin (?vector 13)"
    note late = compute_latein_solves [OF inputs(1,3,5) delay(2) w vec [of 13], where mem = "after_allocations 14 mem"]
    have "pass_inputs n w s_succs ?latein antloc" using inputs late(1) by (simp add: pass_inputs_def)
    from compute_isoinout_solves [OF this vec vec] obtain isoin isoout where iso:
      "compute_isoinout n s_succs antloc ?latein (?vector 15) (?vector 16) = Some (isoin, isoout)"
      "wf_vector n w isoout" "bits_of isoout (n - 1) = {}"
      "\<And>b. b < n \<Longrightarrow> bits_of isoin b = bits_of ?latein b \<union> (bits_of isoout b - bits_of antloc b)"
      "\<And>b s. b < n \<Longrightarrow> b \<noteq> n - 1 \<Longrightarrow> s \<in> blocks_of (s_succs ! b) \<Longrightarrow> bits_of isoout b \<subseteq> bits_of isoin s"
      by blast
    let ?optimal = "compute_optimal n ?latein isoout optimal"
    let ?redundant = "compute_redundant (after_allocations 17 mem) n n_exprs antloc ?latein isoout redundant"
    have run: "pre_lcm mem n n_exprs s_preds s_succs transparent antloc redundant optimal
        = Some (?redundant, ?optimal)"
      unfolding pre_lcm_def Let_def ant(1) early(1) delay(1) iso(1) bind.bind_lunit split_conv by (rule refl)
    show ?thesis
      by (rule that [where antin = antin and antout = antout and earlyin = earlyin and earlyout = earlyout
            and delayin = delayin and delayout = delayout and latein = ?latein and isoin = isoin
            and isoout = isoout, OF run])
        (fact compute_optimal_bits [OF late(1) iso(2) inputs(7)]
          compute_redundant_bits [OF inputs(5) late(1) iso(2) inputs(6) w] ant(3-6) early(3-5) delay(3-7) late(2-5) iso(3-5))+
  qed
qed


lemma TEST_BIT_bits_of:
  "wf_vector n (SBITMAP_SET_SIZE m) v \<Longrightarrow> b < n \<Longrightarrow> k < m \<Longrightarrow> TEST_BIT (v ! b) k \<longleftrightarrow> k \<in> bits_of v b"
  using TEST_BIT_members [OF wf_nth] set_size_room [of m] by (metis order_less_le_trans)

text \<open>C6. pre_lcm always ends, whatever the flow graph and whatever memory it is given: no graph
  with blocks it cannot leave or cannot reach makes one of its loops run for ever.\<close>

theorem pre_lcm_ends:
  assumes "lcm_inputs n n_exprs s_preds s_succs transparent antloc redundant optimal"
  shows "\<exists>result. pre_lcm mem n n_exprs s_preds s_succs transparent antloc redundant optimal = Some result"
  by (rule pre_lcm_solves [OF assms, of mem], rule exI, assumption)


text \<open>C4. A computation that pre_lcm reports as redundant may be deleted: on every path from the
  entry of the function to its block, some earlier block of the path gets an insertion of the
  expression, and no block from that one on, up to the block of the deleted computation, changes
  the value of the expression.  This needs the entry mark among the predecessors of the first
  block, and predecessor and successor lists of the same edges; it holds whatever the contents
  of fresh memory.\<close>

theorem deletions_are_covered:
  assumes "lcm_inputs n n_exprs s_preds s_succs transparent antloc redundant optimal"
    and "edges_match n s_preds s_succs" "s_preds ! 0 \<noteq> []"
    and "pre_lcm mem n n_exprs s_preds s_succs transparent antloc redundant optimal
      = Some (redundant', optimal')"
    and "flow_path s_succs bs" "hd bs = 0" "k < n_exprs" "TEST_BIT (redundant' ! last bs) k"
  shows "\<exists>i<length bs - 1. TEST_BIT (optimal' ! (bs ! i)) k
    \<and> (\<forall>j. i \<le> j \<longrightarrow> j < length bs - 1 \<longrightarrow> TEST_BIT (transparent ! (bs ! j)) k)"
proof -
  let ?w = "SBITMAP_SET_SIZE n_exprs" and ?m = "length bs - 1"
  note inputs = lcm_inputs_vectors [OF assms(1)]
  have k: "k \<in> all_bits ?w" using assms(7) set_size_room [of n_exprs] by simp
  have blocks: "bs ! i < n" if "i \<le> ?m" for i
    using flow_path_blocks [OF assms(5) inputs(3)] assms(5,6) inputs(1) that
    by (cases bs) (auto simp: flow_path_def)
  have step: "bs ! Suc i \<in> blocks_of (s_succs ! (bs ! i))" "bs ! i \<in> blocks_of (s_preds ! (bs ! Suc i))"
    if "i < ?m" for i
  proof -
    show succ: "bs ! Suc i \<in> blocks_of (s_succs ! (bs ! i))"
      using flow_path_step [OF assms(5)] that by simp
    show "bs ! i \<in> blocks_of (s_preds ! (bs ! Suc i))"
      using assms(2) succ blocks [of i] blocks [of "Suc i"] that by (auto simp: edges_match_def)
  qed
  have first: "bs ! 0 = 0" using assms(5,6) by (cases bs) (auto simp: flow_path_def)
  have last: "last bs = bs ! ?m" using assms(5) by (simp add: flow_path_def last_conv_nth)
  have preds: "s_preds ! (bs ! i) \<noteq> []" if "i \<le> ?m" for i
  proof (cases i)
    case 0
    then show ?thesis using first assms(3) by simp
  next
    case (Suc j)
    then show ?thesis using step(2) [of j] that has_blocks by simp
  qed
  show ?thesis
  proof (rule pre_lcm_solves [OF assms(1), of mem])
    fix r o' antin antout earlyin earlyout delayin delayout latein isoin isoout
    assume run: "pre_lcm mem n n_exprs s_preds s_succs transparent antloc redundant optimal = Some (r, o')"
      and wf: "wf_vector n ?w r" "wf_vector n ?w o'"
      and ant: "\<And>b. b < n \<Longrightarrow> s_succs ! b \<noteq> [] \<Longrightarrow>
        bits_of antin b = bits_of antloc b \<union> (bits_of transparent b \<inter> bits_of antout b)"
        "\<And>b. b < n \<Longrightarrow> s_succs ! b = [] \<Longrightarrow> bits_of antin b = all_bits ?w"
      and early: "bits_of earlyin 0 = all_bits ?w"
        "\<And>b. b < n \<Longrightarrow> s_preds ! b \<noteq> [] \<Longrightarrow>
          bits_of earlyout b = (all_bits ?w - bits_of transparent b) \<union> (bits_of earlyin b - bits_of antin b)"
        "\<And>b s. b < n \<Longrightarrow> b \<noteq> 0 \<Longrightarrow> s \<in> blocks_of (s_preds ! b) \<Longrightarrow> bits_of earlyout s \<subseteq> bits_of earlyin b"
      and delay: "\<And>b. b < n \<Longrightarrow> bits_of antin b \<inter> bits_of earlyin b \<subseteq> bits_of delayin b"
      and late: "\<And>b. b < n - 1 \<Longrightarrow> bits_of latein b = bits_of delayin b"
        "bits_of delayin (n - 1) \<inter> bits_of antloc (n - 1) \<subseteq> bits_of latein (n - 1)"
        "bits_of latein (n - 1) \<subseteq> bits_of delayin (n - 1)"
        "\<And>s. s \<in> blocks_of (s_succs ! (n - 1)) \<Longrightarrow>
          bits_of delayin (n - 1) - bits_of delayin s \<subseteq> bits_of latein (n - 1)"
      and iso: "bits_of isoout (n - 1) = {}"
        "\<And>b. b < n \<Longrightarrow> bits_of isoin b = bits_of latein b \<union> (bits_of isoout b - bits_of antloc b)"
        "\<And>b s. b < n \<Longrightarrow> b \<noteq> n - 1 \<Longrightarrow> s \<in> blocks_of (s_succs ! b) \<Longrightarrow> bits_of isoout b \<subseteq> bits_of isoin s"
      and optimal: "\<And>b. b < n \<Longrightarrow> bits_of o' b = bits_of latein b - bits_of isoout b"
      and redundant: "\<And>b. b < n \<Longrightarrow> bits_of r b = bits_of antloc b - (bits_of latein b \<union> bits_of isoout b)"
    have same: "r = redundant'" "o' = optimal'" using run assms(4) by simp_all
    let ?in = "\<lambda>v b. k \<in> bits_of v b"
    have late_all: "?in latein b \<Longrightarrow> ?in delayin b" "?in delayin b \<Longrightarrow> ?in antloc b \<Longrightarrow> ?in latein b"
      if "b < n" for b
      using late(1-3) that by (cases "b = n - 1"; auto)+
    have used: "?in antloc (last bs)" "\<not> ?in latein (last bs)" "\<not> ?in isoout (last bs)"
      using TEST_BIT_bits_of [OF wf(1), of "last bs" k] assms(7,8) blocks [of ?m] last
        redundant [of "last bs"] same by auto
    have "\<exists>i<?m. ?in latein (bs ! i) \<and> \<not> ?in isoout (bs ! i)
        \<and> (\<forall>j. i \<le> j \<longrightarrow> j < ?m \<longrightarrow> ?in transparent (bs ! j))"
    proof (rule deletion_is_covered [where early = "?in earlyin" and ant = "?in antin"
          and delay = "?in delayin" and iso_in = "?in isoin" and loc = "?in antloc"])
      show "?in earlyin (bs ! 0)" using early(1) first k by simp
      show "?in transparent (bs ! i) \<and> (?in earlyin (bs ! i) \<longrightarrow> ?in antin (bs ! i))"
        if "i < ?m" "\<not> ?in earlyin (bs ! Suc i)" for i
      proof -
        have "bs ! Suc i \<noteq> 0"
        proof
          assume "bs ! Suc i = 0"
          then have "?in earlyin (bs ! Suc i)" using early(1) k by simp
          then show False using that(2) by simp
        qed
        moreover have "bs ! Suc i < n" using blocks [of "Suc i"] that(1) by simp
        ultimately have "\<not> ?in earlyout (bs ! i)"
          using early(3) [OF _ _ step(2) [OF that(1)]] that(2) by blast
        moreover have "?in earlyout (bs ! i)
            \<longleftrightarrow> k \<notin> bits_of transparent (bs ! i) \<or> ?in earlyin (bs ! i) \<and> \<not> ?in antin (bs ! i)"
          using early(2) [OF blocks [of i] preds [of i]] that(1) k by simp
        ultimately show ?thesis by simp
      qed
      show "?in delayin (bs ! i)" if "i \<le> ?m" "?in antin (bs ! i)" "?in earlyin (bs ! i)" for i
        using delay [OF blocks [OF that(1)]] that by blast
      show "?in latein (bs ! i)"
        if "i < ?m" "?in delayin (bs ! i)" "\<not> ?in delayin (bs ! Suc i)" for i
      proof (cases "bs ! i = n - 1")
        case True
        then show ?thesis using late(4) [of "bs ! Suc i"] step(1) [OF that(1)] that(2,3) by auto
      next
        case False
        then show ?thesis using late(1) [of "bs ! i"] blocks [of i] that by auto
      qed
      show "?in delayin (bs ! i)" if "i \<le> ?m" "?in latein (bs ! i)" for i
        using late_all(1) [OF blocks] that by blast
      show "?in latein (bs ! ?m)" if "?in delayin (bs ! ?m)" "?in antloc (bs ! ?m)"
        using late_all(2) [OF blocks] that by blast
      show "?in latein (bs ! i) \<or> ?in isoout (bs ! i) \<and> \<not> ?in antloc (bs ! i)"
        if "i \<le> ?m" "?in isoin (bs ! i)" for i
        using iso(2) [OF blocks [OF that(1)]] that(2) by blast
      show "?in isoin (bs ! Suc i)" if "i < ?m" "?in isoout (bs ! i)" for i
        using iso(1) iso(3) [OF _ _ step(1) [OF that(1)]] blocks [of i] that by (cases "bs ! i = n - 1") auto
      show "?in antin (bs ! ?m)"
        using ant [of "bs ! ?m"] blocks [of ?m] used(1) k last by (cases "s_succs ! (bs ! ?m) = []") auto
      show "?in antloc (bs ! ?m)" "\<not> ?in latein (bs ! ?m)" "\<not> ?in isoout (bs ! ?m)"
        using used last by simp_all
    qed
    then show ?thesis
      using optimal blocks TEST_BIT_bits_of [OF wf(2) _ assms(7)] TEST_BIT_bits_of [OF inputs(4) _ assms(7)] same
      by (metis Diff_iff less_imp_le)
  qed
qed


text \<open>The blocks that can be reached from the first one.\<close>

definition reached :: "int list list \<Rightarrow> nat \<Rightarrow> bool" where
  "reached g b \<longleftrightarrow> (0, b) \<in> {(a, b). b \<in> blocks_of (g ! a)}\<^sup>*"

lemma reached_step:
  assumes "reached g b" "b \<noteq> 0"
  obtains a where "reached g a" "b \<in> blocks_of (g ! a)"
  using assms unfolding reached_def by (auto elim: rtranclE)

lemma reached_block: "reached g b \<Longrightarrow> wf_graph n g \<Longrightarrow> 0 < n \<Longrightarrow> b < n"
  unfolding reached_def by (induction rule: rtrancl_induct) (auto intro: wf_graph_blocks)

lemma reached_path:
  assumes "flow_path g bs" "hd bs = 0" "i < length bs"
  shows "reached g (bs ! i)"
  using assms(3)
proof (induction i)
  case 0
  then show ?case using assms(1,2) by (simp add: reached_def flow_path_def hd_conv_nth)
next
  case (Suc i)
  then have "(bs ! i, bs ! Suc i) \<in> {(a, b). b \<in> blocks_of (g ! a)}"
    using flow_path_step [OF assms(1)] by simp
  then show ?case using Suc rtrancl.rtrancl_into_rtrancl unfolding reached_def by (meson Suc_lessD)
qed

text \<open>C5. pre_lcm inserts a computation only where the program would compute it anyway: on a path
  from the entry to the last block, when an expression is inserted into a block, then that block
  or a later one on the path computes the expression, before any block changes its value.  This
  needs that the last block has a successor, the exit mark.\<close>

theorem insertions_are_anticipated:
  assumes "lcm_inputs n n_exprs s_preds s_succs transparent antloc redundant optimal"
    and "edges_match n s_preds s_succs" "s_succs ! (n - 1) \<noteq> []"
    and "pre_lcm mem n n_exprs s_preds s_succs transparent antloc redundant optimal
      = Some (redundant', optimal')"
    and "flow_path s_succs bs" "hd bs = 0" "last bs = n - 1"
    and "k < n_exprs" "i < length bs" "TEST_BIT (optimal' ! (bs ! i)) k"
  shows "\<exists>j. i \<le> j \<and> j < length bs \<and> TEST_BIT (antloc ! (bs ! j)) k
    \<and> (\<forall>l. i \<le> l \<longrightarrow> l < j \<longrightarrow> TEST_BIT (transparent ! (bs ! l)) k)"
proof -
  let ?w = "SBITMAP_SET_SIZE n_exprs" and ?m = "length bs - 1 - i" and ?p = "\<lambda>j. bs ! (i + j)"
  note inputs = lcm_inputs_vectors [OF assms(1)]
  have k: "k \<in> all_bits ?w" using assms(8) set_size_room [of n_exprs] by simp
  have reach: "reached s_succs (bs ! j)" if "j < length bs" for j
    by (rule reached_path [OF assms(5,6) that])
  note blocks = reached_block [OF reach inputs(3,1)]
  have final: "?p ?m = n - 1" using assms(5,7,9) by (simp add: flow_path_def last_conv_nth)
  show ?thesis
  proof (rule pre_lcm_solves [OF assms(1), of mem])
    fix r o' antin antout earlyin earlyout delayin delayout latein isoin isoout
    assume run: "pre_lcm mem n n_exprs s_preds s_succs transparent antloc redundant optimal = Some (r, o')"
      and wf: "wf_vector n ?w r" "wf_vector n ?w o'"
      and ant: "bits_of antout (n - 1) = {}" "\<And>b. b < n \<Longrightarrow> s_succs ! b \<noteq> [] \<Longrightarrow>
        bits_of antin b = bits_of antloc b \<union> (bits_of transparent b \<inter> bits_of antout b)"
        "\<And>b s. b < n \<Longrightarrow> b \<noteq> n - 1 \<Longrightarrow> s \<in> blocks_of (s_succs ! b) \<Longrightarrow> bits_of antout b \<subseteq> bits_of antin s"
      and delay: "bits_of delayin 0 = bits_of antin 0 \<inter> bits_of earlyin 0"
        "\<And>b s. b < n \<Longrightarrow> b \<noteq> 0 \<Longrightarrow> s \<in> blocks_of (s_preds ! b) \<Longrightarrow>
          bits_of delayin b \<subseteq> (bits_of antin b \<inter> bits_of earlyin b) \<union> bits_of delayout s"
        "\<And>Y i. (\<And>b X. b < n \<Longrightarrow> b \<noteq> 0 \<Longrightarrow> (\<And>s. s \<in> blocks_of (s_preds ! b) \<Longrightarrow> X \<subseteq> Y s) \<Longrightarrow>
           (all_bits ?w - bits_of antloc b) \<inter> ((bits_of antin b \<inter> bits_of earlyin b) \<union> X) \<subseteq> Y b) \<Longrightarrow>
         (all_bits ?w - bits_of antloc 0) \<inter> (bits_of antin 0 \<inter> bits_of earlyin 0) \<subseteq> Y 0 \<Longrightarrow>
         i < n \<Longrightarrow> bits_of delayout i \<subseteq> Y i"
      and late: "\<And>b. b < n - 1 \<Longrightarrow> bits_of latein b = bits_of delayin b"
        "bits_of latein (n - 1) \<subseteq> bits_of delayin (n - 1)"
      and optimal: "\<And>b. b < n \<Longrightarrow> bits_of o' b = bits_of latein b - bits_of isoout b"
    let ?in = "\<lambda>v b. k \<in> bits_of v b"
    have pass: "?in transparent a \<and> ?in antin b"
      if "a < n" "b \<in> blocks_of (s_succs ! a)" "?in antin a" "\<not> ?in antloc a" for a b
      using ant(2) [OF that(1) has_blocks [OF that(2)]] ant(1) ant(3) [OF that(1) _ that(2)] that(3,4)
      by (cases "a = n - 1") auto
    let ?Y = "\<lambda>b. {x. x = k \<longrightarrow> reached s_succs b \<longrightarrow> ?in antin b \<and> \<not> ?in antloc b}"
    have pred: "a \<in> blocks_of (s_preds ! b)" if "reached s_succs a" "b \<in> blocks_of (s_succs ! a)" for a b
      using assms(2) that reached_block [OF that(1) inputs(3,1)] wf_graph_blocks [OF inputs(3) _ that(2)]
      by (auto simp: edges_match_def)
    have delayed: "bits_of delayout b \<subseteq> ?Y b" if "b < n" for b
    proof (rule delay(3) [OF _ _ that])
      fix b X assume b: "b < n" "b \<noteq> 0" "\<And>s. s \<in> blocks_of (s_preds ! b) \<Longrightarrow> X \<subseteq> ?Y s"
      have "?in antin b" if "k \<in> X" "reached s_succs b"
      proof (rule reached_step [OF that(2) b(2)])
        fix a assume a: "reached s_succs a" "b \<in> blocks_of (s_succs ! a)"
        then have "k \<in> ?Y a" using b(3) [OF pred [OF a]] that(1) by blast
        then show ?thesis using pass [OF reached_block [OF a(1) inputs(3,1)] a(2)] a(1) by blast
      qed
      then show "(all_bits ?w - bits_of antloc b) \<inter> ((bits_of antin b \<inter> bits_of earlyin b) \<union> X) \<subseteq> ?Y b"
        by blast
    qed blast
    have anticipated: "?in antin b" if "?in delayin b" "reached s_succs b" for b
    proof (cases "b = 0")
      case False
      show ?thesis
      proof (rule reached_step [OF that(2) False])
        fix a assume a: "reached s_succs a" "b \<in> blocks_of (s_succs ! a)"
        note block = reached_block [OF a(1) inputs(3,1)]
        have "?in antin b \<or> ?in delayout a"
          using delay(2) [OF reached_block [OF that(2) inputs(3,1)] False pred [OF a]] that(1) by blast
        then show ?thesis using delayed [OF block] pass [OF block a(2)] a(1) by blast
      qed
    qed (use that delay(1) in simp)
    have "o' = optimal'" using run assms(4) by simp
    then have "?in latein (bs ! i)"
      using TEST_BIT_bits_of [OF wf(2) blocks [OF assms(9)] assms(8)] optimal [OF blocks [OF assms(9)]] assms(10)
      by blast
    then have "?in delayin (bs ! i)"
      using late blocks [OF assms(9)] by (cases "bs ! i = n - 1") auto
    then have start: "?in antin (?p 0)" using anticipated [OF _ reach [OF assms(9)]] by simp
    have "\<exists>j\<le>?m. ?in antloc (?p j) \<and> (\<forall>l<j. ?in transparent (?p l))"
    proof (rule anticipated_is_computed [where ant = "?in antin"])
      show "?in transparent (?p j) \<and> ?in antin (?p (Suc j))"
        if "j < ?m" "?in antin (?p j)" "\<not> ?in antloc (?p j)" for j
      proof -
        have "Suc (i + j) < length bs" using that(1) by linarith
        then show ?thesis
          using pass [OF blocks [of "i + j"] flow_path_step [OF assms(5), of "i + j"] that(2,3)] by simp
      qed
      show "?in antin (?p ?m) \<Longrightarrow> ?in antloc (?p ?m)"
        using ant(1) ant(2) [OF _ assms(3)] inputs(1) unfolding final by simp
    qed (rule start)
    then obtain j where j: "j \<le> ?m" "?in antloc (?p j)" "\<forall>l<j. ?in transparent (?p l)" by blast
    have "i + j < length bs" using j(1) assms(9) by linarith
    moreover have "?in transparent (bs ! l)" if "i \<le> l" "l < i + j" for l
      using j(3) that by (auto simp: le_iff_add)
    ultimately show ?thesis
      using j(2) TEST_BIT_bits_of [OF inputs(5) blocks assms(8)] TEST_BIT_bits_of [OF inputs(4) blocks assms(8)]
      by (intro exI [of _ "i + j"]) auto
  qed
qed


section \<open>An example\<close>

text \<open>
  One expression; blocks 1 and 2 join at block 3, which computes what block 1 has computed.
\<close>

definition one_expression :: "bool list \<Rightarrow> sbitmap list" where
  "one_expression = map (\<lambda>on. let empty = sbitmap_zero (sbitmap_alloc (\<lambda>_. 0) 1) in
     if on then SET_BIT empty 0 else empty)"

definition run_one ::
    "memory \<Rightarrow> int list list \<Rightarrow> int list list \<Rightarrow> bool list \<Rightarrow> bool list \<Rightarrow> (sbitmap list \<times> sbitmap list) option" where
  "run_one mem s_preds s_succs transparent antloc =
    (let n = length s_succs; none = one_expression (replicate n False) in
     pre_lcm mem n 1 s_preds s_succs (one_expression transparent) (one_expression antloc)
       none none)"

definition diamond_preds :: "int list list" where "diamond_preds = [[-1], [0], [0], [1, 2]]"
definition diamond_succs :: "int list list" where "diamond_succs = [[1, 2], [3], [3], [-2]]"

abbreviation (input) diamond_run :: "(sbitmap list \<times> sbitmap list) option" where
  "diamond_run \<equiv> run_one (\<lambda>_ _ _. 0xDEADBEEF) diamond_preds diamond_succs [True, True, True, True] [False, True, False, True]"

lemma one_expression_wf: "length xs = n \<Longrightarrow> wf_vector n (SBITMAP_SET_SIZE 1) (one_expression xs)"
  by (auto simp: one_expression_def wf_vector_def wf_bitmap_def sbitmap_zero_def SET_BIT_def
      sbitmap_alloc_def SBITMAP_SET_SIZE_def Let_def)

lemma diamond_edges:
  "b \<in> blocks_of (diamond_succs ! a) \<longleftrightarrow> a \<in> blocks_of (diamond_preds ! b)" if "a < 4" "b < 4"
proof -
  have "a \<in> {0, 1, 2, 3}" "b \<in> {0, 1, 2, 3}" using that by auto
  then show ?thesis
    by (auto simp: diamond_succs_def diamond_preds_def blocks_of_Cons function_end_def)
      (auto simp: blocks_of_def)
qed

lemma diamond_inputs:
  "lcm_inputs 4 1 diamond_preds diamond_succs (one_expression [True, True, True, True])
    (one_expression [False, True, False, True]) (one_expression (replicate 4 False)) (one_expression (replicate 4 False))"
  "edges_match 4 diamond_preds diamond_succs"
  using one_expression_wf [of "[True, True, True, True]" 4] one_expression_wf [of "[False, True, False, True]" 4]
    one_expression_wf [of "replicate 4 False" 4]
  by (simp_all add: lcm_inputs_def wf_graph_def edges_match_def diamond_edges)
    (simp_all add: diamond_preds_def diamond_succs_def function_end_def)

lemma diamond_path: "flow_path diamond_succs [0, 2, 3]"
proof -
  have "blocks_of [1, 2] = {1, 2}" "blocks_of [3] = {3}"
    by (auto simp: blocks_of_Cons function_end_def) (simp_all add: blocks_of_def)
  then show ?thesis by (auto simp: flow_path_def diamond_succs_def less_Suc_eq)
qed

lemma diamond_bits:
  "map_option (\<lambda>(r, q). (map (\<lambda>b. TEST_BIT b 0) r, map (\<lambda>b. TEST_BIT b 0) q)) diamond_run
    = Some ([False, False, False, True], [False, True, True, False])"
  by code_simp

lemma diamond_result:
  obtains r q where "pre_lcm (\<lambda>_ _ _. 0xDEADBEEF) 4 1 diamond_preds diamond_succs
      (one_expression [True, True, True, True]) (one_expression [False, True, False, True])
      (one_expression (replicate 4 False)) (one_expression (replicate 4 False)) = Some (r, q)"
    "TEST_BIT (r ! 3) 0" "TEST_BIT (q ! 2) 0"
proof -
  obtain r q where run: "diamond_run = Some (r, q)"
    and r: "map (\<lambda>b. TEST_BIT b 0) r = [False, False, False, True]"
    and q: "map (\<lambda>b. TEST_BIT b 0) q = [False, True, True, False]"
    using diamond_bits by (cases diamond_run) auto
  have bits: "TEST_BIT (r ! 3) 0 = map (\<lambda>b. TEST_BIT b 0) r ! 3" "TEST_BIT (q ! 2) 0 = map (\<lambda>b. TEST_BIT b 0) q ! 2"
    using arg_cong [OF r, of length] arg_cong [OF q, of length] by simp_all
  have "length diamond_succs = 4" by (simp add: diamond_succs_def)
  then have "pre_lcm (\<lambda>_ _ _. 0xDEADBEEF) 4 1 diamond_preds diamond_succs
      (one_expression [True, True, True, True]) (one_expression [False, True, False, True])
      (one_expression (replicate 4 False)) (one_expression (replicate 4 False)) = Some (r, q)"
    using run by (simp only: run_one_def Let_def)
  moreover have "TEST_BIT (r ! 3) 0" "TEST_BIT (q ! 2) 0" unfolding bits r q by simp_all
  ultimately show ?thesis by (rule that)
qed

theorem pre_lcm_ends_witness:
  "\<exists>result. pre_lcm (\<lambda>_ _ _. 0) 4 1 diamond_preds diamond_succs (one_expression [True, True, True, True])
    (one_expression [False, True, False, True]) (one_expression (replicate 4 False))
    (one_expression (replicate 4 False)) = Some result"
  by (rule pre_lcm_ends [OF diamond_inputs(1)])

theorem deletions_are_covered_witness:
  "\<exists>q. \<exists>i<2. TEST_BIT (q ! ([0, 2, 3 :: nat] ! i)) 0
    \<and> (\<forall>j. i \<le> j \<longrightarrow> j < 2 \<longrightarrow> TEST_BIT (one_expression [True, True, True, True] ! ([0, 2, 3] ! j)) 0)"
proof -
  obtain r q where "pre_lcm (\<lambda>_ _ _. 0xDEADBEEF) 4 1 diamond_preds diamond_succs
      (one_expression [True, True, True, True]) (one_expression [False, True, False, True])
      (one_expression (replicate 4 False)) (one_expression (replicate 4 False)) = Some (r, q)"
    "TEST_BIT (r ! 3) 0"
    using diamond_result by blast
  then show ?thesis
    using deletions_are_covered [OF diamond_inputs _ _ diamond_path, of _ r q 0]
    by (simp add: diamond_preds_def numeral_2_eq_2) blast
qed

theorem insertions_are_anticipated_witness:
  "\<exists>j. 1 \<le> j \<and> j < 3 \<and> TEST_BIT (one_expression [False, True, False, True] ! ([0, 2, 3 :: nat] ! j)) 0
    \<and> (\<forall>l. 1 \<le> l \<longrightarrow> l < j \<longrightarrow> TEST_BIT (one_expression [True, True, True, True] ! ([0, 2, 3] ! l)) 0)"
proof -
  obtain r q where "pre_lcm (\<lambda>_ _ _. 0xDEADBEEF) 4 1 diamond_preds diamond_succs
      (one_expression [True, True, True, True]) (one_expression [False, True, False, True])
      (one_expression (replicate 4 False)) (one_expression (replicate 4 False)) = Some (r, q)"
    "TEST_BIT (q ! 2) 0"
    using diamond_result by blast
  then show ?thesis
    using insertions_are_anticipated [OF diamond_inputs _ _ diamond_path, of _ r q 0 1]
    by (simp add: diamond_succs_def numeral_2_eq_2 numeral_3_eq_3)
qed

section \<open>Several exits\<close>

lemma early_exit_run:
  "map_option (\<lambda>(r, q). (map (\<lambda>b. TEST_BIT b 0) r, map (\<lambda>b. TEST_BIT b 0) q))
      (run_one (\<lambda>_ _ _. 0) [[-1], [0], [0], [1, 2], [3]] [[1, 2], [3], [3], [-2, 4], [-2]]
        [True, True, True, True, True] [False, True, False, False, True])
    = Some ([False, False, False, False, True], [False, True, True, False, False])"
  by code_simp

lemma clean_memory_run:
  "map_option (\<lambda>(r, q). (map (\<lambda>b. TEST_BIT b 0) r, map (\<lambda>b. TEST_BIT b 0) q))
      (run_one (\<lambda>_ _ _. 0) [[-1], [0], [0]] [[1, 2], [-2], [-2]] [True, True, True] [False, False, True])
    = Some ([False, False, False], [False, False, True])"
  by code_simp

lemma dirty_memory_run:
  "map_option (\<lambda>(r, q). (map (\<lambda>b. TEST_BIT b 0) r, map (\<lambda>b. TEST_BIT b 0) q))
      (run_one (\<lambda>k _ _. if k = 1 then - 1 else 0) [[-1], [0], [0]] [[1, 2], [-2], [-2]]
        [True, True, True] [False, False, True])
    = Some ([False, False, False], [False, True, True])"
  by code_simp


end
