(* ===== verification/Flow_Graph.thy ===== *)
theory Flow_Graph
  imports Code_Motion
begin

text \<open>
  Lists of predecessors and successors, and dominators (gcc/flow.c): compute_preds_succs,
  compute_dominators and compute_immediate_dominators.  The edges out of a block are the list
  of the numbers of their targets, in the order of the edge list; the storage of the list nodes
  in blocks of 500 is left out.
\<close>

section \<open>Predecessors and successors\<close>

record pred_succ_lists =
  preds :: "int list list"
  succs :: "int list list"
  num_preds :: "nat list"
  num_succs :: "nat list"

definition add_int_list_node :: "int list \<Rightarrow> int \<Rightarrow> int list" where
  "add_int_list_node list val = val # list"

definition add_pred_succ :: "int \<Rightarrow> int \<Rightarrow> pred_succ_lists \<Rightarrow> pred_succ_lists" where
  "add_pred_succ pred_bb succ_bb s =
    (let s = (if succ_bb \<noteq> EXIT_BLOCK
              then let i = nat succ_bb in
                s\<lparr>preds := (preds s)[i := add_int_list_node (preds s ! i) pred_bb],
                  num_preds := (num_preds s)[i := num_preds s ! i + 1]\<rparr>
              else s) in
     if pred_bb \<noteq> ENTRY_BLOCK
     then let i = nat pred_bb in
       s\<lparr>succs := (succs s)[i := add_int_list_node (succs s ! i) succ_bb],
         num_succs := (num_succs s)[i := num_succs s ! i + 1]\<rparr>
     else s)"

definition compute_preds_succs :: "nat \<Rightarrow> int list list \<Rightarrow> int list \<Rightarrow> pred_succ_lists" where
  "compute_preds_succs n_basic_blocks block_edges entry_edges =
    (let s = \<lparr>preds = replicate n_basic_blocks [], succs = replicate n_basic_blocks [],
              num_preds = replicate n_basic_blocks 0, num_succs = replicate n_basic_blocks 0\<rparr>;
         s = fold (\<lambda>i s. fold (\<lambda>dest s. add_pred_succ (int i) dest s) (block_edges ! i) s)
               [0..<n_basic_blocks] s in
     fold (\<lambda>dest s. add_pred_succ ENTRY_BLOCK dest s) entry_edges s)"

text \<open>The edges the lists are to hold, as a list of pairs in the order of their insertion.\<close>

definition all_edges :: "nat \<Rightarrow> int list list \<Rightarrow> int list \<Rightarrow> (int \<times> int) list" where
  "all_edges n block_edges entry_edges =
    concat (map (\<lambda>i. map (Pair (int i)) (block_edges ! i)) [0..<n]) @ map (Pair ENTRY_BLOCK) entry_edges"

definition edges_in_range :: "nat \<Rightarrow> (int \<times> int) list \<Rightarrow> bool" where
  "edges_in_range n es \<longleftrightarrow> (\<forall>(a, b)\<in>set es. (a = ENTRY_BLOCK \<or> 0 \<le> a \<and> a < int n)
     \<and> (b = EXIT_BLOCK \<or> 0 \<le> b \<and> b < int n))"

definition lists_hold :: "nat \<Rightarrow> (int \<times> int) list \<Rightarrow> pred_succ_lists \<Rightarrow> bool" where
  "lists_hold n es s \<longleftrightarrow> length (preds s) = n \<and> length (succs s) = n
     \<and> length (num_preds s) = n \<and> length (num_succs s) = n
     \<and> (\<forall>i<n. preds s ! i = rev (map fst (filter (\<lambda>e. snd e = int i) es))
          \<and> succs s ! i = rev (map snd (filter (\<lambda>e. fst e = int i) es))
          \<and> num_preds s ! i = length (preds s ! i) \<and> num_succs s ! i = length (succs s ! i))"

lemma lists_hold_add:
  assumes "lists_hold n es s" "edges_in_range n (es @ [(a, b)])"
  shows "lists_hold n (es @ [(a, b)]) (add_pred_succ a b s)"
proof -
  have range: "a = - 1 \<or> 0 \<le> a \<and> a < int n" "b = - 2 \<or> 0 \<le> b \<and> b < int n"
    using assms(2) by (auto simp: edges_in_range_def)
  show ?thesis
    using assms(1) range
    by (auto simp: lists_hold_def add_pred_succ_def add_int_list_node_def Let_def nth_list_update)
qed

lemma lists_hold_fold:
  assumes "lists_hold n es s" "edges_in_range n (es @ fs)"
  shows "lists_hold n (es @ fs) (fold (\<lambda>(a, b) s. add_pred_succ a b s) fs s)"
  using assms
proof (induction fs arbitrary: es s)
  case (Cons f fs)
  obtain a b where f: "f = (a, b)" by fastforce
  have "lists_hold n (es @ [(a, b)]) (add_pred_succ a b s)"
    by (rule lists_hold_add [OF Cons.prems(1)]) (use Cons.prems(2) in \<open>auto simp: f edges_in_range_def\<close>)
  then show ?case using Cons.IH [of "es @ [(a, b)]"] Cons.prems(2) by (simp add: f)
qed simp

lemma compute_preds_succs_fold:
  "compute_preds_succs n es ns = fold (\<lambda>(a, b) s. add_pred_succ a b s) (all_edges n es ns)
    \<lparr>preds = replicate n [], succs = replicate n [], num_preds = replicate n 0, num_succs = replicate n 0\<rparr>"
proof -
  have "fold (\<lambda>i s. fold (\<lambda>dest s. add_pred_succ (int i) dest s) (es ! i) s) is s
      = fold (\<lambda>(a, b) s. add_pred_succ a b s) (concat (map (\<lambda>i. map (Pair (int i)) (es ! i)) is)) s" for "is" s
    by (induction "is" arbitrary: s) (simp_all add: fold_map comp_def)
  then show ?thesis by (simp add: compute_preds_succs_def all_edges_def Let_def fold_map comp_def)
qed

text \<open>C11. compute_preds_succs turns the edge lists into lists of neighbours of the same edges: the
  predecessors of a block are the sources of the edges into it and its successors the targets
  of its edges, latest first, with their numbers; so the two lists match, and a block has the
  entry mark among its predecessors exactly when the entry leads to it.\<close>

theorem compute_preds_succs_correct:
  assumes "edges_in_range n (all_edges n block_edges entry_edges)"
  defines "s \<equiv> compute_preds_succs n block_edges entry_edges"
  shows "lists_hold n (all_edges n block_edges entry_edges) s
    \<and> wf_graph n (preds s) \<and> wf_graph n (succs s) \<and> edges_match n (preds s) (succs s)
    \<and> (\<forall>i<n. ENTRY_BLOCK \<in> set (preds s ! i) \<longleftrightarrow> int i \<in> set entry_edges)"
proof -
  let ?es = "all_edges n block_edges entry_edges"
  have hold: "lists_hold n ?es s"
    unfolding s_def compute_preds_succs_fold
    using lists_hold_fold [of n "[]" _ ?es] assms(1) by (simp add: lists_hold_def)
  have ps: "set (preds s ! i) = {a. (a, int i) \<in> set ?es}" "set (succs s ! i) = {b. (int i, b) \<in> set ?es}"
    if "i < n" for i
    using hold that by (force simp: lists_hold_def)+
  have sources: "a = - 1 \<or> 0 \<le> a \<and> a < int n" "b = - 2 \<or> 0 \<le> b \<and> b < int n" if "(a, b) \<in> set ?es" for a b
    using assms(1) that by (auto simp: edges_in_range_def)
  have len: "length (preds s) = n" "length (succs s) = n" using hold by (simp_all add: lists_hold_def)
  have ends: "function_end a \<or> 0 \<le> a \<and> a < int n" if "(a, int i) \<in> set ?es \<or> (int i, a) \<in> set ?es" for a i
    using that sources by (auto simp: function_end_def)
  have each: "wf_graph n xss"
    if "length xss = n" "\<And>i. i < n \<Longrightarrow> \<forall>p\<in>set (xss ! i). function_end p \<or> 0 \<le> p \<and> p < int n" for xss
    unfolding wf_graph_def using that by (metis in_set_conv_nth)
  have graphs: "wf_graph n (preds s)" "wf_graph n (succs s)"
  proof (rule_tac [!] each)
    show "\<forall>p\<in>set (preds s ! i). function_end p \<or> 0 \<le> p \<and> p < int n"
      "\<forall>p\<in>set (succs s ! i). function_end p \<or> 0 \<le> p \<and> p < int n" if "i < n" for i
      unfolding ps [OF that] using ends by blast+
  qed (simp_all add: len)
  have blocks: "i \<in> blocks_of (preds s ! j) \<longleftrightarrow> (int i, int j) \<in> set ?es"
    "j \<in> blocks_of (succs s ! i) \<longleftrightarrow> (int i, int j) \<in> set ?es" if "i < n" "j < n" for i j
  proof -
    have image: "m \<in> nat ` {p \<in> A. \<not> function_end p} \<longleftrightarrow> int m \<in> A"
      if "\<And>p. p \<in> A \<Longrightarrow> function_end p \<or> 0 \<le> p" for A m
      using that by (force simp: function_end_def image_iff)
    show "i \<in> blocks_of (preds s ! j) \<longleftrightarrow> (int i, int j) \<in> set ?es"
      unfolding blocks_of_def ps(1) [OF that(2)] using sources
      by (subst image) (auto simp: function_end_def)
    show "j \<in> blocks_of (succs s ! i) \<longleftrightarrow> (int i, int j) \<in> set ?es"
      unfolding blocks_of_def ps(2) [OF that(1)] using sources
      by (subst image) (auto simp: function_end_def)
  qed
  then have "edges_match n (preds s) (succs s)" by (simp add: edges_match_def)
  moreover have "ENTRY_BLOCK \<in> set (preds s ! i) \<longleftrightarrow> int i \<in> set entry_edges" if "i < n" for i
    using that ps by (auto simp: all_edges_def)
  ultimately show ?thesis using hold graphs by blast
qed

text \<open>The diamond of Code_Motion.\<close>

theorem compute_preds_succs_correct_witness:
  "preds (compute_preds_succs 4 [[1, 2], [3], [3], [-2]] [0]) = [[-1], [0], [0], [2, 1]]
    \<and> wf_graph 4 [[-1], [0], [0], [2, 1]]
    \<and> edges_match 4 [[-1], [0], [0], [2, 1]] (succs (compute_preds_succs 4 [[1, 2], [3], [3], [-2]] [0]))"
proof -
  have p: "preds (compute_preds_succs 4 [[1, 2], [3], [3], [-2]] [0]) = [[-1], [0], [0], [2, 1]]"
    by code_simp
  have "edges_in_range 4 (all_edges 4 [[1, 2], [3], [3], [-2]] [0])"
    by code_simp
  from compute_preds_succs_correct [OF this] show ?thesis unfolding p by blast
qed

end
