(* ===== verification/Dominators.thy ===== *)
theory Dominators
  imports Flow_Graph Lcm_Solutions
begin

text \<open>
  Dominators of the blocks of a function (gcc/flow.c): compute_dominators, whose loop
  computes dominators and post-dominators together, and compute_immediate_dominators.  The dominators
  are those of the flow graph; the post-dominators are not, and an immediate dominator is found
  where it has a smaller number than its block.
\<close>

section \<open>The operations\<close>

text \<open>The body of the loop: both vectors are read through the bitmap of the block in a third.\<close>

definition meet_bitmap :: "int list list \<Rightarrow> nat \<Rightarrow> sbitmap \<Rightarrow> sbitmap list \<Rightarrow> sbitmap" where
  "meet_bitmap pred_succ bb temp vec = SET_BIT (sbitmap_intersect_of_predsucc temp vec bb pred_succ) bb"

definition and_into :: "sbitmap list \<Rightarrow> nat \<Rightarrow> sbitmap \<Rightarrow> bool \<times> sbitmap list" where
  "and_into vec bb temp = (case sbitmap_a_and_b (vec ! bb) (vec ! bb) temp of (changed, v) \<Rightarrow> (changed, vec[bb := v]))"

definition visit_dominators ::
    "int list list \<Rightarrow> int list list \<Rightarrow> nat \<Rightarrow> sbitmap list \<times> sbitmap list \<times> sbitmap list
      \<Rightarrow> bool \<times> sbitmap list \<times> sbitmap list \<times> sbitmap list" where
  "visit_dominators s_preds s_succs bb = (\<lambda>(temp_bitmap, dominators, post_dominators).
     case temp_bitmap[bb := meet_bitmap s_preds bb (temp_bitmap ! bb) dominators] of temp_bitmap \<Rightarrow>
     case and_into dominators bb (temp_bitmap ! bb) of (changed1, dominators) \<Rightarrow>
     case temp_bitmap[bb := meet_bitmap s_succs bb (temp_bitmap ! bb) post_dominators] of temp_bitmap \<Rightarrow>
     case and_into post_dominators bb (temp_bitmap ! bb) of (changed2, post_dominators) \<Rightarrow>
     (changed1 \<or> changed2, temp_bitmap, dominators, post_dominators))"

definition compute_dominators ::
    "memory \<Rightarrow> nat \<Rightarrow> int list list \<Rightarrow> int list list \<Rightarrow> sbitmap list \<Rightarrow> sbitmap list
      \<Rightarrow> (sbitmap list \<times> sbitmap list) option" where
  "compute_dominators mem n_basic_blocks s_preds s_succs dominators post_dominators =
    (let temp_bitmap = sbitmap_vector_alloc (mem 0) n_basic_blocks n_basic_blocks;
         dominators = sbitmap_vector_ones dominators n_basic_blocks;
         post_dominators = sbitmap_vector_ones post_dominators n_basic_blocks;
         temp_bitmap = sbitmap_vector_zero temp_bitmap n_basic_blocks;
         dominators = dominators[0 := SET_BIT (sbitmap_zero (dominators ! 0)) 0];
         final = n_basic_blocks - 1;
         post_dominators = post_dominators[final := SET_BIT (sbitmap_zero (post_dominators ! final)) 0] in
     map_option snd
       (iterate (visit_dominators s_preds s_succs) [1..<n_basic_blocks] (temp_bitmap, dominators, post_dominators)))"

definition subtract_one :: "nat \<Rightarrow> nat \<Rightarrow> sbitmap list \<Rightarrow> sbitmap list" where
  "subtract_one b s tmp =
    (if TEST_BIT (tmp ! b) s then tmp[b := sbitmap_difference (tmp ! b) (tmp ! b) (tmp ! s)] else tmp)"

definition subtract_dominators :: "nat \<Rightarrow> nat \<Rightarrow> sbitmap list \<Rightarrow> sbitmap list" where
  "subtract_dominators n_basic_blocks b tmp =
    fold (subtract_one b) (rev [0..<n_basic_blocks]) tmp"

definition copy_strict :: "sbitmap list \<Rightarrow> nat \<Rightarrow> sbitmap list \<Rightarrow> sbitmap list" where
  "copy_strict dominators b tmp = tmp[b := RESET_BIT (sbitmap_copy (tmp ! b) (dominators ! b)) b]"

definition strict_dominators :: "nat \<Rightarrow> sbitmap list \<Rightarrow> sbitmap list \<Rightarrow> sbitmap list" where
  "strict_dominators n_basic_blocks dominators tmp = fold (copy_strict dominators) (rev [0..<n_basic_blocks]) tmp"

definition store_idom :: "nat \<Rightarrow> sbitmap list \<Rightarrow> int list \<Rightarrow> int list" where
  "store_idom n_basic_blocks tmp idom =
    fold (\<lambda>b idom. fold (\<lambda>t idom. idom[b := int t]) (EXECUTE_IF_SET_IN_SBITMAP (tmp ! b) 0) idom)
      (rev [0..<n_basic_blocks]) idom"

definition compute_immediate_dominators :: "memory \<Rightarrow> nat \<Rightarrow> int list \<Rightarrow> sbitmap list \<Rightarrow> int list" where
  "compute_immediate_dominators mem n_basic_blocks idom dominators =
    (let tmp = sbitmap_vector_alloc (mem 0) n_basic_blocks n_basic_blocks;
         tmp = strict_dominators n_basic_blocks dominators tmp;
         tmp = fold (subtract_dominators n_basic_blocks) (rev [0..<n_basic_blocks]) tmp in
     store_idom n_basic_blocks tmp idom)"

section \<open>The equations of the loop\<close>

text \<open>What the visit of a block computes from the sets of the others, for both vectors at once.\<close>

definition meet_blocks :: "nat \<Rightarrow> int list \<Rightarrow> (nat \<Rightarrow> nat set) \<Rightarrow> nat set" where
  "meet_blocks w ps X = (if ps = [] then all_bits w else \<Inter>i\<in>blocks_of ps. X i)"

definition dominator_equation ::
    "nat \<Rightarrow> int list list \<Rightarrow> int list list \<Rightarrow> nat \<Rightarrow> (nat \<Rightarrow> nat set \<times> nat set) \<Rightarrow> nat set \<times> nat set" where
  "dominator_equation w s_preds s_succs b X =
    (let d = insert b (meet_blocks w (s_preds ! b) (fst \<circ> X));
         e = insert b (if s_succs ! b \<noteq> [] \<and> blocks_of (s_succs ! b) = {} then d
                       else meet_blocks w (s_succs ! b) (snd \<circ> X)) in
     (fst (X b) \<inter> d, snd (X b) \<inter> e))"

text \<open>Only the first block is entered from outside.\<close>

definition one_entry :: "nat \<Rightarrow> int list list \<Rightarrow> bool" where
  "one_entry n s_preds \<longleftrightarrow> (\<forall>b<n. b \<noteq> 0 \<longrightarrow> (\<forall>p\<in>set (s_preds ! b). \<not> function_end p))"

definition dominator_inputs :: "nat \<Rightarrow> nat \<Rightarrow> int list list \<Rightarrow> int list list \<Rightarrow> bool" where
  "dominator_inputs n w s_preds s_succs \<longleftrightarrow> 0 < n \<and> n \<le> w * 32 \<and> wf_graph n s_preds \<and> wf_graph n s_succs
     \<and> one_entry n s_preds"

definition dominator_state :: "nat \<Rightarrow> nat \<Rightarrow> sbitmap list \<times> sbitmap list \<times> sbitmap list \<Rightarrow> bool" where
  "dominator_state n w = (\<lambda>(t, d, p). wf_vector n w t \<and> wf_vector n w d \<and> wf_vector n w p)"

definition both_bits :: "sbitmap list \<times> sbitmap list \<times> sbitmap list \<Rightarrow> nat \<Rightarrow> nat set \<times> nat set" where
  "both_bits = (\<lambda>(t, d, p) i. (bits_of d i, bits_of p i))"

lemma intersect_bits:
  assumes "wf_vector n w v" "wf_bitmap w d" "wf_graph n g" "b < n"
  shows "wf_bitmap w (sbitmap_intersect_of_predsucc d v b g)"
    "members (sbitmap_intersect_of_predsucc d v b g) =
      (if g ! b \<noteq> [] \<and> blocks_of (g ! b) = {} then members d else meet_blocks w (g ! b) (bits_of v))"
  using combine_blocks_bits(1) [OF assms, of True]
    combine_blocks_bits(2) [OF assms, where meet = True and start = "\<lambda>_. {}"]
  by (simp_all add: combine_blocks_def gather_bits_def keeps_input_def meet_blocks_def)

lemma visit_dominators_steps:
  assumes "dominator_inputs n w s_preds s_succs" "dominator_state n w c" "b \<in> set [1..<n]"
    and "visit_dominators s_preds s_succs b c = (ch, c')"
  shows "dominator_state n w c'"
    "both_bits c' = (both_bits c)(b := dominator_equation w s_preds s_succs b (both_bits c))"
    "ch \<longleftrightarrow> both_bits c' b \<noteq> both_bits c b"
proof -
  obtain t d p where c: "c = (t, d, p)" by (cases c) auto
  have wf: "wf_vector n w t" "wf_vector n w d" "wf_vector n w p"
    using assms(2) by (simp_all add: c dominator_state_def)
  have b: "b < n" "b \<noteq> 0" "b < w * 32" and graphs: "wf_graph n s_preds" "wf_graph n s_succs"
    using assms(1,3) by (auto simp: dominator_inputs_def)
  have len: "b < length t" "b < length d" "b < length p" using wf b by (simp_all add: wf_vector_def)
  have "\<forall>q\<in>set (s_preds ! b). \<not> function_end q"
    using assms(1) b by (simp add: dominator_inputs_def one_entry_def)
  then have entry: "s_preds ! b = [] \<or> blocks_of (s_preds ! b) \<noteq> {}"
    by (cases "s_preds ! b") (auto simp: blocks_of_Cons)
  define t1 where "t1 = SET_BIT (sbitmap_intersect_of_predsucc (t ! b) d b s_preds) b"
  define t2 where "t2 = SET_BIT (sbitmap_intersect_of_predsucc t1 p b s_succs) b"
  define r1 where "r1 = sbitmap_a_and_b (d ! b) (d ! b) t1"
  define r2 where "r2 = sbitmap_a_and_b (p ! b) (p ! b) t2"
  have out: "ch = (fst r1 \<or> fst r2)" "c' = (t[b := t2], d[b := snd r1], p[b := snd r2])"
    using assms(4) len unfolding c visit_dominators_def t1_def t2_def r1_def r2_def
    by (auto simp: meet_bitmap_def and_into_def split: prod.splits)
  let ?D = "insert b (meet_blocks w (s_preds ! b) (bits_of d))"
  note i1 = intersect_bits [OF wf(2) wf_nth [OF wf(1) b(1)] graphs(1) b(1)]
  have t1: "wf_bitmap w t1" "members t1 = ?D"
    using i1 entry members_SET_BIT [OF i1(1) b(3)] by (auto simp: t1_def wf_operations)
  let ?E = "insert b (if s_succs ! b \<noteq> [] \<and> blocks_of (s_succs ! b) = {} then ?D
      else meet_blocks w (s_succs ! b) (bits_of p))"
  note i2 = intersect_bits [OF wf(3) t1(1) graphs(2) b(1)]
  have t2: "wf_bitmap w t2" "members t2 = ?E"
    using i2 t1(2) members_SET_BIT [OF i2(1) b(3)] by (auto simp: t2_def wf_operations)
  note db = wf_nth [OF wf(2) b(1)] and pb = wf_nth [OF wf(3) b(1)]
  have r: "wf_bitmap w (snd r1)" "wf_bitmap w (snd r2)" "members (snd r1) = bits_of d b \<inter> ?D"
    "members (snd r2) = bits_of p b \<inter> ?E" "fst r1 \<longleftrightarrow> members (snd r1) \<noteq> bits_of d b"
    "fst r2 \<longleftrightarrow> members (snd r2) \<noteq> bits_of p b"
    using members_operations(4) [OF db db t1(1) t1(1)] members_operations(4) [OF pb pb t2(1) t2(1)]
      changed_operations(2) [OF db] changed_operations(2) [OF pb]
    by (simp_all only: r1_def r2_def t1(2) t2(2) wf_operations(4) [OF db] wf_operations(4) [OF pb])
  show "dominator_state n w c'"
    by (simp add: out dominator_state_def wf_vector_update wf t2 r)
  have eq: "dominator_equation w s_preds s_succs b (both_bits c) = (bits_of d b \<inter> ?D, bits_of p b \<inter> ?E)"
    by (simp add: dominator_equation_def c both_bits_def comp_def Let_def)
  show "both_bits c' = (both_bits c)(b := dominator_equation w s_preds s_succs b (both_bits c))"
    unfolding eq by (rule ext) (simp add: out c both_bits_def r(3,4) nth_list_update len)
  show "ch \<longleftrightarrow> both_bits c' b \<noteq> both_bits c b"
    using r(5,6) len by (simp add: out c both_bits_def)
qed

lemma dominator_equation_mono:
  assumes "\<And>i. fst (X i) \<subseteq> fst (Y i) \<and> snd (X i) \<subseteq> snd (Y i)"
  shows "fst (dominator_equation w ps ss b X) \<subseteq> fst (dominator_equation w ps ss b Y)
    \<and> snd (dominator_equation w ps ss b X) \<subseteq> snd (dominator_equation w ps ss b Y)"
proof -
  have meets: "meet_blocks w qs (fst \<circ> X) \<subseteq> meet_blocks w qs (fst \<circ> Y)"
    "meet_blocks w qs (snd \<circ> X) \<subseteq> meet_blocks w qs (snd \<circ> Y)" for qs
    unfolding meet_blocks_def using assms by (simp_all add: INF_mono')
  show ?thesis
    using assms [of b] meets [of "ps ! b"] meets [of "ss ! b"]
    unfolding dominator_equation_def Let_def by (auto split: if_split_asm)
qed

interpretation dominance: block_equations "[1..<n]" "visit_dominators s_preds s_succs"
  "\<lambda>_ c. dominator_inputs n w s_preds s_succs \<and> dominator_state n w c" both_bits both_bits
  "dominator_equation w s_preds s_succs" "\<lambda>_ v. v" "\<lambda>u v. fst u \<subseteq> fst v \<and> snd u \<subseteq> snd v"
  "{(X, Y). X \<subseteq> all_bits w \<and> Y \<subseteq> all_bits w}" "\<lambda>(X, Y). card X + card Y"
  for n w s_preds s_succs
proof
  fix u v :: "nat set \<times> nat set"
  assume uv: "u \<in> {(X, Y). X \<subseteq> all_bits w \<and> Y \<subseteq> all_bits w}" "v \<in> {(X, Y). X \<subseteq> all_bits w \<and> Y \<subseteq> all_bits w}"
    "fst u \<subseteq> fst v \<and> snd u \<subseteq> snd v" "u \<noteq> v"
  have fin: "finite (fst v)" "finite (snd v)" using uv(2) finite_subset [OF _ finite_lessThan] by auto
  have "card (fst u) \<le> card (fst v)" "card (snd u) \<le> card (snd v)"
    using uv(3) card_mono fin by blast+
  moreover have "fst u \<noteq> fst v \<or> snd u \<noteq> snd v" using uv(4) by (simp add: prod_eq_iff)
  then have "card (fst u) < card (fst v) \<or> card (snd u) < card (snd v)"
    using uv(3) psubset_card_mono fin by (meson psubsetI)
  ultimately show "(case u of (X, Y) \<Rightarrow> card X + card Y) < (case v of (X, Y) \<Rightarrow> card X + card Y)"
    unfolding case_prod_unfold by linarith
next
  fix ys c b assume "dominator_inputs n w s_preds s_succs \<and> dominator_state n w c" "b \<in> set [1..<n]"
  then show "both_bits c b \<in> {(X, Y). X \<subseteq> all_bits w \<and> Y \<subseteq> all_bits w}"
    using members_bound [of n w _ b] by (auto simp: dominator_state_def both_bits_def dest!: subsetD)
next
  fix b ys c ch c'
  assume inv: "dominator_inputs n w s_preds s_succs \<and> dominator_state n w c" and b: "b \<in> set [1..<n]"
    and v: "visit_dominators s_preds s_succs b c = (ch, c')"
  note steps = visit_dominators_steps [OF conjunct1 [OF inv] conjunct2 [OF inv] b v]
  show "dominator_inputs n w s_preds s_succs \<and> dominator_state n w c'" using inv steps(1) by blast
  show "both_bits c' = (both_bits c)(b := dominator_equation w s_preds s_succs b (both_bits c))"
    by (rule steps(2))
  show ch if "both_bits c' b \<noteq> both_bits c b" using steps(3) that by blast
  show "both_bits c' b \<noteq> both_bits c b \<or> both_bits c' b \<noteq> both_bits c b" if ch using steps(3) that by blast
next
  fix b :: nat and X Y :: "nat \<Rightarrow> nat set \<times> nat set"
  assume "\<And>i. fst (X i) \<subseteq> fst (Y i) \<and> snd (X i) \<subseteq> snd (Y i)"
  then show "fst (dominator_equation w s_preds s_succs b X) \<subseteq> fst (dominator_equation w s_preds s_succs b Y)
      \<and> snd (dominator_equation w s_preds s_succs b X) \<subseteq> snd (dominator_equation w s_preds s_succs b Y)"
    by (rule dominator_equation_mono)
qed (simp_all add: prod_eq_iff, blast+)


section \<open>Dominators\<close>

text \<open>A block dominates another when every path from the first block passes through it.\<close>

definition dominates :: "int list list \<Rightarrow> nat \<Rightarrow> nat \<Rightarrow> bool" where
  "dominates s_succs d b \<longleftrightarrow> (\<forall>bs. flow_path s_succs bs \<longrightarrow> hd bs = 0 \<longrightarrow> last bs = b \<longrightarrow> d \<in> set bs)"

lemma flow_path_extend:
  assumes "flow_path g bs" "b \<in> blocks_of (g ! last bs)"
  shows "flow_path g (bs @ [b])"
  using assms by (auto simp: flow_path_def nth_append last_conv_nth less_Suc_eq)
    (metis One_nat_def diff_Suc_1)

lemma flow_path_take:
  assumes "flow_path g bs" "i < length bs"
  shows "flow_path g (take (Suc i) bs)" "hd (take (Suc i) bs) = hd bs" "last (take (Suc i) bs) = bs ! i"
  using assms by (auto simp: flow_path_def take_Suc_conv_app_nth nth_append less_Suc_eq_le hd_append)
    (metis hd_conv_nth take_0 take_eq_Nil hd_take | auto simp: less_Suc_eq)+

lemma compute_dominators_run:
  assumes "dominator_inputs n w s_preds s_succs" "w = SBITMAP_SET_SIZE n"
    and "wf_vector n w dominators" "wf_vector n w post_dominators"
  obtains d p where
    "compute_dominators mem n s_preds s_succs dominators post_dominators = Some (d, p)"
    "wf_vector n w d" "wf_vector n w p" "bits_of d 0 = {0}"
    "\<And>b. 0 < b \<Longrightarrow> b < n \<Longrightarrow> bits_of d b \<subseteq> insert b (meet_blocks w (s_preds ! b) (bits_of d))"
    "\<And>Y i. Y 0 = {0} \<Longrightarrow> (\<And>b. 0 < b \<Longrightarrow> b < n \<Longrightarrow> Y b \<subseteq> all_bits w
      \<and> Y b \<subseteq> insert b (meet_blocks w (s_preds ! b) Y)) \<Longrightarrow> i < n \<Longrightarrow> Y i \<subseteq> bits_of d i"
proof -
  let ?ones = "sbitmap_vector_ones dominators n" and ?pones = "sbitmap_vector_ones post_dominators n"
  let ?temp = "sbitmap_vector_zero (sbitmap_vector_alloc (mem 0) n n) n"
  let ?d = "?ones[0 := SET_BIT (sbitmap_zero (?ones ! 0)) 0]"
  let ?p = "?pones[n - 1 := SET_BIT (sbitmap_zero (?pones ! (n - 1))) 0]"
  have n: "0 < n" "n - 1 < n" "0 < w * 32" using assms(1) by (auto simp: dominator_inputs_def)
  note ones = wf_vector_start [OF assms(3) n(1)] and pones = wf_vector_start [OF assms(4) n(1)]
  have "wf_vector n w (sbitmap_vector_alloc (mem 0) n n)" using assms(2) wf_vector_alloc by simp
  note temp = wf_vector_start(2) [OF this n(1)]
  note zero = wf_operations(9) [OF wf_nth [OF ones(1) n(1)]] and pzero = wf_operations(9) [OF wf_nth [OF pones(1) n(2)]]
  have wf: "wf_vector n w ?d" "wf_vector n w ?p"
    by (rule wf_vector_update, rule ones pones, rule wf_operations, rule zero pzero)+
  have len: "0 < length ?ones" using ones(1) n by (simp add: wf_vector_def)
  have "members (sbitmap_zero (?ones ! 0)) = {}"
    using members_operations(9) [OF wf_nth [OF ones(1) n(1)] wf_nth [OF ones(1) n(1)] wf_nth [OF ones(1) n(1)] wf_nth [OF ones(1) n(1)]] .
  then have d0: "bits_of ?d 0 = {0}" using members_SET_BIT [OF zero n(3)] len by simp
  have dbits: "bits_of ?d b = all_bits w" if "0 < b" "b < n" for b using ones(3) [OF that(2)] that by simp
  have state: "dominator_inputs n w s_preds s_succs \<and> dominator_state n w (?temp, ?d, ?p)"
    using assms(1) temp wf by (simp add: dominator_state_def)
  have start: "dominance.descending n w s_preds s_succs (?temp, ?d, ?p)"
    unfolding dominance.descending_def by (auto simp: dominator_equation_def Let_def)
  show ?thesis
  proof (rule dominance.iterate_solves [OF state start])
    fix c assume run: "iterate (visit_dominators s_preds s_succs) [1..<n] (?temp, ?d, ?p) = Some c"
    and c: "dominator_inputs n w s_preds s_succs \<and> dominator_state n w c"
    and settled: "\<And>b. b \<in> set [1..<n] \<Longrightarrow> dominance.settled w s_preds s_succs c b"
    and other: "\<And>i. i \<notin> set [1..<n] \<Longrightarrow> both_bits c i = both_bits (?temp, ?d, ?p) i
      \<and> both_bits c i = both_bits (?temp, ?d, ?p) i"
    and above: "\<And>Y. (\<And>b. b \<in> set [1..<n] \<Longrightarrow> fst (Y b) \<subseteq> fst (dominator_equation w s_preds s_succs b Y)
        \<and> snd (Y b) \<subseteq> snd (dominator_equation w s_preds s_succs b Y)) \<Longrightarrow>
      dominance.below Y (both_bits (?temp, ?d, ?p)) \<Longrightarrow> dominance.below Y (both_bits c)"
    obtain t d p where tdp: "c = (t, d, p)" by (cases c) auto
    show ?thesis
    proof (rule that [of d p])
      show "compute_dominators mem n s_preds s_succs dominators post_dominators = Some (d, p)"
        using run by (simp only: compute_dominators_def Let_def tdp option.map snd_conv)
      show "wf_vector n w d" "wf_vector n w p" using c by (simp_all add: tdp dominator_state_def)
      show "bits_of d 0 = {0}" using other [of 0] d0 by (simp add: tdp both_bits_def)
      show "bits_of d b \<subseteq> insert b (meet_blocks w (s_preds ! b) (bits_of d))" if "0 < b" "b < n" for b
      proof -
        have "both_bits c b = dominator_equation w s_preds s_succs b (both_bits c)"
          using settled [of b] that by (simp add: dominance.settled_def)
        then have "bits_of d b = bits_of d b \<inter> insert b (meet_blocks w (s_preds ! b) (bits_of d))"
          by (simp add: tdp both_bits_def dominator_equation_def Let_def comp_def)
        then show ?thesis by blast
      qed
      show "Y i \<subseteq> bits_of d i"
        if Y: "Y 0 = {0}" "\<And>b. 0 < b \<Longrightarrow> b < n \<Longrightarrow> Y b \<subseteq> all_bits w
          \<and> Y b \<subseteq> insert b (meet_blocks w (s_preds ! b) Y)" "i < n" for Y i
      proof -
        let ?Y = "\<lambda>i. (if i < n then Y i else {}, {})"
        have "blocks_of (s_preds ! b) \<subseteq> {..<n}" if "b < n" for b
          using assms(1) wf_graph_blocks that by (auto simp: dominator_inputs_def)
        then have same: "meet_blocks w (s_preds ! b) (fst \<circ> ?Y) = meet_blocks w (s_preds ! b) Y" if "b < n" for b
          using that by (auto simp: meet_blocks_def)
        have "dominance.below ?Y (both_bits (?temp, ?d, ?p))"
          unfolding dominance.below_def
        proof
          fix i show "fst (?Y i) \<subseteq> fst (both_bits (?temp, ?d, ?p) i) \<and> snd (?Y i) \<subseteq> snd (both_bits (?temp, ?d, ?p) i)"
            using Y(1,2) d0 dbits [of i] by (cases "i = 0") (simp_all add: both_bits_def)
        qed
        moreover have "fst (?Y b) \<subseteq> fst (dominator_equation w s_preds s_succs b ?Y)
            \<and> snd (?Y b) \<subseteq> snd (dominator_equation w s_preds s_succs b ?Y)" if "b \<in> set [1..<n]" for b
          using Y(2) [of b] that unfolding dominator_equation_def Let_def by (subst same) simp_all
        ultimately have "dominance.below ?Y (both_bits c)" by (intro above)
        then have "fst (?Y i) \<subseteq> fst (both_bits c i)" by (simp add: dominance.below_def)
        then show ?thesis using Y(3) by (simp add: tdp both_bits_def)
      qed
    qed
  qed
qed

lemma dominator_on_path:
  assumes "\<And>b. 0 < b \<Longrightarrow> b < n \<Longrightarrow> bits_of d b \<subseteq> insert b (meet_blocks w (s_preds ! b) (bits_of d))"
    and "bits_of d 0 = {0}" "0 < n" "wf_graph n s_succs" "edges_match n s_preds s_succs"
    and "flow_path s_succs bs" "hd bs = 0" "k \<in> bits_of d (last bs)"
  shows "k \<in> set bs"
  using assms(6-8)
proof (induction bs rule: rev_induct)
  case (snoc b bs)
  show ?case
  proof (cases "bs = []")
    case True
    then show ?thesis using snoc.prems assms(2) by simp
  next
    case False
    have path: "flow_path s_succs bs" "hd bs = 0"
      using snoc.prems False flow_path_take [OF snoc.prems(1), of "length bs - 1"] by simp_all
    have "last bs < n" using flow_path_blocks [OF path(1) assms(4), of "length bs - 1"] path(2) assms(3) False
      by (simp add: last_conv_nth)
    have step: "b \<in> blocks_of (s_succs ! last bs)"
      using flow_path_step [OF snoc.prems(1), of "length bs - 1"] False by (simp add: nth_append last_conv_nth)
    have b: "b < n" using wf_graph_blocks [OF assms(4) \<open>last bs < n\<close> step] .
    then have pred: "last bs \<in> blocks_of (s_preds ! b)"
      using assms(5) step \<open>last bs < n\<close> by (simp add: edges_match_def)
    have "k = b \<or> k \<in> bits_of d (last bs)" if "0 < b"
      using assms(1) [OF that b] snoc.prems(3) pred has_blocks [OF pred] by (auto simp: meet_blocks_def)
    moreover have "k = b" if "b = 0" using that snoc.prems(3) assms(2) by simp
    ultimately show ?thesis using snoc.IH [OF path] by (cases "b = 0") auto
  qed
qed (simp add: flow_path_def)

lemma dominates_step:
  assumes "dominates g k b" "b \<in> blocks_of (g ! a)"
  shows "k = b \<or> dominates g k a"
proof (cases "k = b")
  case False
  have "k \<in> set bs" if "flow_path g bs" "hd bs = 0" "last bs = a" for bs
  proof -
    have "bs \<noteq> []" using that(1) by (simp add: flow_path_def)
    then have "k \<in> set (bs @ [b])"
      using assms(1) [unfolded dominates_def, rule_format, OF flow_path_extend [OF that(1)]] assms(2) that
      by (simp add: hd_append)
    then show ?thesis using False by simp
  qed
  then show ?thesis by (simp add: dominates_def)
qed simp

lemma compute_dominators_bits:
  assumes "0 < n" "wf_graph n s_preds" "wf_graph n s_succs" "edges_match n s_preds s_succs" "one_entry n s_preds"
    and "wf_vector n (SBITMAP_SET_SIZE n) dominators" "wf_vector n (SBITMAP_SET_SIZE n) post_dominators"
  obtains d p where "compute_dominators mem n s_preds s_succs dominators post_dominators = Some (d, p)"
    "wf_vector n (SBITMAP_SET_SIZE n) d"
    "\<And>b. b < n \<Longrightarrow> bits_of d b = {k \<in> all_bits (SBITMAP_SET_SIZE n). dominates s_succs k b}"
proof -
  let ?w = "SBITMAP_SET_SIZE n"
  have room: "n \<le> ?w * 32" by (rule set_size_room)
  have inputs: "dominator_inputs n ?w s_preds s_succs"
    using assms(1-3,5) room by (simp add: dominator_inputs_def)
  show ?thesis
  proof (rule compute_dominators_run [OF inputs refl assms(6,7), of mem])
    fix d p assume run: "compute_dominators mem n s_preds s_succs dominators post_dominators = Some (d, p)"
      and wf: "wf_vector n ?w d" and zero: "bits_of d 0 = {0}"
      and down: "\<And>b. 0 < b \<Longrightarrow> b < n \<Longrightarrow> bits_of d b \<subseteq> insert b (meet_blocks ?w (s_preds ! b) (bits_of d))"
      and above: "\<And>Y i. Y 0 = {0} \<Longrightarrow> (\<And>b. 0 < b \<Longrightarrow> b < n \<Longrightarrow> Y b \<subseteq> all_bits ?w
        \<and> Y b \<subseteq> insert b (meet_blocks ?w (s_preds ! b) Y)) \<Longrightarrow> i < n \<Longrightarrow> Y i \<subseteq> bits_of d i"
    let ?Y = "\<lambda>b. {k \<in> all_bits ?w. dominates s_succs k b}"
    have "flow_path s_succs [0]" by (simp add: flow_path_def)
    then have "k = 0" if "dominates s_succs k 0" for k using that by (force simp: dominates_def)
    moreover have "dominates s_succs 0 0"
      by (auto simp: dominates_def flow_path_def dest: hd_in_set)
    ultimately have first: "?Y 0 = {0}" using assms(1) room by auto
    have "b \<in> blocks_of (s_succs ! a)" if "b < n" "a \<in> blocks_of (s_preds ! b)" for a b
      using assms(4) that wf_graph_blocks [OF assms(2) that] by (simp add: edges_match_def)
    then have "k = b \<or> dominates s_succs k a" if "b < n" "a \<in> blocks_of (s_preds ! b)" "dominates s_succs k b" for a b k
      using dominates_step [OF that(3)] that(1,2) by blast
    then have "?Y b \<subseteq> insert b (meet_blocks ?w (s_preds ! b) ?Y)" if "b < n" for b
      using that unfolding meet_blocks_def by auto
    then have "?Y i \<subseteq> bits_of d i" if "i < n" for i
      by (intro above [of ?Y]) (use first that in auto)
    moreover have "k \<in> ?Y b" if "b < n" "k \<in> bits_of d b" for k b
      using dominator_on_path [OF down zero assms(1,3,4)] that members_bound [OF wf that(1)]
      unfolding dominates_def by blast
    ultimately show ?thesis by (intro that [OF run wf]) blast
  qed
qed

text \<open>C9. compute_dominators ends, and a block is recorded as a dominator of another exactly when
  every path from the first block passes through it, provided that only the first block is
  entered from outside.\<close>

theorem compute_dominators_correct:
  assumes "0 < n" "wf_graph n s_preds" "wf_graph n s_succs" "edges_match n s_preds s_succs" "one_entry n s_preds"
    and "wf_vector n (SBITMAP_SET_SIZE n) dominators" "wf_vector n (SBITMAP_SET_SIZE n) post_dominators"
  shows "\<exists>d p. compute_dominators mem n s_preds s_succs dominators post_dominators = Some (d, p)
    \<and> (\<forall>b<n. \<forall>k<n. TEST_BIT (d ! b) k \<longleftrightarrow> dominates s_succs k b)"
proof (rule compute_dominators_bits [OF assms, of mem])
  fix d p assume "compute_dominators mem n s_preds s_succs dominators post_dominators = Some (d, p)"
    and wf: "wf_vector n (SBITMAP_SET_SIZE n) d"
    and bits: "\<And>b. b < n \<Longrightarrow> bits_of d b = {k \<in> all_bits (SBITMAP_SET_SIZE n). dominates s_succs k b}"
  moreover have "TEST_BIT (d ! b) k \<longleftrightarrow> dominates s_succs k b" if "b < n" "k < n" for b k
    using TEST_BIT_bits_of [OF wf that] bits [OF that(1)] that(2) set_size_room [of n] by auto
  ultimately show ?thesis by blast
qed


section \<open>Immediate dominators\<close>

lemma reached_flow_path:
  assumes "reached g b"
  obtains bs where "flow_path g bs" "hd bs = 0" "last bs = b"
proof -
  have "\<exists>bs. flow_path g bs \<and> hd bs = 0 \<and> last bs = b"
    using assms unfolding reached_def
  proof (induction rule: rtrancl_induct)
    case base
    have "flow_path g [0]" by (simp add: flow_path_def)
    then show ?case by force
  next
    case (step a b)
    then obtain bs where "flow_path g bs" "hd bs = 0" "last bs = a" by blast
    moreover then have "bs \<noteq> []" by (simp add: flow_path_def)
    ultimately show ?case using flow_path_extend [of g bs b] step(2) by (intro exI [of _ "bs @ [b]"]) simp
  qed
  then show ?thesis using that by blast
qed

text \<open>Two blocks that dominate each other are one: on a shortest path to the one, the path to the
  other that it contains leaves no room.\<close>

lemma dominates_antisym:
  assumes "reached g d" "dominates g m d" "dominates g d m"
  shows "m = d"
proof -
  let ?to = "\<lambda>bs. flow_path g bs \<and> hd bs = 0 \<and> last bs = d"
  obtain bs0 where "?to bs0" using reached_flow_path [OF assms(1)] by blast
  then obtain bs where bs: "?to bs" "\<And>cs. ?to cs \<Longrightarrow> length bs \<le> length cs"
    using ex_has_least_nat [of ?to bs0 length] by blast
  then have "m \<in> set bs" using assms(2) by (simp add: dominates_def)
  then obtain i where i: "i < length bs" "bs ! i = m" by (auto simp: in_set_conv_nth)
  note take = flow_path_take [OF conjunct1 [OF bs(1)]]
  have "d \<in> set (take (Suc i) bs)"
    using assms(3) take [OF i(1)] bs(1) i(2) by (simp add: dominates_def)
  then obtain j where j: "j \<le> i" "bs ! j = d" using i(1) by (auto simp: in_set_conv_nth less_Suc_eq_le)
  then have "length bs \<le> length (take (Suc j) bs)"
    using take [of j] bs i(1) by (intro bs(2)) simp
  then have "j = i" using j(1) i(1) by simp
  then show ?thesis using i(2) j(2) by simp
qed

lemma dominator_reached:
  assumes "reached g b" "dominates g m b"
  shows "reached g m"
proof -
  obtain bs where bs: "flow_path g bs" "hd bs = 0" "last bs = b" by (rule reached_flow_path [OF assms(1)])
  then have "m \<in> set bs" using assms(2) by (simp add: dominates_def)
  then show ?thesis using reached_path [OF bs(1,2)] by (metis in_set_conv_nth)
qed

text \<open>The inner loop on sets, and on the vector.\<close>

abbreviation subtract_all :: "(nat \<Rightarrow> nat set) \<Rightarrow> nat list \<Rightarrow> nat set \<Rightarrow> nat set" where
  "subtract_all T ss x \<equiv> fold (\<lambda>s x. if s \<in> x then x - T s else x) ss x"

lemma subtract_all_sub: "subtract_all T ss x \<subseteq> x"
proof (induction ss arbitrary: x)
  case (Cons s ss)
  then show ?case using Cons.IH [of "if s \<in> x then x - T s else x"] by (auto split: if_split_asm)
qed simp

lemma subtract_all_keeps:
  assumes "m \<in> x" "\<And>s. s \<in> x \<Longrightarrow> m \<notin> T s"
  shows "m \<in> subtract_all T ss x"
  using assms
proof (induction ss arbitrary: x)
  case (Cons s ss)
  let ?y = "if s \<in> x then x - T s else x"
  have "m \<in> subtract_all T ss ?y" by (rule Cons.IH) (use Cons.prems in \<open>auto split: if_split_asm\<close>)
  then show ?case by simp
qed simp

lemma subtract_all_cong:
  assumes "\<And>i. i \<noteq> b \<Longrightarrow> T i = U i" "b \<notin> x"
  shows "subtract_all T ss x = subtract_all U ss x"
  using assms(2)
proof (induction ss arbitrary: x)
  case (Cons s ss)
  then have "(if s \<in> x then x - T s else x) = (if s \<in> x then x - U s else x)"
    using assms(1) [of s] by (cases "s = b") simp_all
  then show ?case using Cons.IH [of "if s \<in> x then x - U s else x"] Cons.prems by auto
qed simp

lemma subtract_all_removes:
  assumes "m \<in> x" "\<And>s. s \<in> x \<Longrightarrow> m \<notin> T s" "m \<in> set ss"
  shows "subtract_all T ss x \<inter> T m = {}"
  using assms
proof (induction ss arbitrary: x)
  case (Cons s ss)
  show ?case
  proof (cases "s = m")
    case True
    then show ?thesis using subtract_all_sub [of T ss "x - T m"] Cons.prems(1) by auto
  next
    case False
    then show ?thesis using Cons.IH [of "if s \<in> x then x - T s else x"] Cons.prems by auto
  qed
qed simp

lemma subtract_dominators_bits:
  assumes "wf_vector n w tmp" "n \<le> w * 32" "b < n" "b \<notin> bits_of tmp b"
  shows "wf_vector n w (subtract_dominators n b tmp)"
    "bits_of (subtract_dominators n b tmp)
      = (bits_of tmp)(b := subtract_all (bits_of tmp) (rev [0..<n]) (bits_of tmp b))"
proof -
  let ?loop = "fold (subtract_one b)"
  have "wf_vector n w (?loop ss tmp)
    \<and> bits_of (?loop ss tmp) = (bits_of tmp)(b := subtract_all (bits_of tmp) ss (bits_of tmp b))"
    if "set ss \<subseteq> {..<n}" for ss
    using that assms(1,4)
  proof (induction ss arbitrary: tmp)
    case (Cons s ss)
    have s: "s < n" "s < w * 32" using Cons.prems(1) assms(2) by auto
    have len: "b < length tmp" using Cons.prems(2) assms(3) by (simp add: wf_vector_def)
    note wf = wf_nth [OF Cons.prems(2)]
    note test = TEST_BIT_members [OF wf [OF assms(3)] s(2)]
    show ?case
    proof (cases "s \<in> bits_of tmp b")
      case True
      let ?new = "tmp[b := sbitmap_difference (tmp ! b) (tmp ! b) (tmp ! s)]"
      have new: "bits_of ?new = (bits_of tmp)(b := bits_of tmp b - bits_of tmp s)"
        using members_operations(3) [OF wf [OF assms(3)] wf [OF assms(3)] wf [OF s(1)] wf [OF s(1)]]
        by (simp add: bits_of_update [OF len])
      have vec: "wf_vector n w ?new"
        by (rule wf_vector_update [OF Cons.prems(2) wf_operations(3) [OF wf [OF assms(3)]]])
      have b: "b \<notin> bits_of ?new b" using Cons.prems(3) fun_cong [OF new, of b] by simp
      have "subtract_all (bits_of ?new) ss x = subtract_all (bits_of tmp) ss x" if "b \<notin> x" for x
        by (rule subtract_all_cong [OF _ that]) simp
      then show ?thesis
        using Cons.IH [OF _ vec b] Cons.prems(1,3) True test new by (simp add: subtract_one_def fun_eq_iff)
    next
      case False
      then show ?thesis using Cons test by (simp add: subtract_one_def)
    qed
  qed (simp add: fun_eq_iff)
  then show "wf_vector n w (subtract_dominators n b tmp)"
    "bits_of (subtract_dominators n b tmp)
      = (bits_of tmp)(b := subtract_all (bits_of tmp) (rev [0..<n]) (bits_of tmp b))"
    by (simp_all add: subtract_dominators_def atLeast0LessThan)
qed

lemma subtract_dominators_fold:
  assumes "wf_vector n w tmp" "n \<le> w * 32" "\<forall>b\<in>set bs. b < n" "\<And>b. b < n \<Longrightarrow> b \<notin> bits_of tmp b"
  defines "tmp' \<equiv> fold (subtract_dominators n) bs tmp"
  shows "wf_vector n w tmp' \<and> (\<forall>i. bits_of tmp' i \<subseteq> bits_of tmp i)
    \<and> (\<forall>i. i \<notin> set bs \<longrightarrow> bits_of tmp' i = bits_of tmp i)"
  using assms(1,3,4) unfolding tmp'_def
proof (induction bs arbitrary: tmp)
  case (Cons b bs)
  then have b: "b < n" "b \<notin> bits_of tmp b" by simp_all
  note step = subtract_dominators_bits [OF Cons.prems(1) assms(2) b]
  have sub: "bits_of (subtract_dominators n b tmp) i \<subseteq> bits_of tmp i" for i
    using fun_cong [OF step(2), of i] subtract_all_sub by simp
  have other: "bits_of (subtract_dominators n b tmp) i = bits_of tmp i" if "i \<noteq> b" for i
    using fun_cong [OF step(2), of i] that by simp
  have "wf_vector n w (fold (subtract_dominators n) bs (subtract_dominators n b tmp))
    \<and> (\<forall>i. bits_of (fold (subtract_dominators n) bs (subtract_dominators n b tmp)) i \<subseteq> bits_of (subtract_dominators n b tmp) i)
    \<and> (\<forall>i. i \<notin> set bs \<longrightarrow> bits_of (fold (subtract_dominators n) bs (subtract_dominators n b tmp)) i
        = bits_of (subtract_dominators n b tmp) i)"
    by (rule Cons.IH [OF step(1)]) (use Cons.prems(2,3) sub in \<open>auto dest: subsetD\<close>)
  then show ?case using sub other by fastforce
qed simp

lemma strict_dominators_bits:
  assumes "wf_vector n w tmp" "wf_vector n w d" "n \<le> w * 32"
  shows "wf_vector n w (strict_dominators n d tmp)"
    "b < n \<Longrightarrow> bits_of (strict_dominators n d tmp) b = bits_of d b - {b}"
proof -
  let ?loop = "fold (copy_strict d)"
  have loop: "wf_vector n w (?loop bs tmp)
    \<and> (\<forall>b. bits_of (?loop bs tmp) b = (if b \<in> set bs then bits_of d b - {b} else bits_of tmp b))"
    if "distinct bs" "\<forall>b\<in>set bs. b < n" for bs
    using that assms(1)
  proof (induction bs arbitrary: tmp)
    case (Cons b bs)
    let ?new = "tmp[b := RESET_BIT (sbitmap_copy (tmp ! b) (d ! b)) b]"
    have b: "b < n" "b < w * 32" and len: "b < length tmp" using Cons.prems assms(3) by (auto simp: wf_vector_def)
    note wf = wf_nth [OF Cons.prems(3) b(1)] and wfd = wf_nth [OF assms(2) b(1)]
    note copy = wf_operations(8) [OF wf, of "d ! b"] members_operations(8) [OF wf wfd wfd wfd]
    have bits: "members (RESET_BIT (sbitmap_copy (tmp ! b) (d ! b)) b) = bits_of d b - {b}"
      using members_RESET_BIT [OF copy(1) b(2)] copy(2) by simp
    have "wf_vector n w ?new" by (intro wf_vector_update Cons.prems(3) wf_operations copy(1))
    then show ?case using Cons.IH [of ?new] Cons.prems(1,2) bits len by (auto simp: copy_strict_def)
  qed simp
  show "wf_vector n w (strict_dominators n d tmp)"
    "b < n \<Longrightarrow> bits_of (strict_dominators n d tmp) b = bits_of d b - {b}"
    using loop [of "rev [0..<n]"] by (simp_all add: strict_dominators_def)
qed

text \<open>What is left of the strict dominators of a block, when the immediate one comes after it.\<close>

lemma immediate_is_left:
  assumes "wf_vector n w tmp" "n \<le> w * 32" "m < b" "b < n" "\<And>i. i < n \<Longrightarrow> i \<notin> bits_of tmp i"
    and "m \<in> bits_of tmp b" "bits_of tmp b \<subseteq> insert m (bits_of tmp m)"
    and "\<And>s. s \<in> bits_of tmp b \<Longrightarrow> m \<notin> bits_of tmp s"
  shows "wf_vector n w (fold (subtract_dominators n) (rev [0..<n]) tmp)"
    "bits_of (fold (subtract_dominators n) (rev [0..<n]) tmp) b = {m}"
proof -
  let ?before = "fold (subtract_dominators n) (rev [Suc b..<n]) tmp"
  let ?at = "subtract_dominators n b ?before"
  have split: "rev [0..<n] = rev [Suc b..<n] @ b # rev [0..<b]"
    using assms(4) upt_add_eq_append [of 0 b "n - b"] by (simp add: upt_conv_Cons)
  have before: "wf_vector n w ?before" "bits_of ?before i \<subseteq> bits_of tmp i"
    "i \<le> b \<Longrightarrow> bits_of ?before i = bits_of tmp i" for i
    using subtract_dominators_fold [OF assms(1,2), of "rev [Suc b..<n]"] assms(4,5) by auto
  have same: "bits_of ?before b = bits_of tmp b" "bits_of ?before m = bits_of tmp m"
    using before(3) assms(3) by simp_all
  have self: "i \<notin> bits_of ?before i" if "i < n" for i using before(2) assms(5) [OF that] by blast
  note at = subtract_dominators_bits [OF before(1) assms(2,4) self [OF assms(4)]]
  let ?rest = "subtract_all (bits_of ?before) (rev [0..<n]) (bits_of tmp b)"
  have strict: "m \<notin> bits_of ?before s" if "s \<in> bits_of tmp b" for s
    using assms(8) [OF that] before(2) by blast
  have "m \<in> ?rest" by (rule subtract_all_keeps [OF assms(6) strict])
  moreover have "?rest \<inter> bits_of tmp m = {}"
    using subtract_all_removes [where T = "bits_of ?before" and ss = "rev [0..<n]", OF assms(6) strict] same(2) assms(3,4) by simp
  moreover have "?rest \<subseteq> bits_of tmp b" by (rule subtract_all_sub)
  moreover have "bits_of ?at b = ?rest" using fun_cong [OF at(2), of b] same(1) by simp
  ultimately have final: "bits_of ?at b = {m}" using assms(7) by blast
  have self_at: "i \<notin> bits_of ?at i" if "i < n" for i
    using fun_cong [OF at(2), of i] self [OF that] final assms(3) by (cases "i = b") auto
  have "fold (subtract_dominators n) (rev [0..<n]) tmp = fold (subtract_dominators n) (rev [0..<b]) ?at"
    by (simp only: split fold_append fold_simps comp_def)
  then show "wf_vector n w (fold (subtract_dominators n) (rev [0..<n]) tmp)"
    "bits_of (fold (subtract_dominators n) (rev [0..<n]) tmp) b = {m}"
    using subtract_dominators_fold [OF at(1) assms(2), of "rev [0..<b]"] self_at final assms(4) by auto
qed

lemma visit_single:
  assumes "wf_bitmap w v" "members v = {m}"
  shows "EXECUTE_IF_SET_IN_SBITMAP v 0 = [m]"
proof -
  have m: "m < w * 32" using members_sub [OF assms(1)] assms(2) by auto
  have "EXECUTE_IF_SET_IN_SBITMAP v 0 = filter (\<lambda>k. k = m) [0..<w * 32]"
    unfolding EXECUTE_IF_SET_filter using assms TEST_BIT_members [OF assms(1)]
    by (auto simp: wf_bitmap_def intro!: filter_cong)
  also have "[0..<w * 32] = [0..<m] @ m # [Suc m..<w * 32]"
    using m upt_add_eq_append [of 0 m "w * 32 - m"] by (simp add: upt_conv_Cons)
  finally show ?thesis by (simp add: filter_empty_conv)
qed

lemma store_idom_single:
  assumes "wf_vector n w tmp" "b < n" "bits_of tmp b = {m}" "length idom = n"
  shows "store_idom n tmp idom ! b = int m"
proof -
  let ?put = "\<lambda>b idom. fold (\<lambda>t idom. idom[b := int t]) (EXECUTE_IF_SET_IN_SBITMAP (tmp ! b) 0) idom"
  have len: "length (fold (\<lambda>t idom. idom[c := int t]) ts xs) = length xs"
    "c \<noteq> b \<Longrightarrow> fold (\<lambda>t idom. idom[c := int t]) ts xs ! b = xs ! b" for c ts xs
    by (induction ts arbitrary: xs) simp_all
  have puts: "length (fold ?put cs xs) = length xs"
    "b \<notin> set cs \<Longrightarrow> fold ?put cs xs ! b = xs ! b" for cs xs
    by (induction cs arbitrary: xs) (simp_all add: len)
  have split: "rev [0..<n] = rev [Suc b..<n] @ b # rev [0..<b]"
    using assms(2) upt_add_eq_append [of 0 b "n - b"] by (simp add: upt_conv_Cons)
  show ?thesis
    unfolding store_idom_def split
    using puts visit_single [OF wf_nth [OF assms(1,2)] assms(3)] assms(2,4) by simp
qed

text \<open>C10. compute_immediate_dominators finds the immediate dominator of a block, the strict dominator
  that all its strict dominators dominate, when that has a smaller number than the block.\<close>

theorem compute_immediate_dominators_correct:
  assumes "0 < n" "wf_graph n s_preds" "wf_graph n s_succs" "edges_match n s_preds s_succs" "one_entry n s_preds"
    and "wf_vector n (SBITMAP_SET_SIZE n) dominators" "wf_vector n (SBITMAP_SET_SIZE n) post_dominators"
    and "compute_dominators mem n s_preds s_succs dominators post_dominators = Some (d, p)"
    and "length idom = n" "reached s_succs b" "m < b" "dominates s_succs m b"
    and "\<forall>k. k \<noteq> b \<longrightarrow> dominates s_succs k b \<longrightarrow> dominates s_succs k m"
  shows "compute_immediate_dominators mem' n idom d ! b = int m"
proof -
  let ?w = "SBITMAP_SET_SIZE n" and ?tmp = "strict_dominators n d (sbitmap_vector_alloc (mem' 0) n n)"
  have room: "n \<le> ?w * 32" by (rule set_size_room)
  have b: "b < n" by (rule reached_block [OF assms(10,3,1)])
  have d: "wf_vector n ?w d" "\<And>b. b < n \<Longrightarrow> bits_of d b = {k \<in> all_bits ?w. dominates s_succs k b}"
    using compute_dominators_bits [OF assms(1-7), of mem] assms(8) by (metis option.inject prod.inject)+
  note strict = strict_dominators_bits [OF wf_vector_alloc d(1) room]
  have bits: "bits_of ?tmp i = {k \<in> all_bits ?w. k \<noteq> i \<and> dominates s_succs k i}" if "i < n" for i
    using strict(2) [OF that] d(2) [OF that] by auto
  have "m < n" using assms(11) b by simp
  have acyclic: "m \<notin> bits_of ?tmp s" if "s \<in> bits_of ?tmp b" for s
  proof
    assume "m \<in> bits_of ?tmp s"
    have s: "dominates s_succs s b" "s \<noteq> b" using that bits [OF b] by auto
    have "s < n" by (rule reached_block [OF dominator_reached [OF assms(10) s(1)] assms(3,1)])
    then have "dominates s_succs m s" "m \<noteq> s" using \<open>m \<in> bits_of ?tmp s\<close> bits [of s] by auto
    moreover have "dominates s_succs s m" using s assms(13) by blast
    ultimately show False using dominates_antisym [OF dominator_reached [OF assms(10,12)]] by blast
  qed
  have "m \<in> bits_of ?tmp b" "bits_of ?tmp b \<subseteq> insert m (bits_of ?tmp m)"
    using bits [OF b] bits [OF \<open>m < n\<close>] assms(11-13) room \<open>m < n\<close> by auto
  note left = immediate_is_left [OF strict(1) room assms(11) b _ this acyclic]
  have "i \<notin> bits_of ?tmp i" if "i < n" for i using bits [OF that] by simp
  then show ?thesis
    unfolding compute_immediate_dominators_def Let_def
    by (intro store_idom_single [OF left(1) b left(2) assms(9)])
qed

section \<open>Examples\<close>

definition block_sets :: "nat \<Rightarrow> sbitmap list \<Rightarrow> nat list list" where
  "block_sets n v = map (\<lambda>b. filter (TEST_BIT b) [0..<n]) v"

abbreviation (input) cleared :: "nat \<Rightarrow> sbitmap list" where
  "cleared n \<equiv> sbitmap_vector_alloc (\<lambda>_ _. 0) n n"

lemma diamond_one_entry: "one_entry 4 diamond_preds"
proof -
  have "b = 0 \<or> b = 1 \<or> b = 2 \<or> b = 3" if "b < 4" for b :: nat using that by auto
  then show ?thesis by (force simp: one_entry_def diamond_preds_def function_end_def)
qed

lemma diamond_graphs: "wf_graph 4 diamond_preds" "wf_graph 4 diamond_succs" "wf_vector 4 (SBITMAP_SET_SIZE 4) (cleared 4)"
  using diamond_inputs(1) by (simp_all add: lcm_inputs_def wf_vector_alloc)

lemma compute_dominators_correct_witness:
  "\<exists>d p. compute_dominators (\<lambda>_ _ _. 0) 4 diamond_preds diamond_succs (cleared 4) (cleared 4) = Some (d, p)
    \<and> (\<forall>b<4. \<forall>k<4. TEST_BIT (d ! b) k \<longleftrightarrow> dominates diamond_succs k b)"
  by (rule compute_dominators_correct [OF _ diamond_graphs(1,2) diamond_inputs(2) diamond_one_entry diamond_graphs(3,3)]) simp

lemma compute_immediate_dominators_correct_witness:
  "\<exists>d p. compute_dominators (\<lambda>_ _ _. 0) 4 diamond_preds diamond_succs (cleared 4) (cleared 4) = Some (d, p)
    \<and> compute_immediate_dominators (\<lambda>_ _ _. 0) 4 [9, 9, 9, 9] d ! 1 = 0"
proof -
  have four: "0 < (4 :: nat)" by simp
  obtain d p where run: "compute_dominators (\<lambda>_ _ _. 0) 4 diamond_preds diamond_succs (cleared 4) (cleared 4) = Some (d, p)"
    by (rule compute_dominators_bits [OF four diamond_graphs(1,2) diamond_inputs(2) diamond_one_entry diamond_graphs(3,3)])
  have "blocks_of [1, 2] = {1, 2}" by (auto simp: blocks_of_Cons function_end_def) (simp add: blocks_of_def)
  then have path: "flow_path diamond_succs [0, 1]" by (simp add: flow_path_def diamond_succs_def)
  then have "reached diamond_succs 1" using reached_path [of diamond_succs "[0, 1]" 1] by simp
  moreover have first: "dominates g 0 b" for g b by (auto simp: dominates_def flow_path_def dest: hd_in_set)
  moreover have "k = 0" if "k \<noteq> 1" "dominates diamond_succs k 1" for k
    using that path by (force simp: dominates_def)
  ultimately have "compute_immediate_dominators (\<lambda>_ _ _. 0) 4 [9, 9, 9, 9] d ! 1 = int 0"
    by (intro compute_immediate_dominators_correct [OF four diamond_graphs(1,2) diamond_inputs(2) diamond_one_entry
        diamond_graphs(3,3) run]) auto
  then show ?thesis using run by (intro exI [of _ d] exI [of _ p]) simp
qed



end
