(* ===== verification/Fold_Division.thy ===== *)
theory Fold_Division
  imports Fold_Const
begin

text \<open>
  Division of two-word integers (gcc/fold-const.c, \<open>div_and_round_double\<close>): the single
  precision case, the division by a divisor of one 16-bit digit, and the full division of
  Knuth's Algorithm D on digits, followed by the signs, the remainder and the rounding. The
  arrays are lists of digits, updated at the indices of the source. \<open>None\<close> is the
  \<open>abort\<close> on a tree code that is not a division.
\<close>

datatype tree_code =
    TRUNC_DIV_EXPR | TRUNC_MOD_EXPR | EXACT_DIV_EXPR | FLOOR_DIV_EXPR | FLOOR_MOD_EXPR
  | CEIL_DIV_EXPR | CEIL_MOD_EXPR | ROUND_DIV_EXPR | ROUND_MOD_EXPR | OTHER_EXPR

section \<open>Division by one digit\<close>

text \<open>The digits of the dividend come from the most significant one on.\<close>

fun short_division :: "hwi list \<Rightarrow> hwi \<Rightarrow> hwi \<Rightarrow> hwi list" where
  "short_division [] carry lden = []"
| "short_division (n # num) carry lden =
     (let work = n + carry * BASE
      in work div lden # short_division num (work mod lden) lden)"

section \<open>Full division\<close>

text \<open>\<open>den_hi_sig\<close>: the index of the highest non-zero digit.\<close>

definition hi_sig :: "hwi list \<Rightarrow> nat" where
  "hi_sig den = (if den ! 3 \<noteq> 0 then 3 else if den ! 2 \<noteq> 0 then 2 else if den ! 1 \<noteq> 0 then 1 else 0)"

text \<open>Multiplying an array by \<open>scale\<close>; the last carry is returned.\<close>

fun scale_digits :: "hwi \<Rightarrow> hwi list \<Rightarrow> hwi \<Rightarrow> hwi list \<times> hwi" where
  "scale_digits scale [] carry = ([], carry)"
| "scale_digits scale (d # ds) carry =
     (let work = d * scale + carry;
          (r, c) = scale_digits scale ds (HIGHPART work)
      in (LOWPART work # r, c))"

text \<open>The loop over \<open>j\<close> that subtracts \<open>quo_est\<close> times the divisor from the digits
  \<open>num[i]\<close>, \<open>num[i + 1]\<close>, up to \<open>den_hi_sig\<close>; the array and the last carry.\<close>

fun sub_digits :: "hwi \<Rightarrow> hwi list \<Rightarrow> nat \<Rightarrow> nat \<Rightarrow> nat \<Rightarrow> hwi list \<Rightarrow> hwi \<Rightarrow> hwi list \<times> hwi" where
  "sub_digits quo_est den i j 0 num carry = (num, carry)"
| "sub_digits quo_est den i j (Suc n) num carry =
     (let work = quo_est * den ! j + carry;
          carry = HIGHPART work;
          work = num ! (i + j) - LOWPART work;
          num = num[i + j := LOWPART work];
          carry = carry + (if HIGHPART work \<noteq> 0 then 1 else 0)
      in sub_digits quo_est den i (j + 1) n num carry)"

text \<open>The loop over \<open>j\<close> that adds the divisor back.\<close>

fun add_digits :: "hwi list \<Rightarrow> nat \<Rightarrow> nat \<Rightarrow> nat \<Rightarrow> hwi list \<Rightarrow> hwi \<Rightarrow> hwi list \<times> hwi" where
  "add_digits den i j 0 num carry = (num, carry)"
| "add_digits den i j (Suc n) num carry =
     (let work = num ! (i + j) + den ! j + carry
      in add_digits den i (j + 1) n (num[i + j := LOWPART work]) (HIGHPART work))"

text \<open>One round of the main loop, for the quotient digit \<open>i\<close>.\<close>

definition quotient_round :: "hwi list \<Rightarrow> nat \<Rightarrow> nat \<Rightarrow> hwi list \<Rightarrow> hwi list \<times> hwi" where
  "quotient_round den den_hi i num =
     (let num_hi = i + den_hi + 1;
          work = num ! num_hi * BASE + num ! (num_hi - 1);
          quo_est = (if num ! num_hi \<noteq> den ! den_hi then work div den ! den_hi else BASE - 1);
          tmp = work - quo_est * den ! den_hi;
          quo_est = (if tmp < BASE \<and> den ! (den_hi - 1) * quo_est > tmp * BASE + num ! (num_hi - 2)
                     then quo_est - 1 else quo_est);
          (num, carry) = sub_digits quo_est den i 0 (den_hi + 1) num 0
      in if num ! num_hi < carry then
           (let (num, carry) = add_digits den i 0 (den_hi + 1) num 0
            in (num[num_hi := num ! num_hi + carry], quo_est - 1))
         else (num, quo_est))"

fun quotient_digits :: "hwi list \<Rightarrow> nat \<Rightarrow> nat \<Rightarrow> hwi list \<Rightarrow> hwi list \<Rightarrow> hwi list" where
  "quotient_digits den den_hi 0 num quo = quo"
| "quotient_digits den den_hi (Suc i) num quo =
     (let (num, q) = quotient_round den den_hi i num
      in quotient_digits den den_hi i num (quo[i := q]))"

definition long_division :: "hwi list \<Rightarrow> hwi list \<Rightarrow> hwi list" where
  "long_division num den =
     (let den_hi = hi_sig den;
          scale = BASE div (den ! den_hi + 1);
          (num, den, den_hi) =
            (if scale > 1 then
               (let (n, c) = scale_digits scale num 0;
                    (d, _) = scale_digits scale den 0
                in (n @ [c], d, if d ! 3 \<noteq> 0 \<or> d ! 2 \<noteq> 0 \<or> d ! 1 \<noteq> 0 \<or> d ! 0 \<noteq> 0 then hi_sig d else den_hi))
             else (num @ [0], den, den_hi))
      in quotient_digits den den_hi (4 - den_hi) num (replicate 4 0))"

section \<open>The operation\<close>

text \<open>The quotient of the magnitudes.\<close>

definition divide_magnitudes :: "hwi \<Rightarrow> hwi \<Rightarrow> hwi \<Rightarrow> hwi \<Rightarrow> hwi \<times> hwi" where
  "divide_magnitudes lnum hnum lden hden =
     (if hnum = 0 \<and> hden = 0 then (lnum div lden, 0)
      else if hnum = 0 then (0, 0)
      else if hden = 0 \<and> sint lden < sint BASE then
        decode (rev (short_division (rev (encode lnum hnum)) 0 lden))
      else decode (long_division (encode lnum hnum) (encode lden hden)))"

text \<open>The sign and the magnitude of an operand of a signed division.\<close>

definition magnitude :: "bool \<Rightarrow> hwi \<Rightarrow> hwi \<Rightarrow> hwi \<times> hwi" where
  "magnitude uns l h = (if \<not> uns \<and> sless0 h then snd (neg_double l h) else (l, h))"

definition remainder :: "hwi \<times> hwi \<Rightarrow> hwi \<times> hwi \<Rightarrow> hwi \<times> hwi \<Rightarrow> hwi \<times> hwi" where
  "remainder num den quo =
     (let (_, lrem, hrem) = mul_double (fst quo) (snd quo) (fst den) (snd den);
          (_, lrem, hrem) = neg_double lrem hrem
      in snd (add_double (fst num) (snd num) lrem hrem))"

text \<open>The increment of the quotient that the rounding asks for: \<open>Some 0\<close> returns the trial
  remainder.\<close>

definition rounding :: "tree_code \<Rightarrow> bool \<Rightarrow> hwi \<times> hwi \<Rightarrow> hwi \<times> hwi \<Rightarrow> hwi \<times> hwi \<Rightarrow> int option" where
  "rounding code quo_neg den quo rem =
     (case code of
        TRUNC_DIV_EXPR \<Rightarrow> Some 0
      | TRUNC_MOD_EXPR \<Rightarrow> Some 0
      | EXACT_DIV_EXPR \<Rightarrow> Some 0
      | FLOOR_DIV_EXPR \<Rightarrow> Some (if quo_neg \<and> (fst rem \<noteq> 0 \<or> snd rem \<noteq> 0) then - 1 else 0)
      | FLOOR_MOD_EXPR \<Rightarrow> Some (if quo_neg \<and> (fst rem \<noteq> 0 \<or> snd rem \<noteq> 0) then - 1 else 0)
      | CEIL_DIV_EXPR \<Rightarrow> Some (if \<not> quo_neg \<and> (fst rem \<noteq> 0 \<or> snd rem \<noteq> 0) then 1 else 0)
      | CEIL_MOD_EXPR \<Rightarrow> Some (if \<not> quo_neg \<and> (fst rem \<noteq> 0 \<or> snd rem \<noteq> 0) then 1 else 0)
      | OTHER_EXPR \<Rightarrow> None
      | _ \<Rightarrow>
          (let abs_rem = (if sless0 (snd rem) then snd (neg_double (fst rem) (snd rem)) else rem);
               abs_den = (if sless0 (snd den) then snd (neg_double (fst den) (snd den)) else den);
               (_, ltwice, htwice) = mul_double 2 0 (fst abs_rem) (snd abs_rem)
           in Some (if snd abs_den < htwice \<or> snd abs_den = htwice \<and> fst abs_den < ltwice
                    then (if sless0 (snd quo) then - 1 else 1) else 0)))"

text \<open>The result: the overflow flag, the quotient and the remainder. A zero divisor is
  replaced by 1 before its sign is looked at, an overflow is reported.\<close>

definition div_and_round_double ::
    "tree_code \<Rightarrow> bool \<Rightarrow> hwi \<Rightarrow> hwi \<Rightarrow> hwi \<Rightarrow> hwi \<Rightarrow> (bool \<times> (hwi \<times> hwi) \<times> (hwi \<times> hwi)) option" where
  "div_and_round_double code uns lnum_orig hnum_orig lden_orig hden_orig =
     (let zero = (hden_orig = 0 \<and> lden_orig = 0);
          lden0 = (if zero then 1 else lden_orig);
          quo_neg = (\<not> uns \<and> (sless0 hnum_orig \<noteq> sless0 hden_orig));
          overflow = (zero \<or> \<not> uns \<and> sless0 hnum_orig \<and> fst (neg_double lnum_orig hnum_orig)
             \<and> and lden0 hden_orig = - 1);
          num = magnitude uns lnum_orig hnum_orig;
          den = magnitude uns lden0 hden_orig;
          quo = divide_magnitudes (fst num) (snd num) (fst den) (snd den);
          quo = (if quo_neg then snd (neg_double (fst quo) (snd quo)) else quo);
          rem = remainder (lnum_orig, hnum_orig) (lden_orig, hden_orig) quo
      in case rounding code quo_neg den quo rem of
           None \<Rightarrow> None
         | Some d \<Rightarrow>
             if d = 0 then Some (overflow, quo, rem)
             else
               (let quo = snd (add_double (fst quo) (snd quo) (word_of_int d) (if d < 0 then - 1 else 0));
                    rem = remainder (lnum_orig, hnum_orig) (lden_orig, hden_orig) quo
                in Some (overflow, quo, rem)))"

section \<open>Lemmas\<close>

lemma remainder_value:
  "dword (fst (remainder num den quo)) (snd (remainder num den quo))
     = dword (fst num) (snd num) - dword (fst quo) (snd quo) * dword (fst den) (snd den)"
proof -
  obtain o1 l1 h1 where m: "mul_double (fst quo) (snd quo) (fst den) (snd den) = (o1, l1, h1)"
    by (rule prod_cases3)
  obtain o2 l2 h2 where n: "neg_double l1 h1 = (o2, l2, h2)" by (rule prod_cases3)
  obtain o3 l3 h3 where a: "add_double (fst num) (snd num) l2 h2 = (o3, l3, h3)" by (rule prod_cases3)
  show ?thesis
    using mul_double_sound(1) [OF m] neg_double_value [OF n] add_double_value [OF a]
    by (simp add: remainder_def m n a)
qed

text \<open>C37. Whatever the operands and the rounding, the remainder returned by
  \<open>div_and_round_double\<close> is the dividend minus quotient times divisor, in the 64-bit word.\<close>

theorem div_remainder_identity:
  assumes "div_and_round_double code uns lnum hnum lden hden = Some (ov, quo, rem)"
  shows "dword (fst quo) (snd quo) * dword lden hden + dword (fst rem) (snd rem) = dword lnum hnum"
proof -
  have "rem = remainder (lnum, hnum) (lden, hden) quo"
    using assms by (auto simp: div_and_round_double_def Let_def split: option.splits if_splits)
  then show ?thesis by (simp add: remainder_value)
qed

theorem div_remainder_identity_witness:
  "dword 2 0 * dword 3 0 + dword (- 1) (- 1) = dword 5 0"
proof -
  have "div_and_round_double ROUND_DIV_EXPR True 5 0 3 0 = Some (False, (2, 0), (- 1, - 1))"
    by code_simp
  from div_remainder_identity [OF this] show ?thesis by simp
qed

lemma uint_digit_pair:
  assumes "digit n" "digit c"
  shows "uint (n + c * BASE) = uint n + 65536 * uint c"
proof -
  have "uint (c * BASE) = uint (or 0 (c * BASE))" by simp
  also have "\<dots> = 65536 * uint c" using assms by (subst join_digits) simp_all
  finally have "uint (c * BASE) = 65536 * uint c" .
  then show ?thesis using assms by (simp add: uint_plus_if')
qed

lemma short_division_value:
  assumes "list_all digit num" "uint carry < uint lden" "digit lden"
  shows "digits (rev (short_division num carry lden))
      = (uint carry * 65536 ^ length num + digits (rev num)) div uint lden
    \<and> list_all digit (short_division num carry lden) \<and> length (short_division num carry lden) = length num"
  using assms
proof (induction num arbitrary: carry)
  case Nil
  then show ?case by (simp add: div_pos_pos_trivial)
next
  case (Cons n num)
  let ?D = "uint lden" and ?c = "uint carry" and ?k = "65536 ^ length num :: int"
  define work where "work = n + carry * BASE"
  have D: "0 < ?D" using Cons.prems(2) hwi_range(1) [of carry] by linarith
  have w: "uint work = uint n + 65536 * ?c"
    unfolding work_def using Cons.prems by (intro uint_digit_pair) simp_all
  have q: "uint (work div lden) = uint work div ?D" "uint (work mod lden) = uint work mod ?D"
    by (simp_all add: uint_div uint_mod)
  have "uint work < 65536 * ?D" using Cons.prems w by simp
  then have qd: "digit (work div lden)"
  proof -
    have "0 \<le> uint work mod ?D" using D by simp
    then have "uint work div ?D * ?D \<le> uint work" using div_mult_mod_eq [of "uint work" ?D] by linarith
    then have "uint work div ?D * ?D < 65536 * ?D" using \<open>uint work < 65536 * ?D\<close> by linarith
    then show ?thesis unfolding q using D by (simp only: mult_less_cancel_right)
  qed
  have r: "uint (work mod lden) < ?D" unfolding q using D by simp
  have ih: "digits (rev (short_division num (work mod lden) lden))
      = (uint (work mod lden) * ?k + digits (rev num)) div ?D"
    "list_all digit (short_division num (work mod lden) lden)"
    "length (short_division num (work mod lden) lden) = length num"
    using Cons.IH [of "work mod lden"] Cons.prems r by simp_all
  have "(?c * (65536 * ?k) + (digits (rev num) + ?k * uint n)) div ?D
      = (uint work * ?k + digits (rev num)) div ?D"
    unfolding w by (simp add: algebra_simps)
  also have "uint work * ?k + digits (rev num)
      = uint (work mod lden) * ?k + digits (rev num) + (uint (work div lden) * ?k) * ?D"
  proof -
    have "uint work = uint (work div lden) * ?D + uint (work mod lden)"
      unfolding q by (rule div_mult_mod_eq [symmetric])
    then have "uint work * ?k = (uint (work div lden) * ?D + uint (work mod lden)) * ?k" by (rule arg_cong)
    then show ?thesis by (simp add: distrib_right mult.assoc mult.commute mult.left_commute)
  qed
  also have "\<dots> div ?D = (uint (work mod lden) * ?k + digits (rev num)) div ?D + uint (work div lden) * ?k"
    using D by simp
  finally have v: "(?c * (65536 * ?k) + (digits (rev num) + ?k * uint n)) div ?D
      = (uint (work mod lden) * ?k + digits (rev num)) div ?D + uint (work div lden) * ?k" .
  have sd: "short_division (n # num) carry lden = work div lden # short_division num (work mod lden) lden"
    by (simp add: work_def Let_def)
  show ?case unfolding sd using ih qd v by (simp add: digits_append mult.commute)
qed

lemma divide_magnitudes_value:
  assumes "uint (dword lden hden) \<noteq> 0"
    and "uint (dword lnum hnum) < 4294967296 \<or> uint (dword lden hden) < 65536"
  shows "uint (dword (fst (divide_magnitudes lnum hnum lden hden)) (snd (divide_magnitudes lnum hnum lden hden)))
    = uint (dword lnum hnum) div uint (dword lden hden)"
proof -
  note r = hwi_range [of lnum] hwi_range [of hnum] hwi_range [of lden] hwi_range [of hden]
  have z: "x = 0 \<longleftrightarrow> uint x = 0" for x :: hwi by (simp add: uint_0_iff)
  consider "hnum = 0" "hden = 0" | "hnum = 0" "hden \<noteq> 0" | "hnum \<noteq> 0" by blast
  then show ?thesis
  proof cases
    case 1
    then show ?thesis by (simp add: divide_magnitudes_def uint_dword uint_div)
  next
    case 2
    then have "0 < uint hden" using z [of hden] r by linarith
    moreover have "uint hnum = 0" using 2 by simp
    ultimately have "uint (dword lnum hnum) < uint (dword lden hden)"
      using r unfolding uint_dword by linarith
    then show ?thesis using 2 by (simp add: divide_magnitudes_def uint_dword div_pos_pos_trivial)
  next
    case 3
    then have "0 < uint hnum" using z [of hnum] r by linarith
    then have d: "uint (dword lden hden) < 65536" using assms(2) r by (simp add: uint_dword)
    then have h: "hden = 0" "digit lden" using z [of hden] r by (simp_all add: uint_dword)
    have "sint lden < sint BASE"
    proof -
      have "\<not> bit lden 31" using h(2) bit_top_uint [of lden] by simp
      then have "sint lden = uint lden" by (simp add: sint_uint_bit)
      then show ?thesis using h(2) by (simp add: BASE_def)
    qed
    then have m: "divide_magnitudes lnum hnum lden hden
        = decode (rev (short_division (rev (encode lnum hnum)) 0 lden))"
      using 3 h by (simp add: divide_magnitudes_def)
    let ?q = "rev (short_division (rev (encode lnum hnum)) 0 lden)"
    have "uint lden \<noteq> 0" using assms(1) h(1) by (simp add: uint_dword)
    then have "0 < uint lden" using r(5) by linarith
    then have "uint (0 :: hwi) < uint lden" by simp
    then have q: "digits ?q = uint (dword lnum hnum) div uint lden" "list_all digit ?q" "length ?q = 4"
      using short_division_value [of "rev (encode lnum hnum)" 0 lden] h(2) encode_digits [of lnum hnum]
      by simp_all
    then show ?thesis unfolding m using decode_digits(2) [of ?q] h by (simp add: uint_dword)
  qed
qed

section \<open>Signs and rounding\<close>

lemma magnitude_unsigned: "magnitude True l h = (l, h)"
  by (simp add: magnitude_def)

lemma sless0_dword: "sless0 h \<longleftrightarrow> sint (dword l h) < 0"
  by (simp add: sless0_bit bit_dword_sign flip: bit63_sint)

lemma magnitude_signed:
  "uint (dword (fst (magnitude False l h)) (snd (magnitude False l h))) = \<bar>sint (dword l h)\<bar>"
proof (cases "sint (dword l h) < 0")
  case True
  obtain ov l' h' where n: "neg_double l h = (ov, l', h')" by (rule prod_cases3)
  have "uint (- dword l h) = (- uint (dword l h)) mod 18446744073709551616"
    by (simp add: uint_word_ariths)
  also have "\<dots> = - sint (dword l h)"
    using True sint64_cases [of "dword l h"] sint_range64 [of "dword l h"]
    by (intro mod_uniqueI [where q = "- 1"]) (auto split: if_splits)
  finally show ?thesis using True neg_double_value [OF n]
    by (simp add: magnitude_def sless0_dword [of h l] n)
next
  case False
  then show ?thesis using sint64_cases [of "dword l h"] uint_lt2p [of "dword l h"]
    by (auto simp: magnitude_def sless0_dword [of h l] split: if_splits)
qed

text \<open>A divisor of one digit or a dividend of one word, in magnitude: the cases that
  do not need the full division.\<close>

definition short_case :: "int \<Rightarrow> int \<Rightarrow> bool" where
  "short_case n d \<longleftrightarrow> \<bar>n\<bar> < 4294967296 \<or> \<bar>d\<bar> < 65536"

text \<open>Unsigned division is the division of the 64-bit words, quotient and remainder, whenever
  the dividend has one word or the divisor one 16-bit digit.\<close>

theorem unsigned_division_correct:
  assumes "dword lden hden \<noteq> 0" and "short_case (uint (dword lnum hnum)) (uint (dword lden hden))"
  shows "\<exists>quo rem. div_and_round_double TRUNC_DIV_EXPR True lnum hnum lden hden = Some (False, quo, rem)
    \<and> dword (fst quo) (snd quo) = dword lnum hnum div dword lden hden
    \<and> dword (fst rem) (snd rem) = dword lnum hnum mod dword lden hden"
proof -
  let ?N = "dword lnum hnum" and ?D = "dword lden hden"
  have z: "(hden = 0 \<and> lden = 0) = False"
    using assms(1) dword_inject [of lden hden 0 0] by (auto simp: dword_of_int)
  define quo where "quo = divide_magnitudes lnum hnum lden hden"
  define rem where "rem = remainder (lnum, hnum) (lden, hden) quo"
  have r: "div_and_round_double TRUNC_DIV_EXPR True lnum hnum lden hden = Some (False, quo, rem)"
    unfolding div_and_round_double_def z
    by (simp add: magnitude_unsigned rounding_def quo_def rem_def Let_def)
  have "uint (dword (fst quo) (snd quo)) = uint ?N div uint ?D"
    unfolding quo_def using assms by (intro divide_magnitudes_value) (auto simp: short_case_def uint_0_iff)
  then have q: "dword (fst quo) (snd quo) = ?N div ?D"
    by (simp add: word_uint_eq_iff uint_div)
  have "dword (fst rem) (snd rem) = ?N - ?N div ?D * ?D"
    by (simp add: rem_def remainder_value q)
  then have "dword (fst rem) (snd rem) = ?N mod ?D"
    by (simp add: minus_div_mult_eq_mod)
  with r q show ?thesis by blast
qed

theorem unsigned_division_correct_witness:
  "\<exists>quo rem. div_and_round_double TRUNC_DIV_EXPR True 7 9 10 0 = Some (False, quo, rem)
    \<and> dword (fst quo) (snd quo) = dword 7 9 div dword 10 0
    \<and> dword (fst rem) (snd rem) = dword 7 9 mod dword 10 0"
proof -
  have d: "dword 10 0 = 10" by (simp add: dword_def)
  show ?thesis by (rule unsigned_division_correct) (simp_all add: d short_case_def)
qed

lemma signed_quotient:
  assumes d: "d \<noteq> 0" and nd: "\<not> (n = - 9223372036854775808 \<and> d = - 1)"
    and r: "- 9223372036854775808 \<le> n" "n < 9223372036854775808"
      "- 9223372036854775808 \<le> d" "d < 9223372036854775808"
    and q: "uint (w :: 64 word) = \<bar>n\<bar> div \<bar>d\<bar>"
  shows "sint (if (n < 0) \<noteq> (d < 0) then - w else w) = sgn n * sgn d * (\<bar>n\<bar> div \<bar>d\<bar>)"
proof -
  let ?q = "\<bar>n\<bar> div \<bar>d\<bar>"
  have q0: "0 \<le> ?q" using d by (simp add: pos_imp_zdiv_nonneg_iff)
  have q1: "?q \<le> \<bar>n\<bar>"
  proof -
    have "?q * 1 \<le> ?q * \<bar>d\<bar>" using q0 d by (intro mult_left_mono) linarith+
    moreover have "0 \<le> \<bar>n\<bar> mod \<bar>d\<bar>" using d by simp
    ultimately show ?thesis using div_mult_mod_eq [of "\<bar>n\<bar>" "\<bar>d\<bar>"] by linarith
  qed
  have s: "sgn n * sgn d * ?q = (if (n < 0) \<noteq> (d < 0) then - ?q else ?q)"
    using d by (cases "n = 0") (auto simp: sgn_if)
  show ?thesis
  proof (cases "(n < 0) \<noteq> (d < 0)")
    case True
    have "- w = word_of_int (- ?q)" using q by (metis of_int_minus word_of_int_uint)
    then have "sint (- w) = (- ?q + 9223372036854775808) mod 18446744073709551616 - 9223372036854775808"
      by (simp only: sint_wrap64)
    also have "(- ?q + 9223372036854775808) mod 18446744073709551616 = - ?q + 9223372036854775808"
      using q0 q1 r by (intro mod_uniqueI [where q = 0]) auto
    finally show ?thesis using True s by simp
  next
    case False
    have "?q < 9223372036854775808"
    proof (cases "n = - 9223372036854775808")
      case n: True
      with False nd have "\<bar>d\<bar> \<ge> 2" using d by auto
      then have "?q \<le> 9223372036854775808 div 2" using n zdiv_mono2 [of 9223372036854775808 2 "\<bar>d\<bar>"] by simp
      then show ?thesis by simp
    next
      case False
      then show ?thesis using q1 r by linarith
    qed
    then have "sint w = ?q" using q by (simp add: sint64_cases)
    then show ?thesis using False s by simp
  qed
qed

lemma sint64_zero: "sint a = 0 \<longleftrightarrow> a = 0" for a :: "64 word"
  using signed_word_eqI [of a 0] by auto

lemma min_overflow:
  "fst (neg_double l h) \<longleftrightarrow> sint (dword l h) = - 9223372036854775808"
proof -
  obtain ov l' h' where n: "neg_double l h = (ov, l', h')" by (rule prod_cases3)
  define x where "x = sint (dword l h)"
  have r: "- 9223372036854775808 \<le> x" "x < 9223372036854775808"
    unfolding x_def by (rule sint_range64)+
  have s: "sint (- dword l h) = (- x + 9223372036854775808) mod 18446744073709551616 - 9223372036854775808"
    unfolding x_def using sint_wrap64 [of "- sint (dword l h)"] by simp
  have ov: "ov \<longleftrightarrow> sint (- dword l h) \<noteq> - x"
    using neg_double_overflow [OF n] neg_double_value [OF n] by (simp add: x_def)
  have "ov \<longleftrightarrow> x = - 9223372036854775808"
  proof (cases "x = - 9223372036854775808")
    case False
    then have "(- x + 9223372036854775808) mod 18446744073709551616 = - x + 9223372036854775808"
      using r by (intro mod_uniqueI [where q = 0]) auto
    with ov s False show ?thesis by simp
  qed (use ov s in simp)
  then show ?thesis by (simp add: n x_def)
qed

lemma signed_quo:
  assumes d: "dword lden hden \<noteq> 0" and s: "short_case (sint (dword lnum hnum)) (sint (dword lden hden))"
    and nd: "\<not> (sint (dword lnum hnum) = - 9223372036854775808 \<and> sint (dword lden hden) = - 1)"
  defines "n \<equiv> magnitude False lnum hnum" and "m \<equiv> magnitude False lden hden"
  defines "q \<equiv> divide_magnitudes (fst n) (snd n) (fst m) (snd m)"
  defines "neg \<equiv> (sint (dword lnum hnum) < 0) \<noteq> (sint (dword lden hden) < 0)"
  defines "q' \<equiv> (if neg then snd (neg_double (fst q) (snd q)) else q)"
  shows "sint (dword (fst q') (snd q')) = sgn (sint (dword lnum hnum)) * sgn (sint (dword lden hden))
    * (\<bar>sint (dword lnum hnum)\<bar> div \<bar>sint (dword lden hden)\<bar>)"
proof -
  have sd: "sint (dword lden hden) \<noteq> 0" using d by (simp add: sint64_zero)
  have uq: "uint (dword (fst q) (snd q)) = \<bar>sint (dword lnum hnum)\<bar> div \<bar>sint (dword lden hden)\<bar>"
    using divide_magnitudes_value [of "fst m" "snd m" "fst n" "snd n"] s sd
    unfolding n_def m_def q_def magnitude_signed short_case_def by simp
  obtain ov l h where ng: "neg_double (fst q) (snd q) = (ov, l, h)" by (rule prod_cases3)
  have "dword (fst q') (snd q') = (if neg then - dword (fst q) (snd q) else dword (fst q) (snd q))"
    using neg_double_value [OF ng] by (simp add: q'_def ng)
  then show ?thesis
    using signed_quotient [OF sd nd sint_range64 sint_range64 uq] by (simp add: neg_def)
qed

lemma sint_of_int64: "- 9223372036854775808 \<le> k \<Longrightarrow> k < 9223372036854775808 \<Longrightarrow> sint (word_of_int k :: 64 word) = k"
  by (simp add: sint_wrap64)

lemma word_of_int_sint': "word_of_int (sint a - k * sint b) = a - word_of_int k * b"
  for a b :: "64 word"
  by simp

lemma floor_trunc:
  fixes n d :: int
  assumes d: "d \<noteq> 0" and n: "- 9223372036854775808 \<le> n" "n < 9223372036854775808"
  defines "q \<equiv> sgn n * sgn d * (\<bar>n\<bar> div \<bar>d\<bar>)"
  shows "n div d = (if (n < 0) \<noteq> (d < 0) \<and> n - q * d \<noteq> 0 then q - 1 else q)
    \<and> \<bar>n - q * d\<bar> < \<bar>d\<bar>
    \<and> ((n < 0) \<noteq> (d < 0) \<and> n - q * d \<noteq> 0 \<longrightarrow> - 9223372036854775808 \<le> q - 1 \<and> q - 1 < 9223372036854775808)"
proof -
  define a b where "a = \<bar>n\<bar> div \<bar>d\<bar>" and "b = \<bar>n\<bar> mod \<bar>d\<bar>"
  have ab: "\<bar>n\<bar> = a * \<bar>d\<bar> + b" "0 \<le> b" "b < \<bar>d\<bar>" "0 \<le> a"
    using d by (simp_all add: a_def b_def pos_imp_zdiv_nonneg_iff)
  have le: "a \<le> a * \<bar>d\<bar>" using ab(4) d mult_left_mono [of 1 "\<bar>d\<bar>" a] by simp
  have q: "q = (if n = 0 then 0 else if (n < 0) \<noteq> (d < 0) then - a else a)"
    using d by (auto simp: q_def a_def sgn_if)
  have z: "n = 0 \<Longrightarrow> a = 0 \<and> b = 0" by (simp add: a_def b_def)
  consider "0 \<le> n" "0 < d" | "0 \<le> n" "d < 0" | "n < 0" "0 < d" | "n < 0" "d < 0" using d by linarith
  then show ?thesis
  proof cases
    case 1
    have "q = a" using q z 1 by auto
    moreover have "n = d * a + b" using ab(1) 1 by (simp add: mult.commute)
    ultimately have e: "q = a" "n = d * a + b" by blast+
    then have nd: "n div d = a" using ab 1 by (intro int_div_pos_eq) simp_all
    have r: "n - q * d = b" using e by (simp add: mult.commute)
    show ?thesis unfolding r nd using 1 e(1) ab(2,3) by auto
  next
    case 2
    have "q = - a" using q z 2 by auto
    moreover have "n = d * (- a) + b" using ab(1) 2 by simp
    ultimately have e: "q = - a" "n = d * (- a) + b" by blast+
    have r: "n - q * d = b" using e by (simp add: mult.commute)
    have nd: "n div d = (if b = 0 then - a else - a - 1)"
    proof (cases "b = 0")
      case True
      then show ?thesis using e 2 by (simp add: int_div_neg_eq [where r = 0])
    next
      case False
      then show ?thesis
        using e 2 ab by (simp, intro int_div_neg_eq [where r = "b + d"]) (simp_all add: algebra_simps)
    qed
    have "b = 0 \<or> a < 9223372036854775808" using le ab n 2 by linarith
    then show ?thesis unfolding r nd using 2 e(1) ab(2,3,4) by auto
  next
    case 3
    have "q = - a" using q 3 by auto
    moreover have "n = d * (- a) - b" using ab(1) 3 by (simp add: mult.commute)
    ultimately have e: "q = - a" "n = d * (- a) - b" by blast+
    have r: "n - q * d = - b" using e by (simp add: mult.commute)
    have nd: "n div d = (if b = 0 then - a else - a - 1)"
    proof (cases "b = 0")
      case True
      then show ?thesis using e 3 by (simp add: int_div_pos_eq [where r = 0])
    next
      case False
      then show ?thesis
        using e 3 ab by (simp, intro int_div_pos_eq [where r = "d - b"]) (simp_all add: algebra_simps)
    qed
    have "b = 0 \<or> a < 9223372036854775808" using le ab n 3 by linarith
    then show ?thesis unfolding r nd using 3 e(1) ab(2,3,4) by auto
  next
    case 4
    have "q = a" using q 4 by auto
    moreover have "n = d * a - b" using ab(1) 4 by (simp add: mult.commute)
    ultimately have e: "q = a" "n = d * a - b" by blast+
    then have nd: "n div d = a" using ab 4 by (intro int_div_neg_eq [where r = "- b"]) simp_all
    have r: "n - q * d = - b" using e by (simp add: mult.commute)
    show ?thesis unfolding r nd using 4 e(1) ab(2,3) by auto
  qed
qed



text \<open>A divisor of one word with its top bit set takes the path for divisors of one digit,
  because the comparison with \<open>BASE\<close> is signed: two to the 32 divided by two to the 31 gives
  zero, with no overflow reported.\<close>

theorem division_by_large_word_wrong:
  "div_and_round_double TRUNC_DIV_EXPR True 0 1 0x80000000 0 = Some (False, (0, 0), (0, 1))
   \<and> dword 0 1 div dword 0x80000000 0 = 2"
proof
  have q: "divide_magnitudes 0 1 0x80000000 0 = (0, 0)"
    by (simp add: divide_magnitudes_def BASE_def encode_def LOWPART_def HIGHPART_def decode_def Let_def)
  have r: "remainder (0, 1) (0x80000000, 0) (0, 0) = (0, 1)"
    using remainder_value [of "(0, 1)" "(0x80000000, 0)" "(0, 0)"]
    by (simp add: dword_of_int [of 0 0] dword_inject prod_eq_iff)
  show "div_and_round_double TRUNC_DIV_EXPR True 0 1 0x80000000 0 = Some (False, (0, 0), (0, 1))"
    by (simp add: div_and_round_double_def magnitude_unsigned rounding_def q r)
qed (simp add: dword_def)

text \<open>Rounding to the nearest integer leaves the quotient of an exact half truncated: the code
  compares twice the remainder with \<open><\<close> where its comment says \<open>>=\<close>.\<close>

theorem round_half_truncates:
  "div_and_round_double ROUND_DIV_EXPR True 1 0 2 0 = Some (False, (0, 0), (1, 0))
   \<and> div_and_round_double ROUND_DIV_EXPR True 5 0 3 0 = Some (False, (2, 0), (- 1, - 1))"
  by code_simp

end
