(* ===== verification/Insn_Chain.thy ===== *)
theory Insn_Chain
  imports Rtlanal "HOL-Library.Monad_Syntax"
begin

text \<open>
  The insn chain (gcc/emit-rtl.c): the doubly linked list of the insns of a function, the stack
  of pending sequences, and the operations that create, link, unlink, move and search insns.

  Insns are shared and mutated, so they live in a store: an address (a positive number, 0 for
  the null pointer) maps to a cell with the fields of an insn, whatever its code. The pattern
  of an insn is an expression, or a \<open>SEQUENCE\<close> of insns, given by their addresses: such an
  insn holds a branch with its delay slots, and a \<open>SEQUENCE\<close> that is emitted dissolves into
  its elements. \<open>None\<close> is an \<open>abort\<close>; a search returns \<open>None\<close> when it does not
  end, which happens on a cyclic chain only.

  Not modelled: the reuse of \<open>SEQUENCE\<close> nodes (\<open>sequence_result\<close>) and of stack elements
  (\<open>sequence_element_free_list\<close>), which recycles storage; the reuse of insns through
  \<open>free_insn\<close> is modelled, because it changes which cell an emission returns.
\<close>

section \<open>Cells and state\<close>

definition LAST_VIRTUAL_REGISTER :: int where "LAST_VIRTUAL_REGISTER = FIRST_PSEUDO_REGISTER + 4"

datatype body = Body rtx | Delay_seq "nat list"

record insn_cell =
  ic_code :: rtx_code
  ic_uid :: int
  PREV_INSN :: nat
  NEXT_INSN :: nat
  ic_pattern :: body
  ic_insn_code :: int
  ic_links :: rtx
  ic_notes :: rtx
  ic_usage :: rtx  \<comment> \<open>\<open>CALL_INSN_FUNCTION_USAGE\<close>\<close>
  JUMP_LABEL :: nat
  INSN_DELETED_P :: bool
  ic_frame_related :: bool
  CODE_LABEL_NUMBER :: int
  LABEL_NUSES :: int
  NOTE_SOURCE_FILE :: "string option"
  NOTE_LINE_NUMBER :: int

type_synonym heap = "nat \<Rightarrow> insn_cell"

record sequence_level =
  sl_first :: nat
  sl_last :: nat
  sl_rtl_expr :: nat

record emit_state =
  heap :: heap
  next_address :: nat  \<comment> \<open>where \<open>rtx_alloc\<close> puts the next cell\<close>
  first_insn :: nat
  last_insn :: nat
  sequence_rtl_expr :: nat
  sequence_stack :: "sequence_level list"
  cur_insn_uid :: int
  free_insn :: nat
  last_linenum :: int
  last_filename :: "string option"
  label_num :: int
  first_label_num :: int
  reg_rtx_no :: int
  no_new_pseudos :: bool
  em_optimize :: bool
  em_function_value_matters :: bool
  no_line_numbers :: bool
  em_reload_completed :: bool

definition blank_cell :: "rtx_code \<Rightarrow> insn_cell" where
  "blank_cell code = \<lparr>ic_code = code, ic_uid = 0, PREV_INSN = 0, NEXT_INSN = 0, ic_pattern = Body NULL_RTX,
     ic_insn_code = 0, ic_links = NULL_RTX, ic_notes = NULL_RTX, ic_usage = NULL_RTX, JUMP_LABEL = 0,
     INSN_DELETED_P = False, ic_frame_related = False, CODE_LABEL_NUMBER = 0, LABEL_NUSES = 0,
     NOTE_SOURCE_FILE = None, NOTE_LINE_NUMBER = 0\<rparr>"

fun delay_slots :: "insn_cell \<Rightarrow> nat list" where
  "delay_slots c = (if ic_code c = INSN then (case ic_pattern c of Delay_seq ys \<Rightarrow> ys | Body _ \<Rightarrow> []) else [])"

declare delay_slots.simps [simp del]

definition set_next :: "nat \<Rightarrow> nat \<Rightarrow> heap \<Rightarrow> heap" where
  "set_next x y h = h(x := (h x)\<lparr>NEXT_INSN := y\<rparr>)"

definition set_prev :: "nat \<Rightarrow> nat \<Rightarrow> heap \<Rightarrow> heap" where
  "set_prev x y h = h(x := (h x)\<lparr>PREV_INSN := y\<rparr>)"

text \<open>The link of an insn that may hold delay slots: the outer insns of its \<open>SEQUENCE\<close> carry
  the same links.\<close>

definition set_next_seq :: "nat \<Rightarrow> nat \<Rightarrow> heap \<Rightarrow> heap" where
  "set_next_seq x y h =
     (if delay_slots (h x) = [] then set_next x y h
      else set_next (last (delay_slots (h x))) y (set_next x y h))"

definition set_prev_seq :: "nat \<Rightarrow> nat \<Rightarrow> heap \<Rightarrow> heap" where
  "set_prev_seq x y h =
     (if delay_slots (h x) = [] then set_prev x y h
      else set_prev (hd (delay_slots (h x))) y (set_prev x y h))"

definition with_heap :: "(heap \<Rightarrow> heap) \<Rightarrow> emit_state \<Rightarrow> emit_state" where
  "with_heap f st = st\<lparr>heap := f (heap st)\<rparr>"

section \<open>Linking and unlinking\<close>

definition add_insn :: "nat \<Rightarrow> emit_state \<Rightarrow> emit_state" where
  "add_insn insn st =
     (let st = with_heap (set_next insn 0 \<circ> set_prev insn (last_insn st)) st;
          st = (if last_insn st \<noteq> 0 then with_heap (set_next (last_insn st) insn) st else st);
          st = (if first_insn st = 0 then st\<lparr>first_insn := insn\<rparr> else st)
      in st\<lparr>last_insn := insn\<rparr>)"

text \<open>The scans over the pending sequences.\<close>

fun replace_last :: "nat \<Rightarrow> nat \<Rightarrow> sequence_level list \<Rightarrow> sequence_level list option" where
  "replace_last old new [] = None"
| "replace_last old new (s # ss) =
     (if old = sl_last s then Some (s\<lparr>sl_last := new\<rparr> # ss) else map_option ((#) s) (replace_last old new ss))"

fun replace_first :: "nat \<Rightarrow> nat \<Rightarrow> sequence_level list \<Rightarrow> sequence_level list option" where
  "replace_first old new [] = None"
| "replace_first old new (s # ss) =
     (if old = sl_first s then Some (s\<lparr>sl_first := new\<rparr> # ss) else map_option ((#) s) (replace_first old new ss))"

definition update_last :: "nat \<Rightarrow> nat \<Rightarrow> emit_state \<Rightarrow> emit_state option" where
  "update_last old new st =
     (if last_insn st = old then Some (st\<lparr>last_insn := new\<rparr>)
      else map_option (\<lambda>ss. st\<lparr>sequence_stack := ss\<rparr>) (replace_last old new (sequence_stack st)))"

definition update_first :: "nat \<Rightarrow> nat \<Rightarrow> emit_state \<Rightarrow> emit_state option" where
  "update_first old new st =
     (if first_insn st = old then Some (st\<lparr>first_insn := new\<rparr>)
      else map_option (\<lambda>ss. st\<lparr>sequence_stack := ss\<rparr>) (replace_first old new (sequence_stack st)))"

definition add_insn_after :: "nat \<Rightarrow> nat \<Rightarrow> emit_state \<Rightarrow> emit_state option" where
  "add_insn_after insn after st =
     (let next = NEXT_INSN (heap st after)
      in if em_optimize st \<and> INSN_DELETED_P (heap st after) then None
         else do {
           let st = with_heap (set_prev insn after \<circ> set_next insn next) st;
           st \<leftarrow> (if next \<noteq> 0 then Some (with_heap (set_prev_seq next insn) st) else update_last after insn st);
           Some (with_heap (set_next_seq after insn) st)
         })"

definition add_insn_before :: "nat \<Rightarrow> nat \<Rightarrow> emit_state \<Rightarrow> emit_state option" where
  "add_insn_before insn before st =
     (let prev = PREV_INSN (heap st before)
      in if em_optimize st \<and> INSN_DELETED_P (heap st before) then None
         else do {
           let st = with_heap (set_next insn before \<circ> set_prev insn prev) st;
           st \<leftarrow> (if prev \<noteq> 0 then Some (with_heap (set_next_seq prev insn) st) else update_first before insn st);
           Some (with_heap (set_prev_seq before insn) st)
         })"

definition remove_insn :: "nat \<Rightarrow> emit_state \<Rightarrow> emit_state option" where
  "remove_insn insn st =
     (let next = NEXT_INSN (heap st insn); prev = PREV_INSN (heap st insn)
      in do {
        st \<leftarrow> (if prev \<noteq> 0 then Some (with_heap (set_next_seq prev next) st) else update_first insn next st);
        if next \<noteq> 0 then Some (with_heap (set_prev_seq next prev) st) else update_last insn prev st
      })"

definition delete_insns_since :: "nat \<Rightarrow> emit_state \<Rightarrow> emit_state" where
  "delete_insns_since from st =
     (if from = 0 then st\<lparr>first_insn := 0\<rparr> else with_heap (set_next from 0) st)\<lparr>last_insn := from\<rparr>"

definition reorder_insns :: "nat \<Rightarrow> nat \<Rightarrow> nat \<Rightarrow> emit_state \<Rightarrow> emit_state" where
  "reorder_insns from to after st =
     (let prev = PREV_INSN (heap st from);
          st = (if prev \<noteq> 0 then with_heap (set_next prev (NEXT_INSN (heap st to))) st else st);
          next = NEXT_INSN (heap st to);
          st = (if next \<noteq> 0 then with_heap (set_prev next (PREV_INSN (heap st from))) st else st);
          st = (if last_insn st = to then st\<lparr>last_insn := PREV_INSN (heap st from)\<rparr> else st);
          st = (if first_insn st = from then st\<lparr>first_insn := NEXT_INSN (heap st to)\<rparr> else st);
          behind = NEXT_INSN (heap st after);
          st = (if behind \<noteq> 0 then with_heap (set_prev behind to) st else st);
          st = with_heap (\<lambda>h. set_next to (NEXT_INSN (h after)) h) st;
          st = with_heap (set_next after from \<circ> set_prev from after) st
      in if after = last_insn st then st\<lparr>last_insn := to\<rparr> else st)"

section \<open>Searching\<close>

text \<open>The loops \<open>while (insn) { insn = STEP (insn); if (insn == 0 || STOP) break; }\<close>.\<close>

partial_function (option) scan :: "(nat \<Rightarrow> nat) \<Rightarrow> (nat \<Rightarrow> bool) \<Rightarrow> nat \<Rightarrow> nat option" where
  "scan step stop insn =
     (if insn = 0 then Some 0
      else if step insn = 0 \<or> stop (step insn) then Some (step insn)
      else scan step stop (step insn))"

declare scan.simps [code]

abbreviation next_of :: "emit_state \<Rightarrow> nat \<Rightarrow> nat" where "next_of st \<equiv> \<lambda>x. NEXT_INSN (heap st x)"
abbreviation prev_of :: "emit_state \<Rightarrow> nat \<Rightarrow> nat" where "prev_of st \<equiv> \<lambda>x. PREV_INSN (heap st x)"
abbreviation code_of :: "emit_state \<Rightarrow> nat \<Rightarrow> rtx_code" where "code_of st \<equiv> \<lambda>x. ic_code (heap st x)"

definition nonnote_insn :: "emit_state \<Rightarrow> nat \<Rightarrow> bool" where
  "nonnote_insn st x \<longleftrightarrow> code_of st x \<noteq> NOTE"

definition real_insn :: "emit_state \<Rightarrow> nat \<Rightarrow> bool" where
  "real_insn st x \<longleftrightarrow> code_of st x = INSN \<or> code_of st x = CALL_INSN \<or> code_of st x = JUMP_INSN"

fun body_code :: "body \<Rightarrow> rtx_code" where
  "body_code (Body x) = GET_CODE x"
| "body_code (Delay_seq xs) = SEQUENCE"

definition active_insn :: "emit_state \<Rightarrow> nat \<Rightarrow> bool" where
  "active_insn st x \<longleftrightarrow> code_of st x = CALL_INSN \<or> code_of st x = JUMP_INSN
     \<or> (code_of st x = INSN \<and> (\<not> em_reload_completed st
          \<or> (body_code (ic_pattern (heap st x)) \<noteq> USE \<and> body_code (ic_pattern (heap st x)) \<noteq> CLOBBER)))"

definition label_insn :: "emit_state \<Rightarrow> nat \<Rightarrow> bool" where
  "label_insn st x \<longleftrightarrow> code_of st x = CODE_LABEL"

definition next_nonnote_insn :: "emit_state \<Rightarrow> nat \<Rightarrow> nat option" where
  "next_nonnote_insn st = scan (next_of st) (nonnote_insn st)"
definition prev_nonnote_insn :: "emit_state \<Rightarrow> nat \<Rightarrow> nat option" where
  "prev_nonnote_insn st = scan (prev_of st) (nonnote_insn st)"
definition next_real_insn :: "emit_state \<Rightarrow> nat \<Rightarrow> nat option" where
  "next_real_insn st = scan (next_of st) (real_insn st)"
definition prev_real_insn :: "emit_state \<Rightarrow> nat \<Rightarrow> nat option" where
  "prev_real_insn st = scan (prev_of st) (real_insn st)"
definition next_active_insn :: "emit_state \<Rightarrow> nat \<Rightarrow> nat option" where
  "next_active_insn st = scan (next_of st) (active_insn st)"
definition prev_active_insn :: "emit_state \<Rightarrow> nat \<Rightarrow> nat option" where
  "prev_active_insn st = scan (prev_of st) (active_insn st)"
definition next_label :: "emit_state \<Rightarrow> nat \<Rightarrow> nat option" where
  "next_label st = scan (next_of st) (label_insn st)"
definition prev_label :: "emit_state \<Rightarrow> nat \<Rightarrow> nat option" where
  "prev_label st = scan (prev_of st) (label_insn st)"

definition next_insn :: "emit_state \<Rightarrow> nat \<Rightarrow> nat" where
  "next_insn st insn =
     (if insn = 0 then 0
      else (let insn = next_of st insn
            in if insn \<noteq> 0 \<and> delay_slots (heap st insn) \<noteq> [] then hd (delay_slots (heap st insn)) else insn))"

definition previous_insn :: "emit_state \<Rightarrow> nat \<Rightarrow> nat" where
  "previous_insn st insn =
     (if insn = 0 then 0
      else (let insn = prev_of st insn
            in if insn \<noteq> 0 \<and> delay_slots (heap st insn) \<noteq> [] then last (delay_slots (heap st insn)) else insn))"

text \<open>\<open>find_line_note\<close> starts at the insn itself.\<close>

partial_function (option) line_note_from :: "emit_state \<Rightarrow> nat \<Rightarrow> nat option" where
  "line_note_from st insn =
     (if insn = 0 then Some 0
      else if code_of st insn = NOTE \<and> NOTE_LINE_NUMBER (heap st insn) \<ge> 0 then Some insn
      else line_note_from st (prev_of st insn))"

definition find_line_note :: "emit_state \<Rightarrow> nat \<Rightarrow> nat option" where
  "find_line_note st insn = (if no_line_numbers st then Some 0 else line_note_from st insn)"

text \<open>Following the chain to its end.\<close>

partial_function (option) walk :: "(nat \<Rightarrow> nat) \<Rightarrow> nat \<Rightarrow> nat list option" where
  "walk step insn =
     (if insn = 0 then Some [] else do { xs \<leftarrow> walk step (step insn); Some (insn # xs) })"

section \<open>Creation\<close>

definition rtx_alloc :: "rtx_code \<Rightarrow> emit_state \<Rightarrow> nat \<times> emit_state" where
  "rtx_alloc code st =
     (let a = next_address st
      in (a, st\<lparr>heap := (heap st)(a := blank_cell code), next_address := a + 1\<rparr>))"

definition set_cell :: "nat \<Rightarrow> (insn_cell \<Rightarrow> insn_cell) \<Rightarrow> emit_state \<Rightarrow> emit_state" where
  "set_cell a f = with_heap (\<lambda>h. h(a := f (h a)))"

definition take_uid :: "nat \<Rightarrow> emit_state \<Rightarrow> emit_state" where
  "take_uid a st = (set_cell a (\<lambda>c. c\<lparr>ic_uid := cur_insn_uid st\<rparr>) st)\<lparr>cur_insn_uid := cur_insn_uid st + 1\<rparr>"

definition fill_insn :: "rtx \<Rightarrow> insn_cell \<Rightarrow> insn_cell" where
  "fill_insn pattern c =
     c\<lparr>ic_pattern := Body pattern, ic_insn_code := - 1, ic_links := NULL_RTX, ic_notes := NULL_RTX\<rparr>"

definition make_insn_raw :: "rtx \<Rightarrow> emit_state \<Rightarrow> nat \<times> emit_state" where
  "make_insn_raw pattern st =
     (let (insn, st) =
        (if free_insn st \<noteq> 0 \<and> em_function_value_matters st then
           (free_insn st, set_cell (free_insn st) (\<lambda>c. c\<lparr>ic_code := INSN\<rparr>)
              (st\<lparr>free_insn := NEXT_INSN (heap st (free_insn st))\<rparr>))
         else rtx_alloc INSN st)
      in (insn, set_cell insn (fill_insn pattern) (take_uid insn st)))"

definition make_jump_insn_raw :: "rtx \<Rightarrow> emit_state \<Rightarrow> nat \<times> emit_state" where
  "make_jump_insn_raw pattern st =
     (let (insn, st) = rtx_alloc JUMP_INSN st
      in (insn, set_cell insn (\<lambda>c. (fill_insn pattern c)\<lparr>JUMP_LABEL := 0\<rparr>) (take_uid insn st)))"

definition make_call_insn_raw :: "rtx \<Rightarrow> emit_state \<Rightarrow> nat \<times> emit_state" where
  "make_call_insn_raw pattern st =
     (let (insn, st) = rtx_alloc CALL_INSN st
      in (insn, set_cell insn (\<lambda>c. (fill_insn pattern c)\<lparr>ic_usage := NULL_RTX\<rparr>) (take_uid insn st)))"

definition make_barrier :: "emit_state \<Rightarrow> nat \<times> emit_state" where
  "make_barrier st = (let (insn, st) = rtx_alloc BARRIER st in (insn, take_uid insn st))"

definition make_note :: "string option \<Rightarrow> int \<Rightarrow> emit_state \<Rightarrow> nat \<times> emit_state" where
  "make_note file line st =
     (let (note, st) = rtx_alloc NOTE st
      in (note, set_cell note (\<lambda>c. c\<lparr>NOTE_SOURCE_FILE := file, NOTE_LINE_NUMBER := line\<rparr>) (take_uid note st)))"

definition gen_label_rtx :: "emit_state \<Rightarrow> nat \<times> emit_state" where
  "gen_label_rtx st =
     (let (label, st) = rtx_alloc CODE_LABEL st
      in (label, (set_cell label (\<lambda>c. c\<lparr>CODE_LABEL_NUMBER := label_num st, LABEL_NUSES := 0\<rparr>) st)
            \<lparr>label_num := label_num st + 1\<rparr>))"

section \<open>Emission at the end\<close>

definition emit_made :: "nat \<times> emit_state \<Rightarrow> nat \<times> emit_state" where
  "emit_made made = (case made of (insn, st) \<Rightarrow> (insn, add_insn insn st))"

definition emit_elements :: "nat list \<Rightarrow> emit_state \<Rightarrow> nat \<times> emit_state" where
  "emit_elements xs st = (if xs = [] then last_insn st else last xs, fold add_insn xs st)"

fun emit_insn :: "body \<Rightarrow> emit_state \<Rightarrow> nat \<times> emit_state" where
  "emit_insn (Delay_seq xs) st = emit_elements xs st"
| "emit_insn (Body pattern) st = emit_made (make_insn_raw pattern st)"

fun emit_jump_insn :: "body \<Rightarrow> emit_state \<Rightarrow> nat \<times> emit_state" where
  "emit_jump_insn (Delay_seq xs) st = emit_insn (Delay_seq xs) st"
| "emit_jump_insn (Body pattern) st = emit_made (make_jump_insn_raw pattern st)"

fun emit_call_insn :: "body \<Rightarrow> emit_state \<Rightarrow> nat \<times> emit_state" where
  "emit_call_insn (Delay_seq xs) st = emit_insn (Delay_seq xs) st"
| "emit_call_insn (Body pattern) st =
     (let (insn, st) = emit_made (make_call_insn_raw pattern st)
      in (insn, set_cell insn (\<lambda>c. c\<lparr>ic_code := CALL_INSN\<rparr>) st))"

definition emit_label :: "nat \<Rightarrow> emit_state \<Rightarrow> nat \<times> emit_state" where
  "emit_label label st =
     (label, if ic_uid (heap st label) = 0 then add_insn label (take_uid label st) else st)"

definition emit_barrier :: "emit_state \<Rightarrow> nat \<times> emit_state" where
  "emit_barrier st = emit_made (make_barrier st)"

text \<open>A line note that repeats the last one is omitted; the address 0 says so.\<close>

definition emit_note :: "string option \<Rightarrow> int \<Rightarrow> emit_state \<Rightarrow> nat \<times> emit_state" where
  "emit_note file line st =
     (if line > 0 \<and> file \<noteq> None \<and> last_filename st \<noteq> None \<and> file = last_filename st \<and> line = last_linenum st
      then (0, st)
      else
        (let st = (if line > 0 then st\<lparr>last_filename := file, last_linenum := line\<rparr> else st)
         in if no_line_numbers st \<and> line > 0 then (0, st\<lparr>cur_insn_uid := cur_insn_uid st + 1\<rparr>)
            else emit_made (make_note file line st)))"

definition emit_line_note_force :: "string option \<Rightarrow> int \<Rightarrow> emit_state \<Rightarrow> nat \<times> emit_state" where
  "emit_line_note_force file line st = emit_note file line (st\<lparr>last_linenum := - 1\<rparr>)"

text \<open>The chain that starts at \<open>insn\<close> is emitted insn by insn, each successor being read
  before the insn is linked anew.\<close>

partial_function (option) emit_insns :: "nat \<Rightarrow> nat \<Rightarrow> emit_state \<Rightarrow> (nat \<times> emit_state) option" where
  "emit_insns prior insn st =
     (if insn = 0 then Some (prior, st)
      else emit_insns insn (NEXT_INSN (heap st insn)) (add_insn insn st))"

section \<open>Emission elsewhere\<close>

definition place :: "(nat \<Rightarrow> emit_state \<Rightarrow> emit_state option) \<Rightarrow> nat \<times> emit_state \<Rightarrow> (nat \<times> emit_state) option" where
  "place link made = (case made of (insn, st) \<Rightarrow> map_option (Pair insn) (link insn st))"

fun elements_before :: "nat list \<Rightarrow> nat \<Rightarrow> emit_state \<Rightarrow> emit_state option" where
  "elements_before [] before st = Some st"
| "elements_before (x # xs) before st = do { st \<leftarrow> add_insn_before x before st; elements_before xs before st }"

fun elements_after :: "nat list \<Rightarrow> nat \<Rightarrow> emit_state \<Rightarrow> emit_state option" where
  "elements_after [] after st = Some st"
| "elements_after (x # xs) after st = do { st \<leftarrow> add_insn_after x after st; elements_after xs x st }"

fun emit_insn_before :: "body \<Rightarrow> nat \<Rightarrow> emit_state \<Rightarrow> (nat \<times> emit_state) option" where
  "emit_insn_before (Delay_seq xs) before st =
     map_option (Pair (if xs = [] then before else last xs)) (elements_before xs before st)"
| "emit_insn_before (Body pattern) before st =
     place (\<lambda>insn. add_insn_before insn before) (make_insn_raw pattern st)"

fun emit_insn_after :: "body \<Rightarrow> nat \<Rightarrow> emit_state \<Rightarrow> (nat \<times> emit_state) option" where
  "emit_insn_after (Delay_seq xs) after st =
     map_option (Pair (if xs = [] then after else last xs)) (elements_after xs after st)"
| "emit_insn_after (Body pattern) after st =
     place (\<lambda>insn. add_insn_after insn after) (make_insn_raw pattern st)"

fun emit_jump_insn_before :: "body \<Rightarrow> nat \<Rightarrow> emit_state \<Rightarrow> (nat \<times> emit_state) option" where
  "emit_jump_insn_before (Delay_seq xs) before st = emit_insn_before (Delay_seq xs) before st"
| "emit_jump_insn_before (Body pattern) before st =
     place (\<lambda>insn. add_insn_before insn before) (make_jump_insn_raw pattern st)"

fun emit_jump_insn_after :: "body \<Rightarrow> nat \<Rightarrow> emit_state \<Rightarrow> (nat \<times> emit_state) option" where
  "emit_jump_insn_after (Delay_seq xs) after st = emit_insn_after (Delay_seq xs) after st"
| "emit_jump_insn_after (Body pattern) after st =
     place (\<lambda>insn. add_insn_after insn after) (make_jump_insn_raw pattern st)"

fun emit_call_insn_before :: "body \<Rightarrow> nat \<Rightarrow> emit_state \<Rightarrow> (nat \<times> emit_state) option" where
  "emit_call_insn_before (Delay_seq xs) before st = emit_insn_before (Delay_seq xs) before st"
| "emit_call_insn_before (Body pattern) before st =
     map_option (\<lambda>(insn, st). (insn, set_cell insn (\<lambda>c. c\<lparr>ic_code := CALL_INSN\<rparr>) st))
       (place (\<lambda>insn. add_insn_before insn before) (make_call_insn_raw pattern st))"

definition emit_barrier_before :: "nat \<Rightarrow> emit_state \<Rightarrow> (nat \<times> emit_state) option" where
  "emit_barrier_before before st = place (\<lambda>insn. add_insn_before insn before) (make_barrier st)"

definition emit_barrier_after :: "nat \<Rightarrow> emit_state \<Rightarrow> (nat \<times> emit_state) option" where
  "emit_barrier_after after st = place (\<lambda>insn. add_insn_after insn after) (make_barrier st)"

definition emit_label_before :: "nat \<Rightarrow> nat \<Rightarrow> emit_state \<Rightarrow> (nat \<times> emit_state) option" where
  "emit_label_before label before st =
     (if ic_uid (heap st label) = 0 then place (\<lambda>insn. add_insn_before insn before) (label, take_uid label st)
      else Some (label, st))"

definition emit_label_after :: "nat \<Rightarrow> nat \<Rightarrow> emit_state \<Rightarrow> (nat \<times> emit_state) option" where
  "emit_label_after label after st =
     (if ic_uid (heap st label) = 0 then place (\<lambda>insn. add_insn_after insn after) (label, take_uid label st)
      else Some (label, st))"

definition emit_note_before :: "int \<Rightarrow> nat \<Rightarrow> emit_state \<Rightarrow> (nat \<times> emit_state) option" where
  "emit_note_before subtype before st = place (\<lambda>insn. add_insn_before insn before) (make_note None subtype st)"

definition emit_note_after :: "int \<Rightarrow> nat \<Rightarrow> emit_state \<Rightarrow> (nat \<times> emit_state) option" where
  "emit_note_after subtype after st = place (\<lambda>insn. add_insn_after insn after) (make_note None subtype st)"

definition emit_line_note_after :: "string option \<Rightarrow> int \<Rightarrow> nat \<Rightarrow> emit_state \<Rightarrow> (nat \<times> emit_state) option" where
  "emit_line_note_after file line after st =
     (if no_line_numbers st \<and> line > 0 then Some (0, st\<lparr>cur_insn_uid := cur_insn_uid st + 1\<rparr>)
      else place (\<lambda>insn. add_insn_after insn after) (make_note file line st))"

definition line_note_like :: "nat \<Rightarrow> nat \<Rightarrow> emit_state \<Rightarrow> emit_state option" where
  "line_note_like note after st =
     (if note = 0 then Some st
      else map_option snd (emit_line_note_after (NOTE_SOURCE_FILE (heap st note)) (NOTE_LINE_NUMBER (heap st note)) after st))"

definition reorder_insns_with_line_notes :: "nat \<Rightarrow> nat \<Rightarrow> nat \<Rightarrow> emit_state \<Rightarrow> emit_state option" where
  "reorder_insns_with_line_notes from to after st = do {
     from_line \<leftarrow> find_line_note st from;
     after_line \<leftarrow> find_line_note st after;
     let st = reorder_insns from to after st;
     if from_line = after_line then Some st
     else do {
       st \<leftarrow> line_note_like from_line after st;
       line_note_like after_line to st
     }
   }"

definition emit_insn_after_with_line_notes :: "body \<Rightarrow> nat \<Rightarrow> nat \<Rightarrow> emit_state \<Rightarrow> emit_state option" where
  "emit_insn_after_with_line_notes pattern after from st = do {
     from_line \<leftarrow> find_line_note st from;
     after_line \<leftarrow> find_line_note st after;
     (insn, st) \<leftarrow> emit_insn_after pattern after st;
     st \<leftarrow> line_note_like from_line after st;
     line_note_like after_line insn st
   }"

definition emit_insns_after :: "nat \<Rightarrow> nat \<Rightarrow> emit_state \<Rightarrow> (nat \<times> emit_state) option" where
  "emit_insns_after first after st =
     (if after = 0 then None
      else if first = 0 then Some (first, st)
      else do {
        xs \<leftarrow> walk (next_of st) first;
        let final = last xs;
        let after_after = next_of st after;
        let st = with_heap (set_next final after_after \<circ> set_prev first after \<circ> set_next after first) st;
        let st = (if after_after \<noteq> 0 then with_heap (set_prev after_after final) st else st);
        Some (final, if after = last_insn st then st\<lparr>last_insn := final\<rparr> else st)
      })"

section \<open>Sequences\<close>

definition start_sequence :: "emit_state \<Rightarrow> emit_state" where
  "start_sequence st =
     st\<lparr>sequence_stack := \<lparr>sl_first = first_insn st, sl_last = last_insn st, sl_rtl_expr = sequence_rtl_expr st\<rparr> # sequence_stack st,
        first_insn := 0, last_insn := 0\<rparr>"

definition push_to_sequence :: "nat \<Rightarrow> emit_state \<Rightarrow> emit_state option" where
  "push_to_sequence first st = do {
     xs \<leftarrow> walk (next_of st) first;
     Some ((start_sequence st)\<lparr>first_insn := first, last_insn := (if xs = [] then 0 else last xs)\<rparr>)
   }"

definition end_sequence :: "emit_state \<Rightarrow> emit_state option" where
  "end_sequence st =
     (case sequence_stack st of
        [] \<Rightarrow> None
      | tem # rest \<Rightarrow> Some (st\<lparr>first_insn := sl_first tem, last_insn := sl_last tem,
          sequence_rtl_expr := sl_rtl_expr tem, sequence_stack := rest\<rparr>))"

definition push_topmost_sequence :: "emit_state \<Rightarrow> emit_state" where
  "push_topmost_sequence st =
     (let st = start_sequence st; top = last (sequence_stack st)
      in st\<lparr>first_insn := sl_first top, last_insn := sl_last top, sequence_rtl_expr := sl_rtl_expr top\<rparr>)"

definition pop_topmost_sequence :: "emit_state \<Rightarrow> emit_state option" where
  "pop_topmost_sequence st =
     (if sequence_stack st = [] then None
      else end_sequence (st\<lparr>sequence_stack := butlast (sequence_stack st) @
        [(last (sequence_stack st))\<lparr>sl_first := first_insn st, sl_last := last_insn st\<rparr>]\<rparr>))"

definition in_sequence_p :: "emit_state \<Rightarrow> bool" where
  "in_sequence_p st \<longleftrightarrow> sequence_stack st \<noteq> []"

definition gen_sequence :: "emit_state \<Rightarrow> (body \<times> emit_state) option" where
  "gen_sequence st = do {
     xs \<leftarrow> walk (next_of st) (first_insn st);
     let c = heap st (first_insn st);
     Some (if length xs = 1 \<and> \<not> ic_frame_related c
         \<and> (ic_code c = INSN \<or> ic_code c = JUMP_INSN \<or> (ic_code c = CALL_INSN \<and> ic_usage c = NULL_RTX))
       then (ic_pattern c, (with_heap (set_next (first_insn st) (free_insn st)) st)\<lparr>free_insn := first_insn st\<rparr>)
       else (Delay_seq xs, st))
   }"

section \<open>Pseudo registers\<close>

definition mode_for_size :: "nat \<Rightarrow> mode_class \<Rightarrow> machine_mode" where
  "mode_for_size sz cls =
     (case filter (\<lambda>m. GET_MODE_CLASS m = cls \<and> 8 * GET_MODE_SIZE m = sz) all_modes of
        [] \<Rightarrow> BLKmode | m # _ \<Rightarrow> m)"

text \<open>\<open>gen_reg_rtx\<close>; the tables indexed by register number that it extends are not part of
  the state. The modes of the parts of a complex mode are not complex, so its two recursive
  calls create one pseudo register each.\<close>

definition new_pseudo :: "machine_mode \<Rightarrow> emit_state \<Rightarrow> (rtx \<times> emit_state) option" where
  "new_pseudo mode st =
     (if no_new_pseudos st then None
      else Some (gen_rtx_REG mode (reg_rtx_no st), st\<lparr>reg_rtx_no := reg_rtx_no st + 1\<rparr>))"

definition gen_reg_rtx :: "machine_mode \<Rightarrow> emit_state \<Rightarrow> (rtx \<times> emit_state) option" where
  "gen_reg_rtx mode st =
     (if GET_MODE_CLASS mode = MODE_COMPLEX_FLOAT \<or> GET_MODE_CLASS mode = MODE_COMPLEX_INT then
        (let partmode = mode_for_size (8 * GET_MODE_UNIT_SIZE mode)
           (if GET_MODE_CLASS mode = MODE_COMPLEX_FLOAT then MODE_FLOAT else MODE_INT)
         in do {
           (realpart, st) \<leftarrow> new_pseudo partmode st;
           (imagpart, st) \<leftarrow> new_pseudo partmode st;
           Some (gen_rtx_fmt_ee CONCAT mode realpart imagpart, st)
         })
      else new_pseudo mode st)"

section \<open>The state as a whole\<close>

definition init_emit :: "emit_state \<Rightarrow> emit_state" where
  "init_emit st = st\<lparr>first_insn := 0, last_insn := 0, sequence_rtl_expr := 0, cur_insn_uid := 1,
     reg_rtx_no := LAST_VIRTUAL_REGISTER + 1, last_linenum := 0, last_filename := None,
     first_label_num := label_num st, sequence_stack := [], free_insn := 0\<rparr>"

definition set_last_insn :: "nat \<Rightarrow> emit_state \<Rightarrow> emit_state option" where
  "set_last_insn insn st = (if next_of st insn \<noteq> 0 then None else Some (st\<lparr>last_insn := insn\<rparr>))"

definition get_last_insn_anywhere :: "emit_state \<Rightarrow> nat" where
  "get_last_insn_anywhere st =
     (if last_insn st \<noteq> 0 then last_insn st
      else (case filter (\<lambda>s. sl_last s \<noteq> 0) (sequence_stack st) of [] \<Rightarrow> 0 | s # _ \<Rightarrow> sl_last s))"

definition get_max_uid :: "emit_state \<Rightarrow> int" where
  "get_max_uid st = cur_insn_uid st"

definition set_new_first_and_last_insn :: "nat \<Rightarrow> nat \<Rightarrow> emit_state \<Rightarrow> emit_state option" where
  "set_new_first_and_last_insn first final st = do {
     xs \<leftarrow> walk (next_of st) first;
     Some (st\<lparr>first_insn := first, last_insn := final,
       cur_insn_uid := fold (\<lambda>x m. max m (ic_uid (heap st x))) xs 0 + 1\<rparr>)
   }"

fun classify_insn :: "rtx \<Rightarrow> rtx_code" where
  "classify_insn x =
     (if GET_CODE x = CODE_LABEL then CODE_LABEL
      else if GET_CODE x = CALL then CALL_INSN
      else if GET_CODE x = RETURN then JUMP_INSN
      else if GET_CODE x = SET then
        (if SET_DEST x = pc_rtx then JUMP_INSN else if GET_CODE (SET_SRC x) = CALL then CALL_INSN else INSN)
      else if GET_CODE x = PARALLEL then
        (case filter (\<lambda>y. GET_CODE y = CALL \<or> (GET_CODE y = SET \<and> (SET_DEST y = pc_rtx \<or> GET_CODE (SET_SRC y) = CALL)))
                (rev (XVEC x 0)) of
           [] \<Rightarrow> INSN
         | y # _ \<Rightarrow> if GET_CODE y = CALL then CALL_INSN else if SET_DEST y = pc_rtx then JUMP_INSN else CALL_INSN)
      else INSN)"

end
