(* ===== verification/Insn_Lists.thy ===== *)
theory Insn_Lists
  imports Insn_Chain "HOL-Library.Multiset"
begin

text \<open>
  What the insn chain means: the chain being built and the pending sequences are disjoint lists
  of insns, doubly linked, with their ends recorded in \<open>first_insn\<close>, \<open>last_insn\<close> and the
  sequence stack; the links around a branch with delay slots are repeated on the outer insns of
  its \<open>SEQUENCE\<close>. The operations refine the operations on lists.
\<close>

section \<open>The lists that a state represents\<close>

definition first_of :: "nat list \<Rightarrow> nat \<Rightarrow> nat" where
  "first_of xs q = (case xs of [] \<Rightarrow> q | x # _ \<Rightarrow> x)"

definition last_of :: "nat list \<Rightarrow> nat \<Rightarrow> nat" where
  "last_of xs p = (if xs = [] then p else last xs)"

lemma first_of_simps [simp]: "first_of [] q = q" "first_of (x # xs) q = x"
  "first_of (xs @ ys) q = first_of xs (first_of ys q)"
  by (simp_all add: first_of_def split: list.split)

lemma last_of_simps [simp]: "last_of [] p = p" "last_of (x # xs) p = last_of xs x"
  "last_of (xs @ ys) p = last_of ys (last_of xs p)"
  by (simp_all add: last_of_def)

fun linked :: "heap \<Rightarrow> nat \<Rightarrow> nat list \<Rightarrow> nat \<Rightarrow> bool" where
  "linked h p [] q \<longleftrightarrow> True"
| "linked h p (x # xs) q \<longleftrightarrow> PREV_INSN (h x) = p \<and> NEXT_INSN (h x) = first_of xs q \<and> linked h x xs q"

fun free_list :: "heap \<Rightarrow> nat \<Rightarrow> nat list \<Rightarrow> bool" where
  "free_list h p [] \<longleftrightarrow> p = 0"
| "free_list h p (x # xs) \<longleftrightarrow> p = x \<and> free_list h (NEXT_INSN (h x)) xs"

definition levels :: "emit_state \<Rightarrow> (nat \<times> nat) list" where
  "levels st = (first_insn st, last_insn st) # map (\<lambda>s. (sl_first s, sl_last s)) (sequence_stack st)"

definition slots :: "heap \<Rightarrow> nat list \<Rightarrow> nat list" where
  "slots h xs = concat (map (\<lambda>x. delay_slots (h x)) xs)"

definition sealed :: "heap \<Rightarrow> nat \<Rightarrow> bool" where
  "sealed h x \<longleftrightarrow> delay_slots (h x) = []
     \<or> (PREV_INSN (h (hd (delay_slots (h x)))) = PREV_INSN (h x) \<and> NEXT_INSN (h (last (delay_slots (h x)))) = NEXT_INSN (h x))"

definition level_ok :: "heap \<Rightarrow> nat list \<Rightarrow> nat \<times> nat \<Rightarrow> bool" where
  "level_ok h xs fl \<longleftrightarrow> fl = (first_of xs 0, last_of xs 0) \<and> linked h 0 xs 0"

definition owned :: "emit_state \<Rightarrow> nat list list \<Rightarrow> nat list \<Rightarrow> nat list" where
  "owned st xss fs = concat xss @ slots (heap st) (concat xss) @ fs"

definition chains :: "emit_state \<Rightarrow> nat list list \<Rightarrow> nat list \<Rightarrow> bool" where
  "chains st xss fs \<longleftrightarrow> list_all2 (level_ok (heap st)) xss (levels st)
     \<and> free_list (heap st) (free_insn st) fs
     \<and> distinct (owned st xss fs) \<and> list_all (\<lambda>a. 0 < a \<and> a < next_address st) (owned st xss fs)"

definition all_sealed :: "emit_state \<Rightarrow> nat list list \<Rightarrow> bool" where
  "all_sealed st xss \<longleftrightarrow> list_all (sealed (heap st)) (concat xss)"

text \<open>An insn that is on no list, with its delay slots.\<close>

definition loose :: "emit_state \<Rightarrow> nat list \<Rightarrow> nat \<Rightarrow> bool" where
  "loose st own x \<longleftrightarrow> distinct (x # delay_slots (heap st x) @ own)
     \<and> list_all (\<lambda>a. 0 < a \<and> a < next_address st) (x # delay_slots (heap st x))"

text \<open>The lists on which the operations act.\<close>

primrec insert_after :: "nat \<Rightarrow> nat \<Rightarrow> nat list \<Rightarrow> nat list" where
  "insert_after a x [] = []"
| "insert_after a x (y # ys) = (if y = a then y # x # ys else y # insert_after a x ys)"

primrec insert_before :: "nat \<Rightarrow> nat \<Rightarrow> nat list \<Rightarrow> nat list" where
  "insert_before a x [] = []"
| "insert_before a x (y # ys) = (if y = a then x # y # ys else y # insert_before a x ys)"

text \<open>The fields of a cell other than its links.\<close>

definition payload :: "insn_cell \<Rightarrow> insn_cell" where
  "payload c = c\<lparr>PREV_INSN := 0, NEXT_INSN := 0\<rparr>"

section \<open>Heaps\<close>

lemma linked_append:
  "linked h p (xs @ ys) q \<longleftrightarrow> linked h p xs (first_of ys q) \<and> linked h (last_of xs p) ys q"
  by (induction xs arbitrary: p) auto

lemma linked_cong:
  "(\<And>z. z \<in> set xs \<Longrightarrow> PREV_INSN (h' z) = PREV_INSN (h z) \<and> NEXT_INSN (h' z) = NEXT_INSN (h z))
    \<Longrightarrow> linked h' p xs q = linked h p xs q"
  by (induction xs arbitrary: p) auto

lemma free_list_cong:
  "(\<And>z. z \<in> set xs \<Longrightarrow> NEXT_INSN (h' z) = NEXT_INSN (h z)) \<Longrightarrow> free_list h' p xs = free_list h p xs"
  by (induction xs arbitrary: p) auto

lemma delay_slots_payload: "payload c = payload d \<Longrightarrow> delay_slots c = delay_slots d"
  by (cases c, cases d) (simp add: payload_def delay_slots.simps split: body.split)

lemma payload_set [simp]:
  "payload (set_next x y h z) = payload (h z)" "payload (set_prev x y h z) = payload (h z)"
  "payload (set_next_seq x y h z) = payload (h z)" "payload (set_prev_seq x y h z) = payload (h z)"
  by (simp_all add: set_next_def set_prev_def set_next_seq_def set_prev_seq_def payload_def)

lemma slots_set [simp]:
  "delay_slots (set_next x y h z) = delay_slots (h z)" "delay_slots (set_prev x y h z) = delay_slots (h z)"
  "delay_slots (set_next_seq x y h z) = delay_slots (h z)" "delay_slots (set_prev_seq x y h z) = delay_slots (h z)"
  by (rule delay_slots_payload, simp)+

lemma links_set [simp]:
  "NEXT_INSN (set_next x y h z) = (if z = x then y else NEXT_INSN (h z))"
  "PREV_INSN (set_next x y h z) = PREV_INSN (h z)"
  "PREV_INSN (set_prev x y h z) = (if z = x then y else PREV_INSN (h z))"
  "NEXT_INSN (set_prev x y h z) = NEXT_INSN (h z)"
  "PREV_INSN (set_next_seq x y h z) = PREV_INSN (h z)"
  "NEXT_INSN (set_prev_seq x y h z) = NEXT_INSN (h z)"
  by (auto simp: set_next_def set_prev_def set_next_seq_def set_prev_seq_def)

lemma seq_links:
  "NEXT_INSN (set_next_seq x y h z) =
     (if z = x \<or> (delay_slots (h x) \<noteq> [] \<and> z = last (delay_slots (h x))) then y else NEXT_INSN (h z))"
  "PREV_INSN (set_prev_seq x y h z) =
     (if z = x \<or> (delay_slots (h x) \<noteq> [] \<and> z = hd (delay_slots (h x))) then y else PREV_INSN (h z))"
  by (simp_all add: set_next_seq_def set_prev_seq_def)

lemma seq_links_other:
  "z \<noteq> x \<Longrightarrow> z \<notin> set (delay_slots (h x)) \<Longrightarrow> NEXT_INSN (set_next_seq x y h z) = NEXT_INSN (h z)"
  "z \<noteq> x \<Longrightarrow> z \<notin> set (delay_slots (h x)) \<Longrightarrow> PREV_INSN (set_prev_seq x y h z) = PREV_INSN (h z)"
  by (auto simp: seq_links)

lemma seq_links_same [simp]:
  "NEXT_INSN (set_next_seq x y h x) = y" "PREV_INSN (set_prev_seq x y h x) = y"
  by (simp_all add: seq_links)

lemma heap_with [simp]: "heap (with_heap f st) = f (heap st)" by (simp add: with_heap_def)

lemma with_heap_fields [simp]:
  "levels (with_heap f st) = levels st" "free_insn (with_heap f st) = free_insn st"
  "next_address (with_heap f st) = next_address st" "last_insn (with_heap f st) = last_insn st"
  "first_insn (with_heap f st) = first_insn st" "sequence_stack (with_heap f st) = sequence_stack st"
  "cur_insn_uid (with_heap f st) = cur_insn_uid st"
  by (simp_all add: with_heap_def levels_def)

section \<open>Linking between two neighbours\<close>

definition link_in :: "nat \<Rightarrow> nat \<Rightarrow> nat \<Rightarrow> heap \<Rightarrow> heap" where
  "link_in a x n h =
     (let h = set_prev x a (set_next x n h);
          h = (if a = 0 then h else set_next_seq a x h)
      in if n = 0 then h else set_prev_seq n x h)"

definition link_out :: "nat \<Rightarrow> nat \<Rightarrow> heap \<Rightarrow> heap" where
  "link_out a n h =
     (let h = (if a = 0 then h else set_next_seq a n h)
      in if n = 0 then h else set_prev_seq n a h)"

lemma payload_link [simp]:
  "payload (link_in a x n h z) = payload (h z)" "payload (link_out a n h z) = payload (h z)"
  by (simp_all add: link_in_def link_out_def Let_def)

lemma slots_link [simp]:
  "delay_slots (link_in a x n h z) = delay_slots (h z)" "delay_slots (link_out a n h z) = delay_slots (h z)"
  by (rule delay_slots_payload, simp)+

text \<open>Where a link may be written: at the insn or at its delay slots.\<close>

definition touched :: "heap \<Rightarrow> nat \<Rightarrow> nat set" where
  "touched h x = (if x = 0 then {} else insert x (set (delay_slots (h x))))"

lemma link_in_links:
  "z \<noteq> x \<Longrightarrow> z \<notin> touched h a \<Longrightarrow> NEXT_INSN (link_in a x n h z) = NEXT_INSN (h z)"
  "z \<noteq> x \<Longrightarrow> z \<notin> touched h n \<Longrightarrow> PREV_INSN (link_in a x n h z) = PREV_INSN (h z)"
  "x \<notin> touched h a \<Longrightarrow> NEXT_INSN (link_in a x n h x) = n"
  "x \<notin> touched h n \<Longrightarrow> PREV_INSN (link_in a x n h x) = a"
  "a \<noteq> 0 \<Longrightarrow> NEXT_INSN (link_in a x n h a) = x"
  "n \<noteq> 0 \<Longrightarrow> PREV_INSN (link_in a x n h n) = x"
  by (auto simp: link_in_def Let_def touched_def seq_links_other split: if_splits)

lemma link_out_links:
  "z \<notin> touched h a \<Longrightarrow> NEXT_INSN (link_out a n h z) = NEXT_INSN (h z)"
  "z \<notin> touched h n \<Longrightarrow> PREV_INSN (link_out a n h z) = PREV_INSN (h z)"
  "a \<noteq> 0 \<Longrightarrow> NEXT_INSN (link_out a n h a) = n"
  "n \<noteq> 0 \<Longrightarrow> PREV_INSN (link_out a n h n) = a"
  by (auto simp: link_out_def Let_def touched_def seq_links_other split: if_splits)

lemma last_of_in: "last_of xs p \<noteq> p \<Longrightarrow> last_of xs p \<in> set xs" "xs \<noteq> [] \<Longrightarrow> last_of xs p \<in> set xs"
  by (simp_all add: last_of_def split: if_splits)

lemma first_of_in: "first_of xs q \<noteq> q \<Longrightarrow> first_of xs q \<in> set xs" "xs \<noteq> [] \<Longrightarrow> first_of xs q \<in> set xs"
  by (cases xs; simp)+

text \<open>\<open>apart h xs\<close>: distinct insns, none of them a delay slot of another.\<close>

definition apart :: "heap \<Rightarrow> nat list \<Rightarrow> bool" where
  "apart h xs \<longleftrightarrow> distinct xs \<and> 0 \<notin> set xs \<and> (\<forall>x \<in> set xs. \<forall>z \<in> set xs. z \<notin> set (delay_slots (h x)))"

lemma apart_touched: "apart h xs \<Longrightarrow> a = 0 \<or> a \<in> set xs \<Longrightarrow> z \<in> set xs \<Longrightarrow> z \<in> touched h a \<longleftrightarrow> z = a"
  by (cases "z = 0") (auto simp: apart_def touched_def)

lemma not_end: "z \<noteq> 0 \<Longrightarrow> z \<notin> set ys \<Longrightarrow> z \<noteq> first_of ys 0" "z \<noteq> 0 \<Longrightarrow> z \<notin> set ys \<Longrightarrow> z \<noteq> last_of ys 0"
  using first_of_in(1) [of ys 0] last_of_in(1) [of ys 0] by metis+

lemma linked_link_in:
  assumes l: "linked h 0 (xs @ ys) 0" and d: "apart h (xs @ x # ys)"
  shows "linked (link_in (last_of xs 0) x (first_of ys 0) h) 0 (xs @ x # ys) 0"
proof -
  let ?a = "last_of xs 0" and ?n = "first_of ys 0" and ?zs = "xs @ x # ys"
  let ?h = "link_in ?a x ?n h"
  have m: "?a = 0 \<or> ?a \<in> set ?zs" "?n = 0 \<or> ?n \<in> set ?zs"
    using last_of_in(1) [of xs 0] first_of_in(1) [of ys 0] by auto
  have t: "z \<in> touched h ?a \<longleftrightarrow> z = ?a" "z \<in> touched h ?n \<longleftrightarrow> z = ?n" if "z \<in> set ?zs" for z
    using apart_touched [OF d m(1) that] apart_touched [OF d m(2) that] by auto
  have nx: "x \<noteq> ?a" "x \<noteq> ?n"
    using d not_end(1) [of x ys] not_end(2) [of x xs] by (auto simp: apart_def)
  have x: "NEXT_INSN (?h x) = ?n" "PREV_INSN (?h x) = ?a"
    using nx t [of x] by (simp_all add: link_in_links)
  have xs: "linked ?h 0 xs x"
  proof (cases xs rule: rev_cases)
    case (snoc us a)
    have "linked ?h 0 us a = linked h 0 us a"
    proof (rule linked_cong)
      fix z assume z: "z \<in> set us"
      then have "z \<noteq> 0" "z \<notin> set ys" "z \<noteq> x" "z \<noteq> ?a"
        using d snoc by (auto simp: apart_def)
      then have "z \<noteq> x" "z \<noteq> ?a" "z \<noteq> ?n" using not_end(1) [of z ys] by simp_all
      then show "PREV_INSN (?h z) = PREV_INSN (h z) \<and> NEXT_INSN (?h z) = NEXT_INSN (h z)"
        using t [of z] z snoc by (simp add: link_in_links)
    qed
    moreover have "a \<noteq> x" "a \<noteq> ?n" "a \<noteq> 0"
      using d snoc not_end(1) [of a ys] by (auto simp: apart_def)
    ultimately show ?thesis
      using l snoc t [of a] by (simp add: linked_append link_in_links)
  qed simp
  have ys: "linked ?h x ys 0"
  proof (cases ys)
    case (Cons n vs)
    have "linked ?h n vs 0 = linked h n vs 0"
    proof (rule linked_cong)
      fix z assume z: "z \<in> set vs"
      then have "z \<noteq> 0" "z \<notin> set xs" "z \<noteq> x" "z \<noteq> ?n"
        using d Cons by (auto simp: apart_def)
      then have "z \<noteq> x" "z \<noteq> ?a" "z \<noteq> ?n" using not_end(2) [of z xs] by simp_all
      then show "PREV_INSN (?h z) = PREV_INSN (h z) \<and> NEXT_INSN (?h z) = NEXT_INSN (h z)"
        using t [of z] z Cons by (simp add: link_in_links)
    qed
    moreover have "n \<noteq> x" "n \<noteq> ?a" "n \<noteq> 0"
      using d Cons not_end(2) [of n xs] by (auto simp: apart_def)
    ultimately show ?thesis
      using l Cons t [of n] by (simp add: linked_append link_in_links)
  qed simp
  show ?thesis using x xs ys by (simp add: linked_append)
qed

lemma linked_link_out:
  assumes l: "linked h 0 (xs @ x # ys) 0" and d: "apart h (xs @ ys)"
  shows "linked (link_out (last_of xs 0) (first_of ys 0) h) 0 (xs @ ys) 0"
proof -
  let ?a = "last_of xs 0" and ?n = "first_of ys 0" and ?zs = "xs @ ys"
  let ?h = "link_out ?a ?n h"
  have m: "?a = 0 \<or> ?a \<in> set ?zs" "?n = 0 \<or> ?n \<in> set ?zs"
    using last_of_in(1) [of xs 0] first_of_in(1) [of ys 0] by auto
  have t: "z \<in> touched h ?a \<longleftrightarrow> z = ?a" "z \<in> touched h ?n \<longleftrightarrow> z = ?n" if "z \<in> set ?zs" for z
    using apart_touched [OF d m(1) that] apart_touched [OF d m(2) that] by auto
  have xs: "linked ?h 0 xs ?n"
  proof (cases xs rule: rev_cases)
    case (snoc us a)
    have "linked ?h 0 us a = linked h 0 us a"
    proof (rule linked_cong)
      fix z assume z: "z \<in> set us"
      then have "z \<noteq> 0" "z \<notin> set ys" "z \<noteq> ?a"
        using d snoc by (auto simp: apart_def)
      then have "z \<noteq> ?a" "z \<noteq> ?n" using not_end(1) [of z ys] by simp_all
      then show "PREV_INSN (?h z) = PREV_INSN (h z) \<and> NEXT_INSN (?h z) = NEXT_INSN (h z)"
        using t [of z] z snoc by (simp add: link_out_links)
    qed
    moreover have "a \<noteq> ?n" "a \<noteq> 0"
      using d snoc not_end(1) [of a ys] by (auto simp: apart_def)
    ultimately show ?thesis
      using l snoc t [of a] by (simp add: linked_append link_out_links)
  qed simp
  have ys: "linked ?h ?a ys 0"
  proof (cases ys)
    case (Cons n vs)
    have "linked ?h n vs 0 = linked h n vs 0"
    proof (rule linked_cong)
      fix z assume z: "z \<in> set vs"
      then have "z \<noteq> 0" "z \<notin> set xs" "z \<noteq> ?n"
        using d Cons by (auto simp: apart_def)
      then have "z \<noteq> ?a" "z \<noteq> ?n" using not_end(2) [of z xs] by simp_all
      then show "PREV_INSN (?h z) = PREV_INSN (h z) \<and> NEXT_INSN (?h z) = NEXT_INSN (h z)"
        using t [of z] z Cons by (simp add: link_out_links)
    qed
    moreover have "n \<noteq> ?a" "n \<noteq> 0"
      using d Cons not_end(2) [of n xs] by (auto simp: apart_def)
    ultimately show ?thesis
      using l Cons t [of n] by (simp add: linked_append link_out_links)
  qed simp
  show ?thesis using xs ys by (simp add: linked_append)
qed


lemma set_next_prev: "set_next x a (set_prev y b h) = set_prev y b (set_next x a h)"
  by (rule ext) (simp add: set_next_def set_prev_def)

lemma set_commute: "set_next_seq x a (set_prev_seq y b h) = set_prev_seq y b (set_next_seq x a h)"
  unfolding set_next_seq_def [of x a "set_prev_seq y b h"] set_prev_seq_def [of y b "set_next_seq x a h"]
  by (simp add: set_next_seq_def set_prev_seq_def set_next_prev)

section \<open>Levels\<close>

definition same_but_levels :: "emit_state \<Rightarrow> emit_state \<Rightarrow> bool" where
  "same_but_levels st st' \<longleftrightarrow> (\<exists>f l ss. st' = st\<lparr>first_insn := f, last_insn := l, sequence_stack := ss\<rparr>)"

lemma same_but_levels_fields:
  "same_but_levels st st' \<Longrightarrow> heap st' = heap st \<and> free_insn st' = free_insn st \<and> next_address st' = next_address st
     \<and> cur_insn_uid st' = cur_insn_uid st"
  by (auto simp: same_but_levels_def)

lemma same_but_levels_refl: "same_but_levels st st"
  unfolding same_but_levels_def by (metis emit_state.surjective emit_state.update_convs(3,4,6))

lemma same_but_levels_intros [intro]:
  "same_but_levels st (st\<lparr>first_insn := f\<rparr>)" "same_but_levels st (st\<lparr>last_insn := l\<rparr>)"
  "same_but_levels st (st\<lparr>sequence_stack := ss\<rparr>)"
  unfolding same_but_levels_def by (cases st; fastforce)+

lemma replace_last_spec:
  "map (\<lambda>s. (sl_first s, sl_last s)) ss = LA @ (f, old) # LB \<Longrightarrow> old \<notin> snd ` set LA \<Longrightarrow>
    \<exists>ss'. replace_last old new ss = Some ss' \<and> map (\<lambda>s. (sl_first s, sl_last s)) ss' = LA @ (f, new) # LB"
proof (induction ss arbitrary: LA)
  case (Cons s ss)
  show ?case
  proof (cases LA)
    case Nil
    then show ?thesis using Cons.prems by auto
  next
    case (Cons l LA')
    then have "sl_last s \<noteq> old" using Cons.prems by auto
    then show ?thesis using Cons Cons.IH [of LA'] Cons.prems by auto
  qed
qed simp

lemma replace_first_spec:
  "map (\<lambda>s. (sl_first s, sl_last s)) ss = LA @ (old, l) # LB \<Longrightarrow> old \<notin> fst ` set LA \<Longrightarrow>
    \<exists>ss'. replace_first old new ss = Some ss' \<and> map (\<lambda>s. (sl_first s, sl_last s)) ss' = LA @ (new, l) # LB"
proof (induction ss arbitrary: LA)
  case (Cons s ss)
  show ?case
  proof (cases LA)
    case Nil
    then show ?thesis using Cons.prems by auto
  next
    case (Cons l LA')
    then have "sl_first s \<noteq> old" using Cons.prems by auto
    then show ?thesis using Cons Cons.IH [of LA'] Cons.prems by auto
  qed
qed simp

lemma update_last_spec:
  assumes "levels st = LA @ (f, old) # LB" "old \<notin> snd ` set LA"
  shows "\<exists>st'. update_last old new st = Some st' \<and> levels st' = LA @ (f, new) # LB \<and> same_but_levels st st'"
proof (cases LA)
  case Nil
  then show ?thesis using assms by (auto simp: update_last_def levels_def)
next
  case (Cons l LA')
  then have "last_insn st \<noteq> old" "map (\<lambda>s. (sl_first s, sl_last s)) (sequence_stack st) = LA' @ (f, old) # LB"
    using assms by (auto simp: levels_def)
  with replace_last_spec [OF this(2), of new] assms Cons show ?thesis
    by (auto simp: update_last_def levels_def)
qed

lemma update_first_spec:
  assumes "levels st = LA @ (old, l) # LB" "old \<notin> fst ` set LA"
  shows "\<exists>st'. update_first old new st = Some st' \<and> levels st' = LA @ (new, l) # LB \<and> same_but_levels st st'"
proof (cases LA)
  case Nil
  then show ?thesis using assms by (auto simp: update_first_def levels_def)
next
  case (Cons l' LA')
  then have "first_insn st \<noteq> old" "map (\<lambda>s. (sl_first s, sl_last s)) (sequence_stack st) = LA' @ (old, l) # LB"
    using assms by (auto simp: levels_def)
  with replace_first_spec [OF this(2), of new] assms Cons show ?thesis
    by (auto simp: update_first_def levels_def)
qed

section \<open>States\<close>

lemma owned_append:
  "owned st (A @ ys # B) fs = concat A @ ys @ concat B @ slots (heap st) (concat A) @ slots (heap st) ys
     @ slots (heap st) (concat B) @ fs"
  by (simp add: owned_def slots_def)

lemma slots_append [simp]: "slots h (xs @ ys) = slots h xs @ slots h ys" "slots h (x # xs) = delay_slots (h x) @ slots h xs"
  "slots h [] = []"
  by (simp_all add: slots_def)

lemma slots_cong: "(\<And>z. delay_slots (h' z) = delay_slots (h z)) \<Longrightarrow> slots h' xs = slots h xs"
  by (simp add: slots_def)

lemma slot_in: "x \<in> set xs \<Longrightarrow> z \<in> set (delay_slots (h x)) \<Longrightarrow> z \<in> set (slots h xs)"
  by (auto simp: slots_def)

lemma chains_split:
  assumes "chains st (A @ ys # B) fs"
  obtains LA LB where "levels st = LA @ (first_of ys 0, last_of ys 0) # LB"
    "list_all2 (level_ok (heap st)) A LA" "list_all2 (level_ok (heap st)) B LB" "linked (heap st) 0 ys 0"
  using assms by (auto simp: chains_def list_all2_append1 list_all2_Cons1 level_ok_def)

lemma level_ends:
  "list_all2 (level_ok h) A LA \<Longrightarrow> z \<noteq> 0 \<Longrightarrow> z \<notin> set (concat A) \<Longrightarrow> z \<notin> fst ` set LA \<and> z \<notin> snd ` set LA"
proof (induction A LA rule: list_all2_induct)
  case (Cons xs A fl LA)
  then show ?case using not_end [of z xs] by (auto simp: level_ok_def)
qed simp

lemma level_ok_cong:
  "list_all2 (level_ok h) A LA \<Longrightarrow>
    (\<And>z. z \<in> set (concat A) \<Longrightarrow> PREV_INSN (h' z) = PREV_INSN (h z) \<and> NEXT_INSN (h' z) = NEXT_INSN (h z))
    \<Longrightarrow> list_all2 (level_ok h') A LA"
proof (induction A LA rule: list_all2_induct)
  case (Cons xs A fl LA)
  then have "linked h' 0 xs 0 = linked h 0 xs 0" by (intro linked_cong) simp
  then show ?case using Cons by (simp add: level_ok_def)
qed simp


lemma chains_facts:
  assumes "chains st (A @ ys # B) fs"
  shows "apart (heap st) ys" "a \<in> set ys \<Longrightarrow> a \<notin> set (concat A) \<and> a \<noteq> 0"
    and "a \<in> set ys \<Longrightarrow> z \<in> set (concat A) \<union> set (concat B) \<union> set fs \<Longrightarrow> z \<notin> touched (heap st) a"
proof -
  have d: "distinct (owned st (A @ ys # B) fs)" and p: "\<forall>a \<in> set ys. a \<noteq> 0"
    using assms by (auto simp: chains_def owned_append list_all_iff)
  then show "apart (heap st) ys"
    by (auto simp: apart_def owned_append dest: slot_in)
  show "a \<in> set ys \<Longrightarrow> a \<notin> set (concat A) \<and> a \<noteq> 0"
    using d p by (auto simp: owned_append)
  show "a \<in> set ys \<Longrightarrow> z \<in> set (concat A) \<union> set (concat B) \<union> set fs \<Longrightarrow> z \<notin> touched (heap st) a"
    using d unfolding owned_append by (auto simp: touched_def dest: slot_in)
qed

lemma chains_update:
  assumes c: "chains st (A @ ys # B) fs"
    and L: "\<And>LA LB. levels st = LA @ (first_of ys 0, last_of ys 0) # LB \<Longrightarrow> list_all2 (level_ok (heap st)) A LA
      \<Longrightarrow> levels st' = LA @ (first_of ys' 0, last_of ys' 0) # LB"
    and f: "free_insn st' = free_insn st" "next_address st' = next_address st"
    and l: "linked (heap st') 0 ys' 0"
    and d: "\<And>z. delay_slots (heap st' z) = delay_slots (heap st z)"
    and fr: "\<And>z. z \<in> set (concat A) \<union> set (concat B) \<union> set fs \<Longrightarrow>
      PREV_INSN (heap st' z) = PREV_INSN (heap st z) \<and> NEXT_INSN (heap st' z) = NEXT_INSN (heap st z)"
    and o: "distinct (owned st (A @ ys' # B) fs)" "list_all (\<lambda>a. 0 < a \<and> a < next_address st) (owned st (A @ ys' # B) fs)"
  shows "chains st' (A @ ys' # B) fs"
proof -
  obtain LA LB where s: "levels st = LA @ (first_of ys 0, last_of ys 0) # LB"
    "list_all2 (level_ok (heap st)) A LA" "list_all2 (level_ok (heap st)) B LB"
    using c by (rule chains_split)
  have "list_all2 (level_ok (heap st')) A LA" "list_all2 (level_ok (heap st')) B LB"
    by (rule level_ok_cong [OF s(2)], rule fr, simp) (rule level_ok_cong [OF s(3)], rule fr, simp)
  moreover have "free_list (heap st') (free_insn st) fs"
    using c fr free_list_cong [of fs "heap st'" "heap st"] by (simp add: chains_def)
  moreover have "owned st' (A @ ys' # B) fs = owned st (A @ ys' # B) fs"
    using d by (simp add: owned_append slots_def)
  ultimately show ?thesis
    using L [OF s(1,2)] f l o by (simp add: chains_def level_ok_def list_all2_appendI)
qed

lemma owned_insert:
  "mset (owned st (A @ (xs @ x # ys) # B) fs) = mset (x # delay_slots (heap st x) @ owned st (A @ (xs @ ys) # B) fs)"
  by (simp add: owned_append)

lemma owned_ok:
  "chains st xss fs \<Longrightarrow> distinct (owned st xss fs)"
  "chains st xss fs \<Longrightarrow> list_all (\<lambda>a. 0 < a \<and> a < next_address st) (owned st xss fs)"
  by (simp_all add: chains_def)

lemma owned_insert_ok:
  "distinct (owned st (A @ (xs @ x # ys) # B) fs) \<longleftrightarrow> distinct (x # delay_slots (heap st x) @ owned st (A @ (xs @ ys) # B) fs)"
  "list_all P (owned st (A @ (xs @ x # ys) # B) fs) \<longleftrightarrow> list_all P (x # delay_slots (heap st x) @ owned st (A @ (xs @ ys) # B) fs)"
  using mset_eq_imp_distinct_iff [OF owned_insert] mset_eq_setD [OF owned_insert, of st A xs x ys B fs]
  by (simp_all add: list_all_iff)

text \<open>One state after another, with the insn \<open>x\<close> linked in or out of one list.\<close>

definition relinked :: "emit_state \<Rightarrow> nat list list \<Rightarrow> nat list \<Rightarrow> nat list \<Rightarrow> emit_state \<Rightarrow> bool" where
  "relinked st A ys ys' st' \<longleftrightarrow>
     (\<forall>LA LB. levels st = LA @ (first_of ys 0, last_of ys 0) # LB \<longrightarrow> list_all2 (level_ok (heap st)) A LA
        \<longrightarrow> levels st' = LA @ (first_of ys' 0, last_of ys' 0) # LB)
     \<and> free_insn st' = free_insn st \<and> next_address st' = next_address st \<and> cur_insn_uid st' = cur_insn_uid st"

lemma relinkedI:
  assumes "levels st = LA @ (first_of ys 0, last_of ys 0) # LB" "list_all2 (level_ok (heap st)) A LA"
    and "levels st' = LA @ (first_of ys' 0, last_of ys' 0) # LB"
    and "free_insn st' = free_insn st" "next_address st' = next_address st" "cur_insn_uid st' = cur_insn_uid st"
  shows "relinked st A ys ys' st'"
  using assms unfolding relinked_def
  by (metis append_eq_append_conv list_all2_lengthD list.inject)

lemma chains_link_in:
  assumes c: "chains st (A @ (xs @ ys) # B) fs" and r: "relinked st A (xs @ ys) (xs @ x # ys) st'"
    and x: "loose st (owned st (A @ (xs @ ys) # B) fs) x"
    and h: "heap st' = link_in (last_of xs 0) x (first_of ys 0) (heap st)"
  shows "chains st' (A @ (xs @ x # ys) # B) fs"
proof (rule chains_update [OF c])
  let ?a = "last_of xs 0" and ?n = "first_of ys 0"
  note fa = chains_facts [OF c]
  have ap: "apart (heap st) (xs @ x # ys)"
    using fa(1) x by (auto simp: apart_def loose_def owned_append dest: slot_in)
  have "linked (heap st) 0 (xs @ ys) 0" using c by (rule chains_split)
  then show "linked (heap st') 0 (xs @ x # ys) 0" unfolding h using ap by (rule linked_link_in)
  show "PREV_INSN (heap st' z) = PREV_INSN (heap st z) \<and> NEXT_INSN (heap st' z) = NEXT_INSN (heap st z)"
    if "z \<in> set (concat A) \<union> set (concat B) \<union> set fs" for z
  proof -
    have "z \<noteq> x" using x that by (auto simp: loose_def owned_append)
    moreover have "z \<notin> touched (heap st) ?a"
      using fa(3) [of ?a z] last_of_in(1) [of xs 0] that by (cases "?a = 0") (simp_all add: touched_def)
    moreover have "z \<notin> touched (heap st) ?n"
      using fa(3) [of ?n z] first_of_in(1) [of ys 0] that by (cases "?n = 0") (simp_all add: touched_def)
    ultimately show ?thesis unfolding h by (simp add: link_in_links)
  qed
  show "delay_slots (heap st' z) = delay_slots (heap st z)" for z unfolding h by simp
  show "distinct (owned st (A @ (xs @ x # ys) # B) fs)"
    "list_all (\<lambda>a. 0 < a \<and> a < next_address st) (owned st (A @ (xs @ x # ys) # B) fs)"
    unfolding owned_insert_ok using owned_ok [OF c] x by (simp_all add: loose_def)
qed (use r in \<open>auto simp: relinked_def\<close>)

lemma chains_link_out:
  assumes c: "chains st (A @ (xs @ x # ys) # B) fs" and r: "relinked st A (xs @ x # ys) (xs @ ys) st'"
    and h: "heap st' = link_out (last_of xs 0) (first_of ys 0) (heap st)"
  shows "chains st' (A @ (xs @ ys) # B) fs"
proof (rule chains_update [OF c])
  let ?a = "last_of xs 0" and ?n = "first_of ys 0"
  note fa = chains_facts [OF c]
  have ap: "apart (heap st) (xs @ ys)"
    using fa(1) by (auto simp: apart_def)
  have "linked (heap st) 0 (xs @ x # ys) 0" using c by (rule chains_split)
  then show "linked (heap st') 0 (xs @ ys) 0" unfolding h using ap by (rule linked_link_out)
  show "PREV_INSN (heap st' z) = PREV_INSN (heap st z) \<and> NEXT_INSN (heap st' z) = NEXT_INSN (heap st z)"
    if "z \<in> set (concat A) \<union> set (concat B) \<union> set fs" for z
  proof -
    have "z \<notin> touched (heap st) ?a"
      using fa(3) [of ?a z] last_of_in(1) [of xs 0] that by (cases "?a = 0") (simp_all add: touched_def)
    moreover have "z \<notin> touched (heap st) ?n"
      using fa(3) [of ?n z] first_of_in(1) [of ys 0] that by (cases "?n = 0") (simp_all add: touched_def)
    ultimately show ?thesis unfolding h by (simp add: link_out_links)
  qed
  show "delay_slots (heap st' z) = delay_slots (heap st z)" for z unfolding h by simp
  show "distinct (owned st (A @ (xs @ ys) # B) fs)"
    "list_all (\<lambda>a. 0 < a \<and> a < next_address st) (owned st (A @ (xs @ ys) # B) fs)"
    using owned_ok [OF c] unfolding owned_insert_ok by simp_all
qed (use r in \<open>auto simp: relinked_def\<close>)

lemma chain_neighbours:
  assumes "chains st (A @ (pre @ a # post) # B) fs"
  shows "NEXT_INSN (heap st a) = first_of post 0" "PREV_INSN (heap st a) = last_of pre 0"
    and "first_of post 0 = 0 \<longleftrightarrow> post = []" "last_of pre 0 = 0 \<longleftrightarrow> pre = []"
proof -
  have "linked (heap st) 0 (pre @ a # post) 0" using assms by (rule chains_split)
  then show "NEXT_INSN (heap st a) = first_of post 0" "PREV_INSN (heap st a) = last_of pre 0"
    by (simp_all add: linked_append)
  note f = chains_facts(2) [OF assms]
  show "first_of post 0 = 0 \<longleftrightarrow> post = []" using f [of "first_of post 0"] by (cases post) auto
  show "last_of pre 0 = 0 \<longleftrightarrow> pre = []" using f [of "last pre"] by (cases pre rule: rev_cases) auto
qed

lemma add_insn_after_at:
  assumes c: "chains st (A @ (pre @ a # post) # B) fs"
    and x: "loose st (owned st (A @ (pre @ a # post) # B) fs) x"
    and g: "\<not> (em_optimize st \<and> INSN_DELETED_P (heap st a))"
  shows "\<exists>st'. add_insn_after x a st = Some st' \<and> chains st' (A @ (pre @ a # x # post) # B) fs
    \<and> heap st' = link_in a x (first_of post 0) (heap st) \<and> cur_insn_uid st' = cur_insn_uid st
    \<and> next_address st' = next_address st"
proof -
  let ?n = "first_of post 0" and ?ys = "pre @ a # post" and ?ys' = "pre @ a # x # post"
  let ?st1 = "with_heap (set_prev x a \<circ> set_next x ?n) st"
  obtain LA LB where s: "levels st = LA @ (first_of ?ys 0, last_of ?ys 0) # LB"
    "list_all2 (level_ok (heap st)) A LA" using c by (rule chains_split)
  note n = chain_neighbours [OF c]
  have a0: "a \<noteq> 0" "a \<notin> snd ` set LA"
    using chains_facts(2) [OF c, of a] level_ends [OF s(2), of a] by simp_all
  have "\<exists>st2. (if ?n \<noteq> 0 then Some (with_heap (set_prev_seq ?n x) ?st1) else update_last a x ?st1) = Some st2
      \<and> heap st2 = (if ?n = 0 then heap ?st1 else set_prev_seq ?n x (heap ?st1)) \<and> relinked st A ?ys ?ys' st2"
  proof (cases "post = []")
    case True
    then have "levels ?st1 = LA @ (first_of ?ys 0, a) # LB" using s(1) by simp
    from update_last_spec [OF this a0(2), of x] obtain st2 where
      "update_last a x ?st1 = Some st2" "levels st2 = LA @ (first_of ?ys 0, x) # LB" "same_but_levels ?st1 st2" by blast
    with relinkedI [OF s, of st2 ?ys'] True same_but_levels_fields [of ?st1 st2] show ?thesis by auto
  next
    case False
    then show ?thesis
      using n(3) relinkedI [OF s, of "with_heap (set_prev_seq ?n x) ?st1" ?ys'] s(1) by (auto simp: last_of_def)
  qed
  then obtain st2 where st2: "(if ?n \<noteq> 0 then Some (with_heap (set_prev_seq ?n x) ?st1) else update_last a x ?st1) = Some st2"
      "heap st2 = (if ?n = 0 then heap ?st1 else set_prev_seq ?n x (heap ?st1))" "relinked st A ?ys ?ys' st2" by blast
  let ?st' = "with_heap (set_next_seq a x) st2"
  have run: "add_insn_after x a st = Some ?st'"
    unfolding add_insn_after_def Let_def n(1) using g st2(1) by auto
  have h: "heap ?st' = link_in a x ?n (heap st)"
    using st2(2) a0 by (simp add: link_in_def Let_def set_commute)
  have "chains ?st' (A @ ((pre @ [a]) @ x # post) # B) fs"
    by (rule chains_link_in) (use c x h st2(3) in \<open>simp_all add: relinked_def\<close>)
  with run h st2(3) show ?thesis by (auto simp: relinked_def)
qed

lemma add_insn_before_at:
  assumes c: "chains st (A @ (pre @ b # post) # B) fs"
    and x: "loose st (owned st (A @ (pre @ b # post) # B) fs) x"
    and g: "\<not> (em_optimize st \<and> INSN_DELETED_P (heap st b))"
  shows "\<exists>st'. add_insn_before x b st = Some st' \<and> chains st' (A @ (pre @ x # b # post) # B) fs
    \<and> heap st' = link_in (last_of pre 0) x b (heap st) \<and> cur_insn_uid st' = cur_insn_uid st
    \<and> next_address st' = next_address st"
proof -
  let ?p = "last_of pre 0" and ?ys = "pre @ b # post" and ?ys' = "pre @ x # b # post"
  let ?st1 = "with_heap (set_next x b \<circ> set_prev x ?p) st"
  obtain LA LB where s: "levels st = LA @ (first_of ?ys 0, last_of ?ys 0) # LB"
    "list_all2 (level_ok (heap st)) A LA" using c by (rule chains_split)
  note n = chain_neighbours [OF c]
  have b0: "b \<noteq> 0" "b \<notin> fst ` set LA"
    using chains_facts(2) [OF c, of b] level_ends [OF s(2), of b] by simp_all
  have "\<exists>st2. (if ?p \<noteq> 0 then Some (with_heap (set_next_seq ?p x) ?st1) else update_first b x ?st1) = Some st2
      \<and> heap st2 = (if ?p = 0 then heap ?st1 else set_next_seq ?p x (heap ?st1)) \<and> relinked st A ?ys ?ys' st2"
  proof (cases "pre = []")
    case True
    then have "levels ?st1 = LA @ (b, last_of ?ys 0) # LB" using s(1) by simp
    from update_first_spec [OF this b0(2), of x] obtain st2 where
      "update_first b x ?st1 = Some st2" "levels st2 = LA @ (x, last_of ?ys 0) # LB" "same_but_levels ?st1 st2" by blast
    with relinkedI [OF s, of st2 ?ys'] True same_but_levels_fields [of ?st1 st2] show ?thesis by auto
  next
    case False
    then show ?thesis
      using n(4) relinkedI [OF s, of "with_heap (set_next_seq ?p x) ?st1" ?ys'] s(1) by (cases pre) auto
  qed
  then obtain st2 where st2: "(if ?p \<noteq> 0 then Some (with_heap (set_next_seq ?p x) ?st1) else update_first b x ?st1) = Some st2"
      "heap st2 = (if ?p = 0 then heap ?st1 else set_next_seq ?p x (heap ?st1))" "relinked st A ?ys ?ys' st2" by blast
  let ?st' = "with_heap (set_prev_seq b x) st2"
  have run: "add_insn_before x b st = Some ?st'"
    unfolding add_insn_before_def Let_def n(2) using g st2(1) by auto
  have h: "heap ?st' = link_in ?p x b (heap st)"
    using st2(2) b0 by (simp add: link_in_def Let_def set_next_prev)
  have "chains ?st' (A @ (pre @ x # (b # post)) # B) fs"
    by (rule chains_link_in) (use c x h st2(3) in \<open>simp_all add: relinked_def\<close>)
  with run h st2(3) show ?thesis by (auto simp: relinked_def)
qed

lemma remove_insn_at:
  assumes c: "chains st (A @ (pre @ x # post) # B) fs"
  shows "\<exists>st'. remove_insn x st = Some st' \<and> chains st' (A @ (pre @ post) # B) fs
    \<and> heap st' = link_out (last_of pre 0) (first_of post 0) (heap st) \<and> cur_insn_uid st' = cur_insn_uid st
    \<and> next_address st' = next_address st"
proof -
  let ?p = "last_of pre 0" and ?n = "first_of post 0" and ?ys = "pre @ x # post" and ?ys' = "pre @ post"
  obtain LA LB where s: "levels st = LA @ (first_of ?ys 0, last_of ?ys 0) # LB"
    "list_all2 (level_ok (heap st)) A LA" using c by (rule chains_split)
  note n = chain_neighbours [OF c]
  have x0: "x \<notin> fst ` set LA" "x \<notin> snd ` set LA"
    using chains_facts(2) [OF c, of x] level_ends [OF s(2), of x] by simp_all
  have "\<exists>st1. (if ?p \<noteq> 0 then Some (with_heap (set_next_seq ?p ?n) st) else update_first x ?n st) = Some st1
      \<and> heap st1 = (if ?p = 0 then heap st else set_next_seq ?p ?n (heap st))
      \<and> levels st1 = LA @ (first_of ?ys' 0, last_of ?ys 0) # LB
      \<and> free_insn st1 = free_insn st \<and> next_address st1 = next_address st \<and> cur_insn_uid st1 = cur_insn_uid st"
  proof (cases "pre = []")
    case True
    then have "levels st = LA @ (x, last_of ?ys 0) # LB" using s(1) by simp
    from update_first_spec [OF this x0(1), of ?n] same_but_levels_fields True show ?thesis by fastforce
  qed (use s(1) n(4) in \<open>cases pre; auto\<close>)
  then obtain st1 where st1: "(if ?p \<noteq> 0 then Some (with_heap (set_next_seq ?p ?n) st) else update_first x ?n st) = Some st1"
      "heap st1 = (if ?p = 0 then heap st else set_next_seq ?p ?n (heap st))"
      "levels st1 = LA @ (first_of ?ys' 0, last_of ?ys 0) # LB"
      "free_insn st1 = free_insn st" "next_address st1 = next_address st" "cur_insn_uid st1 = cur_insn_uid st" by blast
  have "\<exists>st2. (if ?n \<noteq> 0 then Some (with_heap (set_prev_seq ?n ?p) st1) else update_last x ?p st1) = Some st2
      \<and> heap st2 = (if ?n = 0 then heap st1 else set_prev_seq ?n ?p (heap st1)) \<and> relinked st A ?ys ?ys' st2"
  proof (cases "post = []")
    case True
    then have "levels st1 = LA @ (first_of ?ys' 0, x) # LB" using st1(3) by simp
    from update_last_spec [OF this x0(2), of ?p] obtain st2 where
      "update_last x ?p st1 = Some st2" "levels st2 = LA @ (first_of ?ys' 0, ?p) # LB" "same_but_levels st1 st2" by blast
    with relinkedI [OF s, of st2 ?ys'] True st1 same_but_levels_fields [of st1 st2] show ?thesis by auto
  next
    case False
    then show ?thesis
      using n(3) st1 relinkedI [OF s, of "with_heap (set_prev_seq ?n ?p) st1" ?ys'] by (auto simp: last_of_def)
  qed
  then obtain st2 where st2: "(if ?n \<noteq> 0 then Some (with_heap (set_prev_seq ?n ?p) st1) else update_last x ?p st1) = Some st2"
      "heap st2 = (if ?n = 0 then heap st1 else set_prev_seq ?n ?p (heap st1))" "relinked st A ?ys ?ys' st2" by blast
  have h: "heap st2 = link_out ?p ?n (heap st)"
    using st2(2) st1(2) by (simp add: link_out_def Let_def)
  have "chains st2 (A @ (pre @ post) # B) fs"
    by (rule chains_link_out [OF c st2(3) h])
  moreover have "remove_insn x st = Some st2"
    unfolding remove_insn_def Let_def n(1,2) using st1(1) st2(1) by auto
  ultimately show ?thesis using h st2(3) by (auto simp: relinked_def)
qed


section \<open>Appending\<close>

lemma add_insn_fields:
  "levels (add_insn x st) =
     (if first_insn st = 0 then x else first_insn st, x) # map (\<lambda>s. (sl_first s, sl_last s)) (sequence_stack st)"
  "free_insn (add_insn x st) = free_insn st" "next_address (add_insn x st) = next_address st"
  "cur_insn_uid (add_insn x st) = cur_insn_uid st" "sequence_stack (add_insn x st) = sequence_stack st"
  "last_insn (add_insn x st) = x" "first_insn (add_insn x st) = (if first_insn st = 0 then x else first_insn st)"
  "heap (add_insn x st) = (if last_insn st = 0 then set_next x 0 (set_prev x 0 (heap st))
     else set_next (last_insn st) x (set_next x 0 (set_prev x (last_insn st) (heap st))))"
  by (simp_all add: add_insn_def Let_def levels_def)

lemma payload_add_insn: "payload (heap (add_insn x st) z) = payload (heap st z)"
  by (simp add: add_insn_fields)

lemma slots_add_insn: "delay_slots (heap (add_insn x st) z) = delay_slots (heap st z)"
  by (rule delay_slots_payload, rule payload_add_insn)

lemma add_insn_links:
  assumes "last_insn st \<noteq> x" "z \<notin> set (delay_slots (heap st (last_insn st)))"
  shows "NEXT_INSN (heap (add_insn x st) z) = NEXT_INSN (link_in (last_insn st) x 0 (heap st) z)"
    and "PREV_INSN (heap (add_insn x st) z) = PREV_INSN (link_in (last_insn st) x 0 (heap st) z)"
  using assms by (auto simp: add_insn_fields link_in_def Let_def seq_links split: if_splits)

lemma chains_current:
  assumes "chains st (xs # B) fs"
  shows "first_insn st = first_of xs 0" "last_insn st = last_of xs 0" "first_of xs 0 = 0 \<longleftrightarrow> xs = []"
proof -
  show "first_insn st = first_of xs 0" "last_insn st = last_of xs 0"
    using assms by (auto simp: chains_def levels_def level_ok_def)
  show "first_of xs 0 = 0 \<longleftrightarrow> xs = []"
    using chains_facts(2) [of st "[]" xs B fs "first_of xs 0"] assms by (cases xs) auto
qed

lemma chains_add_insn:
  assumes c: "chains st (xs # B) fs" and x: "loose st (owned st (xs # B) fs) x"
  shows "chains (add_insn x st) ((xs @ [x]) # B) fs"
proof -
  let ?a = "last_insn st" and ?st' = "add_insn x st"
  note cur = chains_current [OF c]
  have c': "chains st ([] @ xs # B) fs" using c by simp
  note fa = chains_facts [OF c']
  have xs: "x \<noteq> 0" "x \<notin> set xs" using x by (auto simp: loose_def owned_def)
  then have ax: "?a \<noteq> x" using cur(2) not_end(2) [of x xs] by simp
  have a: "?a = 0 \<or> ?a \<in> set xs" using cur(2) last_of_in(1) [of xs 0] by auto
  have unslotted: "z \<notin> set (delay_slots (heap st ?a))" if "?a \<noteq> 0" "z \<in> set (concat ((xs @ [x]) # B)) \<union> set fs" for z
  proof -
    have "set (delay_slots (heap st ?a)) \<subseteq> set (slots (heap st) xs)"
      using a that(1) by (auto simp: slots_def)
    then show ?thesis using owned_ok(1) [OF c] x that(2) by (auto simp: owned_def loose_def)
  qed
  have links: "NEXT_INSN (heap ?st' z) = NEXT_INSN (link_in ?a x 0 (heap st) z)
      \<and> PREV_INSN (heap ?st' z) = PREV_INSN (link_in ?a x 0 (heap st) z)"
    if "z \<in> set (concat ((xs @ [x]) # B)) \<union> set fs" for z
  proof (cases "?a = 0")
    case True
    then show ?thesis by (simp add: add_insn_fields link_in_def Let_def)
  next
    case False
    then show ?thesis using add_insn_links [OF ax unslotted [OF False that]] by simp
  qed
  have "chains ?st' ([] @ (xs @ [x]) # B) fs"
  proof (rule chains_update [OF c'])
    show "levels ?st' = LA @ (first_of (xs @ [x]) 0, last_of (xs @ [x]) 0) # LB"
      if "levels st = LA @ (first_of xs 0, last_of xs 0) # LB" "list_all2 (level_ok (heap st)) [] LA" for LA LB
      using that cur by (cases xs) (auto simp: add_insn_fields levels_def)
    have ap: "apart (heap st) (xs @ x # [])"
      using fa(1) x by (auto simp: apart_def loose_def owned_def dest: slot_in)
    have "linked (heap st) 0 (xs @ []) 0" using c' by (rule chains_split) simp
    then have "linked (link_in ?a x 0 (heap st)) 0 (xs @ [x]) 0"
      using linked_link_in [of "heap st" xs "[]" x] ap cur(2) by simp
    then show "linked (heap ?st') 0 (xs @ [x]) 0"
      by (subst linked_cong) (use links in auto)
    show "PREV_INSN (heap ?st' z) = PREV_INSN (heap st z) \<and> NEXT_INSN (heap ?st' z) = NEXT_INSN (heap st z)"
      if "z \<in> set (concat []) \<union> set (concat B) \<union> set fs" for z
    proof -
      have "z \<noteq> x" using x that by (auto simp: loose_def owned_def)
      moreover have "z \<notin> touched (heap st) ?a"
        using fa(3) [of ?a z] a that by (cases "?a = 0") (simp_all add: touched_def)
      ultimately show ?thesis using links [of z] that by (simp add: link_in_links touched_def)
    qed
    show "distinct (owned st ([] @ (xs @ [x]) # B) fs)"
      "list_all (\<lambda>a. 0 < a \<and> a < next_address st) (owned st ([] @ (xs @ [x]) # B) fs)"
      unfolding owned_insert_ok [where A = "[]" and xs = xs and ys = "[]"] using owned_ok [OF c] x by (simp_all add: loose_def)
  qed (simp_all add: add_insn_fields slots_add_insn)
  then show ?thesis by simp
qed

lemma chains_frame:
  assumes c: "chains st xss fs"
    and h: "\<And>z. z \<in> set (owned st xss fs) \<Longrightarrow> PREV_INSN (heap st' z) = PREV_INSN (heap st z)
      \<and> NEXT_INSN (heap st' z) = NEXT_INSN (heap st z) \<and> delay_slots (heap st' z) = delay_slots (heap st z)"
    and f: "levels st' = levels st" "free_insn st' = free_insn st" "next_address st \<le> next_address st'"
  shows "chains st' xss fs" "owned st' xss fs = owned st xss fs"
proof -
  have "slots (heap st') (concat xss) = slots (heap st) (concat xss)"
    unfolding slots_def using h by (intro arg_cong [where f = concat] map_cong refl) (auto simp: owned_def)
  then show o: "owned st' xss fs = owned st xss fs" by (simp add: owned_def)
  have "list_all2 (level_ok (heap st')) xss (levels st)"
    by (rule level_ok_cong) (use c h in \<open>auto simp: chains_def owned_def\<close>)
  moreover have "free_list (heap st') (free_insn st) fs"
    using c h free_list_cong [of fs "heap st'" "heap st"] by (simp add: chains_def owned_def)
  ultimately show "chains st' xss fs"
    using c o f by (auto simp: chains_def list_all_iff)
qed

section \<open>Sequences\<close>

lemma chains_start_sequence: "chains st xss fs \<Longrightarrow> chains (start_sequence st) ([] # xss) fs"
  by (simp add: chains_def start_sequence_def levels_def level_ok_def owned_def)

lemma chains_end_sequence:
  assumes "chains st (xs # ys # B) fs"
  shows "\<exists>st'. end_sequence st = Some st' \<and> chains st' (ys # B) fs \<and> heap st' = heap st
    \<and> cur_insn_uid st' = cur_insn_uid st \<and> next_address st' = next_address st"
  using assms by (auto simp: chains_def end_sequence_def levels_def owned_def list_all2_Cons1 split: list.split)

lemma chains_delete_since:
  assumes c: "chains st ((pre @ a # post) # B) fs" and s: "delay_slots (heap st a) = []"
  shows "chains (delete_insns_since a st) ((pre @ [a]) # B) fs"
proof -
  have c': "chains st ([] @ (pre @ a # post) # B) fs" using c by simp
  note fa = chains_facts [OF c']
  have a: "a \<noteq> 0" using fa(2) [of a] by simp
  let ?st' = "delete_insns_since a st"
  have h: "heap ?st' = set_next a 0 (heap st)" using a by (simp add: delete_insns_since_def)
  have "chains ?st' ([] @ (pre @ [a]) # B) fs"
  proof (rule chains_update [OF c'])
    show "linked (heap ?st') 0 (pre @ [a]) 0"
    proof -
      have "linked (heap st) 0 (pre @ a # post) 0" using c' by (rule chains_split)
      moreover have "linked (set_next a 0 (heap st)) 0 pre a = linked (heap st) 0 pre a"
        by (rule linked_cong) (use fa(1) in \<open>auto simp: apart_def\<close>)
      ultimately show ?thesis by (simp add: h linked_append)
    qed
    show "PREV_INSN (heap ?st' z) = PREV_INSN (heap st z) \<and> NEXT_INSN (heap ?st' z) = NEXT_INSN (heap st z)"
      if "z \<in> set (concat []) \<union> set (concat B) \<union> set fs" for z
      using fa(3) [of a z] a that by (auto simp: h touched_def)
    show "distinct (owned st ([] @ (pre @ [a]) # B) fs)"
      "list_all (\<lambda>a. 0 < a \<and> a < next_address st) (owned st ([] @ (pre @ [a]) # B) fs)"
      using owned_ok [OF c] by (auto simp: owned_def)
  qed (use a c in \<open>auto simp: h delete_insns_since_def levels_def chains_def\<close>)
  then show ?thesis by simp
qed


section \<open>Moving a run of insns\<close>

primrec splice_after :: "nat \<Rightarrow> nat list \<Rightarrow> nat list \<Rightarrow> nat list" where
  "splice_after a S [] = []"
| "splice_after a S (y # ys) = (if y = a then y # S @ ys else y # splice_after a S ys)"

definition cut :: "nat \<Rightarrow> nat \<Rightarrow> heap \<Rightarrow> heap" where
  "cut p n h =
     (let h = (if p = 0 then h else set_next p n h)
      in if n = 0 then h else set_prev n p h)"

definition paste :: "nat \<Rightarrow> nat \<Rightarrow> nat \<Rightarrow> nat \<Rightarrow> heap \<Rightarrow> heap" where
  "paste a from to n h =
     set_next a from (set_prev from a (set_next to n (if n = 0 then h else set_prev n to h)))"

lemma payload_cut_paste [simp]: "payload (cut p n h z) = payload (h z)" "payload (paste a from to n h z) = payload (h z)"
  by (simp_all add: cut_def paste_def Let_def)

lemma cut_links:
  "NEXT_INSN (cut p n h z) = (if p \<noteq> 0 \<and> z = p then n else NEXT_INSN (h z))"
  "PREV_INSN (cut p n h z) = (if n \<noteq> 0 \<and> z = n then p else PREV_INSN (h z))"
  by (simp_all add: cut_def Let_def)

lemma paste_links:
  "NEXT_INSN (paste a from to n h z) = (if z = a then from else if z = to then n else NEXT_INSN (h z))"
  "PREV_INSN (paste a from to n h z) = (if z = from then a else if n \<noteq> 0 \<and> z = n then to else PREV_INSN (h z))"
  by (simp_all add: paste_def)

text \<open>Changing the outer links of a run.\<close>

lemma linked_ends:
  assumes "linked h p S q" "distinct S"
    and "\<And>z. z \<in> set S \<Longrightarrow> NEXT_INSN (h' z) = (if z = last S then n else NEXT_INSN (h z))"
    and "\<And>z. z \<in> set S \<Longrightarrow> PREV_INSN (h' z) = (if z = hd S then a else PREV_INSN (h z))"
  shows "linked h' a S n"
  using assms
proof (induction S arbitrary: p a)
  case (Cons x xs)
  have "linked h' x xs n"
  proof (cases xs)
    case (Cons y ys)
    show ?thesis
      by (rule Cons.IH [of x]) (use Cons.prems Cons in \<open>auto split: if_splits\<close>)
  qed simp
  with Cons.prems show ?case by (cases xs) auto
qed simp

lemma linked_hd: "linked h p S q \<Longrightarrow> S \<noteq> [] \<Longrightarrow> PREV_INSN (h (hd S)) = p"
  by (cases S) auto

lemma linked_last: "linked h p S q \<Longrightarrow> S \<noteq> [] \<Longrightarrow> NEXT_INSN (h (last S)) = q"
  by (induction S arbitrary: p) auto

lemma nonzero_ends: "0 \<notin> set S \<Longrightarrow> S \<noteq> [] \<Longrightarrow> last S \<noteq> 0 \<and> hd S \<noteq> 0"
  using last_in_set [of S] hd_in_set [of S] by metis

lemma ends_of: "S \<noteq> [] \<Longrightarrow> last_of S p = last S" "S \<noteq> [] \<Longrightarrow> first_of S q = hd S"
  by (simp add: last_of_def, cases S, simp_all)

lemma linked_cut:
  assumes l: "linked h 0 (P @ S @ Q) 0" and d: "distinct (P @ S @ Q)" "0 \<notin> set (P @ S @ Q)"
  shows "linked (cut (last_of P 0) (first_of Q 0) h) 0 (P @ Q) 0"
    and "linked (cut (last_of P 0) (first_of Q 0) h) (last_of P 0) S (first_of Q 0)"
proof -
  let ?p = "last_of P 0" and ?n = "first_of Q 0"
  let ?h = "cut ?p ?n h"
  have l': "linked h 0 P (first_of (S @ Q) 0)" "linked h ?p S ?n" "linked h (last_of S ?p) Q 0"
    using l by (simp_all add: linked_append)
  have nz: "z \<noteq> 0" if "z \<in> set (P @ S @ Q)" for z using d(2) that by metis
  have P: "linked ?h 0 P ?n"
  proof (rule linked_ends [OF l'(1)])
    show "distinct P" using d(1) by simp
    fix z assume z: "z \<in> set P"
    then have P: "P \<noteq> []" by auto
    have "z \<noteq> ?n" using z nz d(1) by (intro not_end) auto
    then show "PREV_INSN (?h z) = (if z = hd P then 0 else PREV_INSN (h z))"
      using linked_hd [OF l'(1) P] by (simp add: cut_links)
    show "NEXT_INSN (?h z) = (if z = last P then ?n else NEXT_INSN (h z))"
      using ends_of(1) [OF P] nonzero_ends [of P] P d(2) by (simp add: cut_links)
  qed
  have Q: "linked ?h ?p Q 0"
  proof (rule linked_ends [OF l'(3)])
    show "distinct Q" using d(1) by simp
    fix z assume z: "z \<in> set Q"
    then have Q: "Q \<noteq> []" by auto
    have "z \<noteq> ?p" using z nz d(1) by (intro not_end) auto
    then show "NEXT_INSN (?h z) = (if z = last Q then 0 else NEXT_INSN (h z))"
      using linked_last [OF l'(3) Q] by (simp add: cut_links)
    show "PREV_INSN (?h z) = (if z = hd Q then ?p else PREV_INSN (h z))"
      using ends_of(2) [OF Q] nonzero_ends [of Q] Q d(2) by (simp add: cut_links)
  qed
  show "linked ?h 0 (P @ Q) 0" using P Q by (simp add: linked_append)
  have "z \<noteq> ?n \<and> z \<noteq> ?p" if "z \<in> set S" for z
    using that nz [of z] d(1) by (intro conjI not_end) auto
  then show "linked ?h ?p S ?n"
    by (subst linked_cong [where h = h]) (use l'(2) in \<open>auto simp: cut_links\<close>)
qed

lemma linked_paste:
  assumes l: "linked h 0 (P @ a # Q) 0" and s: "linked h p S q" "S \<noteq> []"
    and d: "distinct (P @ a # Q @ S)" "0 \<notin> set (P @ a # Q @ S)"
  shows "linked (paste a (hd S) (last S) (first_of Q 0) h) 0 (P @ a # S @ Q) 0"
proof -
  let ?n = "first_of Q 0"
  let ?h = "paste a (hd S) (last S) ?n h"
  have l': "linked h 0 (P @ [a]) ?n" "linked h a Q 0"
    using l by (simp_all add: linked_append)
  have nz: "z \<noteq> 0" if "z \<in> set (P @ a # Q @ S)" for z using d(2) that by metis
  have es: "hd S \<in> set S" "last S \<in> set S" using s(2) by simp_all
  have P: "linked ?h 0 (P @ [a]) (hd S)"
  proof (rule linked_ends [OF l'(1)])
    show "distinct (P @ [a])" using d(1) by simp
    fix z assume z: "z \<in> set (P @ [a])"
    have "z \<noteq> ?n" using z nz d(1) by (intro not_end) auto
    moreover have "z \<noteq> hd S" "z \<noteq> last S" using z d(1) es by auto
    ultimately show "PREV_INSN (?h z) = (if z = hd (P @ [a]) then 0 else PREV_INSN (h z))"
      "NEXT_INSN (?h z) = (if z = last (P @ [a]) then hd S else NEXT_INSN (h z))"
      using linked_hd [OF l'(1)] by (simp_all add: paste_links)
  qed
  have S: "linked ?h a S ?n"
  proof (rule linked_ends [OF s(1)])
    show "distinct S" using d(1) by simp
    fix z assume z: "z \<in> set S"
    have "z \<noteq> ?n" using z nz d(1) by (intro not_end) auto
    moreover have "z \<noteq> a" using z d(1) by auto
    ultimately show "PREV_INSN (?h z) = (if z = hd S then a else PREV_INSN (h z))"
      "NEXT_INSN (?h z) = (if z = last S then ?n else NEXT_INSN (h z))"
      by (simp_all add: paste_links)
  qed
  have Q: "linked ?h (last S) Q 0"
  proof (rule linked_ends [OF l'(2)])
    show "distinct Q" using d(1) by simp
    fix z assume z: "z \<in> set Q"
    then have Q: "Q \<noteq> []" by auto
    have "z \<noteq> a" "z \<noteq> hd S" "z \<noteq> last S" using z d(1) es by auto
    then show "NEXT_INSN (?h z) = (if z = last Q then 0 else NEXT_INSN (h z))"
      "PREV_INSN (?h z) = (if z = hd Q then last S else PREV_INSN (h z))"
      using linked_last [OF l'(2) Q] ends_of(2) [OF Q] nonzero_ends [of Q] Q d(2) by (simp_all add: paste_links)
  qed
  show ?thesis using P S Q ends_of [OF s(2)] by (simp add: linked_append)
qed

lemma splice_after_at: "a \<notin> set P \<Longrightarrow> splice_after a S (P @ a # Q) = P @ a # S @ Q"
  by (induction P) auto

lemma reorder_fields:
  assumes "PREV_INSN (heap st from) \<noteq> to" "NEXT_INSN (heap st to) \<noteq> from"
  defines "h \<equiv> cut (PREV_INSN (heap st from)) (NEXT_INSN (heap st to)) (heap st)"
    and "l \<equiv> (if last_insn st = to then PREV_INSN (heap st from) else last_insn st)"
  shows "heap (reorder_insns from to after st) = paste after from to (NEXT_INSN (h after)) h"
    and "first_insn (reorder_insns from to after st) = (if first_insn st = from then NEXT_INSN (heap st to) else first_insn st)"
    and "last_insn (reorder_insns from to after st) = (if after = l then to else l)"
    and "sequence_stack (reorder_insns from to after st) = sequence_stack st"
    and "free_insn (reorder_insns from to after st) = free_insn st"
    and "next_address (reorder_insns from to after st) = next_address st"
    and "cur_insn_uid (reorder_insns from to after st) = cur_insn_uid st"
proof -
  let ?p = "PREV_INSN (heap st from)" and ?n = "NEXT_INSN (heap st to)"
  define st1 where "st1 = (if ?p \<noteq> 0 then with_heap (set_next ?p ?n) st else st)"
  define st2 where "st2 = (if ?n \<noteq> 0 then with_heap (set_prev ?n ?p) st1 else st1)"
  define st3 where "st3 = (if last_insn st2 = to then st2\<lparr>last_insn := ?p\<rparr> else st2)"
  define st4 where "st4 = (if first_insn st3 = from then st3\<lparr>first_insn := ?n\<rparr> else st3)"
  have n1: "NEXT_INSN (heap st1 to) = ?n" "PREV_INSN (heap st1 from) = ?p"
    using assms(1) by (simp_all add: st1_def)
  have n2: "NEXT_INSN (heap st2 to) = ?n" "PREV_INSN (heap st2 from) = ?p"
    using n1 assms(2) by (simp_all add: st2_def)
  have n3: "NEXT_INSN (heap st3 to) = ?n" "PREV_INSN (heap st3 from) = ?p"
    using n2 by (simp_all add: st3_def)
  have h: "heap st4 = h"
    by (simp add: st4_def st3_def st2_def st1_def h_def cut_def Let_def)
  have f: "first_insn st4 = (if first_insn st = from then ?n else first_insn st)" "last_insn st4 = l"
    "sequence_stack st4 = sequence_stack st" "free_insn st4 = free_insn st" "next_address st4 = next_address st"
    "cur_insn_uid st4 = cur_insn_uid st"
    by (simp_all add: st4_def st3_def st2_def st1_def l_def)
  let ?b = "NEXT_INSN (h after)"
  define st5 where "st5 = (if ?b \<noteq> 0 then with_heap (set_prev ?b to) st4 else st4)"
  define st6 where "st6 = with_heap (set_next after from \<circ> set_prev from after) (with_heap (\<lambda>h. set_next to (NEXT_INSN (h after)) h) st5)"
  have r: "reorder_insns from to after st = (if after = last_insn st6 then st6\<lparr>last_insn := to\<rparr> else st6)"
    unfolding reorder_insns_def Let_def
    unfolding st1_def [symmetric] n1 st2_def [symmetric] n2 st3_def [symmetric] n3 st4_def [symmetric] h
    unfolding st5_def [symmetric] st6_def [symmetric] ..
  have "NEXT_INSN (heap st5 after) = ?b" using h by (simp add: st5_def)
  then have "heap st6 = paste after from to ?b h"
    using h by (simp add: st6_def st5_def paste_def)
  then show "heap (reorder_insns from to after st) = paste after from to ?b h" by (simp add: r)
  show "first_insn (reorder_insns from to after st) = (if first_insn st = from then ?n else first_insn st)"
    "last_insn (reorder_insns from to after st) = (if after = l then to else l)"
    "sequence_stack (reorder_insns from to after st) = sequence_stack st"
    "free_insn (reorder_insns from to after st) = free_insn st"
    "next_address (reorder_insns from to after st) = next_address st"
    "cur_insn_uid (reorder_insns from to after st) = cur_insn_uid st"
    using f by (simp_all add: r st6_def st5_def)
qed


lemma chains_reorder_at:
  assumes c: "chains st ((P @ S @ Q) # B) fs" and S: "S \<noteq> []" and a: "P @ Q = X @ a # Y"
  shows "chains (reorder_insns (hd S) (last S) a st) ((X @ a # S @ Y) # B) fs"
    and "payload (heap (reorder_insns (hd S) (last S) a st) z) = payload (heap st z)"
    and "cur_insn_uid (reorder_insns (hd S) (last S) a st) = cur_insn_uid st"
    and "next_address (reorder_insns (hd S) (last S) a st) = next_address st"
proof -
  let ?p = "last_of P 0" and ?n = "first_of Q 0" and ?st' = "reorder_insns (hd S) (last S) a st"
  let ?h = "cut ?p ?n (heap st)"
  have c': "chains st ([] @ (P @ S @ Q) # B) fs" using c by simp
  note fa = chains_facts [OF c']
  have l: "linked (heap st) 0 (P @ S @ Q) 0" using c' by (rule chains_split)
  have d: "distinct (P @ S @ Q)" "0 \<notin> set (P @ S @ Q)" using fa(1) by (simp_all add: apart_def)
  have pn: "PREV_INSN (heap st (hd S)) = ?p" "NEXT_INSN (heap st (last S)) = ?n"
    using linked_hd [of "heap st" ?p S ?n] linked_last [of "heap st" ?p S ?n] l S by (simp_all add: linked_append)
  have ends: "hd S \<in> set S" "last S \<in> set S" using S by simp_all
  have nS: "z \<noteq> 0" "z \<notin> set P" "z \<notin> set Q" if "z \<in> set S" for z
    using that d by (metis UnI1 UnI2 set_append, auto)
  have e: "last S \<noteq> ?p" "hd S \<noteq> ?n"
    by (rule not_end(2) [OF nS(1,2)], rule ends, rule ends) (rule not_end(1) [OF nS(1,3)], rule ends, rule ends)
  note r = reorder_fields [of st "hd S" "last S", unfolded pn, OF e(1) [symmetric] e(2) [symmetric]]
  note cutl = linked_cut [OF l d]
  have na: "NEXT_INSN (?h a) = first_of Y 0"
    using cutl(1) a by (simp add: linked_append)
  have set_eq: "set (X @ a # Y) = set P \<union> set Q" using a by (metis set_append)
  have "distinct (P @ Q)" using d(1) by auto
  then have dx: "distinct (X @ a # Y)" using a by simp
  have dY: "distinct (X @ a # Y @ S)" "0 \<notin> set (X @ a # Y @ S)"
    using dx d set_eq by auto
  have h: "heap ?st' = paste a (hd S) (last S) (first_of Y 0) ?h" using r(1) [of a] na by simp
  have "chains ?st' ([] @ (X @ a # S @ Y) # B) fs"
  proof (rule chains_update [OF c'])
    show "linked (heap ?st') 0 (X @ a # S @ Y) 0"
      unfolding h by (rule linked_paste [OF _ cutl(2) S dY]) (use cutl(1) a in simp)
    show "delay_slots (heap ?st' z) = delay_slots (heap st z)" for z
      unfolding h by (rule delay_slots_payload) simp
    show "PREV_INSN (heap ?st' z) = PREV_INSN (heap st z) \<and> NEXT_INSN (heap ?st' z) = NEXT_INSN (heap st z)"
      if "z \<in> set (concat []) \<union> set (concat B) \<union> set fs" for z
    proof -
      have "z \<notin> set (P @ S @ Q)" "z \<noteq> 0"
        using that owned_ok [OF c] by (auto simp: owned_def list_all_iff)
      then have "z \<noteq> ?p" "z \<noteq> ?n" "z \<noteq> hd S" "z \<noteq> last S" "z \<noteq> a" "z \<noteq> first_of Y 0"
        using not_end [of z P] not_end [of z Q] ends set_eq not_end [of z Y] by auto
      then show ?thesis unfolding h by (simp add: paste_links cut_links)
    qed
    have m: "mset (owned st ([] @ (X @ a # S @ Y) # B) fs) = mset (owned st ([] @ (P @ S @ Q) # B) fs)"
    proof -
      have "mset (X @ a # S @ Y) = mset (X @ a # Y) + mset S" "mset (P @ S @ Q) = mset (P @ Q) + mset S"
        "mset (slots (heap st) (X @ a # S @ Y)) = mset (slots (heap st) (X @ a # Y)) + mset (slots (heap st) S)"
        "mset (slots (heap st) (P @ S @ Q)) = mset (slots (heap st) (P @ Q)) + mset (slots (heap st) S)"
        by simp_all
      then have "mset (X @ a # S @ Y) = mset (P @ S @ Q)"
        "mset (slots (heap st) (X @ a # S @ Y)) = mset (slots (heap st) (P @ S @ Q))"
        unfolding a by simp_all
      then show ?thesis unfolding owned_append mset_append by simp
    qed
    show "distinct (owned st ([] @ (X @ a # S @ Y) # B) fs)"
      using mset_eq_imp_distinct_iff [OF m] owned_ok(1) [OF c'] by simp
    show "list_all (\<lambda>a. 0 < a \<and> a < next_address st) (owned st ([] @ (X @ a # S @ Y) # B) fs)"
      using mset_eq_setD [OF m] owned_ok(2) [OF c'] by (simp add: list_all_iff)
    show "levels ?st' = LA @ (first_of (X @ a # S @ Y) 0, last_of (X @ a # S @ Y) 0) # LB"
      if "levels st = LA @ (first_of (P @ S @ Q) 0, last_of (P @ S @ Q) 0) # LB" "list_all2 (level_ok (heap st)) [] LA" for LA LB
    proof -
      have L: "first_insn st = first_of (P @ S @ Q) 0" "last_insn st = last_of (P @ S @ Q) 0"
        "LB = map (\<lambda>s. (sl_first s, sl_last s)) (sequence_stack st)" "LA = []"
        using that by (auto simp: levels_def)
      have "first_insn ?st' = first_of (X @ a # S @ Y) 0"
      proof (cases "P = []")
        case True
        then show ?thesis using L(1) a S r(2) by (simp add: ends_of)
      next
        case False
        then have "hd P \<noteq> hd S" using d(1) ends by (auto simp: neq_Nil_conv)
        moreover have "first_of P 0 = first_of (X @ a # Y) 0" using False a by (metis first_of_simps(3) ends_of(2))
        ultimately show ?thesis using L(1) False r(2) by (cases X) (simp_all add: ends_of)
      qed
      moreover have "last_insn ?st' = last_of (X @ a # S @ Y) 0"
      proof -
        have "(if last_insn st = last S then ?p else last_insn st) = last_of (P @ Q) 0"
        proof (cases "Q = []")
          case True
          then show ?thesis using L(2) S by (simp add: ends_of)
        next
          case False
          then have "last Q \<noteq> last S" using nS(3) [OF ends(2)] last_in_set [of Q] by metis
          then show ?thesis using L(2) False by (simp add: ends_of)
        qed
        then have l': "(if last_insn st = last S then ?p else last_insn st) = last_of Y a" using a by simp
        have "a = last_of Y a \<longleftrightarrow> Y = []"
          using dx last_in_set [of Y] by (auto simp: last_of_def)
        then show ?thesis using r(3) [of a] l' S by (auto simp: ends_of last_of_def)
      qed
      ultimately show ?thesis using L by (simp add: levels_def r(4))
    qed
  qed (simp_all add: r)
  then show "chains ?st' ((X @ a # S @ Y) # B) fs" by simp
  show "payload (heap ?st' z) = payload (heap st z)" unfolding h by simp
  show "cur_insn_uid ?st' = cur_insn_uid st" "next_address ?st' = next_address st" by (rule r)+
qed

end
