(* ===== verification/Insn_Emission.thy ===== *)
theory Insn_Emission
  imports Insn_Lists
begin

text \<open>
  Emission of insns: every operation of gcc/emit-rtl.c that creates, links or unlinks insns keeps
  the lists of \<open>Insn_Lists\<close> and the numbering of the insns, and a search along the
  chain ends and finds what a search of the list finds. A state machine closes the operations:
  whatever a client emits, the reachable states are well formed.
\<close>

section \<open>Well-formed states\<close>

definition wf_chain :: "emit_state \<Rightarrow> nat list list \<Rightarrow> nat list \<Rightarrow> bool" where
  "wf_chain st xss fs \<longleftrightarrow> chains st xss fs \<and> 0 < next_address st \<and> 0 < cur_insn_uid st
     \<and> list_all (\<lambda>x. 0 < ic_uid (heap st x)) (owned st xss fs)
     \<and> list_all (\<lambda>x. ic_uid (heap st x) < cur_insn_uid st) (concat xss)
     \<and> distinct (map (\<lambda>x. ic_uid (heap st x)) (concat xss))"

lemma wf_chainD:
  assumes "wf_chain st xss fs"
  shows "chains st xss fs" "0 < next_address st" "0 < cur_insn_uid st"
    and "x \<in> set (owned st xss fs) \<Longrightarrow> 0 < ic_uid (heap st x)"
    and "x \<in> set (concat xss) \<Longrightarrow> ic_uid (heap st x) < cur_insn_uid st"
    and "distinct (map (\<lambda>x. ic_uid (heap st x)) (concat xss))"
  using assms by (auto simp: wf_chain_def list_all_iff)

lemma wf_frame:
  assumes w: "wf_chain st xss fs"
    and h: "\<And>z. z \<in> set (owned st xss fs) \<Longrightarrow> heap st' z = heap st z"
    and f: "levels st' = levels st" "free_insn st' = free_insn st" "next_address st \<le> next_address st'"
      "cur_insn_uid st \<le> cur_insn_uid st'"
  shows "wf_chain st' xss fs" "owned st' xss fs = owned st xss fs"
proof -
  note w' = wf_chainD [OF w]
  have hc: "heap st' z = heap st z" if "z \<in> set (concat xss)" for z using that h by (auto simp: owned_def)
  have c: "chains st' xss fs" and o: "owned st' xss fs = owned st xss fs"
    by (rule chains_frame [OF w'(1)]; use h f in simp)+
  show "owned st' xss fs = owned st xss fs" by (rule o)
  have "map (\<lambda>x. ic_uid (heap st' x)) (concat xss) = map (\<lambda>x. ic_uid (heap st x)) (concat xss)"
    using hc by (intro map_cong) auto
  then have "distinct (map (\<lambda>x. ic_uid (heap st' x)) (concat xss))" using w'(6) by (simp only:)
  moreover have "list_all (\<lambda>x. 0 < ic_uid (heap st' x)) (owned st xss fs)"
    using w'(4) h by (simp add: list_all_iff)
  moreover have "list_all (\<lambda>x. ic_uid (heap st' x) < cur_insn_uid st') (concat xss)"
    using w'(5) hc f(4) unfolding list_all_iff by fastforce
  ultimately show "wf_chain st' xss fs"
    using c w'(2,3) f unfolding wf_chain_def o by simp
qed

text \<open>A new insn, numbered and on no list.\<close>

definition new_insn :: "emit_state \<Rightarrow> nat list list \<Rightarrow> nat list \<Rightarrow> nat \<Rightarrow> emit_state \<Rightarrow> bool" where
  "new_insn st xss fs x st' \<longleftrightarrow> wf_chain st' xss fs \<and> loose st' (owned st' xss fs) x
     \<and> delay_slots (heap st' x) = [] \<and> 0 < ic_uid (heap st' x)
     \<and> ic_uid (heap st' x) + 1 = cur_insn_uid st' \<and> cur_insn_uid st' = cur_insn_uid st + 1
     \<and> list_all (\<lambda>z. heap st' z = heap st z \<and> ic_uid (heap st z) < ic_uid (heap st' x)) (concat xss)
     \<and> levels st' = levels st \<and> em_optimize st' = em_optimize st"

lemma set_cell_fields [simp]:
  "heap (set_cell x f st) = (heap st)(x := f (heap st x))" "levels (set_cell x f st) = levels st"
  "free_insn (set_cell x f st) = free_insn st" "next_address (set_cell x f st) = next_address st"
  "cur_insn_uid (set_cell x f st) = cur_insn_uid st" "em_optimize (set_cell x f st) = em_optimize st"
  "first_insn (set_cell x f st) = first_insn st" "last_insn (set_cell x f st) = last_insn st"
  "sequence_stack (set_cell x f st) = sequence_stack st"
  by (simp_all add: set_cell_def with_heap_def levels_def)

lemma take_uid_fields [simp]:
  "heap (take_uid x st) = (heap st)(x := (heap st x)\<lparr>ic_uid := cur_insn_uid st\<rparr>)" "levels (take_uid x st) = levels st"
  "free_insn (take_uid x st) = free_insn st" "next_address (take_uid x st) = next_address st"
  "cur_insn_uid (take_uid x st) = cur_insn_uid st + 1" "em_optimize (take_uid x st) = em_optimize st"
  by (simp_all add: take_uid_def levels_def)

text \<open>Numbering an insn that is on no list and filling in its fields.\<close>

lemma new_insn_filled:
  assumes w: "wf_chain st0 xss fs" and x: "x \<notin> set (owned st0 xss fs)" "0 < x" "x < next_address st0"
    and st0: "list_all (\<lambda>z. heap st0 z = heap st z) (concat xss)" "levels st0 = levels st"
      "cur_insn_uid st0 = cur_insn_uid st" "em_optimize st0 = em_optimize st"
    and f: "\<And>c. ic_uid (f c) = ic_uid c" "delay_slots (f ((heap st0 x)\<lparr>ic_uid := cur_insn_uid st0\<rparr>)) = []"
  shows "new_insn st xss fs x (set_cell x f (take_uid x st0))"
proof -
  let ?st' = "set_cell x f (take_uid x st0)"
  have h: "heap ?st' z = heap st0 z" if "z \<in> set (owned st0 xss fs)" for z using that x(1) by auto
  have w': "wf_chain ?st' xss fs" and o: "owned ?st' xss fs = owned st0 xss fs"
    by (rule wf_frame [OF w]; use h in simp)+
  have hc: "heap ?st' z = heap st0 z" if "z \<in> set (concat xss)" for z using that h by (auto simp: owned_def)
  have u: "ic_uid (heap ?st' x) = cur_insn_uid st0" using f(1) by simp
  note w'
  moreover have d: "delay_slots (heap ?st' x) = []" using f(2) by simp
  moreover have "loose ?st' (owned ?st' xss fs) x"
    using x d owned_ok(1) [OF wf_chainD(1) [OF w]] unfolding loose_def o by simp
  moreover have st0z: "heap st0 z = heap st z" if "z \<in> set (concat xss)" for z
    using bspec [OF st0(1) [unfolded list_all_iff] that] .
  moreover have lt: "ic_uid (heap st z) < cur_insn_uid st0" if "z \<in> set (concat xss)" for z
    using wf_chainD(5) [OF w that] st0z [OF that] by simp
  ultimately show ?thesis
    unfolding new_insn_def
  proof (intro conjI)
    show "list_all (\<lambda>z. heap ?st' z = heap st z \<and> ic_uid (heap st z) < ic_uid (heap ?st' x)) (concat xss)"
      unfolding list_all_iff u using hc st0z lt by simp
  qed (use u st0 wf_chainD(3) [OF w] in simp_all)
qed

lemma wf_alloc:
  assumes w: "wf_chain st xss fs"
  shows "wf_chain (snd (rtx_alloc code st)) xss fs" "fst (rtx_alloc code st) \<notin> set (owned (snd (rtx_alloc code st)) xss fs)"
    and "0 < fst (rtx_alloc code st)" "fst (rtx_alloc code st) < next_address (snd (rtx_alloc code st))"
    and "list_all (\<lambda>z. heap (snd (rtx_alloc code st)) z = heap st z) (concat xss)"
    and "heap (snd (rtx_alloc code st)) (fst (rtx_alloc code st)) = blank_cell code"
    and "levels (snd (rtx_alloc code st)) = levels st" "cur_insn_uid (snd (rtx_alloc code st)) = cur_insn_uid st"
    and "em_optimize (snd (rtx_alloc code st)) = em_optimize st"
proof -
  let ?a = "next_address st" and ?st' = "snd (rtx_alloc code st)"
  note w' = wf_chainD [OF w]
  have s: "fst (rtx_alloc code st) = ?a" "heap ?st' = (heap st)(?a := blank_cell code)" "next_address ?st' = ?a + 1"
    "levels ?st' = levels st" "cur_insn_uid ?st' = cur_insn_uid st" "free_insn ?st' = free_insn st"
    "em_optimize ?st' = em_optimize st"
    by (simp_all add: rtx_alloc_def Let_def levels_def)
  have na: "?a \<notin> set (owned st xss fs)"
    using owned_ok(2) [OF w'(1)] by (auto simp: list_all_iff)
  then have h: "heap ?st' z = heap st z" if "z \<in> set (owned st xss fs)" for z using that s(2) by auto
  have w2: "wf_chain ?st' xss fs" and o: "owned ?st' xss fs = owned st xss fs"
    by (rule wf_frame [OF w]; use h s in simp)+
  show "wf_chain ?st' xss fs" by (rule w2)
  have hc: "heap ?st' z = heap st z" if "z \<in> set (concat xss)" for z using that h by (auto simp: owned_def)
  then show "list_all (\<lambda>z. heap ?st' z = heap st z) (concat xss)" by (simp add: list_all_iff)
  show "fst (rtx_alloc code st) \<notin> set (owned ?st' xss fs)" using na o s by simp
qed (use wf_chainD [OF w] in \<open>simp_all add: rtx_alloc_def Let_def levels_def\<close>)

lemma fill_insn_facts:
  "ic_uid (fill_insn p c) = ic_uid c" "delay_slots (fill_insn p c) = []"
  by (simp_all add: fill_insn_def delay_slots.simps)

lemma blank_slots: "delay_slots ((blank_cell code)\<lparr>ic_uid := u\<rparr>) = []"
  by (simp add: blank_cell_def delay_slots.simps)

text \<open>An insn of the free list is reused.\<close>

lemma wf_reuse:
  assumes w: "wf_chain st xss fs" and f: "free_insn st \<noteq> 0"
  defines "x \<equiv> free_insn st"
  defines "st0 \<equiv> set_cell x (\<lambda>c. c\<lparr>ic_code := INSN\<rparr>) (st\<lparr>free_insn := NEXT_INSN (heap st x)\<rparr>)"
  shows "wf_chain st0 xss (tl fs)" "x \<notin> set (owned st0 xss (tl fs))" "0 < x" "x < next_address st0"
    and "list_all (\<lambda>z. heap st0 z = heap st z) (concat xss)"
    and "levels st0 = levels st" "cur_insn_uid st0 = cur_insn_uid st" "em_optimize st0 = em_optimize st"
proof -
  note w' = wf_chainD [OF w]
  obtain gs where fs: "fs = x # gs" using w'(1) f by (cases fs) (auto simp: chains_def x_def)
  have x: "x \<notin> set (owned st xss gs)" "x \<in> set (owned st xss fs)"
    using owned_ok(1) [OF w'(1)] fs by (auto simp: owned_def)
  let ?st1 = "st\<lparr>free_insn := NEXT_INSN (heap st x)\<rparr>"
  have o1: "owned ?st1 xss gs = owned st xss gs" by (simp add: owned_def)
  have sub: "set (owned st xss gs) \<subseteq> set (owned st xss fs)" using fs by (auto simp: owned_def)
  have "chains ?st1 xss gs"
    using w'(1) fs by (auto simp: chains_def owned_def levels_def)
  then have w1: "wf_chain ?st1 xss gs"
    using w' sub unfolding wf_chain_def o1 by (auto simp: list_all_iff subset_iff)
  have h: "heap st0 z = heap ?st1 z" if "z \<in> set (owned ?st1 xss gs)" for z
    using that x(1) by (auto simp: st0_def o1)
  have w2: "wf_chain st0 xss gs" and o: "owned st0 xss gs = owned ?st1 xss gs"
    by (rule wf_frame [OF w1]; use h in \<open>simp add: st0_def\<close>)+
  show "wf_chain st0 xss (tl fs)" using w2 fs by simp
  have hc: "heap st0 z = heap st z" if "z \<in> set (concat xss)" for z using that h by (auto simp: owned_def)
  show "x \<notin> set (owned st0 xss (tl fs))" using x fs o o1 by simp
  show "0 < x" "x < next_address st0"
    using x(2) owned_ok(2) [OF w'(1)] by (auto simp: list_all_iff st0_def)
  show "list_all (\<lambda>z. heap st0 z = heap st z) (concat xss)" using hc by (simp add: list_all_iff)
qed (simp_all add: st0_def levels_def)


lemma new_rtx_alloc:
  assumes w: "wf_chain st xss fs" and f: "\<And>c. ic_uid (f c) = ic_uid c"
    and d: "delay_slots (f ((blank_cell code)\<lparr>ic_uid := cur_insn_uid st\<rparr>)) = []"
  shows "new_insn st xss fs (fst (rtx_alloc code st)) (set_cell (fst (rtx_alloc code st)) f (take_uid (fst (rtx_alloc code st)) (snd (rtx_alloc code st))))"
  using wf_alloc [OF w, of code] f d by (intro new_insn_filled [where xss = xss]) simp_all

definition makes :: "(emit_state \<Rightarrow> nat \<times> emit_state) \<Rightarrow> bool" where
  "makes mk \<longleftrightarrow> (\<forall>st xss fs. wf_chain st xss fs \<longrightarrow> (\<exists>fs'. new_insn st xss fs' (fst (mk st)) (snd (mk st))))"

lemma makes_insn: "makes (make_insn_raw p)"
  unfolding makes_def
proof (intro allI impI)
  fix st xss fs assume w: "wf_chain st xss fs"
  show "\<exists>fs'. new_insn st xss fs' (fst (make_insn_raw p st)) (snd (make_insn_raw p st))"
  proof (cases "free_insn st \<noteq> 0 \<and> em_function_value_matters st")
    case True
    with wf_reuse [OF w] show ?thesis
      by (intro exI [where x = "tl fs"]) (simp add: make_insn_raw_def new_insn_filled fill_insn_facts)
  next
    case False
    have "new_insn st xss fs (fst (make_insn_raw p st)) (snd (make_insn_raw p st))"
      using new_rtx_alloc [OF w, of "fill_insn p" INSN] False
      by (auto simp: make_insn_raw_def fill_insn_facts split: prod.split)
    then show ?thesis ..
  qed
qed

lemma jump_slots: "delay_slots (c\<lparr>JUMP_LABEL := l\<rparr>) = delay_slots c" "delay_slots (c\<lparr>ic_usage := u\<rparr>) = delay_slots c"
  "delay_slots (c\<lparr>NOTE_SOURCE_FILE := f, NOTE_LINE_NUMBER := n\<rparr>) = delay_slots c"
  by (simp_all add: delay_slots.simps)

lemma set_cell_id: "set_cell x (\<lambda>c. c) st = st"
  by (simp add: set_cell_def with_heap_def)

lemma makes_alloc:
  assumes "\<And>c. ic_uid (f c) = ic_uid c" "\<And>u. delay_slots (f ((blank_cell code)\<lparr>ic_uid := u\<rparr>)) = []"
    and "\<And>st. mk st = (fst (rtx_alloc code st), set_cell (fst (rtx_alloc code st)) f (take_uid (fst (rtx_alloc code st)) (snd (rtx_alloc code st))))"
  shows "makes mk"
  unfolding makes_def assms(3) using new_rtx_alloc [OF _ assms(1,2)] by auto

lemma makes_others:
  "makes (make_jump_insn_raw p)" "makes (make_call_insn_raw p)" "makes make_barrier" "makes (make_note file line)"
proof -
  show "makes (make_jump_insn_raw p)"
    by (rule makes_alloc [where code = JUMP_INSN and f = "\<lambda>c. (fill_insn p c)\<lparr>JUMP_LABEL := 0\<rparr>"])
      (simp_all add: make_jump_insn_raw_def fill_insn_facts jump_slots split: prod.split)
  show "makes (make_call_insn_raw p)"
    by (rule makes_alloc [where code = CALL_INSN and f = "\<lambda>c. (fill_insn p c)\<lparr>ic_usage := NULL_RTX\<rparr>"])
      (simp_all add: make_call_insn_raw_def fill_insn_facts jump_slots split: prod.split)
  show "makes make_barrier"
    by (rule makes_alloc [where code = BARRIER and f = "\<lambda>c. c"])
      (simp_all add: make_barrier_def blank_slots set_cell_id split: prod.split)
  show "makes (make_note file line)"
    by (rule makes_alloc [where code = NOTE and f = "\<lambda>c. c\<lparr>NOTE_SOURCE_FILE := file, NOTE_LINE_NUMBER := line\<rparr>"])
      (simp_all add: make_note_def jump_slots blank_slots split: prod.split)
qed

section \<open>Linking keeps states well formed\<close>

lemma uid_payload: "payload c = payload d \<Longrightarrow> ic_uid c = ic_uid d"
  by (cases c, cases d) (simp add: payload_def)

lemma wf_inserted:
  assumes n: "new_insn st0 xss fs x st" and c: "chains st' xss' fs"
    and p: "\<And>z. payload (heap st' z) = payload (heap st z)"
    and m: "mset (concat xss') = mset (x # concat xss)"
    and f: "cur_insn_uid st' = cur_insn_uid st" "next_address st' = next_address st"
  shows "wf_chain st' xss' fs"
proof -
  have w: "wf_chain st xss fs" and x: "x \<notin> set (concat xss)" "ic_uid (heap st x) + 1 = cur_insn_uid st" "0 < ic_uid (heap st x)"
    "delay_slots (heap st x) = []" "\<And>z. z \<in> set (concat xss) \<Longrightarrow> ic_uid (heap st z) < ic_uid (heap st x)"
    using n unfolding new_insn_def loose_def owned_def list_all_iff by auto
  note w' = wf_chainD [OF w]
  have u: "ic_uid (heap st' z) = ic_uid (heap st z)" "delay_slots (heap st' z) = delay_slots (heap st z)" for z
    by (rule uid_payload [OF p]) (rule delay_slots_payload [OF p])
  have s: "set (concat xss') = insert x (set (concat xss))" using mset_eq_setD [OF m] by simp
  have o: "set (owned st' xss' fs) = insert x (set (owned st xss fs))"
    using s x(4) u(2) by (auto simp: owned_def slots_def)
  have "distinct (x # concat xss)" "inj_on (\<lambda>z. ic_uid (heap st z)) (set (x # concat xss))"
    using w'(6) x(1) x(5) by (auto simp: distinct_map) force
  then have "distinct (map (\<lambda>z. ic_uid (heap st z)) (concat xss'))"
    using mset_eq_imp_distinct_iff [OF m] s by (simp add: distinct_map)
  then show ?thesis
    using c w' x f o s unfolding wf_chain_def list_all_iff u by auto
qed

lemma owned_mono:
  assumes "set (concat xss') \<subseteq> set (concat xss)" "\<And>z. payload (heap st' z) = payload (heap st z)"
    and "set fs' \<subseteq> set (owned st xss fs)"
  shows "set (owned st' xss' fs') \<subseteq> set (owned st xss fs)"
proof -
  have "set (slots (heap st') (concat xss')) = (\<Union>x \<in> set (concat xss'). set (delay_slots (heap st x)))"
    unfolding slots_def using delay_slots_payload [OF assms(2)] by simp
  also have "\<dots> \<subseteq> (\<Union>x \<in> set (concat xss). set (delay_slots (heap st x)))" using assms(1) by (rule UN_mono) simp
  also have "\<dots> = set (slots (heap st) (concat xss))" by (simp add: slots_def)
  finally show ?thesis using assms(1,3) unfolding owned_def by auto
qed

lemma wf_reduced:
  assumes w: "wf_chain st xss fs" and c: "chains st' xss' fs'"
    and p: "\<And>z. payload (heap st' z) = payload (heap st z)"
    and m: "set (concat xss') \<subseteq> set (concat xss)" "set fs' \<subseteq> set (owned st xss fs)"
    and f: "cur_insn_uid st' = cur_insn_uid st" "next_address st' = next_address st"
  shows "wf_chain st' xss' fs'"
proof -
  note w' = wf_chainD [OF w]
  have u: "ic_uid (heap st' z) = ic_uid (heap st z)" for z by (rule uid_payload [OF p])
  have "distinct (concat xss')" using owned_ok(1) [OF c] by (simp add: owned_def)
  moreover have "inj_on (\<lambda>z. ic_uid (heap st z)) (set (concat xss'))"
    using w'(6) m(1) by (auto simp: distinct_map intro: inj_on_subset)
  ultimately have "distinct (map (\<lambda>z. ic_uid (heap st z)) (concat xss'))" by (simp add: distinct_map)
  then show ?thesis
    using c w'(2-5) m(1) owned_mono [OF m(1) p m(2)] f unfolding wf_chain_def list_all_iff u by (auto simp: subset_iff)
qed

lemma wf_emit_made:
  assumes m: "makes mk" and w: "wf_chain st (xs # B) fs"
  shows "\<exists>fs'. wf_chain (snd (emit_made (mk st))) ((xs @ [fst (mk st)]) # B) fs'"
proof -
  obtain fs' where n: "new_insn st (xs # B) fs' (fst (mk st)) (snd (mk st))"
    using m w unfolding makes_def by blast
  then have w1: "wf_chain (snd (mk st)) (xs # B) fs'" and l: "loose (snd (mk st)) (owned (snd (mk st)) (xs # B) fs') (fst (mk st))"
    by (simp_all add: new_insn_def)
  have "wf_chain (add_insn (fst (mk st)) (snd (mk st))) ((xs @ [fst (mk st)]) # B) fs'"
    by (rule wf_inserted [OF n chains_add_insn [OF wf_chainD(1) [OF w1] l]])
      (simp_all add: payload_add_insn add_insn_fields)
  then show ?thesis by (auto simp: emit_made_def case_prod_beta)
qed


section \<open>The insns of a state\<close>

definition on_chain :: "emit_state \<Rightarrow> nat \<Rightarrow> bool" where
  "on_chain st x \<longleftrightarrow> (\<exists>fl \<in> set (levels st). \<exists>xs. walk (next_of st) (fst fl) = Some xs \<and> x \<in> set xs)"

definition current_insns :: "emit_state \<Rightarrow> nat list option" where
  "current_insns st = walk (next_of st) (first_insn st)"

lemma walk_linked:
  "linked h p xs 0 \<Longrightarrow> 0 \<notin> set xs \<Longrightarrow> walk (\<lambda>x. NEXT_INSN (h x)) (first_of xs 0) = Some xs"
proof (induction xs arbitrary: p)
  case Nil
  show ?case by (simp add: walk.simps)
next
  case (Cons x xs)
  then have "walk (\<lambda>x. NEXT_INSN (h x)) (first_of xs 0) = Some xs" by (intro Cons.IH [of x]) simp_all
  with Cons.prems show ?case by (subst walk.simps) simp
qed

lemma chains_walk:
  assumes "chains st xss fs" "xs \<in> set xss"
  shows "walk (next_of st) (first_of xs 0) = Some xs"
proof -
  obtain A B where s: "xss = A @ xs # B" using assms(2) by (meson split_list)
  then have "linked (heap st) 0 xs 0" "apart (heap st) xs"
    using assms(1) chains_split chains_facts(1) by blast+
  then show ?thesis using walk_linked by (simp add: apart_def)
qed

lemma chains_current_insns: "chains st (xs # B) fs \<Longrightarrow> current_insns st = Some xs"
  using chains_walk [of st "xs # B" fs xs] chains_current(1) [of st xs B fs] by (simp add: current_insns_def)

lemma on_chain_iff: "chains st xss fs \<Longrightarrow> on_chain st x \<longleftrightarrow> x \<in> set (concat xss)"
proof -
  assume c: "chains st xss fs"
  then have l: "list_all2 (level_ok (heap st)) xss (levels st)" by (simp add: chains_def)
  have 1: "\<exists>xs \<in> set xss. fst fl = first_of xs 0" if "fl \<in> set (levels st)" for fl
    using l that by (induction rule: list_all2_induct) (auto simp: level_ok_def)
  have 2: "\<exists>fl \<in> set (levels st). fst fl = first_of xs 0" if "xs \<in> set xss" for xs
    using l that by (induction rule: list_all2_induct) (auto simp: level_ok_def)
  show ?thesis
  proof
    assume "on_chain st x"
    then obtain fl xs where f: "fl \<in> set (levels st)" "walk (next_of st) (fst fl) = Some xs" "x \<in> set xs"
      unfolding on_chain_def by blast
    obtain ys where ys: "ys \<in> set xss" "fst fl = first_of ys 0" using 1 [OF f(1)] by blast
    then have "xs = ys" using chains_walk [OF c ys(1)] f(2) by simp
    with ys(1) f(3) show "x \<in> set (concat xss)" by auto
  next
    assume "x \<in> set (concat xss)"
    then obtain xs where xs: "xs \<in> set xss" "x \<in> set xs" by auto
    obtain fl where "fl \<in> set (levels st)" "fst fl = first_of xs 0" using 2 [OF xs(1)] by blast
    with chains_walk [OF c xs(1)] xs(2) show "on_chain st x" unfolding on_chain_def by metis
  qed
qed

lemma on_chain_split:
  assumes "chains st xss fs" "on_chain st x"
  obtains A pre post B where "xss = A @ (pre @ x # post) # B"
  using assms on_chain_iff [OF assms(1), of x] by (metis UN_iff set_concat split_list)

section \<open>The operations as steps\<close>

inductive emission :: "emit_state \<Rightarrow> emit_state \<Rightarrow> bool" where
  em_insn: "emission st (snd (emit_insn (Body p) st))"
| em_jump: "emission st (snd (emit_jump_insn (Body p) st))"
| em_call: "emission st (snd (emit_call_insn (Body p) st))"
| em_barrier: "emission st (snd (emit_barrier st))"
| em_note: "emission st (snd (emit_note file line st))"
| em_new_label: "emission st (snd (gen_label_rtx st))"
| em_label: "code_of st l = CODE_LABEL \<Longrightarrow> 0 < l \<Longrightarrow> l < next_address st \<Longrightarrow> emission st (snd (emit_label l st))"
| em_insn_after: "on_chain st a \<Longrightarrow> emit_insn_after (Body p) a st = Some (x, st') \<Longrightarrow> emission st st'"
| em_insn_before: "on_chain st a \<Longrightarrow> emit_insn_before (Body p) a st = Some (x, st') \<Longrightarrow> emission st st'"
| em_jump_after: "on_chain st a \<Longrightarrow> emit_jump_insn_after (Body p) a st = Some (x, st') \<Longrightarrow> emission st st'"
| em_jump_before: "on_chain st a \<Longrightarrow> emit_jump_insn_before (Body p) a st = Some (x, st') \<Longrightarrow> emission st st'"
| em_barrier_after: "on_chain st a \<Longrightarrow> emit_barrier_after a st = Some (x, st') \<Longrightarrow> emission st st'"
| em_barrier_before: "on_chain st a \<Longrightarrow> emit_barrier_before a st = Some (x, st') \<Longrightarrow> emission st st'"
| em_note_after: "on_chain st a \<Longrightarrow> emit_note_after sub a st = Some (x, st') \<Longrightarrow> emission st st'"
| em_note_before: "on_chain st a \<Longrightarrow> emit_note_before sub a st = Some (x, st') \<Longrightarrow> emission st st'"
| em_remove: "on_chain st x \<Longrightarrow> remove_insn x st = Some st' \<Longrightarrow> emission st st'"
| em_delete: "current_insns st = Some xs \<Longrightarrow> a \<in> set xs \<Longrightarrow> delay_slots (heap st a) = [] \<Longrightarrow> emission st (delete_insns_since a st)"
| em_reorder: "current_insns st = Some (P @ S @ Q) \<Longrightarrow> S \<noteq> [] \<Longrightarrow> a \<in> set (P @ Q)
    \<Longrightarrow> emission st (reorder_insns (hd S) (last S) a st)"
| em_start: "emission st (start_sequence st)"
| em_end: "end_sequence st = Some st' \<Longrightarrow> emission st st'"
| em_gen: "gen_sequence st = Some (b, st1) \<Longrightarrow> end_sequence st1 = Some st2 \<Longrightarrow> emission st st2"

inductive_cases emission_cases: "emission st st'"

lemma wf_emit_at_after:
  assumes m: "makes mk" and w: "wf_chain st xss fs" and a: "on_chain st a"
    and e: "place (\<lambda>insn. add_insn_after insn a) (mk st) = Some (x, st')"
  shows "\<exists>xss' fs'. wf_chain st' xss' fs'"
proof -
  obtain fs1 where n: "new_insn st xss fs1 (fst (mk st)) (snd (mk st))"
    using m w unfolding makes_def by blast
  let ?x = "fst (mk st)" and ?st1 = "snd (mk st)"
  have w1: "wf_chain ?st1 xss fs1" and l: "loose ?st1 (owned ?st1 xss fs1) ?x" using n by (simp_all add: new_insn_def)
  obtain A pre post B where s: "xss = A @ (pre @ a # post) # B"
    using on_chain_split [OF wf_chainD(1) [OF w] a] .
  have r: "add_insn_after ?x a ?st1 = Some st'"
    using e by (auto simp: place_def case_prod_beta)
  then have "\<not> (em_optimize ?st1 \<and> INSN_DELETED_P (heap ?st1 a))"
    by (auto simp: add_insn_after_def Let_def split: if_splits)
  from add_insn_after_at [OF wf_chainD(1) [OF w1, unfolded s] l [unfolded s] this] r
  have c: "chains st' (A @ (pre @ a # ?x # post) # B) fs1" and h: "heap st' = link_in a ?x (first_of post 0) (heap ?st1)"
    "cur_insn_uid st' = cur_insn_uid ?st1" and na: "next_address st' = next_address ?st1" by auto
  have "wf_chain st' (A @ (pre @ a # ?x # post) # B) fs1"
    by (rule wf_inserted [OF n c]) (simp_all add: h na s)
  then show ?thesis by blast
qed

lemma wf_emit_at_before:
  assumes m: "makes mk" and w: "wf_chain st xss fs" and a: "on_chain st a"
    and e: "place (\<lambda>insn. add_insn_before insn a) (mk st) = Some (x, st')"
  shows "\<exists>xss' fs'. wf_chain st' xss' fs'"
proof -
  obtain fs1 where n: "new_insn st xss fs1 (fst (mk st)) (snd (mk st))"
    using m w unfolding makes_def by blast
  let ?x = "fst (mk st)" and ?st1 = "snd (mk st)"
  have w1: "wf_chain ?st1 xss fs1" and l: "loose ?st1 (owned ?st1 xss fs1) ?x" using n by (simp_all add: new_insn_def)
  obtain A pre post B where s: "xss = A @ (pre @ a # post) # B"
    using on_chain_split [OF wf_chainD(1) [OF w] a] .
  have r: "add_insn_before ?x a ?st1 = Some st'"
    using e by (auto simp: place_def case_prod_beta)
  then have "\<not> (em_optimize ?st1 \<and> INSN_DELETED_P (heap ?st1 a))"
    by (auto simp: add_insn_before_def Let_def split: if_splits)
  from add_insn_before_at [OF wf_chainD(1) [OF w1, unfolded s] l [unfolded s] this] r
  have c: "chains st' (A @ (pre @ ?x # a # post) # B) fs1" and h: "heap st' = link_in (last_of pre 0) ?x a (heap ?st1)"
    "cur_insn_uid st' = cur_insn_uid ?st1" and na: "next_address st' = next_address ?st1" by auto
  have "wf_chain st' (A @ (pre @ ?x # a # post) # B) fs1"
    by (rule wf_inserted [OF n c]) (simp_all add: h na s)
  then show ?thesis by blast
qed

lemma wf_nonempty: "wf_chain st xss fs \<Longrightarrow> \<exists>xs B. xss = xs # B"
  by (cases xss) (auto simp: wf_chain_def chains_def levels_def)

lemma wf_irrelevant:
  assumes "wf_chain st xss fs" "heap st' = heap st" "levels st' = levels st" "free_insn st' = free_insn st"
    "next_address st' = next_address st" "cur_insn_uid st \<le> cur_insn_uid st'"
  shows "wf_chain st' xss fs"
  by (rule wf_frame [OF assms(1)]) (use assms(2-) in simp_all)

lemma wf_emit_note: "wf_chain st (xs # B) fs \<Longrightarrow> \<exists>xss' fs'. wf_chain (snd (emit_note file line st)) xss' fs'"
proof -
  assume w: "wf_chain st (xs # B) fs"
  define st1 where "st1 = (if line > 0 then st\<lparr>last_filename := file, last_linenum := line\<rparr> else st)"
  have w1: "wf_chain st1 (xs # B) fs" unfolding st1_def by (rule wf_irrelevant [OF w]) (simp_all add: levels_def)
  then have "wf_chain (st1\<lparr>cur_insn_uid := cur_insn_uid st1 + 1\<rparr>) (xs # B) fs"
    by (rule wf_irrelevant) (simp_all add: levels_def)
  moreover have "\<exists>fs'. wf_chain (snd (emit_made (make_note file line st1))) ((xs @ [fst (make_note file line st1)]) # B) fs'"
    by (rule wf_emit_made [OF makes_others(4) w1])
  ultimately show ?thesis
    using w unfolding emit_note_def st1_def [symmetric] Let_def by (auto split: if_split)
qed

lemma call_code: "ic_code (heap (snd (make_call_insn_raw p st)) (fst (make_call_insn_raw p st))) = CALL_INSN"
  by (simp add: make_call_insn_raw_def rtx_alloc_def Let_def fill_insn_def blank_cell_def)

lemma code_payload: "payload c = payload d \<Longrightarrow> ic_code c = ic_code d"
  by (cases c, cases d) (simp add: payload_def)

lemma emit_call_insn_made: "emit_call_insn (Body p) st = emit_made (make_call_insn_raw p st)"
proof -
  obtain x st1 where m: "make_call_insn_raw p st = (x, st1)" by fastforce
  have "ic_code (heap (add_insn x st1) x) = CALL_INSN"
    using code_payload [OF payload_add_insn, of x st1 x] call_code [of p st] m by simp
  then have "(heap (add_insn x st1) x)\<lparr>ic_code := CALL_INSN\<rparr> = heap (add_insn x st1) x" by simp
  then have "set_cell x (\<lambda>c. c\<lparr>ic_code := CALL_INSN\<rparr>) (add_insn x st1) = add_insn x st1"
    by (simp add: set_cell_def with_heap_def)
  then show ?thesis by (simp add: emit_made_def m)
qed

lemma wf_new_label: "wf_chain st xss fs \<Longrightarrow> wf_chain (snd (gen_label_rtx st)) xss fs"
proof -
  assume w: "wf_chain st xss fs"
  let ?l = "fst (rtx_alloc CODE_LABEL st)" and ?st1 = "snd (rtx_alloc CODE_LABEL st)"
  note a = wf_alloc [OF w, of CODE_LABEL]
  have s: "snd (gen_label_rtx st) = (set_cell ?l (\<lambda>c. c\<lparr>CODE_LABEL_NUMBER := label_num ?st1, LABEL_NUSES := 0\<rparr>) ?st1)\<lparr>label_num := label_num ?st1 + 1\<rparr>"
    by (simp add: gen_label_rtx_def rtx_alloc_def Let_def set_cell_def with_heap_def)
  show ?thesis unfolding s
    by (rule wf_frame [OF a(1)]) (use a(2) in \<open>auto simp: set_cell_def with_heap_def levels_def\<close>)
qed

lemma wf_emit_label:
  assumes w: "wf_chain st (xs # B) fs" and l: "code_of st l = CODE_LABEL" "0 < l" "l < next_address st"
  shows "\<exists>xss'. wf_chain (snd (emit_label l st)) xss' fs \<and> (ic_uid (heap st l) = 0 \<longrightarrow> xss' = (xs @ [l]) # B)"
proof (cases "ic_uid (heap st l) = 0")
  case True
  have "l \<notin> set (owned st (xs # B) fs)" using wf_chainD(4) [OF w, of l] True by auto
  then have "new_insn st (xs # B) fs l (set_cell l (\<lambda>c. c) (take_uid l st))"
    by (rule new_insn_filled [OF w]) (use l in \<open>simp_all add: list_all_iff delay_slots.simps\<close>)
  then have n: "new_insn st (xs # B) fs l (take_uid l st)" by (simp only: set_cell_id)
  then have w1: "wf_chain (take_uid l st) (xs # B) fs" and lo: "loose (take_uid l st) (owned (take_uid l st) (xs # B) fs) l"
    by (simp_all only: new_insn_def)
  have "wf_chain (add_insn l (take_uid l st)) ((xs @ [l]) # B) fs"
    by (rule wf_inserted [OF n chains_add_insn [OF wf_chainD(1) [OF w1] lo]])
      (simp_all add: payload_add_insn add_insn_fields(3,4) del: take_uid_fields)
  then show ?thesis using True by (auto simp: emit_label_def)
qed (use w in \<open>auto simp: emit_label_def\<close>)

lemma wf_remove:
  assumes w: "wf_chain st xss fs" and x: "on_chain st x"
  shows "\<exists>st' xss'. remove_insn x st = Some st' \<and> wf_chain st' xss' fs \<and> xss' = map (removeAll x) xss"
proof -
  obtain A pre post B where s: "xss = A @ (pre @ x # post) # B"
    using on_chain_split [OF wf_chainD(1) [OF w] x] .
  note c = wf_chainD(1) [OF w, unfolded s]
  from remove_insn_at [OF c] obtain st' where r: "remove_insn x st = Some st'" "chains st' (A @ (pre @ post) # B) fs"
    "heap st' = link_out (last_of pre 0) (first_of post 0) (heap st)" "cur_insn_uid st' = cur_insn_uid st"
    "next_address st' = next_address st" by blast
  have "wf_chain st' (A @ (pre @ post) # B) fs"
    by (rule wf_reduced [OF w r(2)]) (use r(3-) s in \<open>auto simp: owned_def\<close>)
  moreover have "x \<notin> set (concat A) \<union> set pre \<union> set post \<union> set (concat B)"
    using owned_ok(1) [OF c] by (auto simp: owned_def)
  then have "map (removeAll x) xss = A @ (pre @ post) # B"
    unfolding s by (auto simp: removeAll_id intro!: map_idI)
  ultimately show ?thesis using r(1) by auto
qed


lemma wf_delete:
  assumes w: "wf_chain st xss fs" and x: "current_insns st = Some xs" "a \<in> set xs" "delay_slots (heap st a) = []"
  shows "\<exists>xss'. wf_chain (delete_insns_since a st) xss' fs"
proof -
  obtain ys B where y: "xss = ys # B" using wf_nonempty [OF w] by blast
  then have "ys = xs" using chains_current_insns [of st ys B fs] wf_chainD(1) [OF w] x(1) by simp
  then obtain pre post where s: "xss = (pre @ a # post) # B" using y x(2) by (metis split_list)
  note c = wf_chainD(1) [OF w, unfolded s]
  have a: "a \<noteq> 0" using owned_ok(2) [OF c] by (auto simp: owned_def)
  have "wf_chain (delete_insns_since a st) ((pre @ [a]) # B) fs"
    by (rule wf_reduced [OF w chains_delete_since [OF c x(3)]])
      (use a s in \<open>auto simp: delete_insns_since_def owned_def\<close>)
  then show ?thesis by blast
qed

lemma wf_reorder:
  assumes w: "wf_chain st xss fs" and x: "current_insns st = Some (P @ S @ Q)" "S \<noteq> []" "a \<in> set (P @ Q)"
  shows "\<exists>B. xss = (P @ S @ Q) # B \<and> wf_chain (reorder_insns (hd S) (last S) a st) (splice_after a S (P @ Q) # B) fs"
proof -
  obtain ys B where y: "xss = ys # B" using wf_nonempty [OF w] by blast
  then have s: "xss = (P @ S @ Q) # B" using chains_current_insns [of st ys B fs] wf_chainD(1) [OF w] x(1) by simp
  note c = wf_chainD(1) [OF w, unfolded s]
  obtain X Y where a: "P @ Q = X @ a # Y" using x(3) by (metis split_list)
  have "distinct (P @ Q)" using owned_ok(1) [OF c] by (auto simp: owned_def)
  then have sp: "splice_after a S (P @ Q) = X @ a # S @ Y" unfolding a by (simp add: splice_after_at)
  note r = chains_reorder_at [OF c x(2) a]
  have set_eq: "set (X @ a # Y) = set P \<union> set Q" using a by (metis set_append)
  have "wf_chain (reorder_insns (hd S) (last S) a st) ((X @ a # S @ Y) # B) fs"
  proof (rule wf_reduced [OF w r(1)])
    show sub: "set (concat ((X @ a # S @ Y) # B)) \<subseteq> set (concat xss)" using set_eq s by auto
    show "set fs \<subseteq> set (owned st xss fs)" by (auto simp: owned_def)
  qed (simp_all add: r)
  then show ?thesis using s sp by simp
qed


lemma wf_gen_end:
  assumes w: "wf_chain st xss fs" and g: "gen_sequence st = Some (b, st1)" and e: "end_sequence st1 = Some st2"
  shows "\<exists>xs ys B fs'. xss = xs # ys # B \<and> wf_chain st2 (ys # B) fs' \<and> current_insns st = Some xs"
proof -
  obtain xs B' where y: "xss = xs # B'" using wf_nonempty [OF w] by blast
  then have c: "chains st (xs # B') fs" using wf_chainD(1) [OF w] by simp
  have x: "current_insns st = Some xs" by (rule chains_current_insns [OF c])
  have g': "(b, st1) = (if length xs = 1 \<and> \<not> ic_frame_related (heap st (first_insn st))
         \<and> (ic_code (heap st (first_insn st)) = INSN \<or> ic_code (heap st (first_insn st)) = JUMP_INSN
            \<or> (ic_code (heap st (first_insn st)) = CALL_INSN \<and> ic_usage (heap st (first_insn st)) = NULL_RTX))
       then (ic_pattern (heap st (first_insn st)),
         (with_heap (set_next (first_insn st) (free_insn st)) st)\<lparr>free_insn := first_insn st\<rparr>)
       else (Delay_seq xs, st))"
    using g x unfolding gen_sequence_def current_insns_def [symmetric] by (simp add: Let_def split: if_splits)
  then have or: "st1 = st \<or> (\<exists>z. xs = [z] \<and> st1 = (with_heap (set_next z (free_insn st)) st)\<lparr>free_insn := z\<rparr>)"
    using chains_current(1) [OF c] by (auto simp: length_Suc_conv split: if_splits)
  then have stack: "sequence_stack st1 = sequence_stack st" by auto
  obtain ys B where B: "B' = ys # B"
    using e c stack by (cases B') (auto simp: chains_def levels_def end_sequence_def)
  obtain st3 where st3: "end_sequence st = Some st3" "chains st3 (ys # B) fs" "heap st3 = heap st"
    "cur_insn_uid st3 = cur_insn_uid st" "next_address st3 = next_address st"
    using chains_end_sequence c unfolding B by blast
  have w3: "wf_chain st3 (ys # B) fs"
    by (rule wf_reduced [OF w st3(2)]) (use st3 y B in \<open>auto simp: owned_def\<close>)
  have "\<exists>fs'. wf_chain st2 (ys # B) fs'"
    using or
  proof (elim disjE exE conjE)
    assume "st1 = st"
    then show ?thesis using e st3(1) w3 by auto
  next
    fix z assume z: "xs = [z]" "st1 = (with_heap (set_next z (free_insn st)) st)\<lparr>free_insn := z\<rparr>"
    have f2: "heap st2 = set_next z (free_insn st) (heap st)" "free_insn st2 = z" "levels st2 = levels st3"
      "next_address st2 = next_address st" "cur_insn_uid st2 = cur_insn_uid st" "free_insn st3 = free_insn st"
      using e st3(1) z(2) by (auto simp: end_sequence_def levels_def split: list.splits)
    have zo: "z \<notin> set (owned st3 (ys # B) fs)" "z \<in> set (owned st xss fs)"
      using owned_ok(1) [OF c] y B z(1) st3(3) by (auto simp: owned_def)
    have d: "delay_slots (heap st2 a) = delay_slots (heap st a)" for a unfolding f2 by simp
    have "list_all2 (level_ok (heap st2)) (ys # B) (levels st2)"
      unfolding f2(3) by (rule level_ok_cong [where h = "heap st3"])
        (use st3(2) zo(1) in \<open>auto simp: chains_def owned_def f2 st3(3)\<close>)
    moreover have "free_list (heap st2) (free_insn st2) (z # fs)"
    proof -
      have "free_list (heap st2) (free_insn st) fs = free_list (heap st) (free_insn st) fs"
        by (rule free_list_cong) (use zo(1) in \<open>auto simp: owned_def f2\<close>)
      then show ?thesis using st3(2,3) f2 by (simp add: chains_def)
    qed
    moreover have o: "set (owned st2 (ys # B) (z # fs)) = insert z (set (owned st3 (ys # B) fs))"
      by (auto simp: owned_def slots_def d st3(3))
    moreover have "distinct (owned st2 (ys # B) (z # fs))"
      using owned_ok(1) [OF st3(2)] zo(1) by (auto simp: owned_def slots_def d st3(3))
    ultimately have c2: "chains st2 (ys # B) (z # fs)"
      using owned_ok(2) [OF st3(2)] owned_ok(2) [OF wf_chainD(1) [OF w]] zo(2) f2 st3
      by (auto simp: chains_def list_all_iff)
    have "wf_chain st2 (ys # B) (z # fs)"
    proof (rule wf_reduced [OF w c2])
      show "set (concat (ys # B)) \<subseteq> set (concat xss)" using y B by auto
      show "set (z # fs) \<subseteq> set (owned st xss fs)" using zo(2) by (auto simp: owned_def)
    qed (simp_all add: f2)
    then show ?thesis by blast
  qed
  then show ?thesis using y B x by blast
qed


lemma wf_start: "wf_chain st xss fs \<Longrightarrow> wf_chain (start_sequence st) ([] # xss) fs"
  by (rule wf_reduced [OF _ chains_start_sequence [OF wf_chainD(1)]]) (auto simp: start_sequence_def owned_def)

lemma wf_end:
  assumes w: "wf_chain st xss fs" and e: "end_sequence st = Some st'"
  shows "\<exists>xss'. wf_chain st' xss' fs"
proof -
  obtain xs B' where y: "xss = xs # B'" using wf_nonempty [OF w] by blast
  then have c: "chains st (xs # B') fs" using wf_chainD(1) [OF w] by simp
  then obtain ys B where B: "B' = ys # B"
    using e by (cases B') (auto simp: chains_def levels_def end_sequence_def)
  have "wf_chain st' (ys # B) fs"
    by (rule wf_reduced [OF w])
      (use chains_end_sequence [OF c [unfolded B]] e y B in \<open>auto simp: owned_def\<close>)
  then show ?thesis by blast
qed

definition well_formed :: "emit_state \<Rightarrow> bool" where
  "well_formed st \<longleftrightarrow> (\<exists>xss fs. wf_chain st xss fs)"

lemma emission_preserves:
  assumes "emission st st'" "well_formed st"
  shows "well_formed st'"
proof -
  obtain xss fs where w: "wf_chain st xss fs" using assms(2) unfolding well_formed_def by blast
  obtain xs B where xs: "xss = xs # B" using wf_nonempty [OF w] by blast
  note made = wf_emit_made [OF _ w [unfolded xs]]
  note before = wf_emit_at_before [OF _ w] and after = wf_emit_at_after [OF _ w]
  have "\<exists>xss' fs'. wf_chain st' xss' fs'"
    using assms(1)
  proof cases
    case (em_insn p)
    then show ?thesis using made [OF makes_insn, of p] by (simp add: em_insn) blast
  next
    case (em_jump p)
    then show ?thesis using made [OF makes_others(1), of p] by (simp add: em_jump) blast
  next
    case (em_call p)
    then show ?thesis using made [OF makes_others(2), of p] unfolding em_call emit_call_insn_made by blast
  next
    case em_barrier
    then show ?thesis using made [OF makes_others(3)] by (simp add: emit_barrier_def) blast
  next
    case em_note
    then show ?thesis using wf_emit_note [OF w [unfolded xs]] by auto
  next
    case em_new_label
    then show ?thesis using wf_new_label [OF w] by auto
  next
    case (em_label l)
    then show ?thesis using wf_emit_label [OF w [unfolded xs]] by blast
  next
    case (em_insn_after a p x)
    then show ?thesis using after [OF makes_insn em_insn_after(1)] by auto
  next
    case (em_insn_before a p x)
    then show ?thesis using before [OF makes_insn em_insn_before(1)] by auto
  next
    case (em_jump_after a p x)
    then show ?thesis using after [OF makes_others(1) em_jump_after(1)] by auto
  next
    case (em_jump_before a p x)
    then show ?thesis using before [OF makes_others(1) em_jump_before(1)] by auto
  next
    case (em_barrier_after a x)
    then show ?thesis using after [OF makes_others(3) em_barrier_after(1)] by (auto simp: emit_barrier_after_def)
  next
    case (em_barrier_before a x)
    then show ?thesis using before [OF makes_others(3) em_barrier_before(1)] by (auto simp: emit_barrier_before_def)
  next
    case (em_note_after a sub x)
    then show ?thesis using after [OF makes_others(4) em_note_after(1)] by (auto simp: emit_note_after_def)
  next
    case (em_note_before a sub x)
    then show ?thesis using before [OF makes_others(4) em_note_before(1)] by (auto simp: emit_note_before_def)
  next
    case (em_remove x)
    then show ?thesis using wf_remove [OF w em_remove(1)] by auto
  next
    case (em_delete ys a)
    then show ?thesis using wf_delete [OF w] by blast
  next
    case (em_reorder P S Q a)
    then show ?thesis using wf_reorder [OF w] by blast
  next
    case em_start
    then show ?thesis using wf_start [OF w] by blast
  next
    case em_end
    then show ?thesis using wf_end [OF w] by blast
  next
    case (em_gen b st1)
    then show ?thesis using wf_gen_end [OF w em_gen(1,2)] by auto
  qed
  then show ?thesis unfolding well_formed_def .
qed

lemma well_formed_init: "0 < next_address st \<Longrightarrow> well_formed (init_emit st)"
  unfolding well_formed_def
  by (rule exI [where x = "[[]]"], rule exI [where x = "[]"])
    (simp add: wf_chain_def chains_def init_emit_def levels_def level_ok_def owned_def)

section \<open>Searching\<close>

text \<open>A chain that is walked in one direction: a step leads to the insn next in view, and to
  the null pointer at the end.\<close>

locale walkable =
  fixes step :: "'s \<Rightarrow> nat \<Rightarrow> nat" and view :: "'s \<Rightarrow> nat \<Rightarrow> nat list" and valid :: "'s \<Rightarrow> nat \<Rightarrow> bool"
  assumes at_end: "valid s x \<Longrightarrow> view s x = [] \<Longrightarrow> step s x = 0"
    and going: "valid s x \<Longrightarrow> view s x = y # ys \<Longrightarrow> step s x = y \<and> y \<noteq> 0 \<and> valid s y \<and> view s y = ys"
begin

lemma scan_finds:
  "valid s x \<Longrightarrow> x \<noteq> 0 \<Longrightarrow> scan (step s) stop x = Some (first_of (dropWhile (\<lambda>y. \<not> stop y) (view s x)) 0)"
proof (induction "view s x" arbitrary: x)
  case Nil
  then show ?case using at_end [of s x] by (subst scan.simps) simp
next
  case (Cons y ys)
  then have g: "step s x = y \<and> y \<noteq> 0 \<and> valid s y \<and> view s y = ys" using going [of s x y ys] by simp
  show ?case
  proof (cases "stop y")
    case True
    then show ?thesis using g Cons.hyps(2) [symmetric] Cons.prems by (subst scan.simps) simp
  next
    case False
    then show ?thesis
      using g Cons.hyps Cons.prems Cons.hyps(2) [symmetric] by (subst scan.simps) auto
  qed
qed

lemma scan_null: "scan (step s) stop 0 = Some 0"
  by (simp add: scan.simps)

lemma scan_stops:
  assumes "valid s x" "x \<noteq> 0" "scan (step s) stop x = Some y" "y \<noteq> 0"
  shows "y \<in> set (view s x)" "stop y"
proof -
  have y: "y = first_of (dropWhile (\<lambda>y. \<not> stop y) (view s x)) 0" using scan_finds [OF assms(1,2), of stop] assms(3) by simp
  then have ne: "dropWhile (\<lambda>y. \<not> stop y) (view s x) \<noteq> []" using assms(4) by (metis first_of_simps(1))
  then have "y = hd (dropWhile (\<lambda>y. \<not> stop y) (view s x))" using y by (simp add: ends_of)
  then show "y \<in> set (view s x)" "stop y"
    using ne hd_dropWhile [of "\<lambda>y. \<not> stop y" "view s x"] hd_in_set [OF ne] set_dropWhileD by fastforce+
qed

end

definition view_after :: "nat list \<Rightarrow> nat \<Rightarrow> nat list" where
  "view_after xs x = tl (dropWhile (\<lambda>y. y \<noteq> x) xs)"

definition view_before :: "nat list \<Rightarrow> nat \<Rightarrow> nat list" where
  "view_before xs x = rev (takeWhile (\<lambda>y. y \<noteq> x) xs)"

definition in_chain :: "emit_state \<times> nat list \<Rightarrow> nat \<Rightarrow> bool" where
  "in_chain s x \<longleftrightarrow> linked (heap (fst s)) 0 (snd s) 0 \<and> distinct (snd s) \<and> 0 \<notin> set (snd s) \<and> x \<in> set (snd s)"

lemma view_at: "x \<notin> set pre \<Longrightarrow> view_after (pre @ x # post) x = post" "x \<notin> set pre \<Longrightarrow> view_before (pre @ x # post) x = rev pre"
proof -
  assume "x \<notin> set pre"
  then have "\<And>y. y \<in> set pre \<Longrightarrow> y \<noteq> x" by auto
  then show "view_after (pre @ x # post) x = post" "view_before (pre @ x # post) x = rev pre"
    by (simp_all add: view_after_def view_before_def dropWhile_append2 takeWhile_append2)
qed

lemma in_chain_split:
  assumes "in_chain s x"
  obtains pre post where "snd s = pre @ x # post" "x \<notin> set pre" "distinct (pre @ x # post)"
    "NEXT_INSN (heap (fst s) x) = first_of post 0" "PREV_INSN (heap (fst s) x) = last_of pre 0"
proof -
  obtain pre post where s: "snd s = pre @ x # post" using assms unfolding in_chain_def by (meson split_list)
  then show ?thesis using assms that [OF s] by (simp add: in_chain_def linked_append)
qed

interpretation forward: walkable "\<lambda>s x. NEXT_INSN (heap (fst s) x)" "\<lambda>s. view_after (snd s)" in_chain
proof
  fix s :: "emit_state \<times> nat list" and x y ys
  assume v: "in_chain s x"
  then obtain pre post where s: "snd s = pre @ x # post" "x \<notin> set pre" "distinct (pre @ x # post)"
    "NEXT_INSN (heap (fst s) x) = first_of post 0" by (rule in_chain_split)
  show "NEXT_INSN (heap (fst s) x) = 0" if "view_after (snd s) x = []"
    using that s view_at(1) [OF s(2), of post] by simp
  show "NEXT_INSN (heap (fst s) x) = y \<and> y \<noteq> 0 \<and> in_chain s y \<and> view_after (snd s) y = ys"
    if "view_after (snd s) x = y # ys"
  proof -
    have p: "post = y # ys" using that s view_at(1) [OF s(2), of post] by simp
    then have "view_after (snd s) y = ys" using s view_at(1) [of y "pre @ [x]" ys] by simp
    moreover have "y \<noteq> 0" using v s(1) p by (auto simp: in_chain_def)
    ultimately show ?thesis using v s p by (auto simp: in_chain_def)
  qed
qed

interpretation backward: walkable "\<lambda>s x. PREV_INSN (heap (fst s) x)" "\<lambda>s. view_before (snd s)" in_chain
proof
  fix s :: "emit_state \<times> nat list" and x y ys
  assume v: "in_chain s x"
  then obtain pre post where s: "snd s = pre @ x # post" "x \<notin> set pre" "distinct (pre @ x # post)"
    "PREV_INSN (heap (fst s) x) = last_of pre 0" by (rule in_chain_split)
  show "PREV_INSN (heap (fst s) x) = 0" if "view_before (snd s) x = []"
    using that s view_at(2) [OF s(2), of post] by simp
  show "PREV_INSN (heap (fst s) x) = y \<and> y \<noteq> 0 \<and> in_chain s y \<and> view_before (snd s) y = ys"
    if "view_before (snd s) x = y # ys"
  proof -
    have p: "pre = rev ys @ [y]" using that s view_at(2) [OF s(2), of post] by (simp add: rev_eq_Cons_iff)
    then have "view_before (snd s) y = ys" using s view_at(2) [of y "rev ys" "x # post"] by simp
    moreover have "y \<noteq> 0" using v s(1) p by (auto simp: in_chain_def)
    ultimately show ?thesis using v s p by (auto simp: in_chain_def)
  qed
qed


section \<open>Properties\<close>


definition empty_emit :: emit_state where
  "empty_emit = \<lparr>heap = (\<lambda>a. blank_cell NOTE), next_address = 1, first_insn = 0, last_insn = 0, sequence_rtl_expr = 0,
     sequence_stack = [], cur_insn_uid = 1, free_insn = 0, last_linenum = 0, last_filename = None, label_num = 1, first_label_num = 1, reg_rtx_no = LAST_VIRTUAL_REGISTER + 1, no_new_pseudos = False,
     em_optimize = True, em_function_value_matters = True, no_line_numbers = False, em_reload_completed = False\<rparr>"


lemma insert_after_none: "a \<notin> set ys \<Longrightarrow> insert_after a x ys = ys" "a \<notin> set ys \<Longrightarrow> insert_before a x ys = ys"
  by (induction ys) auto

lemma insert_after_at: "a \<notin> set pre \<Longrightarrow> insert_after a x (pre @ a # post) = pre @ a # x # post"
  "a \<notin> set pre \<Longrightarrow> insert_before a x (pre @ a # post) = pre @ x # a # post"
  by (induction pre) auto

lemma removeAll_insert_after: "x \<noteq> a \<Longrightarrow> x \<notin> set ys \<Longrightarrow> removeAll x (insert_after a x ys) = ys"
  by (induction ys) auto

lemma map_insert_at:
  assumes "distinct (concat (A @ (pre @ a # post) # B))"
  shows "map (insert_after a x) (A @ (pre @ a # post) # B) = A @ (pre @ a # x # post) # B"
    and "map (insert_before a x) (A @ (pre @ a # post) # B) = A @ (pre @ x # a # post) # B"
proof -
  have "a \<notin> set pre" "ys \<in> set A \<union> set B \<Longrightarrow> a \<notin> set ys" for ys using assms by auto
  then show "map (insert_after a x) (A @ (pre @ a # post) # B) = A @ (pre @ a # x # post) # B"
    "map (insert_before a x) (A @ (pre @ a # post) # B) = A @ (pre @ x # a # post) # B"
    by (simp_all add: insert_after_at insert_after_none map_idI)
qed

text \<open>C2. Emitting an insn after an insn of any pending sequence inserts it into exactly that
  list behind that insn and leaves the other lists alone, and removing it restores every
  list.\<close>

theorem emit_after_refines_insert:
  assumes "wf_chain st xss fs" "on_chain st a" "\<not> INSN_DELETED_P (heap st a)"
  shows "\<exists>x st' fs' st2. emit_insn_after (Body p) a st = Some (x, st')
    \<and> wf_chain st' (map (insert_after a x) xss) fs' \<and> ic_pattern (heap st' x) = Body p
    \<and> remove_insn x st' = Some st2 \<and> wf_chain st2 xss fs'"
proof -
  obtain fs1 where n: "new_insn st xss fs1 (fst (make_insn_raw p st)) (snd (make_insn_raw p st))"
    using makes_insn assms(1) unfolding makes_def by blast
  let ?x = "fst (make_insn_raw p st)" and ?st1 = "snd (make_insn_raw p st)"
  have w1: "wf_chain ?st1 xss fs1" and l: "loose ?st1 (owned ?st1 xss fs1) ?x" and
    h1: "\<And>z. z \<in> set (concat xss) \<Longrightarrow> heap ?st1 z = heap st z" using n by (auto simp: new_insn_def list_all_iff)
  obtain A pre post B where s: "xss = A @ (pre @ a # post) # B"
    using on_chain_split [OF wf_chainD(1) [OF assms(1)] assms(2)] .
  have "\<not> (em_optimize ?st1 \<and> INSN_DELETED_P (heap ?st1 a))" using h1 [of a] assms(3) s by simp
  from add_insn_after_at [OF wf_chainD(1) [OF w1, unfolded s] l [unfolded s] this] obtain st' where
    r: "add_insn_after ?x a ?st1 = Some st'" "chains st' (A @ (pre @ a # ?x # post) # B) fs1"
    "heap st' = link_in a ?x (first_of post 0) (heap ?st1)" "cur_insn_uid st' = cur_insn_uid ?st1"
    "next_address st' = next_address ?st1" by blast
  have d: "distinct (concat (A @ (pre @ a # post) # B))"
    using owned_ok(1) [OF wf_chainD(1) [OF w1]] unfolding owned_def s [symmetric] by (simp only: distinct_append)
  have m: "map (insert_after a ?x) xss = A @ (pre @ a # ?x # post) # B"
    unfolding s by (rule map_insert_at(1) [OF d])
  have w': "wf_chain st' (map (insert_after a ?x) xss) fs1"
    unfolding m by (rule wf_inserted [OF n r(2)]) (simp_all add: r s)
  have "?x \<notin> set (concat xss)" using l by (auto simp: loose_def owned_def)
  then have restored: "map (removeAll ?x) (map (insert_after a ?x) xss) = xss"
    unfolding map_map comp_def by (intro map_idI removeAll_insert_after) (use s in auto)
  have "on_chain st' ?x" using on_chain_iff [OF r(2)] by simp
  from wf_remove [OF w' this] obtain st2 where st2: "remove_insn ?x st' = Some st2" "wf_chain st2 xss fs1"
    unfolding restored by blast
  have "ic_pattern (heap ?st1 ?x) = Body p"
    by (simp add: make_insn_raw_def Let_def fill_insn_def split: prod.split)
  moreover have "payload (heap st' ?x) = payload (heap ?st1 ?x)" by (simp add: r)
  ultimately have "ic_pattern (heap st' ?x) = Body p"
    by (cases "heap st' ?x", cases "heap ?st1 ?x") (simp add: payload_def)
  moreover have "emit_insn_after (Body p) a st = Some (?x, st')"
    using r(1) by (simp add: place_def case_prod_beta)
  ultimately show ?thesis using w' st2 by blast
qed


theorem emit_after_refines_insert_witness:
  "\<exists>st1 x st' fs' st2. st1 = snd (emit_barrier (init_emit empty_emit))
    \<and> emit_insn_after (Body pc_rtx) 1 st1 = Some (x, st') \<and> wf_chain st' [insert_after 1 x [1]] fs'
    \<and> remove_insn x st' = Some st2 \<and> wf_chain st2 [[1]] fs'"
proof -
  let ?st1 = "snd (emit_barrier (init_emit empty_emit))"
  have h: "heap ?st1 1 = (blank_cell BARRIER)\<lparr>ic_uid := 1\<rparr>" "first_insn ?st1 = 1" "last_insn ?st1 = 1" "free_insn ?st1 = 0"
    "sequence_stack ?st1 = []" "next_address ?st1 = 2" "cur_insn_uid ?st1 = 2"
    by (simp_all add: emit_barrier_def emit_made_def make_barrier_def rtx_alloc_def init_emit_def empty_emit_def Let_def
        add_insn_def with_heap_def set_next_def set_prev_def blank_cell_def take_uid_def set_cell_def)
  then have w: "wf_chain ?st1 [[1]] []"
    by (simp add: wf_chain_def chains_def levels_def level_ok_def owned_def blank_cell_def delay_slots.simps)
  have "on_chain ?st1 1" using on_chain_iff [OF wf_chainD(1) [OF w]] by simp
  from emit_after_refines_insert [OF w this, of pc_rtx] h(1) show ?thesis
    by (simp add: blank_cell_def) blast
qed

text \<open>Reordering moves a run of insns of the current chain behind another insn, wherever
  that insn stands, and the chain stays well formed.\<close>

theorem reorder_moves_run:
  assumes "wf_chain st xss fs" "current_insns st = Some (P @ S @ Q)" "S \<noteq> []" "a \<in> set (P @ Q)"
  shows "current_insns (reorder_insns (hd S) (last S) a st) = Some (splice_after a S (P @ Q))
    \<and> wf_chain (reorder_insns (hd S) (last S) a st) (splice_after a S (P @ Q) # tl xss) fs"
proof -
  obtain B where "xss = (P @ S @ Q) # B" "wf_chain (reorder_insns (hd S) (last S) a st) (splice_after a S (P @ Q) # B) fs"
    using wf_reorder [OF assms] by blast
  then show ?thesis using chains_current_insns [OF wf_chainD(1)] by auto
qed

definition three_insns :: emit_state where
  "three_insns = (let st = init_emit empty_emit; st = snd (emit_barrier st); st = snd (emit_barrier st) in snd (emit_barrier st))"

lemma emit_barrier_fields:
  "fst (emit_barrier st) = next_address st" "next_address (snd (emit_barrier st)) = next_address st + 1"
  "cur_insn_uid (snd (emit_barrier st)) = cur_insn_uid st + 1"
  "code_of (snd (emit_barrier st)) z = (if z = next_address st then BARRIER else code_of st z)"
proof -
  let ?st1 = "take_uid (next_address st) (snd (rtx_alloc BARRIER st))"
  have e: "emit_barrier st = (next_address st, add_insn (next_address st) ?st1)"
    by (simp add: emit_barrier_def emit_made_def make_barrier_def rtx_alloc_def Let_def)
  then show "fst (emit_barrier st) = next_address st" "next_address (snd (emit_barrier st)) = next_address st + 1"
    "cur_insn_uid (snd (emit_barrier st)) = cur_insn_uid st + 1"
    by (simp_all add: add_insn_fields(3,4)) (simp_all add: rtx_alloc_def Let_def)
  show "code_of (snd (emit_barrier st)) z = (if z = next_address st then BARRIER else code_of st z)"
    using code_payload [OF payload_add_insn, of "next_address st" ?st1 z]
    by (simp add: e) (simp add: rtx_alloc_def Let_def blank_cell_def)
qed

lemma wf_empty: "wf_chain (init_emit empty_emit) [[]] []"
  by (simp add: wf_chain_def chains_def init_emit_def levels_def level_ok_def owned_def empty_emit_def)

lemma wf_three: "\<exists>fs. wf_chain three_insns [[1, 2, 3]] fs"
proof -
  let ?a = "init_emit empty_emit"
  note step = wf_emit_made [OF makes_others(3), folded emit_barrier_def]
  have f: "fst (make_barrier st) = next_address st" for st using emit_barrier_fields(1) [of st]
    by (simp add: emit_barrier_def emit_made_def case_prod_beta)
  have n: "next_address ?a = 1" by (simp add: init_emit_def empty_emit_def)
  obtain fs1 where 1: "wf_chain (snd (emit_barrier ?a)) [[1]] fs1"
    using step [OF wf_empty] by (auto simp: f n)
  obtain fs2 where 2: "wf_chain (snd (emit_barrier (snd (emit_barrier ?a)))) [[1, 2]] fs2"
    using step [OF 1] by (auto simp: f n emit_barrier_fields(2) numeral_2_eq_2)
  show ?thesis
    using step [OF 2] by (auto simp: f n emit_barrier_fields(2) three_insns_def Let_def numeral_2_eq_2 numeral_3_eq_3)
qed

lemma code_three: "code_of three_insns 1 = BARRIER" "code_of three_insns 2 = BARRIER" "code_of three_insns 3 = BARRIER"
  by (simp_all add: three_insns_def Let_def emit_barrier_fields) (simp_all add: init_emit_def empty_emit_def)

theorem reorder_moves_run_witness:
  "current_insns (reorder_insns 1 2 3 three_insns) = Some [3, 1, 2]"
proof -
  obtain fs where w: "wf_chain three_insns [[1, 2, 3]] fs" using wf_three by blast
  have "current_insns three_insns = Some ([] @ [1, 2] @ [3])"
    using chains_current_insns [OF wf_chainD(1) [OF w]] by simp
  from reorder_moves_run [OF w this] show ?thesis by simp
qed

text \<open>C26. On a well-formed chain every search ends, and it returns the first insn in its
  direction that satisfies its test, or the null pointer when there is none.\<close>

theorem searches_end:
  assumes "wf_chain st ((pre @ x # post) # B) fs"
  shows "next_nonnote_insn st x = Some (first_of (dropWhile (\<lambda>y. \<not> nonnote_insn st y) post) 0)
    \<and> prev_nonnote_insn st x = Some (first_of (dropWhile (\<lambda>y. \<not> nonnote_insn st y) (rev pre)) 0)
    \<and> next_real_insn st x = Some (first_of (dropWhile (\<lambda>y. \<not> real_insn st y) post) 0)
    \<and> prev_real_insn st x = Some (first_of (dropWhile (\<lambda>y. \<not> real_insn st y) (rev pre)) 0)
    \<and> next_active_insn st x = Some (first_of (dropWhile (\<lambda>y. \<not> active_insn st y) post) 0)
    \<and> prev_active_insn st x = Some (first_of (dropWhile (\<lambda>y. \<not> active_insn st y) (rev pre)) 0)
    \<and> next_label st x = Some (first_of (dropWhile (\<lambda>y. \<not> label_insn st y) post) 0)
    \<and> prev_label st x = Some (first_of (dropWhile (\<lambda>y. \<not> label_insn st y) (rev pre)) 0)"
proof -
  let ?s = "(st, pre @ x # post)"
  have c: "chains st ([] @ (pre @ x # post) # B) fs" using wf_chainD(1) [OF assms] by simp
  have l: "linked (heap st) 0 (pre @ x # post) 0" using c by (rule chains_split)
  have v: "in_chain ?s x" "x \<noteq> 0" using l chains_facts(1) [OF c] by (auto simp: in_chain_def apart_def)
  have "x \<notin> set pre" using chains_facts(1) [OF c] by (auto simp: apart_def)
  then have n: "view_after (snd ?s) x = post" "view_before (snd ?s) x = rev pre" by (simp_all add: view_at)
  note f = forward.scan_finds [OF v, unfolded n] and b = backward.scan_finds [OF v, unfolded n]
  show ?thesis
    unfolding next_nonnote_insn_def prev_nonnote_insn_def next_real_insn_def prev_real_insn_def
      next_active_insn_def prev_active_insn_def next_label_def prev_label_def
    using f b by simp
qed

theorem searches_end_witness:
  "next_real_insn three_insns 2 = Some 0 \<and> prev_nonnote_insn three_insns 2 = Some 1"
proof -
  obtain fs where "wf_chain three_insns (([1] @ 2 # [3]) # []) fs" using wf_three by auto
  from searches_end [OF this] show ?thesis
    by (simp add: nonnote_insn_def real_insn_def code_three code_three(1) [unfolded One_nat_def])
qed

lemma link_in_formulas:
  "PREV_INSN (link_in a x n h y) =
     (if n \<noteq> 0 \<and> (y = n \<or> (delay_slots (h n) \<noteq> [] \<and> y = hd (delay_slots (h n)))) then x
      else if y = x then a else PREV_INSN (h y))"
  "NEXT_INSN (link_in a x n h y) =
     (if a \<noteq> 0 \<and> (y = a \<or> (delay_slots (h a) \<noteq> [] \<and> y = last (delay_slots (h a)))) then x
      else if y = x then n else NEXT_INSN (h y))"
  by (auto simp: link_in_def Let_def seq_links)

lemma slots_disjoint:
  assumes "distinct (slots h L)" "u \<in> set L" "v \<in> set L" "u \<noteq> v" "y \<in> set (delay_slots (h u))"
  shows "y \<notin> set (delay_slots (h v))"
  using assms
proof (induction L)
  case (Cons z L)
  then show ?case using slot_in [of _ L y h] by auto
qed simp

lemma ends_of_slots: "ds \<noteq> [] \<Longrightarrow> hd ds \<in> set ds" "ds \<noteq> [] \<Longrightarrow> last ds \<in> set ds"
  by simp_all

text \<open>When an insn is added after another, around branches with filled delay slots or between
  them, the outer insns of the delay slots keep carrying the links of their branch.\<close>

theorem linking_keeps_sealed:
  assumes "chains st (A @ (pre @ a # post) # B) fs" "all_sealed st (A @ (pre @ a # post) # B)"
    and "loose st (owned st (A @ (pre @ a # post) # B) fs) x" "delay_slots (heap st x) = []"
    and "add_insn_after x a st = Some st'"
  shows "all_sealed st' (A @ (pre @ a # x # post) # B)"
proof -
  let ?n = "first_of post 0"
  define L where "L = concat (A @ (pre @ a # post) # B)"
  have own: "owned st (A @ (pre @ a # post) # B) fs = L @ slots (heap st) L @ fs" by (simp only: owned_def L_def)
  have g: "\<not> (em_optimize st \<and> INSN_DELETED_P (heap st a))"
    using assms(5) by (auto simp: add_insn_after_def Let_def split: if_splits)
  have h: "heap st' = link_in a x ?n (heap st)"
    using add_insn_after_at [OF assms(1,3) g] assms(5) by auto
  have d: "distinct (L @ slots (heap st) L @ fs)" and nz: "\<forall>y \<in> set (L @ slots (heap st) L @ fs). 0 < y"
    using owned_ok [OF assms(1)] unfolding own by (auto simp: list_all_iff)
  have x: "x \<notin> set L" "x \<notin> set (slots (heap st) L)" using assms(3) unfolding own loose_def by auto
  have a: "a \<in> set L" "a \<noteq> 0" using chains_facts(2) [OF assms(1), of a] by (simp_all add: L_def)
  have n: "?n = 0 \<or> ?n \<in> set L" using first_of_in(1) [of post 0] by (auto simp: L_def)
  have kept: "sealed (heap st') z" if z: "z \<in> set L" for z
  proof (cases "delay_slots (heap st z) = []")
    case False
    let ?ds = "delay_slots (heap st z)"
    have seal: "PREV_INSN (heap st (hd ?ds)) = PREV_INSN (heap st z)" "NEXT_INSN (heap st (last ?ds)) = NEXT_INSN (heap st z)"
      using assms(2) z False unfolding all_sealed_def list_all_iff sealed_def L_def by blast+
    have z0: "z \<noteq> 0" using nz z by auto
    have sl: "y \<in> set (slots (heap st) L)" if "y \<in> set ?ds" for y using that z by (auto simp: slots_def)
    have ends: "hd ?ds \<in> set ?ds" "last ?ds \<in> set ?ds" using False by simp_all
    have off: "y \<notin> set L" "y \<noteq> x" if "y \<in> set ?ds" for y
      using sl [OF that] d x by auto
    have on: "z \<noteq> x" "z \<notin> set (slots (heap st) L)" using z d x by auto
    have other: "y \<notin> set (delay_slots (heap st u))" if "y \<in> set ?ds" "u \<in> set L" "u \<noteq> z" for y u
      by (rule slots_disjoint [of "heap st" L z u y]) (use d z that in simp_all)
    have notslot: "z \<notin> set (delay_slots (heap st u))" if "u \<in> set L" for u
      using on(2) that by (auto simp: slots_def)
    have "PREV_INSN (heap st' (hd ?ds)) = PREV_INSN (heap st' z)"
    proof (cases "z = ?n")
      case True
      then show ?thesis using False z0 unfolding h link_in_formulas by simp
    next
      case zn: False
      have "hd ?ds \<notin> touched (heap st) ?n" "z \<notin> touched (heap st) ?n"
        using other [OF ends(1) _ zn [symmetric]] off(1) [OF ends(1)] notslot [of ?n] n zn by (auto simp: touched_def)
      then show ?thesis using off(2) [OF ends(1)] on(1) seal(1) unfolding h by (simp add: link_in_links)
    qed
    moreover have "NEXT_INSN (heap st' (last ?ds)) = NEXT_INSN (heap st' z)"
    proof (cases "z = a")
      case True
      then show ?thesis using a False unfolding h link_in_formulas by auto
    next
      case za: False
      have "last ?ds \<notin> touched (heap st) a" "z \<notin> touched (heap st) a"
        using other [OF ends(2) a(1) za [symmetric]] off(1) [OF ends(2)] notslot [OF a(1)] a za by (auto simp: touched_def)
      then show ?thesis using off(2) [OF ends(2)] on(1) seal(2) unfolding h by (simp add: link_in_links)
    qed
    ultimately show ?thesis unfolding sealed_def by (simp add: h)
  qed (simp add: sealed_def h)
  have "sealed (heap st') x" using assms(4) by (simp add: sealed_def h)
  with kept show ?thesis unfolding all_sealed_def list_all_iff L_def by auto
qed


definition slot_example :: emit_state where
  "slot_example = empty_emit\<lparr>heap := (\<lambda>a. if a = 1 then (blank_cell INSN)\<lparr>ic_pattern := Delay_seq [2, 3]\<rparr> else blank_cell INSN),
     next_address := 5, first_insn := 1, last_insn := 1\<rparr>"

theorem linking_keeps_sealed_witness:
  "\<exists>st'. add_insn_after 4 1 slot_example = Some st' \<and> all_sealed st' [[1, 4]]"
proof -
  have c: "chains slot_example ([] @ ([] @ 1 # []) # []) []"
    by (simp add: chains_def levels_def level_ok_def owned_def slot_example_def empty_emit_def delay_slots.simps blank_cell_def)
  have s: "all_sealed slot_example ([] @ ([] @ 1 # []) # [])"
    by (simp add: all_sealed_def sealed_def slot_example_def delay_slots.simps blank_cell_def)
  have l: "loose slot_example (owned slot_example ([] @ ([] @ 1 # []) # []) []) 4" "delay_slots (heap slot_example 4) = []"
    by (simp_all add: loose_def owned_def slot_example_def delay_slots.simps blank_cell_def)
  have "\<not> (em_optimize slot_example \<and> INSN_DELETED_P (heap slot_example 1))"
    by (simp add: slot_example_def blank_cell_def)
  from add_insn_after_at [OF c l(1) this] obtain st' where "add_insn_after 4 1 slot_example = Some st'" by blast
  with linking_keeps_sealed [OF c s l this] show ?thesis by simp
qed

end
