(* ===== verification/Emission_Items.thy ===== *)
theory Emission_Items
  imports Insn_Emission
begin

text \<open>
  What an emission adds, for the clients of gcc/emit-rtl.c: the list of items, insn patterns and labels,
  that it appends to the current sequence. Emissions compose, and a sequence that is started,
  filled, packed by \<open>gen_sequence\<close>, ended and then emitted adds what was filled in; this is
  how the generated expanders of a machine description emit code.
\<close>

section \<open>Items\<close>

datatype item = It_insn rtx | It_jump rtx | It_call rtx | It_label nat | It_other rtx_code

definition item_of :: "heap \<Rightarrow> nat \<Rightarrow> item" where
  "item_of h x =
     (case ic_pattern (h x) of
        Delay_seq ys \<Rightarrow> It_other (ic_code (h x))
      | Body p \<Rightarrow>
          if ic_code (h x) = INSN then It_insn p else if ic_code (h x) = JUMP_INSN then It_jump p
          else if ic_code (h x) = CALL_INSN then It_call p else if ic_code (h x) = CODE_LABEL then It_label x
          else It_other (ic_code (h x)))"

lemma pattern_payload: "payload c = payload d \<Longrightarrow> ic_pattern c = ic_pattern d"
  by (cases c, cases d) (simp add: payload_def)

lemma item_payload: "payload (h' x) = payload (h x) \<Longrightarrow> item_of h' x = item_of h x"
  unfolding item_of_def using code_payload [of "h' x" "h x"] pattern_payload [of "h' x" "h x"] by (auto split: body.split)

definition emits :: "emit_state \<Rightarrow> item list \<Rightarrow> emit_state \<Rightarrow> bool" where
  "emits st is st' \<longleftrightarrow> (\<forall>xs B fs. wf_chain st (xs # B) fs \<longrightarrow>
     (\<exists>ys fs'. wf_chain st' ((xs @ ys) # B) fs' \<and> map (item_of (heap st')) ys = is
        \<and> list_all (\<lambda>z. payload (heap st' z) = payload (heap st z)) (concat (xs # B))))"

lemma emitsI:
  assumes "\<And>xs B fs. wf_chain st (xs # B) fs \<Longrightarrow>
     \<exists>ys fs'. wf_chain st' ((xs @ ys) # B) fs' \<and> map (item_of (heap st')) ys = is
        \<and> list_all (\<lambda>z. payload (heap st' z) = payload (heap st z)) (concat (xs # B))"
  shows "emits st is st'"
  using assms unfolding emits_def by blast

lemma emitsE:
  assumes "emits st is st'" "wf_chain st (xs # B) fs"
  obtains ys fs' where "wf_chain st' ((xs @ ys) # B) fs'" "map (item_of (heap st')) ys = is"
    "list_all (\<lambda>z. payload (heap st' z) = payload (heap st z)) (concat (xs # B))"
  using assms unfolding emits_def by blast

lemma emits_refl: "emits st [] st"
proof (rule emitsI)
  fix xs B fs assume "wf_chain st (xs # B) fs"
  then show "\<exists>ys fs'. wf_chain st ((xs @ ys) # B) fs' \<and> map (item_of (heap st)) ys = []
      \<and> list_all (\<lambda>z. payload (heap st z) = payload (heap st z)) (concat (xs # B))"
    by (intro exI [where x = "[]"] exI [where x = fs]) (auto simp: list_all_iff)
qed

lemma emits_trans:
  assumes "emits st is1 st1" "emits st1 is2 st2"
  shows "emits st (is1 @ is2) st2"
proof (rule emitsI)
  fix xs B fs assume "wf_chain st (xs # B) fs"
  with assms(1) obtain ys1 fs1 where 1: "wf_chain st1 ((xs @ ys1) # B) fs1" "map (item_of (heap st1)) ys1 = is1"
    "list_all (\<lambda>z. payload (heap st1 z) = payload (heap st z)) (concat (xs # B))" by (rule emitsE)
  from assms(2) 1(1) obtain ys2 fs2 where 2: "wf_chain st2 (((xs @ ys1) @ ys2) # B) fs2" "map (item_of (heap st2)) ys2 = is2"
    "list_all (\<lambda>z. payload (heap st2 z) = payload (heap st1 z)) (concat ((xs @ ys1) # B))" by (rule emitsE)
  have "map (item_of (heap st2)) ys1 = is1"
    unfolding 1(2) [symmetric] by (rule map_cong [OF refl], rule item_payload) (use 2(3) in \<open>auto simp: list_all_iff\<close>)
  moreover have "list_all (\<lambda>z. payload (heap st2 z) = payload (heap st z)) (concat (xs # B))"
    unfolding list_all_iff
  proof
    fix z assume z: "z \<in> set (concat (xs # B))"
    then have "z \<in> set (concat ((xs @ ys1) # B))" by auto
    with 2(3) have "payload (heap st2 z) = payload (heap st1 z)" unfolding list_all_iff by (rule bspec)
    also have "\<dots> = payload (heap st z)" using 1(3) z unfolding list_all_iff by (rule bspec)
    finally show "payload (heap st2 z) = payload (heap st z)" .
  qed
  ultimately have "wf_chain st2 ((xs @ ys1 @ ys2) # B) fs2 \<and> map (item_of (heap st2)) (ys1 @ ys2) = is1 @ is2
      \<and> list_all (\<lambda>z. payload (heap st2 z) = payload (heap st z)) (concat (xs # B))" using 2 by simp
  then show "\<exists>ys fs'. wf_chain st2 ((xs @ ys) # B) fs' \<and> map (item_of (heap st2)) ys = is1 @ is2
      \<and> list_all (\<lambda>z. payload (heap st2 z) = payload (heap st z)) (concat (xs # B))" by blast
qed

text \<open>Changes that no list sees.\<close>

lemma emits_silent:
  assumes "heap st' = heap st" "levels st' = levels st" "free_insn st' = free_insn st"
    "next_address st' = next_address st" "cur_insn_uid st \<le> cur_insn_uid st'"
  shows "emits st [] st'"
proof (rule emitsI)
  fix xs B fs assume "wf_chain st (xs # B) fs"
  then have "wf_chain st' (xs # B) fs" using assms by (rule wf_irrelevant)
  then show "\<exists>ys fs'. wf_chain st' ((xs @ ys) # B) fs' \<and> map (item_of (heap st')) ys = []
      \<and> list_all (\<lambda>z. payload (heap st' z) = payload (heap st z)) (concat (xs # B))"
    using assms(1) by (intro exI [where x = "[]"] exI [where x = fs]) (auto simp: list_all_iff)
qed

text \<open>Changes to the notes of insns.\<close>

section \<open>Emitting one insn\<close>

lemma emits_made:
  assumes m: "makes mk"
  shows "emits st [item_of (heap (snd (mk st))) (fst (mk st))] (snd (emit_made (mk st)))"
proof (rule emitsI)
  fix xs B fs assume w: "wf_chain st (xs # B) fs"
  obtain fs' where n: "new_insn st (xs # B) fs' (fst (mk st)) (snd (mk st))"
    using m w unfolding makes_def by blast
  then have w1: "wf_chain (snd (mk st)) (xs # B) fs'" and l: "loose (snd (mk st)) (owned (snd (mk st)) (xs # B) fs') (fst (mk st))"
    and h: "\<And>z. z \<in> set (concat (xs # B)) \<Longrightarrow> heap (snd (mk st)) z = heap st z"
    by (auto simp: new_insn_def list_all_iff)
  have "wf_chain (add_insn (fst (mk st)) (snd (mk st))) ((xs @ [fst (mk st)]) # B) fs'"
    by (rule wf_inserted [OF n chains_add_insn [OF wf_chainD(1) [OF w1] l]])
      (simp_all add: payload_add_insn add_insn_fields)
  moreover have "snd (emit_made (mk st)) = add_insn (fst (mk st)) (snd (mk st))"
    by (simp add: emit_made_def case_prod_beta)
  moreover have "item_of (heap (add_insn (fst (mk st)) (snd (mk st)))) (fst (mk st)) = item_of (heap (snd (mk st))) (fst (mk st))"
    by (rule item_payload) (rule payload_add_insn)
  ultimately show "\<exists>ys fs'. wf_chain (snd (emit_made (mk st))) ((xs @ ys) # B) fs'
      \<and> map (item_of (heap (snd (emit_made (mk st))))) ys = [item_of (heap (snd (mk st))) (fst (mk st))]
      \<and> list_all (\<lambda>z. payload (heap (snd (emit_made (mk st))) z) = payload (heap st z)) (concat (xs # B))"
    using h by (intro exI [where x = "[fst (mk st)]"] exI [where x = fs']) (auto simp: payload_add_insn list_all_iff)
qed

lemma made_items:
  "item_of (heap (snd (make_insn_raw p st))) (fst (make_insn_raw p st)) = It_insn p"
  "item_of (heap (snd (make_jump_insn_raw p st))) (fst (make_jump_insn_raw p st)) = It_jump p"
  "item_of (heap (snd (make_call_insn_raw p st))) (fst (make_call_insn_raw p st)) = It_call p"
  by (simp_all add: item_of_def make_insn_raw_def make_jump_insn_raw_def make_call_insn_raw_def rtx_alloc_def
      Let_def fill_insn_def blank_cell_def)

lemma emits_insn: "emits st [It_insn p] (snd (emit_insn (Body p) st))"
  using emits_made [OF makes_insn, of st p] by (simp add: made_items)

lemma emits_jump: "emits st [It_jump p] (snd (emit_jump_insn (Body p) st))"
  using emits_made [OF makes_others(1), of st p] by (simp add: made_items)

lemma emits_call: "emits st [It_call p] (snd (emit_call_insn (Body p) st))"
  using emits_made [OF makes_others(2), of st p] unfolding emit_call_insn_made by (simp only: made_items)

lemma emits_new_label: "emits st [] (snd (gen_label_rtx st))"
proof (rule emitsI)
  fix xs B fs assume w: "wf_chain st (xs # B) fs"
  have "heap (snd (gen_label_rtx st)) z = heap st z" if "z \<in> set (concat (xs # B))" for z
  proof -
    have "z < next_address st"
      using that owned_ok(2) [OF wf_chainD(1) [OF w]] by (auto simp: list_all_iff owned_def)
    then show ?thesis by (simp add: gen_label_rtx_def rtx_alloc_def Let_def)
  qed
  then show "\<exists>ys fs'. wf_chain (snd (gen_label_rtx st)) ((xs @ ys) # B) fs' \<and> map (item_of (heap (snd (gen_label_rtx st)))) ys = []
      \<and> list_all (\<lambda>z. payload (heap (snd (gen_label_rtx st)) z) = payload (heap st z)) (concat (xs # B))"
    using wf_new_label [OF w] by (intro exI [where x = "[]"] exI [where x = fs]) (auto simp: list_all_iff)
qed

definition label_ready :: "emit_state \<Rightarrow> nat \<Rightarrow> bool" where
  "label_ready st l \<longleftrightarrow> code_of st l = CODE_LABEL \<and> ic_uid (heap st l) = 0 \<and> 0 < l \<and> l < next_address st
     \<and> ic_pattern (heap st l) = Body NULL_RTX"

lemma label_ready_new: "0 < next_address st \<Longrightarrow> label_ready (snd (gen_label_rtx st)) (fst (gen_label_rtx st))"
  by (simp add: label_ready_def gen_label_rtx_def rtx_alloc_def Let_def blank_cell_def)

lemma emits_label: "label_ready st l \<Longrightarrow> emits st [It_label l] (snd (emit_label l st))"
proof (rule emitsI)
  fix xs B fs assume r: "label_ready st l" and w: "wf_chain st (xs # B) fs"
  then have w': "wf_chain (snd (emit_label l st)) ((xs @ [l]) # B) fs"
    using wf_emit_label [OF w, of l] by (auto simp: label_ready_def)
  have e: "snd (emit_label l st) = add_insn l (take_uid l st)"
    using r by (simp add: emit_label_def label_ready_def)
  have "item_of (heap (snd (emit_label l st))) l = item_of (heap (take_uid l st)) l"
    unfolding e by (rule item_payload) (rule payload_add_insn)
  also have "\<dots> = It_label l"
    using r by (simp add: item_of_def label_ready_def)
  finally have "item_of (heap (snd (emit_label l st))) l = It_label l" .
  moreover have "payload (heap (snd (emit_label l st)) z) = payload (heap st z)" if "z \<in> set (concat (xs # B))" for z
  proof -
    have "0 < ic_uid (heap st z)" by (rule wf_chainD(4) [OF w]) (use that in \<open>auto simp: owned_def\<close>)
    then have "z \<noteq> l" using r by (auto simp: label_ready_def)
    then show ?thesis unfolding e by (simp add: payload_add_insn)
  qed
  ultimately show "\<exists>ys fs'. wf_chain (snd (emit_label l st)) ((xs @ ys) # B) fs' \<and> map (item_of (heap (snd (emit_label l st)))) ys = [It_label l]
      \<and> list_all (\<lambda>z. payload (heap (snd (emit_label l st)) z) = payload (heap st z)) (concat (xs # B))"
    using w' by (intro exI [where x = "[l]"] exI [where x = fs]) (auto simp: list_all_iff)
qed

section \<open>Emitting a sequence\<close>

text \<open>Insns that are on no list are linked one after the other.\<close>

lemma chains_relink:
  assumes "chains st (xs # B) fs" "distinct ys" "set ys \<inter> set (owned st (xs # B) fs) = {}"
    and "\<And>y. y \<in> set ys \<Longrightarrow> 0 < y \<and> y < next_address st \<and> delay_slots (heap st y) = []"
  shows "chains (fold add_insn ys st) ((xs @ ys) # B) fs"
  using assms
proof (induction ys arbitrary: xs st)
  case Nil
  then show ?case by simp
next
  case (Cons y ys)
  have l: "loose st (owned st (xs # B) fs) y"
    using owned_ok(1) [OF Cons.prems(1)] Cons.prems(3,4) by (auto simp: loose_def)
  have d: "delay_slots (heap (add_insn y st) z) = delay_slots (heap st z)" for z
    by (rule delay_slots_payload) (rule payload_add_insn)
  have "set (owned (add_insn y st) ((xs @ [y]) # B) fs) \<subseteq> insert y (set (owned st (xs # B) fs))"
    using Cons.prems(4) [of y] by (auto simp: owned_def slots_def d)
  then have "set ys \<inter> set (owned (add_insn y st) ((xs @ [y]) # B) fs) = {}" using Cons.prems(2,3) by auto
  then have "chains (fold add_insn ys (add_insn y st)) (((xs @ [y]) @ ys) # B) fs"
    using Cons.prems(2,4) by (intro Cons.IH [OF chains_add_insn [OF Cons.prems(1) l]]) (simp_all add: add_insn_fields d)
  then show ?case by simp
qed

lemma fold_add_insn:
  "payload (heap (fold add_insn ys st) z) = payload (heap st z)"
  "cur_insn_uid (fold add_insn ys st) = cur_insn_uid st" "next_address (fold add_insn ys st) = next_address st"
proof -
  show "payload (heap (fold add_insn ys st) z) = payload (heap st z)"
    by (induction ys arbitrary: st) (simp_all add: payload_add_insn)
  show "cur_insn_uid (fold add_insn ys st) = cur_insn_uid st" "next_address (fold add_insn ys st) = next_address st"
    by (induction ys arbitrary: st) (simp_all add: add_insn_fields)
qed

text \<open>What a generated expander does around its body.\<close>

definition expand_sequence :: "(emit_state \<Rightarrow> emit_state option) \<Rightarrow> emit_state \<Rightarrow> (body \<times> emit_state) option" where
  "expand_sequence body st = do {
     st \<leftarrow> body (start_sequence st);
     (b, st) \<leftarrow> gen_sequence st;
     st \<leftarrow> end_sequence st;
     Some (b, st)
   }"

lemma item_cases:
  "item_of h x = It_insn p \<Longrightarrow> ic_pattern (h x) = Body p \<and> ic_code (h x) = INSN"
  "item_of h x = It_jump p \<Longrightarrow> ic_pattern (h x) = Body p \<and> ic_code (h x) = JUMP_INSN"
  "item_of h x = It_call p \<Longrightarrow> ic_pattern (h x) = Body p \<and> ic_code (h x) = CALL_INSN"
  by (auto simp: item_of_def split: body.splits if_splits)

lemma sequence_emits_at:
  assumes b: "body (start_sequence st) = Some st2" "emits (start_sequence st) is st2" and w: "wf_chain st (xs # B) fs"
    and plain: "\<And>c. It_other c \<notin> set is" and single: "\<And>p. is \<noteq> [It_jump p]" "\<And>p. is \<noteq> [It_call p]"
  shows "\<exists>b st4. expand_sequence body st = Some (b, st4)
     \<and> (\<exists>ys fs'. wf_chain (snd (emit_insn b st4)) ((xs @ ys) # B) fs' \<and> map (item_of (heap (snd (emit_insn b st4)))) ys = is
        \<and> list_all (\<lambda>z. payload (heap (snd (emit_insn b st4)) z) = payload (heap st z)) (concat (xs # B)))"
proof -
  from b(2) wf_start [OF w] obtain ys fs2 where y: "wf_chain st2 (ys # xs # B) fs2" "map (item_of (heap st2)) ys = is"
    "list_all (\<lambda>z. payload (heap st2 z) = payload (heap (start_sequence st) z)) (concat ([] # xs # B))"
    by (rule emitsE) auto
  have keep: "payload (heap st2 z) = payload (heap st z)" if "z \<in> set (concat (xs # B))" for z
    using y(3) that by (simp add: list_all_iff start_sequence_def)
  have cur: "current_insns st2 = Some ys" by (rule chains_current_insns [OF wf_chainD(1) [OF y(1)]])
  let ?x = "first_insn st2"
  let ?single = "length ys = 1 \<and> \<not> ic_frame_related (heap st2 ?x)
     \<and> (code_of st2 ?x = INSN \<or> code_of st2 ?x = JUMP_INSN \<or> (code_of st2 ?x = CALL_INSN \<and> ic_usage (heap st2 ?x) = NULL_RTX))"
  have g: "gen_sequence st2 = Some (if ?single
       then (ic_pattern (heap st2 ?x), (with_heap (set_next ?x (free_insn st2)) st2)\<lparr>free_insn := ?x\<rparr>)
       else (Delay_seq ys, st2))"
    using cur by (simp add: gen_sequence_def current_insns_def [symmetric] Let_def)
  have ends: "\<exists>st4. end_sequence st3 = Some st4 \<and> heap st4 = heap st3 \<and> levels st4 = tl (levels st3)
       \<and> free_insn st4 = free_insn st3 \<and> next_address st4 = next_address st3 \<and> cur_insn_uid st4 = cur_insn_uid st3"
    if "sequence_stack st3 = sequence_stack st2" for st3
    using wf_chainD(1) [OF y(1)] that by (auto simp: chains_def levels_def end_sequence_def list_all2_Cons1 split: list.split)
  show ?thesis
  proof (cases ?single)
    case True
    define st3 where "st3 = (with_heap (set_next ?x (free_insn st2)) st2)\<lparr>free_insn := ?x\<rparr>"
    obtain st4 where e: "end_sequence st3 = Some st4" "heap st4 = heap st3" using ends [of st3] by (auto simp: st3_def)
    have ys: "ys = [?x]" using True chains_current(1) [OF wf_chainD(1) [OF y(1)]] by (auto simp: length_Suc_conv)
    then have i: "is = [item_of (heap st2) ?x]" using y(2) by simp
    then obtain p where p: "ic_pattern (heap st2 ?x) = Body p" "is = [It_insn p]"
      using plain single True by (cases "ic_pattern (heap st2 ?x)") (auto simp: item_of_def split: if_splits)
    have gs: "gen_sequence st2 = Some (Body p, st3)" using g unfolding if_P [OF True] p(1) st3_def [symmetric] .
    have "\<exists>fs4. wf_chain st4 (xs # B) fs4" using wf_gen_end [OF y(1) gs e(1)] by auto
    then obtain fs4 where w4: "wf_chain st4 (xs # B) fs4" ..
    have k4: "payload (heap st4 z) = payload (heap st2 z)" for z by (simp add: e(2) st3_def)
    obtain zs fs5 where z: "wf_chain (snd (emit_insn (Body p) st4)) ((xs @ zs) # B) fs5"
      "map (item_of (heap (snd (emit_insn (Body p) st4)))) zs = [It_insn p]"
      "list_all (\<lambda>z. payload (heap (snd (emit_insn (Body p) st4)) z) = payload (heap st4 z)) (concat (xs # B))"
      using emits_insn w4 by (rule emitsE)
    have "expand_sequence body st = Some (Body p, st4)"
      using b(1) gs e(1) by (simp add: expand_sequence_def)
    moreover have "list_all (\<lambda>z. payload (heap (snd (emit_insn (Body p) st4)) z) = payload (heap st z)) (concat (xs # B))"
      using z(3) keep k4 unfolding list_all_iff by metis
    ultimately show ?thesis using z(1,2) p(2)
      by (intro exI [where x = "Body p"] exI [where x = st4]) metis
  next
    case False
    obtain st4 where e: "end_sequence st2 = Some st4" "heap st4 = heap st2" "levels st4 = tl (levels st2)"
       "free_insn st4 = free_insn st2" "next_address st4 = next_address st2" "cur_insn_uid st4 = cur_insn_uid st2"
      using ends [of st2] by auto
    have gs: "gen_sequence st2 = Some (Delay_seq ys, st2)" using g False by (simp only: if_False)
    let ?st5 = "fold add_insn ys st4"
    have c4: "chains st4 (xs # B) fs2" using chains_end_sequence [OF wf_chainD(1) [OF y(1)]] e(1) by auto
    have yc: "set ys \<inter> set (concat (xs # B)) = {}" "distinct ys" "set ys \<subseteq> set (owned st2 (ys # xs # B) fs2)"
      using owned_ok(1) [OF wf_chainD(1) [OF y(1)]] by (auto simp: owned_def)
    have "owned st2 (ys # xs # B) fs2 = ys @ concat (xs # B) @ slots (heap st2) ys @ slots (heap st2) (concat (xs # B)) @ fs2"
      "owned st4 (xs # B) fs2 = concat (xs # B) @ slots (heap st2) (concat (xs # B)) @ fs2"
      by (simp_all add: owned_def slots_def e(2))
    then have "set ys \<inter> set (owned st4 (xs # B) fs2) = {}"
      using owned_ok(1) [OF wf_chainD(1) [OF y(1)]] by (simp only: distinct_append set_append) blast
    moreover have "0 < z \<and> z < next_address st4 \<and> delay_slots (heap st4 z) = []" if "z \<in> set ys" for z
    proof -
      have "item_of (heap st2) z \<in> set is" using that y(2) by auto
      then have "delay_slots (heap st2 z) = []"
        using plain by (cases "ic_pattern (heap st2 z)") (auto simp: item_of_def delay_slots.simps)
      then show ?thesis using that yc(3) owned_ok(2) [OF wf_chainD(1) [OF y(1)]] e by (auto simp: list_all_iff)
    qed
    ultimately have c5: "chains ?st5 ((xs @ ys) # B) fs2" using yc(2) by (intro chains_relink [OF c4]) auto
    have pay: "payload (heap ?st5 z) = payload (heap st2 z)" for z by (simp add: fold_add_insn e(2))
    have "wf_chain ?st5 ((xs @ ys) # B) fs2"
      by (rule wf_reduced [OF y(1) c5 pay]) (auto simp: fold_add_insn e owned_def)
    moreover have "map (item_of (heap ?st5)) ys = is"
      unfolding y(2) [symmetric] by (rule map_cong [OF refl], rule item_payload [OF pay])
    moreover have "list_all (\<lambda>z. payload (heap ?st5 z) = payload (heap st z)) (concat (xs # B))"
      using keep pay by (simp only: list_all_iff) blast
    moreover have "expand_sequence body st = Some (Delay_seq ys, st4)"
      using b(1) gs e(1) by (simp add: expand_sequence_def)
    moreover have "snd (emit_insn (Delay_seq ys) st4) = ?st5" by (simp add: emit_elements_def)
    ultimately show ?thesis by (intro exI [where x = "Delay_seq ys"] exI [where x = st4]) metis
  qed
qed

lemma emits_sequence:
  assumes "body (start_sequence st) = Some st2" "emits (start_sequence st) is st2" "well_formed st"
    and "\<And>c. It_other c \<notin> set is" "\<And>p. is \<noteq> [It_jump p]" "\<And>p. is \<noteq> [It_call p]"
  obtains b st4 where "expand_sequence body st = Some (b, st4)" "emits st is (snd (emit_insn b st4))"
proof -
  obtain xs B fs where "wf_chain st (xs # B) fs" using assms(3) wf_nonempty unfolding well_formed_def by metis
  from sequence_emits_at [where body = body and st = st, OF assms(1,2) this assms(4-6)] obtain b st4 where e: "expand_sequence body st = Some (b, st4)"
    by blast
  have "emits st is (snd (emit_insn b st4))"
  proof (rule emitsI)
    fix xs B fs assume "wf_chain st (xs # B) fs"
    from sequence_emits_at [where body = body and st = st, OF assms(1,2) this assms(4-6)] show "\<exists>ys fs'. wf_chain (snd (emit_insn b st4)) ((xs @ ys) # B) fs'
        \<and> map (item_of (heap (snd (emit_insn b st4)))) ys = is
        \<and> list_all (\<lambda>z. payload (heap (snd (emit_insn b st4)) z) = payload (heap st z)) (concat (xs # B))"
      unfolding e by auto
  qed
  with e that show thesis by blast
qed

text \<open>C3. A sequence that is started, filled, packed, ended and emitted adds what it was filled with: when
  the body of an expander, run after \<open>start_sequence\<close>, appends a list of insns, jumps, calls and
  labels to the empty sequence, then \<open>gen_sequence\<close> and \<open>end_sequence\<close> succeed, and emitting the
  result appends the same items to the chain that was current before, whether one insn was
  packed as its bare pattern, and its cell recycled, or several as a \<open>SEQUENCE\<close>. Excepted are a
  lone jump and a lone call, whose patterns \<open>emit_insn\<close> would put into plain insns.\<close>

theorem sequence_round_trip:
  assumes "body (start_sequence st) = Some st2" "emits (start_sequence st) is st2" "well_formed st"
    and "\<forall>c. It_other c \<notin> set is" "\<forall>p. is \<noteq> [It_jump p] \<and> is \<noteq> [It_call p]"
  shows "\<exists>b st4. expand_sequence body st = Some (b, st4) \<and> emits st is (snd (emit_insn b st4))"
  using assms by (metis emits_sequence)

text \<open>Two insns in a sequence.\<close>

definition two_uses :: "emit_state \<Rightarrow> emit_state option" where
  "two_uses st = Some (snd (emit_insn (Body (GEN_INT 2)) (snd (emit_insn (Body (GEN_INT 1)) st))))"

lemma two_uses_emits: "emits st [It_insn (GEN_INT 1), It_insn (GEN_INT 2)] (the (two_uses st))"
  using emits_trans [OF emits_insn [of st "GEN_INT 1"] emits_insn] by (simp only: two_uses_def option.sel append.simps)

theorem sequence_round_trip_witness:
  "\<exists>b st4. expand_sequence two_uses (init_emit empty_emit) = Some (b, st4)
     \<and> emits (init_emit empty_emit) [It_insn (GEN_INT 1), It_insn (GEN_INT 2)] (snd (emit_insn b st4))"
proof (rule sequence_round_trip)
  show "two_uses (start_sequence (init_emit empty_emit)) = Some (the (two_uses (start_sequence (init_emit empty_emit))))"
    by (simp add: two_uses_def)
  show "emits (start_sequence (init_emit empty_emit)) [It_insn (GEN_INT 1), It_insn (GEN_INT 2)]
      (the (two_uses (start_sequence (init_emit empty_emit))))" by (rule two_uses_emits)
  show "well_formed (init_emit empty_emit)" unfolding well_formed_def using wf_empty by blast
qed simp_all

end
