(* ===== verification/Move_Expand.thy ===== *)
theory Move_Expand
  imports Emission_Items Emit_Parts Rtl_Notes
begin

text \<open>
  Emitting moves before register allocation: \<open>emit_move_insn\<close> (gcc/expr.c), \<open>force_reg\<close>
  (gcc/explow.c) and the move expanders of the port (gcc/config/z80/z80.md), which run on the
  insn chain. An expander builds its code in a sequence of its own; the pattern or the
  sequence it returns is then emitted.

  Parameters, in the record \<open>move_env\<close>: the address that \<open>memory_address\<close> finds for a memory
  reference whose address is not valid, with the code it emits, and the part of
  \<open>emit_move_insn_1\<close> for modes without a move pattern, which moves parts of a value. The
  operands hold no queued increments, on which \<open>protect_from_queue\<close> has nothing to do.
\<close>

section \<open>Reading an insn\<close>

text \<open>The expression that the accessors of rtl.h see in a cell; its format is \<open>iuueiee\<close>.\<close>

definition insn_view :: "insn_cell \<Rightarrow> rtx" where
  "insn_view c = Rtx (ic_code c) VOIDmode no_flags
     [FInt (ic_uid c), FInsn (Some (PREV_INSN c)), FInsn (Some (NEXT_INSN c)),
      FExp (case ic_pattern c of Body p \<Rightarrow> p | Delay_seq ys \<Rightarrow> NULL_RTX), FInt (ic_insn_code c),
      FExp (ic_links c), FExp (ic_notes c)]"

definition REG_EQUAL :: nat where "REG_EQUAL = 5"
definition REG_UNUSED :: nat where "REG_UNUSED = 10"

definition live_sets :: "rtx \<Rightarrow> rtx list" where
  "live_sets insn = filter (\<lambda>elt. GET_CODE elt = SET
     \<and> (find_reg_note insn REG_UNUSED (SET_DEST elt) = NULL_RTX \<or> side_effects_p elt)) (XVEC (PATTERN insn) 0)"

definition single_set :: "rtx \<Rightarrow> rtx" where
  "single_set insn =
     (if GET_RTX_CLASS (GET_CODE insn) \<noteq> CHR ''i'' then NULL_RTX
      else if GET_CODE (PATTERN insn) = SET then PATTERN insn
      else if GET_CODE (PATTERN insn) = PARALLEL then
        (case live_sets insn of [elt] \<Rightarrow> elt | _ \<Rightarrow> NULL_RTX)
      else NULL_RTX)"

definition multiple_sets :: "rtx \<Rightarrow> bool" where
  "multiple_sets insn \<longleftrightarrow> GET_RTX_CLASS (GET_CODE insn) = CHR ''i''
     \<and> GET_CODE (PATTERN insn) = PARALLEL
     \<and> 1 < length (filter (\<lambda>elt. GET_CODE elt = SET) (XVEC (PATTERN insn) 0))"

section \<open>Patterns\<close>

definition gen_move_set :: "rtx \<Rightarrow> rtx \<Rightarrow> rtx" where
  "gen_move_set x y = gen_rtx_fmt_ee SET VOIDmode x y"

definition gen_scratch_move :: "machine_mode \<Rightarrow> rtx \<Rightarrow> rtx \<Rightarrow> rtx" where
  "gen_scratch_move scratch_mode x y = Rtx PARALLEL VOIDmode no_flags
     [FVec [gen_move_set x y, gen_rtx_fmt_e CLOBBER VOIDmode (Rtx SCRATCH scratch_mode no_flags [FNone 0])]]"

definition gen_storeqi :: "rtx \<Rightarrow> rtx \<Rightarrow> rtx" where "gen_storeqi = gen_scratch_move QImode"
definition gen_movsi :: "rtx \<Rightarrow> rtx \<Rightarrow> rtx" where "gen_movsi = gen_scratch_move HImode"

section \<open>Moves\<close>

record move_env =
  mv_parts :: emit_env
  mv_memory_address :: "machine_mode \<Rightarrow> rtx \<Rightarrow> emit_state \<Rightarrow> rtx \<times> emit_state"
  mv_force_addr :: bool  \<comment> \<open>\<open>flag_force_addr\<close>\<close>
  mv_move_parts :: "rtx \<Rightarrow> rtx \<Rightarrow> emit_state \<Rightarrow> (nat \<times> emit_state) option"

abbreviation mv_reload :: "move_env \<Rightarrow> reload_state" where "mv_reload env \<equiv> ee_reload (mv_parts env)"

type_synonym forcing = "machine_mode \<Rightarrow> rtx \<Rightarrow> emit_state \<Rightarrow> (rtx \<times> emit_state) option"

text \<open>The bodies of the expanders \<open>movhi\<close> and \<open>movqi\<close>; \<open>force\<close> is \<open>force_reg\<close>.\<close>

definition movhi_body :: "forcing \<Rightarrow> rtx \<Rightarrow> rtx \<Rightarrow> emit_state \<Rightarrow> emit_state option" where
  "movhi_body force x y st = do {
     (y, st) \<leftarrow> (if GET_CODE x = MEM \<and> (GET_CODE y = MEM \<or> GET_CODE y = CONST_INT) then force HImode y st
                 else if IS_STACK_PUSH x \<and> GET_CODE y \<noteq> REG then force HImode y st
                 else Some (y, st));
     Some (snd (emit_insn (Body (gen_move_set x y)) st))
   }"

definition movqi_body :: "forcing \<Rightarrow> reload_state \<Rightarrow> rtx \<Rightarrow> rtx \<Rightarrow> emit_state \<Rightarrow> emit_state option" where
  "movqi_body force rs x y st = do {
     (y, st) \<leftarrow> (if GET_CODE x = MEM \<and> GET_CODE y = CONST_INT \<and> symbolic_memory_operand x QImode
                 then force QImode y st else Some (y, st));
     (y, st) \<leftarrow> (if GET_CODE x = MEM \<and> GET_CODE y = MEM then force QImode y st else Some (y, st));
     Some (snd (emit_insn (Body
       (if symbolic_memory_operand x QImode \<and> \<not> reload_in_progress rs then gen_storeqi x y
        else if symbolic_memory_operand y QImode \<and> \<not> reload_in_progress rs then gen_storeqi x y
        else gen_move_set x y)) st))
   }"

text \<open>\<open>GEN_FCN (mov_optab->handlers[mode].insn_code) (x, y)\<close>; the port has move patterns for
  \<open>QImode\<close>, \<open>HImode\<close>, \<open>SImode\<close> and \<open>SFmode\<close>.\<close>

definition has_move :: "machine_mode \<Rightarrow> bool" where
  "has_move mode \<longleftrightarrow> mode = QImode \<or> mode = HImode \<or> mode = SImode \<or> mode = SFmode"

definition gen_move :: "forcing \<Rightarrow> move_env \<Rightarrow> rtx \<Rightarrow> rtx \<Rightarrow> emit_state \<Rightarrow> (body \<times> emit_state) option" where
  "gen_move force env x y =
     (if GET_MODE x = QImode then expand_sequence (movqi_body force (mv_reload env) x y)
      else if GET_MODE x = HImode then expand_sequence (movhi_body force x y)
      else (\<lambda>st. Some (Body (gen_movsi x y), st)))"

definition emit_move_insn_1 :: "forcing \<Rightarrow> move_env \<Rightarrow> rtx \<Rightarrow> rtx \<Rightarrow> emit_state \<Rightarrow> (nat \<times> emit_state) option" where
  "emit_move_insn_1 force env x y st =
     (if has_move (GET_MODE x) then do { (b, st) \<leftarrow> gen_move force env x y st; Some (emit_insn b st) }
      else mv_move_parts env x y st)"

text \<open>An operand of a move as a valid memory reference; a push is allowed as a destination.\<close>

definition valid_reference :: "move_env \<Rightarrow> bool \<Rightarrow> rtx \<Rightarrow> bool" where
  "valid_reference env push x \<longleftrightarrow> GET_CODE x = MEM \<longrightarrow>
     (memory_address_p (ee_rule (mv_parts env)) (GET_MODE x) (XEXP x 0) \<or> (push \<and> push_operand x (GET_MODE x)))
     \<and> \<not> (mv_force_addr env \<and> CONSTANT_ADDRESS_P (XEXP x 0))"

definition validated :: "move_env \<Rightarrow> bool \<Rightarrow> rtx \<Rightarrow> emit_state \<Rightarrow> (rtx \<times> emit_state) option" where
  "validated env push x st =
     (if valid_reference env push x then Some (x, st)
      else do {
        (a, st) \<leftarrow> Some (if reloading (mv_reload env) then (XEXP x 0, st)
                        else mv_memory_address env (GET_MODE x) (XEXP x 0) st);
        x \<leftarrow> change_address ((mv_parts env)\<lparr>ee_memory_address := \<lambda>_ _. a\<rparr>) x VOIDmode (XEXP x 0);
        Some (x, st)
      })"

definition emit_move_with :: "forcing \<Rightarrow> move_env \<Rightarrow> rtx \<Rightarrow> rtx \<Rightarrow> emit_state \<Rightarrow> (nat \<times> emit_state) option" where
  "emit_move_with force env x y st =
     (if GET_MODE x = BLKmode \<or> (GET_MODE y \<noteq> GET_MODE x \<and> GET_MODE y \<noteq> VOIDmode) then None
      else do {
        (x, st) \<leftarrow> validated env True x st;
        (y, st) \<leftarrow> validated env False y st;
        emit_move_insn_1 force env x y st
      })"

text \<open>The equivalence that the move records for a constant. A note that is there already gets
  a new datum.\<close>

function set_note_datum :: "rtx \<Rightarrow> rtx \<Rightarrow> rtx \<Rightarrow> rtx" where
  "set_note_datum note x l =
     (if l = NULL_RTX then NULL_RTX
      else if l = note then set_XEXP l 0 x
      else set_XEXP l 1 (set_note_datum note x (XEXP l 1)))"
  by pat_completeness auto
termination by (relation "measure (size \<circ> snd \<circ> snd)") (simp_all add: size_XEXP)

declare set_note_datum.simps [simp del]

definition note_constant :: "nat \<Rightarrow> rtx \<Rightarrow> rtx \<Rightarrow> emit_state \<Rightarrow> emit_state" where
  "note_constant insn temp x st =
     (let v = insn_view (heap st insn); note = find_reg_note v REG_EQUAL NULL_RTX
      in if CONSTANT_P x \<and> single_set v \<noteq> NULL_RTX \<and> SET_DEST (single_set v) = temp then
           set_cell insn (\<lambda>c. c\<lparr>ic_notes :=
             (if note \<noteq> NULL_RTX then set_note_datum note x (ic_notes c)
              else gen_rtx_fmt_ee EXPR_LIST (note_mode REG_EQUAL) x (ic_notes c))\<rparr>) st
         else st)"

text \<open>Moving into a fresh register calls no forcing, so the recursion between the two is
  one level deep.\<close>

definition force_reg_with :: "(rtx \<Rightarrow> rtx \<Rightarrow> emit_state \<Rightarrow> (nat \<times> emit_state) option) \<Rightarrow> forcing" where
  "force_reg_with move mode x st =
     (if GET_CODE x = REG then Some (x, st)
      else do {
        (temp, st) \<leftarrow> gen_reg_rtx mode st;
        (insn, st) \<leftarrow> move temp x st;
        Some (temp, note_constant insn temp x st)
      })"

definition no_forcing :: forcing where "no_forcing mode x st = None"

definition force_reg :: "move_env \<Rightarrow> forcing" where
  "force_reg env = force_reg_with (emit_move_with no_forcing env)"

definition emit_move_insn :: "move_env \<Rightarrow> rtx \<Rightarrow> rtx \<Rightarrow> emit_state \<Rightarrow> (nat \<times> emit_state) option" where
  "emit_move_insn env = emit_move_with (force_reg env) env"

section \<open>What is emitted\<close>

lemma emit_insn_last: "fst (emit_insn b st) = last_insn (snd (emit_insn b st))"
proof (cases b)
  case (Body p)
  then show ?thesis by (simp add: emit_made_def case_prod_beta add_insn_def Let_def)
next
  case (Delay_seq xs)
  then show ?thesis
    by (cases xs rule: rev_cases) (simp_all add: emit_elements_def add_insn_def Let_def)
qed

lemma wf_relabelled:
  assumes w: "wf_chain st xss fs" and f: "\<And>c. PREV_INSN (f c) = PREV_INSN c" "\<And>c. NEXT_INSN (f c) = NEXT_INSN c"
    "\<And>c. delay_slots (f c) = delay_slots c" "\<And>c. ic_uid (f c) = ic_uid c"
  shows "wf_chain (set_cell x f st) xss fs"
proof -
  have c: "chains (set_cell x f st) xss fs" and o: "owned (set_cell x f st) xss fs = owned st xss fs"
    by (rule chains_frame [OF wf_chainD(1) [OF w]]; simp add: set_cell_def with_heap_def f levels_def)+
  have u: "ic_uid (heap (set_cell x f st) z) = ic_uid (heap st z)" for z by (simp add: set_cell_def with_heap_def f)
  show ?thesis using w c unfolding wf_chain_def o u by (simp add: set_cell_def with_heap_def)
qed

lemma emits_noted:
  assumes e: "emits st is st'" "is \<noteq> []"
    and f: "\<And>c. PREV_INSN (f c) = PREV_INSN c" "\<And>c. NEXT_INSN (f c) = NEXT_INSN c" "\<And>c. ic_uid (f c) = ic_uid c"
      "\<And>c. ic_code (f c) = ic_code c" "\<And>c. ic_pattern (f c) = ic_pattern c"
  shows "emits st is (set_cell (last_insn st') f st')"
proof (rule emitsI)
  fix xs B fs assume w: "wf_chain st (xs # B) fs"
  let ?x = "last_insn st'" and ?h = "heap (set_cell (last_insn st') f st')"
  from e(1) w obtain ys fs' where y: "wf_chain st' ((xs @ ys) # B) fs'" "map (item_of (heap st')) ys = is"
    "list_all (\<lambda>z. payload (heap st' z) = payload (heap st z)) (concat (xs # B))" by (rule emitsE)
  have "ys \<noteq> []" using y(2) e(2) by auto
  then have l: "?x \<in> set ys" using chains_current(2) [OF wf_chainD(1) [OF y(1)]] by (simp add: ends_of)
  have d: "delay_slots (f c) = delay_slots c" for c using f(4,5) [of c] by (simp add: delay_slots.simps)
  have "distinct (xs @ ys @ concat B)" using owned_ok(1) [OF wf_chainD(1) [OF y(1)]] by (auto simp: owned_def)
  then have "?x \<notin> set (concat (xs # B))" using l by auto
  then have "list_all (\<lambda>z. payload (?h z) = payload (heap st z)) (concat (xs # B))"
    using y(3) unfolding list_all_iff by (simp add: set_cell_def with_heap_def)
  moreover have "item_of ?h = item_of (heap st')"
    by (rule ext) (simp add: item_of_def set_cell_def with_heap_def f split: body.split)
  then have "map (item_of ?h) ys = is" using y(2) by simp
  moreover have "wf_chain (set_cell ?x f st') ((xs @ ys) # B) fs'" by (rule wf_relabelled [OF y(1)]) (simp_all add: f d)
  ultimately show "\<exists>ys fs'. wf_chain (set_cell ?x f st') ((xs @ ys) # B) fs' \<and> map (item_of ?h) ys = is
      \<and> list_all (\<lambda>z. payload (?h z) = payload (heap st z)) (concat (xs # B))" by blast
qed

lemma emits_note_constant:
  "emits st is st' \<Longrightarrow> is \<noteq> [] \<Longrightarrow> emits st is (note_constant (last_insn st') temp x st')"
  unfolding note_constant_def Let_def by (auto intro!: emits_noted)

lemma well_formed_start: "well_formed st \<Longrightarrow> well_formed (start_sequence st)"
  unfolding well_formed_def using wf_start by blast

lemma gen_reg_simple:
  "has_move mode \<Longrightarrow> \<not> no_new_pseudos st \<Longrightarrow>
    gen_reg_rtx mode st = Some (gen_rtx_REG mode (reg_rtx_no st), st\<lparr>reg_rtx_no := reg_rtx_no st + 1\<rparr>)"
  by (auto simp: has_move_def gen_reg_rtx_def new_pseudo_def)

lemma well_formed_emits: "emits st is st' \<Longrightarrow> well_formed st \<Longrightarrow> well_formed st'"
  unfolding well_formed_def by (metis emitsE wf_nonempty)

text \<open>Emission leaves the pseudo registers alone, and the labels that wait for their place.\<close>

definition calm :: "emit_state \<Rightarrow> emit_state \<Rightarrow> bool" where
  "calm st st' \<longleftrightarrow> reg_rtx_no st' = reg_rtx_no st \<and> no_new_pseudos st' = no_new_pseudos st
     \<and> (\<forall>l. label_ready st l \<longrightarrow> label_ready st' l)"

lemma pseudo_fields [simp]:
  "reg_rtx_no (set_cell x f st) = reg_rtx_no st" "no_new_pseudos (set_cell x f st) = no_new_pseudos st"
  "reg_rtx_no (take_uid x st) = reg_rtx_no st" "no_new_pseudos (take_uid x st) = no_new_pseudos st"
  "reg_rtx_no (with_heap g st) = reg_rtx_no st" "no_new_pseudos (with_heap g st) = no_new_pseudos st"
  by (simp_all add: set_cell_def with_heap_def take_uid_def)

lemma calm_refl: "calm st st"
  by (simp add: calm_def)

lemma calm_trans: "calm st st1 \<Longrightarrow> calm st1 st2 \<Longrightarrow> calm st st2"
  by (simp add: calm_def)

lemma label_ready_payload:
  "(\<And>z. payload (heap st' z) = payload (heap st z)) \<Longrightarrow> next_address st \<le> next_address st' \<Longrightarrow> label_ready st l \<Longrightarrow> label_ready st' l"
  unfolding label_ready_def using code_payload uid_payload pattern_payload by (metis less_le_trans)

lemma calm_payload:
  "reg_rtx_no st' = reg_rtx_no st \<Longrightarrow> no_new_pseudos st' = no_new_pseudos st \<Longrightarrow> next_address st \<le> next_address st'
    \<Longrightarrow> (\<And>z. payload (heap st' z) = payload (heap st z)) \<Longrightarrow> calm st st'"
  unfolding calm_def using label_ready_payload by blast

lemma calm_add: "calm st (add_insn x st)"
  by (rule calm_payload) (simp_all add: payload_add_insn add_insn_fields, simp_all add: add_insn_def with_heap_def Let_def)

lemma calm_fold: "calm st (fold add_insn xs st)"
proof (induction xs arbitrary: st)
  case Nil
  show ?case by (simp add: calm_refl)
next
  case (Cons x xs)
  then show ?case using calm_trans [OF calm_add Cons] by simp
qed

lemma ready_not_owned: "label_ready st l \<Longrightarrow> wf_chain st xss fs \<Longrightarrow> l \<notin> set (owned st xss fs)"
  using wf_chainD(4) by (fastforce simp: label_ready_def)

lemma calm_new_cell:
  "well_formed st \<Longrightarrow> calm st (snd (make_insn_raw p st))"
  "calm st (snd (make_jump_insn_raw p st))"
proof -
  show "calm st (snd (make_jump_insn_raw p st))"
    by (auto simp: calm_def label_ready_def make_jump_insn_raw_def rtx_alloc_def Let_def)
  assume "well_formed st"
  then obtain xss fs where w: "wf_chain st xss fs" unfolding well_formed_def by blast
  have "free_insn st = 0 \<or> free_insn st \<in> set fs"
    using wf_chainD(1) [OF w] by (cases fs) (auto simp: chains_def)
  then have f: "free_insn st \<noteq> l \<or> free_insn st = 0" if "label_ready st l" for l
    using ready_not_owned [OF that w] by (auto simp: owned_def)
  have z: "l \<noteq> 0" "l \<noteq> next_address st" if "label_ready st l" for l using that by (auto simp: label_ready_def)
  show "calm st (snd (make_insn_raw p st))"
  proof (cases "free_insn st \<noteq> 0 \<and> em_function_value_matters st")
    case True
    then show ?thesis using f z by (auto simp: calm_def label_ready_def make_insn_raw_def Let_def)
  next
    case False
    then show ?thesis using z by (auto simp: calm_def label_ready_def make_insn_raw_def rtx_alloc_def Let_def)
  qed
qed

lemma calm_emit_insn: "well_formed st \<Longrightarrow> calm st (snd (emit_insn b st))"
proof (cases b)
  case (Body p)
  assume "well_formed st"
  with Body calm_trans [OF calm_new_cell(1) calm_add] show ?thesis by (simp add: emit_made_def case_prod_beta)
next
  case (Delay_seq xs)
  then show ?thesis by (simp add: emit_elements_def calm_fold)
qed

lemma calm_emit_jump: "calm st (snd (emit_jump_insn (Body p) st))"
  using calm_trans [OF calm_new_cell(2) calm_add] by (simp add: emit_made_def case_prod_beta)

lemma calm_note: "calm st (note_constant insn temp x st)"
  by (auto simp: note_constant_def Let_def calm_def label_ready_def)

lemma calm_start: "calm st (start_sequence st)"
  by (rule calm_payload) (simp_all add: start_sequence_def)

lemma expand_calm:
  assumes "expand_sequence body st = Some (b, st4)" "body (start_sequence st) = Some st2" "well_formed st2"
  shows "calm st2 (snd (emit_insn b st4))"
proof -
  from assms obtain st3 where g: "gen_sequence st2 = Some (b, st3)" "end_sequence st3 = Some st4"
    by (auto simp: expand_sequence_def bind_eq_Some_conv split: prod.splits)
  have "calm st2 st3"
    by (rule calm_payload) (use g(1) in \<open>auto simp: gen_sequence_def Let_def split: Option.bind_splits if_splits\<close>)
  moreover have "calm st3 st4"
    by (rule calm_payload) (use g(2) in \<open>auto simp: end_sequence_def split: list.splits\<close>)
  moreover have "well_formed st4" using emission_preserves [OF em_gen] g assms(3) by blast
  ultimately show ?thesis using calm_trans calm_emit_insn by blast
qed

text \<open>The code of a load into a register, and of a move in general, as a list of items.\<close>

definition load_pattern :: "reload_state \<Rightarrow> rtx \<Rightarrow> rtx \<Rightarrow> rtx" where
  "load_pattern rs x y =
     (if GET_MODE x = QImode \<and> symbolic_memory_operand y QImode \<and> \<not> reload_in_progress rs then gen_storeqi x y
      else if GET_MODE x = QImode \<or> GET_MODE x = HImode then gen_move_set x y else gen_movsi x y)"

definition store_pattern :: "reload_state \<Rightarrow> rtx \<Rightarrow> rtx \<Rightarrow> rtx" where
  "store_pattern rs x y =
     (if GET_MODE x = QImode \<and> symbolic_memory_operand x QImode \<and> \<not> reload_in_progress rs then gen_storeqi x y
      else load_pattern rs x y)"

definition goes_through_register :: "rtx \<Rightarrow> rtx \<Rightarrow> bool" where
  "goes_through_register x y \<longleftrightarrow> GET_CODE x = MEM
     \<and> (if GET_MODE x = QImode then GET_CODE y = MEM \<or> (GET_CODE y = CONST_INT \<and> symbolic_memory_operand x QImode)
        else GET_MODE x = HImode \<and> (GET_CODE y = MEM \<or> GET_CODE y = CONST_INT \<or> (IS_STACK_PUSH x \<and> GET_CODE y \<noteq> REG)))"

definition move_items :: "reload_state \<Rightarrow> int \<Rightarrow> rtx \<Rightarrow> rtx \<Rightarrow> item list" where
  "move_items rs n x y =
     (if goes_through_register x y then
        (let temp = gen_rtx_REG (GET_MODE x) n
         in [It_insn (load_pattern rs temp y), It_insn (store_pattern rs x temp)])
      else [It_insn (store_pattern rs x y)])"

lemma not_symbolic_reg: "GET_CODE x = REG \<Longrightarrow> \<not> symbolic_memory_operand x m"
  by (simp add: symbolic_memory_operand.simps)

lemma valid_reg: "GET_CODE x = REG \<Longrightarrow> valid_reference env push x"
  by (simp add: valid_reference_def)

lemma validated_valid: "valid_reference env push x \<Longrightarrow> validated env push x st = Some (x, st)"
  by (simp add: validated_def)

lemma not_push_reg: "GET_CODE x = REG \<Longrightarrow> \<not> IS_STACK_PUSH x"
  by (simp add: IS_STACK_PUSH_def)

lemma mode_distinct: "QImode \<noteq> HImode" "BLKmode \<noteq> QImode" "BLKmode \<noteq> HImode" "BLKmode \<noteq> SImode" "BLKmode \<noteq> SFmode"
  "SImode \<noteq> QImode" "SImode \<noteq> HImode" "SFmode \<noteq> QImode" "SFmode \<noteq> HImode"
  by simp_all

lemma load_emits:
  assumes x: "GET_CODE x = REG" "has_move (GET_MODE x)" and y: "GET_MODE y = GET_MODE x \<or> GET_MODE y = VOIDmode"
    "valid_reference env False y" and w: "well_formed st"
  obtains st' where "emit_move_with f env x y st = Some (last_insn st', st')"
    "emits st [It_insn (load_pattern (mv_reload env) x y)] st'" "calm st st'"
proof -
  have b: "GET_MODE x \<noteq> BLKmode" using x(2) by (auto simp: has_move_def)
  let ?p = "load_pattern (mv_reload env) x y"
  have e: "emit_move_with f env x y st = do { (b, st) \<leftarrow> gen_move f env x y st; Some (emit_insn b st) }"
    using b y x by (auto simp: emit_move_with_def valid_reg validated_valid emit_move_insn_1_def)
  have "\<exists>b st4. gen_move f env x y st = Some (b, st4) \<and> emits st [It_insn ?p] (snd (emit_insn b st4))
      \<and> calm st (snd (emit_insn b st4))"
  proof (cases "GET_MODE x = QImode \<or> GET_MODE x = HImode")
    case True
    define body where "body = (if GET_MODE x = QImode then movqi_body f (mv_reload env) x y else movhi_body f x y)"
    have bd: "body (start_sequence st) = Some (snd (emit_insn (Body ?p) (start_sequence st)))"
      using True x(1) by (auto simp: body_def movqi_body_def movhi_body_def load_pattern_def not_symbolic_reg not_push_reg)
    obtain bb st4 where "expand_sequence body st = Some (bb, st4)" "emits st [It_insn ?p] (snd (emit_insn bb st4))"
      using emits_sequence [where body = body and st = st, OF bd emits_insn w] by auto
    note bb = this
    have "calm st (snd (emit_insn (Body ?p) (start_sequence st)))"
      by (rule calm_trans [OF calm_start calm_emit_insn [OF well_formed_start [OF w]]])
    moreover have "well_formed (snd (emit_insn (Body ?p) (start_sequence st)))"
      by (rule well_formed_emits [OF emits_insn well_formed_start [OF w]])
    ultimately have "calm st (snd (emit_insn bb st4))"
      using bb(1) expand_calm [where body = body and st = st, OF _ bd] calm_trans by blast
    then show ?thesis using True bb by (auto simp: gen_move_def body_def split: if_splits)
  next
    case False
    then show ?thesis using emits_insn calm_emit_insn [OF w] by (auto simp: gen_move_def load_pattern_def)
  qed
  then obtain b st4 where g: "gen_move f env x y st = Some (b, st4)" "emits st [It_insn ?p] (snd (emit_insn b st4))"
    "calm st (snd (emit_insn b st4))" by blast
  have "emit_insn b st4 = (last_insn (snd (emit_insn b st4)), snd (emit_insn b st4))"
    by (rule prod_eqI) (simp_all add: emit_insn_last)
  then show thesis using g e by (intro that [of "snd (emit_insn b st4)"]) simp_all
qed

lemma emits_new_reg: "emits st [] (st\<lparr>reg_rtx_no := n\<rparr>)"
  by (rule emits_silent) (simp_all add: levels_def)

lemma well_formed_new_reg: "well_formed st \<Longrightarrow> well_formed (st\<lparr>reg_rtx_no := n\<rparr>)"
  using well_formed_emits emits_new_reg by blast

lemma force_emits:
  assumes m: "has_move mode" and y: "GET_MODE y = mode \<or> GET_MODE y = VOIDmode" "valid_reference env False y" "GET_CODE y \<noteq> REG"
    and w: "well_formed st" "\<not> no_new_pseudos st"
  obtains st' where "force_reg env mode y st = Some (gen_rtx_REG mode (reg_rtx_no st), st')"
    "emits st [It_insn (load_pattern (mv_reload env) (gen_rtx_REG mode (reg_rtx_no st)) y)] st'"
    "calm (st\<lparr>reg_rtx_no := reg_rtx_no st + 1\<rparr>) st'"
proof -
  let ?t = "gen_rtx_REG mode (reg_rtx_no st)" and ?st1 = "st\<lparr>reg_rtx_no := reg_rtx_no st + 1\<rparr>"
  from load_emits [of ?t y env ?st1 no_forcing] m y w(1) obtain st' where
    l: "emit_move_with no_forcing env ?t y ?st1 = Some (last_insn st', st')" "emits ?st1 [It_insn (load_pattern (mv_reload env) ?t y)] st'"
    "calm ?st1 st'" by (auto simp: well_formed_new_reg)
  have "emits st ([] @ [It_insn (load_pattern (mv_reload env) ?t y)]) st'"
    by (rule emits_trans [OF emits_new_reg l(2)])
  then have "emits st [It_insn (load_pattern (mv_reload env) ?t y)] (note_constant (last_insn st') ?t y st')"
    by (intro emits_note_constant) simp_all
  moreover have "force_reg env mode y st = Some (?t, note_constant (last_insn st') ?t y st')"
    using l(1) y(3) m w(2) by (simp add: force_reg_def force_reg_with_def gen_reg_simple)
  moreover have "calm ?st1 (note_constant (last_insn st') ?t y st')"
    using l(3) calm_note by (rule calm_trans)
  ultimately show thesis using that by blast
qed

text \<open>C25. Moves are emitted as the port specifies them. With valid operands of one of the four modes that
  have a move pattern, and pseudo registers allowed, \<open>emit_move_insn\<close> succeeds, appends
  exactly the insns of the list \<open>move_items\<close> and returns the last of them: one pattern, or a
  load into the next pseudo register followed by a store when the operands are both in
  memory, a constant goes to a word in memory or to a byte at a symbol, or anything but a
  register is pushed; byte moves at a symbol clobber a byte scratch, long moves a word.\<close>

theorem emit_move_emits:
  assumes m: "has_move (GET_MODE x)" "GET_MODE y = GET_MODE x \<or> GET_MODE y = VOIDmode"
    and v: "valid_reference env True x" "valid_reference env False y"
    and w: "well_formed st" "\<not> no_new_pseudos st"
  shows "\<exists>st'. emit_move_insn env x y st = Some (last_insn st', st')
     \<and> emits st (move_items (mv_reload env) (reg_rtx_no st) x y) st'"
proof -
  let ?rs = "mv_reload env" and ?t = "gen_rtx_REG (GET_MODE x) (reg_rtx_no st)"
  let ?is = "move_items ?rs (reg_rtx_no st) x y"
  have b: "GET_MODE x \<noteq> BLKmode" using m(1) by (auto simp: has_move_def)
  have e: "emit_move_insn env x y st = do { (b, st) \<leftarrow> gen_move (force_reg env) env x y st; Some (emit_insn b st) }"
    using b m v by (auto simp: emit_move_insn_def emit_move_with_def validated_valid emit_move_insn_1_def)
  have "\<exists>b st4. gen_move (force_reg env) env x y st = Some (b, st4) \<and> emits st ?is (snd (emit_insn b st4))"
  proof (cases "GET_MODE x = QImode \<or> GET_MODE x = HImode")
    case q: True
    define body where "body = (if GET_MODE x = QImode then movqi_body (force_reg env) ?rs x y else movhi_body (force_reg env) x y)"
    have "\<exists>st2. body (start_sequence st) = Some st2 \<and> emits (start_sequence st) ?is st2"
    proof (cases "goes_through_register x y")
      case True
      then have y: "GET_CODE y \<noteq> REG" by (auto simp: goes_through_register_def split: if_splits)
      have s: "well_formed (start_sequence st)" "\<not> no_new_pseudos (start_sequence st)" "reg_rtx_no (start_sequence st) = reg_rtx_no st"
        using w by (simp_all add: well_formed_start) (simp_all add: start_sequence_def)
      from force_emits [OF m v(2) y s(1,2)] obtain st1 where f: "force_reg env (GET_MODE x) y (start_sequence st) = Some (?t, st1)"
        "emits (start_sequence st) [It_insn (load_pattern ?rs ?t y)] st1" unfolding s(3) by blast
      have "body (start_sequence st) = Some (snd (emit_insn (Body (store_pattern ?rs x ?t)) st1))"
        using q True f(1) by (auto simp: body_def movqi_body_def movhi_body_def goes_through_register_def store_pattern_def
            load_pattern_def not_symbolic_reg split: if_splits)
      moreover have "emits (start_sequence st) ([It_insn (load_pattern ?rs ?t y)] @ [It_insn (store_pattern ?rs x ?t)])
          (snd (emit_insn (Body (store_pattern ?rs x ?t)) st1))"
        by (rule emits_trans [OF f(2) emits_insn])
      ultimately show ?thesis using True by (auto simp: move_items_def Let_def)
    next
      case False
      have "IS_STACK_PUSH x \<Longrightarrow> GET_CODE x = MEM" by (auto simp: IS_STACK_PUSH_def)
      then have "body (start_sequence st) = Some (snd (emit_insn (Body (store_pattern ?rs x y)) (start_sequence st)))"
        using q False by (auto simp: body_def movqi_body_def movhi_body_def goes_through_register_def store_pattern_def
            load_pattern_def split: if_splits)
      then show ?thesis using False emits_insn by (auto simp: move_items_def)
    qed
    then obtain st2 where bd: "body (start_sequence st) = Some st2" "emits (start_sequence st) ?is st2" by blast
    have "\<And>c. It_other c \<notin> set ?is" "\<And>p. ?is \<noteq> [It_jump p]" "\<And>p. ?is \<noteq> [It_call p]"
      by (auto simp: move_items_def Let_def)
    from emits_sequence [where body = body and st = st, OF bd w(1) this] obtain bb st4 where
      "expand_sequence body st = Some (bb, st4)" "emits st ?is (snd (emit_insn bb st4))" by blast
    then show ?thesis using q by (auto simp: gen_move_def body_def split: if_splits)
  next
    case False
    then show ?thesis using emits_insn
      by (auto simp: gen_move_def move_items_def goes_through_register_def store_pattern_def load_pattern_def)
  qed
  then obtain b st4 where g: "gen_move (force_reg env) env x y st = Some (b, st4)" "emits st ?is (snd (emit_insn b st4))" by blast
  have "emit_insn b st4 = (last_insn (snd (emit_insn b st4)), snd (emit_insn b st4))"
    by (rule prod_eqI) (simp_all add: emit_insn_last)
  then show ?thesis using g e by (intro exI [where x = "snd (emit_insn b st4)"]) simp
qed

text \<open>Copying a word from one symbol to another, before reload.\<close>

definition before_reload :: move_env where
  "before_reload = \<lparr>mv_parts = \<lparr>ee_reload = \<lparr>reload_completed = False, reload_in_progress = False, volatile_ok = False,
       reg_renumber = None\<rparr>, function_value_matters = False, ee_memory_address = (\<lambda>m a. a), ee_copy_to_reg = id,
       ee_force_reg = (\<lambda>m x. x), real_from_single = GEN_INT, single_image = (\<lambda>x. 0), split_double = (\<lambda>x. (x, x)),
       ee_pool = (\<lambda>x c. None)\<rparr>,
     mv_memory_address = (\<lambda>m a st. (a, st)), mv_force_addr = False, mv_move_parts = (\<lambda>x y st. None)\<rparr>"

definition word_at :: "string \<Rightarrow> rtx" where
  "word_at s = gen_rtx_MEM HImode (gen_rtx_SYMBOL_REF HImode s)"

theorem emit_move_emits_witness:
  "\<exists>st'. emit_move_insn before_reload (word_at ''a'') (word_at ''b'') (init_emit empty_emit) = Some (last_insn st', st')
     \<and> emits (init_emit empty_emit)
         [It_insn (gen_move_set (gen_rtx_REG HImode 24) (word_at ''b'')), It_insn (gen_move_set (word_at ''a'') (gen_rtx_REG HImode 24))] st'"
proof -
  let ?st = "init_emit empty_emit"
  have w: "well_formed ?st" "\<not> no_new_pseudos ?st" "reg_rtx_no ?st = LAST_VIRTUAL_REGISTER + 1"
    unfolding well_formed_def using wf_empty by (auto simp: init_emit_def empty_emit_def)
  have v: "valid_reference before_reload b (word_at s)" for b s
    by (simp add: valid_reference_def before_reload_def word_at_def memory_address_p_def z80_addresses.const_ok CONSTANT_ADDRESS_P_def CONSTANT_P_def)
  have i: "move_items (mv_reload before_reload) (reg_rtx_no ?st) (word_at ''a'') (word_at ''b'')
      = [It_insn (gen_move_set (gen_rtx_REG HImode 24) (word_at ''b'')), It_insn (gen_move_set (word_at ''a'') (gen_rtx_REG HImode 24))]"
    unfolding w(3) by (simp add: move_items_def goes_through_register_def word_at_def load_pattern_def store_pattern_def
        LAST_VIRTUAL_REGISTER_def Let_def)
  show ?thesis unfolding i [symmetric]
    by (rule emit_move_emits [OF _ _ v v w(1,2)]) (simp_all add: word_at_def has_move_def)
qed

end
