(* ===== verification/Rtl_Between.thy ===== *)
theory Rtl_Between
  imports Move_Expand
begin

text \<open>
  What the insns between two points may change (gcc/rtlanal.c): references and stores of registers in an
  insn and in a run of insns, modification of an expression, and the last value of a
  register.  The functions walk the insn chain in the store. \<open>None\<close>
  is an abort, a step from or reading of the null pointer or a walk that does not end.

  The semantics is the set of states that the insns of the run may lead to, in any order.
\<close>

section \<open>Walking between two insns\<close>

text \<open>The insn that the accessors of rtl.h see in a cell, with the field of a call that holds
  the registers it uses and clobbers.\<close>

definition insn_at :: "emit_state \<Rightarrow> nat \<Rightarrow> rtx" where
  "insn_at st p = (case insn_view (heap st p) of NULL_RTX \<Rightarrow> NULL_RTX
     | Rtx c m f fs \<Rightarrow> Rtx c m f (if c = CALL_INSN then fs @ [FExp (ic_usage (heap st p))] else fs))"

definition is_insn :: "rtx \<Rightarrow> bool" where
  "is_insn x \<longleftrightarrow> GET_RTX_CLASS (GET_CODE x) = CHR ''i''"

text \<open>The disjunction of C: the second test runs when the first fails.\<close>

definition or_else :: "bool option \<Rightarrow> bool option \<Rightarrow> bool option" where
  "or_else a b = (case a of None \<Rightarrow> None | Some True \<Rightarrow> Some True | Some False \<Rightarrow> b)"

text \<open>The loops \<open>for (p = NEXT_INSN (from); p != to; p = NEXT_INSN (p)) if (TEST (p)) return\<close>.\<close>

partial_function (option) some_until :: "emit_state \<Rightarrow> (nat \<Rightarrow> bool option) \<Rightarrow> nat \<Rightarrow> nat \<Rightarrow> bool option" where
  "some_until st test p to =
     (if p = to then Some False
      else if p = 0 then None
      else (case test p of None \<Rightarrow> None
            | Some b \<Rightarrow> if b then Some True else some_until st test (next_of st p) to))"

definition some_between :: "emit_state \<Rightarrow> (nat \<Rightarrow> bool option) \<Rightarrow> nat \<Rightarrow> nat \<Rightarrow> bool option" where
  "some_between st test from to = (if from = 0 then None else some_until st test (next_of st from) to)"

definition no_labels_between_p :: "emit_state \<Rightarrow> nat \<Rightarrow> nat \<Rightarrow> bool option" where
  "no_labels_between_p st beg to = map_option Not (some_between st (\<lambda>p. Some (code_of st p = CODE_LABEL)) beg to)"

definition no_jumps_between_p :: "emit_state \<Rightarrow> nat \<Rightarrow> nat \<Rightarrow> bool option" where
  "no_jumps_between_p st beg to = map_option Not (some_between st (\<lambda>p. Some (code_of st p = JUMP_INSN)) beg to)"

text \<open>A test of the insns of a run, not made when the run is from an insn to itself.\<close>

definition insn_between :: "emit_state \<Rightarrow> (rtx \<Rightarrow> bool option) \<Rightarrow> nat \<Rightarrow> nat \<Rightarrow> bool option" where
  "insn_between st test from to =
     (if from = to then Some False
      else some_between st (\<lambda>p. if is_insn (insn_at st p) then test (insn_at st p) else Some False) from to)"

section \<open>References\<close>

definition reg_used_between_p :: "bool \<Rightarrow> emit_state \<Rightarrow> rtx \<Rightarrow> nat \<Rightarrow> nat \<Rightarrow> bool option" where
  "reg_used_between_p fvm st reg = insn_between st (\<lambda>insn.
     or_else (reg_overlap_mentioned_p fvm reg (PATTERN insn))
       (if GET_CODE insn = CALL_INSN
        then or_else (find_reg_fusage fvm insn USE reg) (find_reg_fusage fvm insn CLOBBER reg)
        else Some False))"

text \<open>A destination that holds no reference: \<open>cc0\<close>, the program counter, a register, or a
  \<open>SUBREG\<close> of a register with all its words.\<close>

definition replaced_dest :: "rtx \<Rightarrow> bool" where
  "replaced_dest d \<longleftrightarrow> GET_CODE d = CC0 \<or> GET_CODE d = PC \<or> GET_CODE d = REG
     \<or> GET_CODE d = SUBREG \<and> GET_CODE (SUBREG_REG d) = REG
       \<and> words_of_mode (GET_MODE (SUBREG_REG d)) = words_of_mode (GET_MODE d)"

function reg_referenced_p :: "bool \<Rightarrow> rtx \<Rightarrow> rtx \<Rightarrow> bool option" where
  "reg_referenced_p fvm x body =
     (if GET_CODE body = SET then
        or_else (reg_overlap_mentioned_p fvm x (SET_SRC body))
          (if \<not> replaced_dest (SET_DEST body) then reg_overlap_mentioned_p fvm x (SET_DEST body) else Some False)
      else if GET_CODE body = ASM_OPERANDS then overlap_any (reg_overlap_mentioned_p fvm x) (rev (XVEC body 3))
      else if GET_CODE body = CALL \<or> GET_CODE body = USE then reg_overlap_mentioned_p fvm x body
      else if GET_CODE body = TRAP_IF then reg_overlap_mentioned_p fvm x (XEXP body 0)
      else if GET_CODE body = UNSPEC \<or> GET_CODE body = UNSPEC_VOLATILE \<or> GET_CODE body = PARALLEL then
        overlap_any (reg_referenced_p fvm x) (rev (XVEC body 0))
      else Some False)"
  by pat_completeness auto
termination by (relation "measure (\<lambda>(fvm, x, body). size body)") (simp_all add: size_XVEC)

declare reg_referenced_p.simps [simp del]

definition reg_referenced_between_p :: "bool \<Rightarrow> emit_state \<Rightarrow> rtx \<Rightarrow> nat \<Rightarrow> nat \<Rightarrow> bool option" where
  "reg_referenced_between_p fvm st reg = insn_between st (\<lambda>insn.
     or_else (reg_referenced_p fvm reg (PATTERN insn))
       (if GET_CODE insn = CALL_INSN then find_reg_fusage fvm insn USE reg else Some False))"

section \<open>Stores\<close>

text \<open>The callback sets a flag; it is called for every store.\<close>

fun any_store :: "bool \<Rightarrow> rtx \<Rightarrow> rtx list \<Rightarrow> bool option" where
  "any_store fvm reg [] = Some False"
| "any_store fvm reg (d # ds) =
     (case (if GET_CODE d \<noteq> MEM then reg_overlap_mentioned_p fvm reg d else Some False, any_store fvm reg ds) of
        (Some a, Some b) \<Rightarrow> Some (a \<or> b) | _ \<Rightarrow> None)"

definition reg_set_p :: "bool \<Rightarrow> rtx \<Rightarrow> rtx \<Rightarrow> bool option" where
  "reg_set_p fvm reg insn =
     (if is_insn insn then
        or_else (Some (find_reg_note insn REG_INC reg \<noteq> NULL_RTX))
        (or_else
          (if GET_CODE insn = CALL_INSN then
             or_else (Some (GET_CODE reg = REG \<and> REGNO reg < FIRST_PSEUDO_REGISTER \<or> GET_CODE reg = MEM))
               (find_reg_fusage fvm insn CLOBBER reg)
           else Some False)
          (any_store fvm reg (map fst (note_stores (PATTERN insn)))))
      else any_store fvm reg (map fst (note_stores insn)))"

definition reg_set_between_p :: "bool \<Rightarrow> emit_state \<Rightarrow> rtx \<Rightarrow> nat \<Rightarrow> nat \<Rightarrow> bool option" where
  "reg_set_between_p fvm st reg = insn_between st (reg_set_p fvm reg)"

text \<open>The walks over an expression, from the last field to the first; they differ in the test of a register.\<close>

function regs_with :: "(rtx \<Rightarrow> bool option) \<Rightarrow> rtx \<Rightarrow> bool option"
  and regs_with_fld :: "(rtx \<Rightarrow> bool option) \<Rightarrow> fld \<Rightarrow> bool option" where
  "regs_with test NULL_RTX = None"
| "regs_with test (Rtx c m f fs) =
     (if c \<in> {CONST_INT, CONST_DOUBLE, CONST_rtx, SYMBOL_REF, LABEL_REF, PC, CC0} then Some False
      else if c = REG then test (Rtx c m f fs)
      else overlap_any (regs_with_fld test) (rev fs))"
| "regs_with_fld test (FExp x) = regs_with test x"
| "regs_with_fld test (FVec xs) = overlap_any (regs_with test) (rev xs)"
| "regs_with_fld test (FWide i) = Some False"
| "regs_with_fld test (FInt i) = Some False"
| "regs_with_fld test (FStr s) = Some False"
| "regs_with_fld test (FInsn u) = Some False"
| "regs_with_fld test (FNone n) = Some False"
  by pat_completeness auto
termination by (relation "measure (\<lambda>z. case z of Inl (t, x) \<Rightarrow> size x | Inr (t, f) \<Rightarrow> size f)")
  (auto simp: less_Suc_eq_le size_list_estimation')

function modified_with :: "(rtx \<Rightarrow> bool option) \<Rightarrow> rtx \<Rightarrow> bool option"
  and modified_with_fld :: "(rtx \<Rightarrow> bool option) \<Rightarrow> fld \<Rightarrow> bool option" where
  "modified_with test NULL_RTX = None"
| "modified_with test (Rtx c m f fs) =
     (if c \<in> {CONST_INT, CONST_DOUBLE, CONST_rtx, SYMBOL_REF, LABEL_REF} then Some False
      else if c = PC \<or> c = CC0 then Some True
      else if c = MEM \<and> \<not> RTX_UNCHANGING_P (Rtx c m f fs) then Some True
      else if c = REG then test (Rtx c m f fs)
      else overlap_any (modified_with_fld test) (rev fs))"
| "modified_with_fld test (FExp x) = modified_with test x"
| "modified_with_fld test (FVec xs) = overlap_any (modified_with test) (rev xs)"
| "modified_with_fld test (FWide i) = Some False"
| "modified_with_fld test (FInt i) = Some False"
| "modified_with_fld test (FStr s) = Some False"
| "modified_with_fld test (FInsn u) = Some False"
| "modified_with_fld test (FNone n) = Some False"
  by pat_completeness auto
termination by (relation "measure (\<lambda>z. case z of Inl (t, x) \<Rightarrow> size x | Inr (t, f) \<Rightarrow> size f)")
  (auto simp: less_Suc_eq_le size_list_estimation')

definition regs_set_between_p :: "bool \<Rightarrow> emit_state \<Rightarrow> rtx \<Rightarrow> nat \<Rightarrow> nat \<Rightarrow> bool option" where
  "regs_set_between_p fvm st x from to = regs_with (\<lambda>r. reg_set_between_p fvm st r from to) x"

definition modified_between_p :: "bool \<Rightarrow> emit_state \<Rightarrow> rtx \<Rightarrow> nat \<Rightarrow> nat \<Rightarrow> bool option" where
  "modified_between_p fvm st x from to = modified_with (\<lambda>r. reg_set_between_p fvm st r from to) x"

definition modified_in_p :: "bool \<Rightarrow> rtx \<Rightarrow> rtx \<Rightarrow> bool option" where
  "modified_in_p fvm x insn = modified_with (\<lambda>r. reg_set_p fvm r insn) x"

section \<open>The last value of a register\<close>

text \<open>The value at an insn \<open>p\<close> that sets \<open>x\<close>: the datum of a \<open>REG_EQUAL\<close> note or the source.\<close>

definition value_of_set :: "rtx \<Rightarrow> rtx \<Rightarrow> rtx" where
  "value_of_set insn sset =
     (let note = find_reg_note insn REG_EQUAL NULL_RTX
      in if note \<noteq> NULL_RTX \<and> GET_CODE (XEXP note 0) \<noteq> EXPR_LIST then XEXP note 0 else SET_SRC sset)"

partial_function (option) last_value_from ::
    "bool \<Rightarrow> emit_state \<Rightarrow> rtx \<Rightarrow> nat \<Rightarrow> bool \<Rightarrow> nat \<Rightarrow> nat \<Rightarrow> (rtx \<times> nat) option" where
  "last_value_from fvm st x valid_to allow_hwreg pinsn p =
     (if p = 0 \<or> code_of st p = CODE_LABEL then Some (x, pinsn)
      else if \<not> is_insn (insn_at st p) then last_value_from fvm st x valid_to allow_hwreg pinsn (prev_of st p)
      else
        (let insn = insn_at st p; sset = single_set insn; src = value_of_set insn sset
         in case (if sset \<noteq> NULL_RTX \<and> rtx_equal_p fvm x (SET_DEST sset)
                  then map_option (\<lambda>b. \<not> b \<and> (\<not> (GET_CODE src = REG \<and> REGNO src < FIRST_PSEUDO_REGISTER) \<or> allow_hwreg))
                         (modified_between_p fvm st src (prev_of st p) valid_to)
                  else Some False) of
              None \<Rightarrow> None
            | Some found \<Rightarrow>
                if found then Some (src, p)
                else (case reg_set_p fvm x insn of None \<Rightarrow> None
                      | Some b \<Rightarrow> if b then Some (x, pinsn)
                                else last_value_from fvm st x valid_to allow_hwreg pinsn (prev_of st p))))"

text \<open>The value, and the insn that \<open>*pinsn\<close> holds afterwards.\<close>

definition find_last_value :: "bool \<Rightarrow> emit_state \<Rightarrow> rtx \<Rightarrow> nat \<Rightarrow> nat \<Rightarrow> bool \<Rightarrow> (rtx \<times> nat) option" where
  "find_last_value fvm st x pinsn valid_to allow_hwreg =
     (if pinsn = 0 then None else last_value_from fvm st x valid_to allow_hwreg pinsn (prev_of st pinsn))"

text \<open>The callback of \<open>reg_set_last\<close>: the flag and the value it records, and what a store does to them.\<close>

definition reg_set_last_1 :: "int \<Rightarrow> int \<Rightarrow> rtx \<times> rtx \<Rightarrow> bool \<times> rtx \<Rightarrow> bool \<times> rtx" where
  "reg_set_last_1 first_regno last_regno = (\<lambda>(x, pat) (unknown, val).
     (let first = REGNO x; lst = first + (if first < FIRST_PSEUDO_REGISTER then HARD_REGNO_NREGS first (GET_MODE x) else 1)
      in if GET_CODE x \<noteq> REG \<or> first \<ge> last_regno \<or> lst \<le> first_regno then (unknown, val)
         else if GET_CODE pat = CLOBBER \<or> SET_DEST pat \<noteq> x \<or> first \<noteq> first_regno \<or> lst \<noteq> last_regno then (True, val)
         else (unknown, SET_SRC pat)))"

partial_function (option) set_last_from :: "bool \<Rightarrow> emit_state \<Rightarrow> int \<Rightarrow> int \<Rightarrow> nat \<Rightarrow> nat \<Rightarrow> rtx option" where
  "set_last_from fvm st first_regno last_regno orig_insn p =
     (if p = 0 \<or> code_of st p = CODE_LABEL \<or> code_of st p = CALL_INSN \<and> last_regno \<le> FIRST_PSEUDO_REGISTER
      then Some NULL_RTX
      else if \<not> is_insn (insn_at st p) then set_last_from fvm st first_regno last_regno orig_insn (prev_of st p)
      else
        (case fold (reg_set_last_1 first_regno last_regno) (note_stores (PATTERN (insn_at st p))) (False, NULL_RTX) of
           (unknown, val) \<Rightarrow>
             if unknown then Some NULL_RTX
             else if val \<noteq> NULL_RTX then
               (if CONSTANT_P val then Some val
                else if GET_CODE val = REG \<or> GET_CODE val = SUBREG then
                  map_option (\<lambda>b. if b then NULL_RTX else val) (reg_set_between_p fvm st val p orig_insn)
                else Some NULL_RTX)
             else set_last_from fvm st first_regno last_regno orig_insn (prev_of st p)))"

definition reg_set_last :: "bool \<Rightarrow> emit_state \<Rightarrow> rtx \<Rightarrow> nat \<Rightarrow> rtx option" where
  "reg_set_last fvm st x insn =
     (let first = REGNO x
      in set_last_from fvm st first
           (first + (if first < FIRST_PSEUDO_REGISTER then HARD_REGNO_NREGS first (GET_MODE x) else 1)) insn insn)"

section \<open>What insns may change\<close>

text \<open>The effects of an insn: its stores, with any values; the registers of its \<open>REG_INC\<close> notes; and for a call any
  change of hard registers and memory. The memory in \<open>ro\<close> is constant.\<close>

definition keeps_constants :: "16 word set \<Rightarrow> rtl_state \<Rightarrow> rtl_state \<Rightarrow> bool" where
  "keeps_constants ro s s' \<longleftrightarrow> (\<forall>a \<in> ro. rs_mem s' a = rs_mem s a) \<and> rs_sym s' = rs_sym s \<and> rs_label s' = rs_label s"

inductive insn_effect :: "16 word set \<Rightarrow> rtx \<Rightarrow> rtl_state \<Rightarrow> rtl_state \<Rightarrow> bool" for ro insn where
  effect_store: "d \<in> fst ` set (note_stores (PATTERN insn)) \<Longrightarrow> stores_into d s s' \<Longrightarrow> keeps_constants ro s s' \<Longrightarrow>
     insn_effect ro insn s s'"
| effect_inc: "link \<in> set (links (REG_NOTES insn)) \<Longrightarrow> REG_NOTE_KIND link = REG_INC \<Longrightarrow>
     agree_outside (REGNO (XEXP link 0)) (REGNO (XEXP link 0) + 1) s s' \<Longrightarrow> insn_effect ro insn s s'"
| effect_call: "GET_CODE insn = CALL_INSN \<Longrightarrow> (\<forall>r. FIRST_PSEUDO_REGISTER \<le> r \<longrightarrow> rs_regs s' r = rs_regs s r) \<Longrightarrow>
     keeps_constants ro s s' \<Longrightarrow> insn_effect ro insn s s'"

text \<open>The 16-bit registers of an expression, and the addresses of its memory references: both follow
  the walk of \<open>modified_with\<close>.\<close>

fun regs_of :: "rtx \<Rightarrow> rtx list" and regs_of_fld :: "fld \<Rightarrow> rtx list" where
  "regs_of NULL_RTX = []"
| "regs_of (Rtx c m f fs) =
     (if c \<in> {CONST_INT, CONST_DOUBLE, CONST_rtx, SYMBOL_REF, LABEL_REF} then []
      else if c = REG then (if m = HImode then [Rtx c m f fs] else [])
      else concat (map regs_of_fld fs))"
| "regs_of_fld (FExp x) = regs_of x"
| "regs_of_fld (FVec xs) = concat (map regs_of xs)"
| "regs_of_fld _ = []"

fun reads_constants :: "16 word set \<Rightarrow> rtl_state \<Rightarrow> rtx \<Rightarrow> bool" and reads_constants_fld :: "16 word set \<Rightarrow> rtl_state \<Rightarrow> fld \<Rightarrow> bool" where
  "reads_constants ro s NULL_RTX = True"
| "reads_constants ro s (Rtx c m f fs) =
     ((c = MEM \<longrightarrow> (case rtx_value s (XEXP (Rtx c m f fs) 0) of None \<Rightarrow> True | Some a \<Rightarrow> a \<in> ro \<and> a + 1 \<in> ro))
      \<and> (\<forall>x \<in> set fs. reads_constants_fld ro s x))"
| "reads_constants_fld ro s (FExp x) = reads_constants ro s x"
| "reads_constants_fld ro s _ = True"

text \<open>What the tests rely on. Registers stored whole or in part are all byte registers or all words, as in every
  value that a register can hold; the destinations are registers, their parts, memory or flags; and
  the expressions of a register are shared, so that a \<open>REG_INC\<close> note is found by its address.\<close>

definition plain_dest :: "rtx \<Rightarrow> bool" where
  "plain_dest d \<longleftrightarrow> GET_CODE d \<in> {REG, MEM, CC0, PC, SCRATCH}
     \<or> GET_CODE d = SUBREG \<and> GET_CODE (SUBREG_REG d) = REG
       \<and> list_all (\<lambda>r. Q_REGNO_P r = Q_REGNO_P (dest_regno d)) [dest_regno d .. dest_endregno d - 1]"

definition plain_insn :: "rtx \<Rightarrow> bool" where
  "plain_insn insn \<longleftrightarrow> list_all plain_dest (map fst (note_stores (PATTERN insn)))"

definition shares_notes :: "rtx \<Rightarrow> rtx \<Rightarrow> bool" where
  "shares_notes insn x \<longleftrightarrow> list_all (\<lambda>r. list_all (\<lambda>link. REG_NOTE_KIND link = REG_INC \<and> REGNO (XEXP link 0) = REGNO r
     \<longrightarrow> XEXP link 0 = r) (links (REG_NOTES insn))) (regs_of x)"

definition agree_on :: "16 word set \<Rightarrow> rtx list \<Rightarrow> rtl_state \<Rightarrow> rtl_state \<Rightarrow> bool" where
  "agree_on ro rs s s' \<longleftrightarrow> (\<forall>r \<in> set rs. rs_regs s' (REGNO r) = rs_regs s (REGNO r)) \<and> keeps_constants ro s s'"

lemma agree_on_trans: "agree_on ro rs s s' \<Longrightarrow> agree_on ro rs s' s'' \<Longrightarrow> agree_on ro rs s s''"
  by (simp add: agree_on_def keeps_constants_def)

lemma agree_on_refl: "agree_on ro rs s s"
  by (simp add: agree_on_def keeps_constants_def)

lemma agree_on_star:
  assumes "R\<^sup>*\<^sup>* s s'" "\<And>a b. R a b \<Longrightarrow> agree_on ro rs a b"
  shows "agree_on ro rs s s'"
  using assms(1) by (induction rule: rtranclp_induct) (auto intro: agree_on_refl agree_on_trans assms(2))

section \<open>Expressions that are not modified\<close>

lemma overlap_any_Some_False: "overlap_any g xs = Some False \<longleftrightarrow> (\<forall>x \<in> set xs. g x = Some False)"
  by (induction xs) (auto split: option.splits bool.splits)

lemma regs_of_reg: "r \<in> set (regs_of x) \<Longrightarrow> GET_CODE r = REG \<and> GET_MODE r = HImode"
  and "r \<in> set (regs_of_fld f) \<Longrightarrow> GET_CODE r = REG \<and> GET_MODE r = HImode"
  by (induction x and f rule: rtx.induct fld.induct) (auto split: if_splits)

lemma modified_with_regs:
  "modified_with test x = Some False \<Longrightarrow> r \<in> set (regs_of x) \<Longrightarrow> test r = Some False"
  and "modified_with_fld test f = Some False \<Longrightarrow> r \<in> set (regs_of_fld f) \<Longrightarrow> test r = Some False"
  by (induction x and f rule: rtx.induct fld.induct) (auto simp: overlap_any_Some_False split: if_splits)

lemma load16_keeps: "keeps_constants ro s s' \<Longrightarrow> a \<in> ro \<Longrightarrow> a + 1 \<in> ro \<Longrightarrow> load16 (rs_mem s') a = load16 (rs_mem s) a"
  by (simp add: load16_def keeps_constants_def)

lemma modified_with_value:
  "modified_with test x = Some False \<Longrightarrow> agree_on ro (regs_of x) s s' \<Longrightarrow> constants_ok x \<Longrightarrow> reads_constants ro s x \<Longrightarrow>
     rtx_value s' x = rtx_value s x"
  and "modified_with_fld test f = Some False \<Longrightarrow> agree_on ro (regs_of_fld f) s s' \<Longrightarrow> constants_ok_fld f \<Longrightarrow>
     reads_constants_fld ro s f \<Longrightarrow> fld_value s' f = fld_value s f"
proof (induction x and f rule: rtx.induct fld.induct)
  case (Rtx c m f fs)
  let ?x = "Rtx c m f fs"
  have k: "keeps_constants ro s s'" using Rtx.prems(2) by (simp add: agree_on_def)
  show ?case
  proof (cases "c \<in> {CONST_INT, CONST_DOUBLE, CONST_rtx, SYMBOL_REF, LABEL_REF}")
    case True
    then have "CONSTANT_P ?x" by (auto simp: CONSTANT_P_def)
    then have "link_time_const ?x" using Rtx.prems(3) by (simp only: constants_ok.simps simp_thms)
    then show ?thesis using k by (intro link_time_const_value(1)) (simp_all add: keeps_constants_def)
  next
    case nc: False
    show ?thesis
    proof (cases "c = REG")
      case True
      then show ?thesis using Rtx.prems(2) by (cases "m = HImode") (auto simp: agree_on_def)
    next
      case nr: False
      then have "\<forall>y \<in> set fs. modified_with_fld test y = Some False" "c \<noteq> PC" "c \<noteq> CC0"
        using Rtx.prems(1) nc by (auto simp: overlap_any_Some_False split: if_splits)
      moreover have "\<forall>y \<in> set fs. agree_on ro (regs_of_fld y) s s'"
        using Rtx.prems(2) nc nr by (auto simp: agree_on_def)
      ultimately have fs: "map (fld_value s') fs = map (fld_value s) fs"
        using Rtx.IH Rtx.prems(3,4) by simp
      show ?thesis
      proof (cases "c = MEM \<and> m = HImode \<and> fs \<noteq> []")
        case True
        then obtain y ys where y: "fs = y # ys" by (cases fs) auto
        have "fld_value s' y = fld_value s y" using fs y by simp
        moreover have "load16 (rs_mem s') a = load16 (rs_mem s) a" if "fld_value s y = Some a" for a
        proof -
          have "rtx_value s (XEXP ?x 0) = fld_value s y" using that y by (cases y) (simp_all add: fld_access)
          then show ?thesis using that True Rtx.prems(4) load16_keeps [OF k] by simp
        qed
        ultimately show ?thesis using True y by (cases "fld_value s y") simp_all
      next
        case False
        then show ?thesis using fs nr nc k
          by (cases fs) (auto simp: Let_def keeps_constants_def simp del: map_eq_conv)
      qed
    qed
  qed
qed auto

section \<open>Registers that are not set\<close>

lemma or_else_False: "or_else a b = Some False \<longleftrightarrow> a = Some False \<and> b = Some False"
  by (simp add: or_else_def split: option.splits bool.splits)

lemma any_store_False:
  "any_store fvm reg ds = Some False \<Longrightarrow> d \<in> set ds \<Longrightarrow> GET_CODE d \<noteq> MEM \<Longrightarrow> reg_overlap_mentioned_p fvm reg d = Some False"
  by (induction ds) (auto split: option.splits if_splits)

lemma refers_to_hard_subreg:
  assumes "GET_CODE d = SUBREG" "GET_CODE (SUBREG_REG d) = REG" "REGNO (SUBREG_REG d) < FIRST_PSEUDO_REGISTER"
  shows "refers_to_regno_p r e d \<longleftrightarrow> dest_regno d < e
    \<and> r < dest_regno d + (if dest_regno d < FIRST_PSEUDO_REGISTER then HARD_REGNO_NREGS r (GET_MODE d) else 1)"
proof (cases d)
  case (Rtx c m f fs)
  then have "c = SUBREG" "m = GET_MODE d" using assms(1) by simp_all
  then show ?thesis
    using assms(2,3) unfolding dest_regno_def assms(1) by (simp only: Rtx refers_to_regno_p.simps Let_def) simp
qed (use assms(1) in simp)

lemma refers_to_subreg:
  assumes "GET_CODE d = SUBREG" "GET_CODE (SUBREG_REG d) = REG" "\<not> refers_to_regno_p r e d" "r < e"
    and "list_all (\<lambda>k. Q_REGNO_P k = Q_REGNO_P (dest_regno d)) [dest_regno d .. dest_endregno d - 1]"
  shows "r < dest_regno d \<or> dest_endregno d \<le> r"
proof (cases d)
  case (Rtx c m f fs)
  then have c: "c = SUBREG" using assms(1) by simp
  show ?thesis
  proof (cases "REGNO (SUBREG_REG d) < FIRST_PSEUDO_REGISTER")
    case True
    define n where "n = (if dest_regno d < FIRST_PSEUDO_REGISTER then HARD_REGNO_NREGS r (GET_MODE d) else 1)"
    have "r < dest_regno d \<or> dest_regno d + n \<le> r \<or> e \<le> dest_regno d"
      using assms(3) unfolding refers_to_hard_subreg [OF assms(1,2) True] n_def [symmetric] by linarith
    moreover have "HARD_REGNO_NREGS r (GET_MODE d) = HARD_REGNO_NREGS (dest_regno d) (GET_MODE d)"
      if "dest_regno d \<le> r" "r < dest_endregno d"
    proof -
      have "r \<in> set [dest_regno d .. dest_endregno d - 1]" using that by simp
      then have "Q_REGNO_P r = Q_REGNO_P (dest_regno d)" using assms(5) unfolding list_all_iff by (rule bspec [rotated])
      then show ?thesis unfolding HARD_REGNO_NREGS_def by (rule arg_cong)
    qed
    then have "dest_regno d \<le> r \<Longrightarrow> r < dest_endregno d \<Longrightarrow> dest_endregno d = dest_regno d + n"
      by (simp add: dest_endregno_def n_def)
    ultimately show ?thesis using assms(4) by linarith
  next
    case False
    have n: "0 < length fs" "fs ! 0 = FExp (SUBREG_REG d)"
    proof -
      have "GET_CODE (XEXP d 0) = REG" using assms(2) by (simp add: SUBREG_REG_def)
      then show "0 < length fs" by (cases "0 < length fs") (simp_all add: fld_access Rtx)
      with \<open>GET_CODE (XEXP d 0) = REG\<close> show "fs ! 0 = FExp (SUBREG_REG d)"
        by (cases "fs ! 0") (simp_all add: fld_access Rtx SUBREG_REG_def)
    qed
    then have "FExp (SUBREG_REG d) \<in> set fs" by (metis nth_mem)
    then have "\<not> refers_to_regno_p r e (SUBREG_REG d)"
      using assms(3) c False unfolding Rtx by (auto simp: Let_def)
    then have "\<not> (REGNO (SUBREG_REG d) < e \<and> r < REGNO (SUBREG_REG d) + 1)"
      using assms(2) False by (cases "SUBREG_REG d") (auto simp: Let_def split: if_splits)
    then show ?thesis using assms(1,4) False by (auto simp: dest_regno_def dest_endregno_def)
  qed
qed (use assms(1) in simp)

lemma refers_to_reg:
  assumes "GET_CODE d = REG" "\<not> refers_to_regno_p r e d" "r < e"
  shows "r < dest_regno d \<or> dest_endregno d \<le> r"
  using assms by (cases d) (auto simp: dest_regno_def dest_endregno_def Let_def split: if_splits)

lemma overlap_reg:
  assumes "reg_overlap_mentioned_p fvm x d = Some False" "GET_CODE x = REG" "GET_CODE d = REG \<or> GET_CODE d = SUBREG"
  shows "\<not> refers_to_regno_p (REGNO x) (dest_endregno x) d"
proof -
  have "\<not> CONSTANT_P x" "\<not> CONSTANT_P d" using assms(2,3) by (auto simp: CONSTANT_P_def)
  then show ?thesis using assms by (simp add: reg_overlap_mentioned_p.simps [of fvm x] overlap_dest_def dest_regno_def)
qed

lemma keeps_state: "insn_effect ro insn s s' \<Longrightarrow> keeps_constants ro s s'"
  by (induction rule: insn_effect.induct) (auto simp: keeps_constants_def agree_outside_simps)

lemma find_reg_note_none:
  assumes "find_reg_note insn kind x = NULL_RTX" "is_insn insn" "link \<in> set (links (REG_NOTES insn))" "REG_NOTE_KIND link = kind"
  shows "XEXP link 0 \<noteq> x"
proof
  assume "XEXP link 0 = x"
  moreover have "list_all (\<lambda>l. \<not> (REG_NOTE_KIND l = kind \<and> (x = NULL_RTX \<or> x = XEXP l 0))) (links (REG_NOTES insn))"
    using assms(1,2) by (intro first_link_None) (simp_all add: find_reg_note_def is_insn_def links_not_null)
  ultimately show False using assms(3,4) by (auto simp: list_all_iff)
qed

lemma reg_not_set:
  assumes "reg_set_p fvm x insn = Some False" "GET_CODE x = REG" "GET_MODE x = HImode"
    and "is_insn insn" "plain_insn insn"
    and "list_all (\<lambda>link. REG_NOTE_KIND link = REG_INC \<and> REGNO (XEXP link 0) = REGNO x \<longrightarrow> XEXP link 0 = x) (links (REG_NOTES insn))"
    and "insn_effect ro insn s s'"
  shows "rs_regs s' (REGNO x) = rs_regs s (REGNO x)"
proof -
  have nonote: "find_reg_note insn REG_INC x = NULL_RTX"
    and stores: "any_store fvm x (map fst (note_stores (PATTERN insn))) = Some False"
    and call: "GET_CODE insn = CALL_INSN \<Longrightarrow> \<not> REGNO x < FIRST_PSEUDO_REGISTER"
    using assms(1,2,4) by (auto simp: reg_set_p_def or_else_False split: if_splits)
  have e: "REGNO x < dest_endregno x"
    using HARD_REGNO_NREGS_HI [of "REGNO x"] assms(2,3) by (simp add: dest_endregno_def dest_regno_def)
  show ?thesis using assms(7)
  proof cases
    case (effect_store d)
    have p: "plain_dest d" using assms(5) effect_store(1) by (auto simp: plain_insn_def list_all_iff)
    have r: "\<not> refers_to_regno_p (REGNO x) (dest_endregno x) d" if "GET_CODE d = REG \<or> GET_CODE d = SUBREG"
      using any_store_False [OF stores, of d] effect_store(1) that overlap_reg [OF _ assms(2) that] by auto
    show ?thesis using effect_store(2)
    proof cases
      case stores_reg
      have "REGNO x < dest_regno d \<or> dest_endregno d \<le> REGNO x"
        using stores_reg(1) p refers_to_reg [OF _ r e] refers_to_subreg [OF _ _ r e] by (auto simp: plain_dest_def)
      then show ?thesis using agree_outside_simps(4) [OF stores_reg(2)] by blast
    qed (use p in \<open>auto simp: plain_dest_def\<close>)
  next
    case (effect_inc link)
    then have "XEXP link 0 \<noteq> x" using find_reg_note_none [OF nonote assms(4)] by simp
    then have "REGNO (XEXP link 0) \<noteq> REGNO x" using effect_inc assms(6) by (auto simp: list_all_iff)
    then show ?thesis using agree_outside_simps(4) [OF effect_inc(3), of "REGNO x"] by linarith
  next
    case effect_call
    then show ?thesis using call by simp
  qed
qed

lemma effect_agree:
  assumes "\<And>r. r \<in> set rs \<Longrightarrow> reg_set_p fvm r insn = Some False \<and> GET_CODE r = REG \<and> GET_MODE r = HImode
      \<and> list_all (\<lambda>link. REG_NOTE_KIND link = REG_INC \<and> REGNO (XEXP link 0) = REGNO r \<longrightarrow> XEXP link 0 = r) (links (REG_NOTES insn))"
    and "is_insn insn" "plain_insn insn" "insn_effect ro insn s s'"
  shows "agree_on ro rs s s'"
  using reg_not_set [OF _ _ _ assms(2,3) _ assms(4)] assms(1) keeps_state [OF assms(4)] by (auto simp: agree_on_def)

text \<open>When \<open>modified_in_p\<close> answers no for an expression and an insn, no execution of the insn changes the value
  of the expression: not its stores, in any order and to registers, parts of registers or memory, not its
  autoincrements and not the call.\<close>

theorem modified_in_p_sound:
  assumes "modified_in_p fvm x insn = Some False" "(insn_effect ro insn)\<^sup>*\<^sup>* s s'"
    and "is_insn insn" "plain_insn insn" "shares_notes insn x" "constants_ok x" "reads_constants ro s x"
  shows "rtx_value s' x = rtx_value s x"
proof (rule modified_with_value(1) [OF assms(1) [unfolded modified_in_p_def] _ assms(6,7)])
  show "agree_on ro (regs_of x) s s'"
  proof (rule agree_on_star [OF assms(2)], rule effect_agree [OF _ assms(3,4)])
    fix r assume "r \<in> set (regs_of x)"
    then show "reg_set_p fvm r insn = Some False \<and> GET_CODE r = REG \<and> GET_MODE r = HImode
      \<and> list_all (\<lambda>link. REG_NOTE_KIND link = REG_INC \<and> REGNO (XEXP link 0) = REGNO r \<longrightarrow> XEXP link 0 = r) (links (REG_NOTES insn))"
      using modified_with_regs(1) [OF assms(1) [unfolded modified_in_p_def]] regs_of_reg(1) assms(5)
      by (auto simp: shares_notes_def list_all_iff)
  qed
qed

text \<open>When \<open>reg_referenced_p\<close> answers no for a destination and a \<open>SET\<close>, a store into the destination does not change the
  value of the source of the \<open>SET\<close>.\<close>

theorem reg_referenced_p_sound:
  assumes "reg_referenced_p fvm x body = Some False" "GET_CODE body = SET" "stores_into x s s'" "constants_ok (SET_SRC body)"
  shows "rtx_value s' (SET_SRC body) = rtx_value s (SET_SRC body)"
proof -
  have "reg_overlap_mentioned_p fvm x (SET_SRC body) = Some False"
    using assms(1,2) by (simp add: reg_referenced_p.simps [of fvm x body] or_else_False)
  then show ?thesis by (rule reg_overlap_mentioned_sound [OF assms(3) _ assms(4)])
qed

section \<open>Runs of insns\<close>

text \<open>The insns \<open>xs\<close> lie between two others.\<close>

definition lie_between :: "emit_state \<Rightarrow> nat \<Rightarrow> nat list \<Rightarrow> nat \<Rightarrow> bool" where
  "lie_between st from xs to \<longleftrightarrow> from \<noteq> 0 \<and> from \<noteq> to \<and> 0 \<notin> set xs \<and> to \<notin> set xs
     \<and> next_of st from = first_of xs to \<and> linked (heap st) from xs to"

lemma some_until_run:
  "linked (heap st) p xs to \<Longrightarrow> 0 \<notin> set xs \<Longrightarrow> to \<notin> set xs \<Longrightarrow> some_until st test (first_of xs to) to = overlap_any test xs"
proof (induction xs arbitrary: p)
  case (Cons x xs)
  then have "some_until st test (next_of st x) to = overlap_any test xs" using Cons.IH [of x] by simp
  then show ?case using Cons.prems by (subst some_until.simps) (auto split: option.splits bool.splits)
qed (simp add: some_until.simps)

lemma insn_between_run:
  "lie_between st from xs to \<Longrightarrow>
     insn_between st test from to = overlap_any (\<lambda>p. if is_insn (insn_at st p) then test (insn_at st p) else Some False) xs"
  using some_until_run [of st "from" xs to] by (auto simp: insn_between_def lie_between_def some_between_def)

text \<open>One step of a run: an effect of one of its insns.\<close>

definition run_effect :: "16 word set \<Rightarrow> emit_state \<Rightarrow> nat list \<Rightarrow> rtl_state \<Rightarrow> rtl_state \<Rightarrow> bool" where
  "run_effect ro st xs s s' \<longleftrightarrow> (\<exists>p \<in> set xs. is_insn (insn_at st p) \<and> insn_effect ro (insn_at st p) s s')"

definition plain_run :: "emit_state \<Rightarrow> nat list \<Rightarrow> rtx \<Rightarrow> bool" where
  "plain_run st xs x \<longleftrightarrow> list_all (\<lambda>p. plain_insn (insn_at st p) \<and> shares_notes (insn_at st p) x) xs"

lemma modified_between_agree:
  assumes "modified_between_p fvm st x from to = Some False" "lie_between st from xs to"
    and "(run_effect ro st ys)\<^sup>*\<^sup>* s s'" "set ys \<subseteq> set xs" "plain_run st xs x"
  shows "agree_on ro (regs_of x) s s'"
proof (rule agree_on_star [OF assms(3)])
  fix a b
  assume "run_effect ro st ys a b"
  then obtain p where p: "p \<in> set xs" "is_insn (insn_at st p)" "insn_effect ro (insn_at st p) a b"
    using assms(4) by (auto simp: run_effect_def)
  then have pl: "plain_insn (insn_at st p)" "shares_notes (insn_at st p) x" using assms(5) by (auto simp: plain_run_def list_all_iff)
  show "agree_on ro (regs_of x) a b"
  proof (rule effect_agree [OF _ p(2) pl(1) p(3), where fvm = fvm], intro conjI)
    fix r
    assume r: "r \<in> set (regs_of x)"
    then have "reg_set_between_p fvm st r from to = Some False"
      using modified_with_regs(1) assms(1) by (auto simp: modified_between_p_def)
    then show "reg_set_p fvm r (insn_at st p) = Some False"
      using p(1,2) by (auto simp: reg_set_between_p_def insn_between_run [OF assms(2)] overlap_any_Some_False)
    show "GET_CODE r = REG" "GET_MODE r = HImode" using regs_of_reg(1) [OF r] by simp_all
    show "list_all (\<lambda>link. REG_NOTE_KIND link = REG_INC \<and> REGNO (XEXP link 0) = REGNO r \<longrightarrow> XEXP link 0 = r) (links (REG_NOTES (insn_at st p)))"
      using pl(2) r unfolding shares_notes_def list_all_iff by blast
  qed
qed

text \<open>C28. When \<open>modified_between_p\<close> answers no for an expression and two insns, the execution of the insns between
  them, in any order and any number of times, keeps the value of the expression.\<close>

theorem modified_between_p_sound:
  assumes "modified_between_p fvm st x from to = Some False" "lie_between st from xs to"
    and "(run_effect ro st xs)\<^sup>*\<^sup>* s s'" "plain_run st xs x" "constants_ok x" "reads_constants ro s x"
  shows "rtx_value s' x = rtx_value s x"
  by (rule modified_with_value(1) [OF assms(1) [unfolded modified_between_p_def] _ assms(5,6)])
    (rule modified_between_agree [OF assms(1-3) order_refl assms(4)])

section \<open>The last value\<close>

text \<open>An execution of an insn with its value: the destination of its single set holds the value of the source, and what
  a \<open>REG_EQUAL\<close> note says.\<close>

definition performs :: "16 word set \<Rightarrow> rtx \<Rightarrow> rtl_state \<Rightarrow> rtl_state \<Rightarrow> bool" where
  "performs ro insn s s' \<longleftrightarrow> (insn_effect ro insn)\<^sup>*\<^sup>* s s'
     \<and> (single_set insn \<noteq> NULL_RTX \<and> rtx_value s (SET_SRC (single_set insn)) \<noteq> None \<longrightarrow>
          rtx_value s' (SET_DEST (single_set insn)) = rtx_value s (SET_SRC (single_set insn)))
     \<and> (let datum = XEXP (find_reg_note insn REG_EQUAL NULL_RTX) 0
        in find_reg_note insn REG_EQUAL NULL_RTX \<noteq> NULL_RTX \<and> GET_CODE datum \<noteq> EXPR_LIST \<and> single_set insn \<noteq> NULL_RTX
             \<and> rtx_value s datum \<noteq> None \<longrightarrow>
          rtx_value s' (SET_DEST (single_set insn)) = rtx_value s datum)"

lemma performs_value:
  "performs ro insn s s' \<Longrightarrow> single_set insn \<noteq> NULL_RTX \<Longrightarrow> rtx_value s (value_of_set insn (single_set insn)) \<noteq> None \<Longrightarrow>
     rtx_value s' (SET_DEST (single_set insn)) = rtx_value s (value_of_set insn (single_set insn))"
  by (auto simp: performs_def value_of_set_def Let_def)

lemma last_value_in_chain:
  assumes "last_value_from fvm st x valid_to hw pinsn (last_of pre 0) = Some (src, q)" "linked (heap st) 0 pre e" "0 \<notin> set pre"
  shows "q = pinsn \<or> q \<in> set pre"
  using assms
proof (induction pre arbitrary: e rule: rev_induct)
  case (snoc y ys)
  note u = last_value_from.simps [of fvm st x valid_to hw pinsn y]
  have y: "y \<noteq> 0" "prev_of st y = last_of ys 0" "linked (heap st) 0 ys y"
    using snoc.prems by (auto simp: linked_append)
  have "last_value_from fvm st x valid_to hw pinsn y = Some (src, q)" using snoc.prems(1) by simp
  then have "q = y \<or> q = pinsn \<or> last_value_from fvm st x valid_to hw pinsn (last_of ys 0) = Some (src, q)"
    using y by (auto simp: u Let_def split: if_splits option.splits)
  then show ?case using snoc.IH [OF _ y(3)] snoc.prems by auto
qed (simp add: last_value_from.simps)

lemma last_value_walk:
  assumes "last_value_from fvm st x valid_to hw pinsn (last_of (pre @ q # ys) 0) = Some (src, q)"
    and "linked (heap st) 0 (pre @ q # ys) e" "distinct (pre @ q # ys)" "0 \<notin> set (pre @ q # ys)" "pinsn \<notin> set (q # ys)"
  shows "is_insn (insn_at st q) \<and> single_set (insn_at st q) \<noteq> NULL_RTX \<and> rtx_equal_p fvm x (SET_DEST (single_set (insn_at st q)))
    \<and> src = value_of_set (insn_at st q) (single_set (insn_at st q))
    \<and> modified_between_p fvm st src (last_of pre 0) valid_to = Some False
    \<and> (\<forall>y \<in> set ys. is_insn (insn_at st y) \<longrightarrow> reg_set_p fvm x (insn_at st y) = Some False)"
  using assms
proof (induction ys arbitrary: e rule: rev_induct)
  case Nil
  have q: "q \<noteq> 0" "prev_of st q = last_of pre 0" "linked (heap st) 0 pre q" "q \<noteq> pinsn" "q \<notin> set pre" "0 \<notin> set pre"
    using Nil.prems by (auto simp: linked_append)
  have "last_value_from fvm st x valid_to hw pinsn q = Some (src, q)" using Nil.prems(1) by simp
  moreover have "last_value_from fvm st x valid_to hw pinsn (last_of pre 0) \<noteq> Some (src, q)"
    using last_value_in_chain [OF _ q(3,6)] q(4,5) by blast
  ultimately show ?case using q
    by (auto simp: last_value_from.simps [of fvm st x valid_to hw pinsn q] Let_def split: if_splits option.splits)
next
  case (snoc y ys)
  note u = last_value_from.simps [of fvm st x valid_to hw pinsn y]
  have "linked (heap st) 0 ((pre @ q # ys) @ [y]) e" using snoc.prems(2) by simp
  then have y: "y \<noteq> 0" "y \<noteq> q" "y \<noteq> pinsn" "prev_of st y = last_of (pre @ q # ys) 0" "linked (heap st) 0 (pre @ q # ys) y"
    using snoc.prems(3-5) unfolding linked_append [of _ _ _ "[y]"] by auto
  have "last_value_from fvm st x valid_to hw pinsn y = Some (src, q)" using snoc.prems(1) by simp
  then have "last_value_from fvm st x valid_to hw pinsn (last_of (pre @ q # ys) 0) = Some (src, q)
      \<and> (is_insn (insn_at st y) \<longrightarrow> reg_set_p fvm x (insn_at st y) = Some False)"
    using y(1-3) snoc.prems(5) unfolding y(4) [symmetric] by (auto simp: u Let_def split: if_splits option.splits)
  then show ?case using snoc.IH [OF _ y(5)] snoc.prems by auto
qed

lemma equal_reg:
  assumes "rtx_equal_p fvm x y" "GET_CODE x = REG"
  shows "GET_CODE y = REG \<and> REGNO y = REGNO x \<and> GET_MODE y = GET_MODE x"
  using assms by (cases x) (auto split: if_splits)

lemma reg_value: "GET_CODE x = REG \<Longrightarrow> GET_MODE x = HImode \<Longrightarrow> rtx_value s x = Some (rs_regs s (REGNO x))"
  by (cases x) simp_all

text \<open>C29. The last value that \<open>find_last_value\<close> finds for a register in an insn before \<open>pinsn\<close> is its value there:
  when the insn has been executed and then the insns up to \<open>pinsn\<close>, the register holds the value of the
  expression, which has not changed since and keeps its value up to \<open>valid_to\<close>.\<close>

theorem find_last_value_sound:
  assumes "find_last_value fvm st x pinsn valid_to hw = Some (src, q)" "GET_CODE x = REG" "GET_MODE x = HImode"
    and chain: "linked (heap st) 0 (pre @ q # ys) pinsn" "prev_of st pinsn = last_of (pre @ q # ys) 0"
      "distinct (pre @ q # ys)" "0 \<notin> set (pre @ q # ys)" "pinsn \<notin> set (q # ys)"
    and run: "lie_between st (last_of pre 0) xs valid_to" "set (q # ys) \<subseteq> set xs"
    and plain: "plain_run st xs x" "plain_run st xs src" "constants_ok src" "reads_constants ro s0 src"
    and exec: "performs ro (insn_at st q) s0 s1" "(run_effect ro st ys)\<^sup>*\<^sup>* s1 s2" "(run_effect ro st xs)\<^sup>*\<^sup>* s2 s3"
    and "rtx_value s0 src \<noteq> None"
  shows "rtx_value s2 x = rtx_value s0 src \<and> rtx_value s3 src = rtx_value s0 src"
proof -
  let ?q = "insn_at st q"
  have "pinsn \<noteq> 0" using assms(1) by (auto simp: find_last_value_def split: if_splits)
  then have "last_value_from fvm st x valid_to hw pinsn (last_of (pre @ q # ys) 0) = Some (src, q)"
    using assms(1) chain(2) by (simp add: find_last_value_def)
  note w = last_value_walk [OF this chain(1,3,4,5)]
  have m: "modified_between_p fvm st src (last_of pre 0) valid_to = Some False" using w by blast
  have q: "(insn_effect ro ?q)\<^sup>*\<^sup>* s0 s1" "is_insn ?q" using exec(1) w by (simp_all add: performs_def)
  have "insn_effect ro ?q \<le> run_effect ro st xs"
    using q(2) run(2) by (auto simp: run_effect_def le_fun_def)
  then have a: "(run_effect ro st xs)\<^sup>*\<^sup>* s0 s1" using q(1) rtranclp_mono by blast
  have "run_effect ro st ys \<le> run_effect ro st xs" using run(2) by (auto simp: run_effect_def le_fun_def)
  then have "(run_effect ro st xs)\<^sup>*\<^sup>* s1 s2" using exec(2) rtranclp_mono by blast
  with a exec(3) have "(run_effect ro st xs)\<^sup>*\<^sup>* s0 s3" by simp
  then have src: "rtx_value s3 src = rtx_value s0 src"
    using modified_between_p_sound [OF m run(1) _ plain(2-4)] by blast
  have d: "GET_CODE (SET_DEST (single_set ?q)) = REG \<and> REGNO (SET_DEST (single_set ?q)) = REGNO x
      \<and> GET_MODE (SET_DEST (single_set ?q)) = HImode" using w equal_reg assms(2,3) by auto
  then have "rtx_value s1 x = rtx_value s0 src"
    using performs_value [OF exec(1)] w assms(2,3,18) reg_value [of "SET_DEST (single_set ?q)" s1] reg_value [of x s1] by simp
  moreover have "agree_on ro [x] s1 s2"
  proof (rule agree_on_star [OF exec(2)])
    fix u v assume "run_effect ro st ys u v"
    then obtain p where p: "p \<in> set ys" "is_insn (insn_at st p)" "insn_effect ro (insn_at st p) u v" by (auto simp: run_effect_def)
    have pl: "plain_insn (insn_at st p)" "shares_notes (insn_at st p) x"
      using plain(1) p(1) run(2) by (auto simp: plain_run_def list_all_iff)
    have "regs_of x = [x]" using assms(2,3) by (cases x) simp_all
    then show "agree_on ro [x] u v"
      using w p assms(2,3) pl by (intro effect_agree [OF _ p(2) pl(1) p(3), where fvm = fvm]) (auto simp: shares_notes_def)
  qed
  ultimately show ?thesis using src assms(2,3) by (simp add: reg_value agree_on_def)
qed

section \<open>Examples\<close>

declare some_until.simps [code] last_value_from.simps [code] set_last_from.simps [code]

text \<open>A chain of insns with the given patterns, at the addresses from 1.\<close>

definition straight_code :: "rtx list \<Rightarrow> emit_state" where
  "straight_code pats = empty_emit\<lparr>heap := (\<lambda>p. if 1 \<le> p \<and> p \<le> length pats
     then (blank_cell INSN)\<lparr>PREV_INSN := p - 1, NEXT_INSN := (if p < length pats then p + 1 else 0), ic_pattern := Body (pats ! (p - 1))\<rparr>
     else blank_cell NOTE)\<rparr>"

definition set_of :: "int \<Rightarrow> rtx \<Rightarrow> rtx" where
  "set_of r x = gen_rtx_fmt_ee SET VOIDmode (gen_rtx_REG HImode r) x"

definition exchange_of :: "int \<Rightarrow> int \<Rightarrow> rtx" where
  "exchange_of a b = Rtx PARALLEL VOIDmode no_flags [FVec [set_of a (gen_rtx_REG HImode b), set_of b (gen_rtx_REG HImode a)]]"

definition sum_of_41 :: rtx where
  "sum_of_41 = gen_rtx_fmt_ee PLUS HImode (gen_rtx_REG HImode 41) (GEN_INT 3)"

lemma set_effect:
  assumes "note_stores (PATTERN insn) = [(gen_rtx_REG HImode r, pat)]" "FIRST_PSEUDO_REGISTER \<le> r"
  shows "insn_effect ro insn s (s\<lparr>rs_regs := (rs_regs s)(r := v)\<rparr>)"
proof (rule effect_store [of "gen_rtx_REG HImode r"])
  have "dest_regno (gen_rtx_REG HImode r) = r" "dest_endregno (gen_rtx_REG HImode r) = r + 1"
    using assms(2) by (simp_all add: dest_regno_def dest_endregno_def gen_rtx_REG_def REGNO_def fld_access)
  then show "stores_into (gen_rtx_REG HImode r) s (s\<lparr>rs_regs := (rs_regs s)(r := v)\<rparr>)"
    by (intro stores_reg) (simp_all add: gen_rtx_REG_def agree_outside_def)
qed (simp_all add: assms(1) keeps_constants_def)

theorem modified_in_p_sound_witness:
  "\<forall>s v. rtx_value (s\<lparr>rs_regs := (rs_regs s)(40 := v)\<rparr>) sum_of_41 = rtx_value s sum_of_41"
proof (intro allI, rule modified_in_p_sound [of True _ "insn_at (straight_code [set_of 40 const0_rtx]) 1" "{}"])
  fix s :: rtl_state and v
  show "(insn_effect {} (insn_at (straight_code [set_of 40 const0_rtx]) 1))\<^sup>*\<^sup>* s (s\<lparr>rs_regs := (rs_regs s)(40 := v)\<rparr>)"
  proof (rule r_into_rtranclp, rule set_effect [of _ _ "set_of 40 const0_rtx"])
    show "note_stores (PATTERN (insn_at (straight_code [set_of 40 const0_rtx]) 1)) = [(gen_rtx_REG HImode 40, set_of 40 const0_rtx)]"
      by code_simp
  qed simp
  show "reads_constants {} s sum_of_41" by (simp add: sum_of_41_def gen_rtx_defs)
qed code_simp+

theorem modified_between_p_sound_witness:
  "\<forall>s v. rtx_value (s\<lparr>rs_regs := (rs_regs s)(40 := v)\<rparr>) sum_of_41 = rtx_value s sum_of_41"
proof (intro allI, rule modified_between_p_sound [of True "straight_code [pc_rtx, set_of 40 const0_rtx, pc_rtx]" _ 1 3 "[2]" "{}"])
  fix s :: rtl_state and v
  let ?st = "straight_code [pc_rtx, set_of 40 const0_rtx, pc_rtx]"
  have "insn_effect {} (insn_at ?st 2) s (s\<lparr>rs_regs := (rs_regs s)(40 := v)\<rparr>)"
  proof (rule set_effect [of _ _ "set_of 40 const0_rtx"])
    show "note_stores (PATTERN (insn_at ?st 2)) = [(gen_rtx_REG HImode 40, set_of 40 const0_rtx)]" by code_simp
  qed simp
  moreover have "is_insn (insn_at ?st 2)" by code_simp
  ultimately show "(run_effect {} ?st [2])\<^sup>*\<^sup>* s (s\<lparr>rs_regs := (rs_regs s)(40 := v)\<rparr>)"
    by (intro r_into_rtranclp) (auto simp: run_effect_def)
  show "reads_constants {} s sum_of_41" by (simp add: sum_of_41_def gen_rtx_defs)
qed code_simp+

theorem find_last_value_sound_witness:
  "\<forall>s. rtx_value (s\<lparr>rs_regs := (rs_regs s)(40 := 3)\<rparr>) (gen_rtx_REG HImode 40) = rtx_value s (GEN_INT 3)
    \<and> rtx_value (s\<lparr>rs_regs := (rs_regs s)(40 := 3)\<rparr>) (GEN_INT 3) = rtx_value s (GEN_INT 3)"
proof
  fix s :: rtl_state
  let ?st = "straight_code [pc_rtx, set_of 40 (GEN_INT 3), set_of 41 const0_rtx, pc_rtx]"
  let ?s' = "s\<lparr>rs_regs := (rs_regs s)(40 := 3)\<rparr>"
  have three: "rtx_value s (GEN_INT 3) = Some 3" by (simp add: gen_rtx_defs INTVAL_def fld_access)
  have "insn_effect {} (insn_at ?st 2) s ?s'"
  proof (rule set_effect [of _ _ "set_of 40 (GEN_INT 3)"])
    show "note_stores (PATTERN (insn_at ?st 2)) = [(gen_rtx_REG HImode 40, set_of 40 (GEN_INT 3))]" by code_simp
  qed simp
  moreover have "single_set (insn_at ?st 2) = set_of 40 (GEN_INT 3)"
    "find_reg_note (insn_at ?st 2) REG_EQUAL NULL_RTX = NULL_RTX" by code_simp+
  ultimately have p: "performs {} (insn_at ?st 2) s ?s'"
    using three by (auto simp: performs_def set_of_def gen_rtx_defs SET_DEST_def SET_SRC_def REGNO_def fld_access)
  show "rtx_value ?s' (gen_rtx_REG HImode 40) = rtx_value s (GEN_INT 3) \<and> rtx_value ?s' (GEN_INT 3) = rtx_value s (GEN_INT 3)"
  proof (rule find_last_value_sound [of True ?st "gen_rtx_REG HImode 40" 4 4 True "GEN_INT 3" 2 "[1]" "[3]" "[2, 3]" "{}" s ?s' ?s' ?s'])
    show "reads_constants {} s (GEN_INT 3)" by (simp add: gen_rtx_defs)
    show "performs {} (insn_at ?st 2) s ?s'" by (rule p)
    show "rtx_value s (GEN_INT 3) \<noteq> None" using three by simp
  qed (rule rtranclp.rtrancl_refl, rule rtranclp.rtrancl_refl | code_simp)+
qed

text \<open>C30. \<open>reg_set_last\<close> does not see that the insn which sets the register changes the source too: for an insn that
  exchanges two registers it gives the one as the last value of the other, and after the insn they differ.\<close>

theorem reg_set_last_of_exchange_wrong:
  "\<exists>s s'. reg_set_last True (straight_code [exchange_of 40 41, pc_rtx]) (gen_rtx_REG HImode 40) 2 = Some (gen_rtx_REG HImode 41)
    \<and> s' = s\<lparr>rs_regs := (rs_regs s)(40 := rs_regs s 41, 41 := rs_regs s 40)\<rparr>
    \<and> (insn_effect {} (insn_at (straight_code [exchange_of 40 41, pc_rtx]) 1))\<^sup>*\<^sup>* s s'
    \<and> rtx_value s' (gen_rtx_REG HImode 40) \<noteq> rtx_value s' (gen_rtx_REG HImode 41)"
proof -
  let ?i = "insn_at (straight_code [exchange_of 40 41, pc_rtx]) 1"
  obtain s :: rtl_state where s: "rs_regs s = (\<lambda>r. if r = 40 then 1 else 0)"
    by (metis (no_types) rtl_state.select_convs(1))
  have n: "map fst (note_stores (PATTERN ?i)) = [gen_rtx_REG HImode 41, gen_rtx_REG HImode 40]" by code_simp
  have e: "insn_effect {} ?i u (u\<lparr>rs_regs := (rs_regs u)(r := v)\<rparr>)" if "r = 40 \<or> r = 41" for u r v
  proof (rule effect_store)
    show "gen_rtx_REG HImode r \<in> fst ` set (note_stores (PATTERN ?i))"
      using that arg_cong [OF n, of set] by auto
    show "stores_into (gen_rtx_REG HImode r) u (u\<lparr>rs_regs := (rs_regs u)(r := v)\<rparr>)"
      using that by (intro stores_reg) (auto simp: gen_rtx_REG_def agree_outside_def dest_regno_def dest_endregno_def REGNO_def fld_access)
  qed (simp add: keeps_constants_def)
  have "(insn_effect {} ?i)\<^sup>*\<^sup>* s (s\<lparr>rs_regs := (rs_regs s)(40 := rs_regs s 41, 41 := rs_regs s 40)\<rparr>)"
    using e [of 40 s "rs_regs s 41"] e [of 41 "s\<lparr>rs_regs := (rs_regs s)(40 := rs_regs s 41)\<rparr>" "rs_regs s 40"] by simp
  moreover have "reg_set_last True (straight_code [exchange_of 40 41, pc_rtx]) (gen_rtx_REG HImode 40) 2 = Some (gen_rtx_REG HImode 41)"
    by code_simp
  ultimately show ?thesis
    using s by - (rule exI [of _ s], simp add: gen_rtx_REG_def REGNO_def fld_access)
qed

end
