(* ===== verification/Rtl_Traverse.thy ===== *)
theory Rtl_Traverse
  imports Rtl_Between
begin

text \<open>
  Traversals of expressions (gcc/rtlanal.c): the replacement of registers by a map, computed jumps, and the
  general traversal with a callback.  \<open>replace_regs\<close> changes the expression in place; the tree
  it returns is the result.  The callback of \<open>for_each_rtx\<close> sees an expression and its own data, and
  does not replace the expression.
\<close>

section \<open>Replacing registers\<close>

text \<open>An entry of the map is the null pointer for a register that stays.\<close>

definition map_entry :: "(int \<Rightarrow> rtx) \<Rightarrow> int \<Rightarrow> int \<Rightarrow> rtx" where
  "map_entry reg_map nregs r = (if r < nregs then reg_map r else NULL_RTX)"

definition nested_subreg :: "(int \<Rightarrow> rtx) \<Rightarrow> int \<Rightarrow> rtx \<Rightarrow> bool" where
  "nested_subreg reg_map nregs x \<longleftrightarrow> GET_CODE (SUBREG_REG x) = REG
     \<and> GET_CODE (map_entry reg_map nregs (REGNO (SUBREG_REG x))) = SUBREG"

definition join_subregs :: "rtx \<Rightarrow> rtx \<Rightarrow> rtx" where
  "join_subregs x map_val =
     (let map_inner = SUBREG_REG map_val
      in if GET_MODE x = GET_MODE map_inner then map_inner
         else (case x of NULL_RTX \<Rightarrow> NULL_RTX
               | Rtx c m f fs \<Rightarrow> Rtx c m f (fs[0 := FExp map_inner, 1 := FInt (SUBREG_WORD x + SUBREG_WORD map_val)])))"

fun replace_regs :: "(int \<Rightarrow> rtx) \<Rightarrow> int \<Rightarrow> bool \<Rightarrow> rtx \<Rightarrow> rtx"
  and replace_regs_fld :: "(int \<Rightarrow> rtx) \<Rightarrow> int \<Rightarrow> bool \<Rightarrow> fld \<Rightarrow> fld" where
  "replace_regs reg_map nregs replace_dest NULL_RTX = NULL_RTX"
| "replace_regs reg_map nregs replace_dest (Rtx c m f fs) =
     (let x = Rtx c m f fs in
      if c \<in> {SCRATCH, PC, CC0, CONST_INT, CONST_DOUBLE, CONST_rtx, SYMBOL_REF, LABEL_REF} then x
      else if c = REG then
        (let y = map_entry reg_map nregs (REGNO x)
         in if y = NULL_RTX then x else if GET_CODE y = SUBREG then copy_rtx y else y)
      else if c = SUBREG \<and> nested_subreg reg_map nregs x then
        join_subregs x (map_entry reg_map nregs (REGNO (SUBREG_REG x)))
      else if c = SET \<and> (replace_dest \<or> GET_CODE (SET_DEST x) \<noteq> ZERO_EXTRACT) then
        (case fs of dest # src # rest \<Rightarrow>
           (let d = fld_exp dest
            in Rtx c m f
                 ((if replace_dest then replace_regs_fld reg_map nregs False dest
                   else if GET_CODE d = MEM \<or> GET_CODE d = STRICT_LOW_PART then
                     (case dest of FExp (Rtx dc dm df (a # as)) \<Rightarrow> FExp (Rtx dc dm df (replace_regs_fld reg_map nregs False a # as))
                      | _ \<Rightarrow> dest)
                   else dest) # replace_regs_fld reg_map nregs False src # rest))
         | _ \<Rightarrow> x)
      else Rtx c m f (map (replace_regs_fld reg_map nregs replace_dest) fs))"
| "replace_regs_fld reg_map nregs replace_dest (FExp x) = FExp (replace_regs reg_map nregs replace_dest x)"
| "replace_regs_fld reg_map nregs replace_dest (FVec xs) = FVec (map (replace_regs reg_map nregs replace_dest) xs)"
| "replace_regs_fld reg_map nregs replace_dest (FInt i) = FInt i"
| "replace_regs_fld reg_map nregs replace_dest (FWide i) = FWide i"
| "replace_regs_fld reg_map nregs replace_dest (FStr s) = FStr s"
| "replace_regs_fld reg_map nregs replace_dest (FInsn u) = FInsn u"
| "replace_regs_fld reg_map nregs replace_dest (FNone n) = FNone n"

section \<open>Computed jumps\<close>

definition CONSTANT_POOL_ADDRESS_P :: "rtx \<Rightarrow> bool" where
  "CONSTANT_POOL_ADDRESS_P x = fl_unchanging (rtx_flags_of x)"

fun jmp_uses_reg_or_mem :: "rtx \<Rightarrow> bool" and jmp_uses_fld :: "fld \<Rightarrow> bool" where
  "jmp_uses_reg_or_mem NULL_RTX = False"
| "jmp_uses_reg_or_mem (Rtx c m f fs) =
     (if c = CONST_rtx \<or> c = LABEL_REF \<or> c = PC then False
      else if c = REG then True
      else if c = MEM then
        (let a = XEXP (Rtx c m f fs) 0 in \<not> (GET_CODE a = SYMBOL_REF \<and> CONSTANT_POOL_ADDRESS_P a))
      else if c = IF_THEN_ELSE then 
        (case fs of _ # a # b # _ \<Rightarrow> jmp_uses_fld a \<or> jmp_uses_fld b | _ \<Rightarrow> False)
      else if c = PLUS \<or> c = MINUS \<or> c = MULT then 
        (case fs of a # b # _ \<Rightarrow> jmp_uses_fld a \<or> jmp_uses_fld b | _ \<Rightarrow> False)
      else (\<exists>x \<in> set fs. jmp_uses_fld x))"
| "jmp_uses_fld (FExp x) = jmp_uses_reg_or_mem x"
| "jmp_uses_fld (FVec xs) = (\<exists>x \<in> set xs. jmp_uses_reg_or_mem x)"
| "jmp_uses_fld _ = False"

text \<open>The searches of a \<open>PARALLEL\<close> from its last element to the first have no effects.\<close>

definition jump_set :: "rtx \<Rightarrow> bool" where
  "jump_set x \<longleftrightarrow> GET_CODE x = SET \<and> SET_DEST x = pc_rtx \<and> jmp_uses_reg_or_mem (SET_SRC x)"

definition computed_jump_p :: "rtx \<Rightarrow> bool" where
  "computed_jump_p insn \<longleftrightarrow> GET_CODE insn = JUMP_INSN
     \<and> (let pat = PATTERN insn
        in if GET_CODE pat = PARALLEL then
             \<not> list_ex (\<lambda>e. GET_CODE e = USE \<and> GET_CODE (XEXP e 0) = LABEL_REF) (rev (XVEC pat 0))
             \<and> list_ex jump_set (rev (XVEC pat 0))
           else jump_set pat)"

section \<open>The general traversal\<close>

text \<open>A loop over elements that ends at the first result that is not zero.\<close>

fun until_nonzero :: "('a \<Rightarrow> 'd \<Rightarrow> int \<times> 'd) \<Rightarrow> 'a list \<Rightarrow> 'd \<Rightarrow> int \<times> 'd" where
  "until_nonzero g [] d = (0, d)"
| "until_nonzero g (x # xs) d = (case g x d of (r, d') \<Rightarrow> if r \<noteq> 0 then (r, d') else until_nonzero g xs d')"

lemma until_nonzero_cong [fundef_cong]:
  "xs = ys \<Longrightarrow> d = e \<Longrightarrow> (\<And>x d. x \<in> set ys \<Longrightarrow> g x d = h x d) \<Longrightarrow> until_nonzero g xs d = until_nonzero h ys e"
  by (induction xs arbitrary: ys d e) (auto split: prod.splits)

function for_each_rtx :: "(rtx \<Rightarrow> 'd \<Rightarrow> int \<times> 'd) \<Rightarrow> rtx \<Rightarrow> 'd \<Rightarrow> int \<times> 'd"
  and for_each_fld :: "(rtx \<Rightarrow> 'd \<Rightarrow> int \<times> 'd) \<Rightarrow> fld \<Rightarrow> 'd \<Rightarrow> int \<times> 'd" where
  "for_each_rtx g NULL_RTX d = (case g NULL_RTX d of (result, d') \<Rightarrow> if result = - 1 then (0, d') else (result, d'))"
| "for_each_rtx g (Rtx c m f fs) d =
     (case g (Rtx c m f fs) d of (result, d') \<Rightarrow>
        if result = - 1 then (0, d') else if result \<noteq> 0 then (result, d')
        else until_nonzero (for_each_fld g) fs d')"
| "for_each_fld g (FExp x) d = for_each_rtx g x d"
| "for_each_fld g (FVec xs) d = until_nonzero (for_each_rtx g) xs d"
| "for_each_fld g (FInt i) d = (0, d)"
| "for_each_fld g (FWide i) d = (0, d)"
| "for_each_fld g (FStr s) d = (0, d)"
| "for_each_fld g (FInsn u) d = (0, d)"
| "for_each_fld g (FNone n) d = (0, d)"
  by pat_completeness auto
termination by (relation "measure (\<lambda>z. case z of Inl (g, x, d) \<Rightarrow> size x | Inr (g, f, d) \<Rightarrow> size f)")
  (auto simp: less_Suc_eq_le size_list_estimation')

section \<open>Soundness\<close>

lemma rtx_value_by_operands:
  assumes "c \<notin> {CONST_INT, SYMBOL_REF, LABEL_REF, REG}" "map (fld_value s') fs' = map (fld_value s) fs" "rs_mem s' = rs_mem s"
  shows "rtx_value s' (Rtx c m f fs') = rtx_value s (Rtx c m f' fs)"
  using assms by (cases fs; cases fs') (auto simp: Let_def)

lemma no_value: "c \<in> {SUBREG, SET, SCRATCH, PC, CC0, CONST_DOUBLE} \<Longrightarrow> rtx_value s (Rtx c m f fs) = None"
  by (auto simp: Let_def apply_code_other)

definition mapped_regs :: "(int \<Rightarrow> rtx) \<Rightarrow> int \<Rightarrow> rtl_state \<Rightarrow> rtl_state" where
  "mapped_regs reg_map nregs s = s\<lparr>rs_regs := (\<lambda>r. if map_entry reg_map nregs r = NULL_RTX then rs_regs s r
     else rs_regs s (REGNO (map_entry reg_map nregs r)))\<rparr>"

text \<open>The entries for the registers of an expression are registers of the same mode.\<close>

fun same_modes :: "(int \<Rightarrow> rtx) \<Rightarrow> int \<Rightarrow> rtx \<Rightarrow> bool" and same_modes_fld :: "(int \<Rightarrow> rtx) \<Rightarrow> int \<Rightarrow> fld \<Rightarrow> bool" where
  "same_modes reg_map nregs NULL_RTX = True"
| "same_modes reg_map nregs (Rtx c m f fs) =
     (if c = REG then
        (let y = map_entry reg_map nregs (REGNO (Rtx c m f fs)) in y = NULL_RTX \<or> GET_CODE y = REG \<and> GET_MODE y = m)
      else (\<forall>x \<in> set fs. same_modes_fld reg_map nregs x))"
| "same_modes_fld reg_map nregs (FExp x) = same_modes reg_map nregs x"
| "same_modes_fld reg_map nregs _ = True"

lemma join_subregs_value:
  "GET_CODE x = SUBREG \<Longrightarrow> GET_CODE v = SUBREG \<Longrightarrow> GET_MODE x \<noteq> GET_MODE (SUBREG_REG v) \<Longrightarrow> rtx_value s (join_subregs x v) = None"
  by (cases x) (simp_all add: join_subregs_def Let_def no_value del: rtx_value.simps)

lemma replace_regs_value:
  "same_modes reg_map nregs x \<Longrightarrow> constants_ok x \<Longrightarrow>
     rtx_value s (replace_regs reg_map nregs rd x) = rtx_value (mapped_regs reg_map nregs s) x"
  and "same_modes_fld reg_map nregs f \<Longrightarrow> constants_ok_fld f \<Longrightarrow>
     fld_value s (replace_regs_fld reg_map nregs rd f) = fld_value (mapped_regs reg_map nregs s) f"
proof (induction x and f arbitrary: rd and rd rule: rtx.induct fld.induct)
  case (Rtx c m f fs)
  let ?x = "Rtx c m f fs"
  let ?s = "mapped_regs reg_map nregs s"
  consider (const) "c \<in> {CONST_INT, CONST_rtx, SYMBOL_REF, LABEL_REF, CONST_DOUBLE}" | (none) "c \<in> {SCRATCH, PC, CC0}" | (reg) "c = REG"
    | (nest) "c = SUBREG" "nested_subreg reg_map nregs ?x"
    | (set) "c = SET" "rd \<or> GET_CODE (SET_DEST ?x) \<noteq> ZERO_EXTRACT"
    | (rest) "c \<notin> {SCRATCH, PC, CC0, CONST_INT, CONST_DOUBLE, CONST_rtx, SYMBOL_REF, LABEL_REF, REG}"
        "\<not> (c = SUBREG \<and> nested_subreg reg_map nregs ?x)" "\<not> (c = SET \<and> (rd \<or> GET_CODE (SET_DEST ?x) \<noteq> ZERO_EXTRACT))"
    by blast
  then show ?case
  proof cases
    case const
    then have "CONSTANT_P ?x" by (auto simp: CONSTANT_P_def)
    then have "link_time_const ?x" using Rtx.prems(2) by (simp only: constants_ok.simps simp_thms)
    then have "rtx_value s ?x = rtx_value ?s ?x" by (rule link_time_const_value(1)) (simp_all add: mapped_regs_def)
    moreover have "replace_regs reg_map nregs rd ?x = ?x" using const by (auto simp: Let_def)
    ultimately show ?thesis by (simp only:)
  next
    case none
    then have "replace_regs reg_map nregs rd ?x = ?x" by (auto simp: Let_def)
    moreover have "rtx_value u ?x = None" for u using none by (intro no_value) blast
    ultimately show ?thesis by (simp only:)
  next
    case reg
    let ?y = "map_entry reg_map nregs (REGNO ?x)"
    show ?thesis
    proof (cases "?y = NULL_RTX")
      case True
      then show ?thesis using reg by (cases "m = HImode") (simp_all add: mapped_regs_def)
    next
      case False
      then have y: "GET_CODE ?y = REG" "GET_MODE ?y = m" using Rtx.prems(1) reg by (auto simp: Let_def)
      then have "replace_regs reg_map nregs rd ?x = ?y" using reg False by (simp add: Let_def)
      moreover have "rtx_value s ?y = rtx_value ?s ?x"
      proof (cases "m = HImode")
        case True
        then show ?thesis using reg False reg_value [of ?y s] reg_value [of ?x ?s] y by (simp add: mapped_regs_def)
      next
        case False
        then show ?thesis using reg y by (cases ?y) simp_all
      qed
      ultimately show ?thesis by (simp only:)
    qed
  next
    case nest
    have "GET_CODE (XEXP ?x 0) = REG" using nest(2) by (simp add: nested_subreg_def SUBREG_REG_def)
    then have "0 < length fs" "fs ! 0 = FExp (SUBREG_REG ?x)"
      by (cases "0 < length fs"; cases "fs ! 0"; simp_all add: fld_access SUBREG_REG_def)+
    then have "same_modes reg_map nregs (SUBREG_REG ?x)" using Rtx.prems(1) nest(1) nth_mem [of 0 fs] by force
    then have "map_entry reg_map nregs (REGNO (SUBREG_REG ?x)) = NULL_RTX
        \<or> GET_CODE (map_entry reg_map nregs (REGNO (SUBREG_REG ?x))) = REG"
      using nest(2) by (cases "SUBREG_REG ?x") (auto simp: nested_subreg_def Let_def)
    then show ?thesis using nest(2) by (auto simp: nested_subreg_def)
  next
    case set
    have "GET_CODE (replace_regs reg_map nregs rd ?x) = SET" using set
      by (cases fs; cases "tl fs") (simp_all add: Let_def)
    then show ?thesis using set no_value [of SET]
      by (cases "replace_regs reg_map nregs rd ?x") (simp_all del: rtx_value.simps replace_regs.simps)
  next
    case rest
    then have "replace_regs reg_map nregs rd ?x = Rtx c m f (map (replace_regs_fld reg_map nregs rd) fs)"
      by (cases "c = SUBREG"; cases "c = SET") (simp_all add: Let_def)
    moreover have "map (fld_value s) (map (replace_regs_fld reg_map nregs rd) fs) = map (fld_value ?s) fs"
      using Rtx rest(1) by simp
    ultimately show ?thesis using rest(1)
      by (simp only:) (rule rtx_value_by_operands, simp_all add: mapped_regs_def)
  qed
qed auto



lemma operator_value:
  "c \<notin> {CONST_INT, SYMBOL_REF, LABEL_REF, REG, MEM} \<Longrightarrow>
     rtx_value s (Rtx c m f fs) = (if m = HImode then apply_code c (map (fld_value s) fs) else None)"
  by (simp add: Let_def)

lemma binary_only: "c \<in> {PLUS, MINUS, MULT} \<Longrightarrow> length vs \<noteq> 2 \<Longrightarrow> apply_code c vs = None"
  by (cases "(c, vs)" rule: apply_code.cases) auto

lemma jump_target_value:
  "\<not> jmp_uses_reg_or_mem x \<Longrightarrow> keeps_constants ro s s' \<Longrightarrow> constants_ok x \<Longrightarrow> reads_constants ro s x \<Longrightarrow>
     rtx_value s' x = rtx_value s x"
  and "\<not> jmp_uses_fld f \<Longrightarrow> keeps_constants ro s s' \<Longrightarrow> constants_ok_fld f \<Longrightarrow> reads_constants_fld ro s f \<Longrightarrow>
     fld_value s' f = fld_value s f"
proof (induction x and f rule: rtx.induct fld.induct)
  case (Rtx c m f fs)
  let ?x = "Rtx c m f fs"
  have sub: "y \<in> set fs \<Longrightarrow> \<not> jmp_uses_fld y \<Longrightarrow> fld_value s' y = fld_value s y" for y
    using Rtx.IH Rtx.prems(2-4) by simp
  consider (const) "c \<in> {CONST_INT, CONST_rtx, SYMBOL_REF, LABEL_REF}" | (pc) "c \<in> {PC, IF_THEN_ELSE}" | (reg) "c = REG"
    | (mem) "c = MEM" | (binary) "c \<in> {PLUS, MINUS, MULT}"
    | (rest) "c \<notin> {CONST_INT, CONST_rtx, SYMBOL_REF, LABEL_REF, PC, IF_THEN_ELSE, REG, MEM, PLUS, MINUS, MULT}" by blast
  then show ?case
  proof cases
    case const
    then have "CONSTANT_P ?x" by (auto simp: CONSTANT_P_def)
    then have "link_time_const ?x" using Rtx.prems(3) by (simp only: constants_ok.simps simp_thms)
    then show ?thesis using Rtx.prems(2) by (intro link_time_const_value(1)) (simp_all add: keeps_constants_def)
  next
    case pc
    then have "rtx_value u ?x = None" for u by (auto simp: Let_def apply_code_other)
    then show ?thesis by simp
  next
    case reg
    then show ?thesis using Rtx.prems(1) by simp
  next
    case mem
    then have a: "GET_CODE (XEXP ?x 0) = SYMBOL_REF" using Rtx.prems(1) by (simp add: Let_def)
    then obtain ys where fs: "fs = FExp (XEXP ?x 0) # ys" by (cases fs; cases "hd fs") (auto simp: fld_access)
    then have "constants_ok (XEXP ?x 0)" using Rtx.prems(3) by (metis constants_ok.simps(2) constants_ok_fld.simps(1) list.set_intros(1))
    moreover have "CONSTANT_P (XEXP ?x 0)" using a by (simp add: CONSTANT_P_def)
    ultimately have "link_time_const (XEXP ?x 0)" by (cases "XEXP ?x 0") (simp_all del: link_time_const.simps(2))
    then have v: "rtx_value s' (XEXP ?x 0) = rtx_value s (XEXP ?x 0)"
      using Rtx.prems(2) by (intro link_time_const_value(1)) (simp_all add: keeps_constants_def)
    have "m = HImode \<Longrightarrow> rtx_value u ?x = map_option (load16 (rs_mem u)) (rtx_value u (XEXP ?x 0))" for u
      using mem by (simp add: arg_cong [OF fs, of "case_list _ _"])
    moreover have "m \<noteq> HImode \<Longrightarrow> rtx_value u ?x = None" for u using mem by simp
    ultimately show ?thesis using mem v Rtx.prems(2,4) load16_keeps [of ro s s']
      by (cases "m = HImode"; cases "rtx_value s (XEXP ?x 0)") (auto simp del: rtx_value.simps(2) simp: Let_def)
  next
    case binary
    show ?thesis
    proof (cases "length fs = 2")
      case True
      then obtain p q where fs: "fs = [p, q]" by (auto simp: numeral_2_eq_2 length_Suc_conv)
      have "\<not> jmp_uses_fld p" "\<not> jmp_uses_fld q" using Rtx.prems(1) binary unfolding fs by auto
      then have "map (fld_value s') fs = map (fld_value s) fs" using sub [of p] sub [of q] by (simp add: fs)
      moreover have "c \<notin> {CONST_INT, SYMBOL_REF, LABEL_REF, REG, MEM}" using binary by auto
      ultimately show ?thesis by (simp only: operator_value simp_thms)
    next
      case False
      then show ?thesis using binary binary_only [of c] by (subst (1 2) operator_value) auto
    qed
  next
    case rest
    then have "map (fld_value s') fs = map (fld_value s) fs" using Rtx.prems(1) sub by simp
    then show ?thesis using rest by (subst (1 2) operator_value) (auto simp del: map_eq_conv)
  qed
qed auto

text \<open>The target of a jump that is not computed is fixed: the expression reads no register and no memory but
  constant memory, so its value is the same in all states that agree on that memory and on addresses.\<close>

theorem jmp_uses_reg_or_mem_sound:
  assumes "\<not> jmp_uses_reg_or_mem x" "keeps_constants ro s s'" "constants_ok x" "reads_constants ro s x"
  shows "rtx_value s' x = rtx_value s x"
  using assms by (rule jump_target_value(1))

theorem jmp_uses_reg_or_mem_sound_witness:
  "\<forall>s r. rtx_value (s\<lparr>rs_regs := r\<rparr>) (gen_rtx_fmt_ee PLUS HImode (gen_rtx_LABEL_REF HImode 4) (GEN_INT 3))
    = rtx_value s (gen_rtx_fmt_ee PLUS HImode (gen_rtx_LABEL_REF HImode 4) (GEN_INT 3))"
proof (intro allI, rule jmp_uses_reg_or_mem_sound [of _ "{}"])
  fix s :: rtl_state
  show "reads_constants {} s (gen_rtx_fmt_ee PLUS HImode (gen_rtx_LABEL_REF HImode 4) (GEN_INT 3))" by (simp add: gen_rtx_defs)
  fix r
  show "keeps_constants {} s (s\<lparr>rs_regs := r\<rparr>)" by (simp add: keeps_constants_def)
qed code_simp+

section \<open>Searches\<close>

text \<open>The subexpressions in the order of the traversal.\<close>

fun subexpressions :: "rtx \<Rightarrow> rtx list" and subexpressions_fld :: "fld \<Rightarrow> rtx list" where
  "subexpressions NULL_RTX = [NULL_RTX]"
| "subexpressions (Rtx c m f fs) = Rtx c m f fs # concat (map subexpressions_fld fs)"
| "subexpressions_fld (FExp x) = subexpressions x"
| "subexpressions_fld (FVec xs) = concat (map subexpressions xs)"
| "subexpressions_fld _ = []"

lemma until_nonzero_append:
  "until_nonzero g (xs @ ys) d = (case until_nonzero g xs d of (r, d') \<Rightarrow> if r \<noteq> 0 then (r, d') else until_nonzero g ys d')"
  by (induction xs arbitrary: d) (auto split: prod.splits)

lemma until_nonzero_concat:
  "(\<And>x d. x \<in> set xs \<Longrightarrow> h x d = until_nonzero g (k x) d) \<Longrightarrow> until_nonzero h xs d = until_nonzero g (concat (map k xs)) d"
proof (induction xs arbitrary: d)
  case (Cons x xs)
  then show ?case by (auto simp: until_nonzero_append split: prod.splits)
qed simp

lemma for_each_list:
  "(\<And>y d. fst (g y d) \<noteq> - 1) \<Longrightarrow> for_each_rtx g x d = until_nonzero g (subexpressions x) d"
  and "(\<And>y d. fst (g y d) \<noteq> - 1) \<Longrightarrow> for_each_fld g f d = until_nonzero g (subexpressions_fld f) d"
proof (induction x and f arbitrary: d and d rule: rtx.induct fld.induct)
  case (Rtx c m f fs)
  have "until_nonzero (for_each_fld g) fs e = until_nonzero g (concat (map subexpressions_fld fs)) e" for e
    using Rtx by (intro until_nonzero_concat) auto
  then show ?case using Rtx.prems [of "Rtx c m f fs" d] by (auto split: prod.splits)
next
  case (FVec xs)
  then show ?case by (simp, intro until_nonzero_concat) auto
next
  case NULL_RTX
  obtain r e where g: "g NULL_RTX d = (r, e)" by fastforce
  then have "r \<noteq> - 1" using NULL_RTX.prems [of NULL_RTX d] by simp
  then show ?case using g by simp
qed auto

text \<open>The traversal with a callback that never cuts off a subexpression calls it on every subexpression, the
  expression before its operands, until a call returns something else than zero, which is the result.\<close>

theorem for_each_rtx_visits:
  assumes "\<forall>y d. fst (g y d) \<noteq> - 1"
  shows "for_each_rtx g x d = until_nonzero g (subexpressions x) d"
  using assms by (intro for_each_list(1)) simp

theorem for_each_rtx_visits_witness:
  "for_each_rtx (\<lambda>y n. (if GET_CODE y = CONST_INT then 7 else 0, n + 1)) sum_of_41 (0 :: nat) = (7, 3)"
  by (subst for_each_rtx_visits) (simp, code_simp)

end
