(* ===== verification/Z80_Compare.thy ===== *)
theory Z80_Compare
  imports Move_Expand Z80_Moves Jump_Conditions
begin

text \<open>
  Comparisons and conditional branches of the Z80 port: \<open>z80_expand_compare\<close> and
  \<open>z80_expand_compare_and_branch\<close> (gcc/config/z80/z80.c), which emit a comparison and a
  jump, and for 4-byte operands two of each, and the assembler output of the patterns they
  use (gcc/config/z80/z80.md), executed on a machine with the carry, zero and sign flags.
  \<open>None\<close> is an \<open>abort\<close>. The debugging output of the branch (\<open>debug_rtx\<close>) is left out.
\<close>

section \<open>Emission\<close>

definition cc0_compare :: "rtx \<Rightarrow> rtx \<Rightarrow> rtx" where
  "cc0_compare op0 op1 = gen_rtx_fmt_ee SET VOIDmode cc0_rtx (gen_rtx_fmt_ee COMPARE VOIDmode op0 op1)"

definition z80_expand_compare :: "rtx_code \<Rightarrow> rtx \<Rightarrow> rtx \<Rightarrow> emit_state \<Rightarrow> (rtx \<times> emit_state) option" where
  "z80_expand_compare code op0 op1 st =
     (if GET_MODE_CLASS (GET_MODE op0) = MODE_FLOAT then None
      else Some (gen_rtx_fmt_ee code VOIDmode cc0_rtx const0_rtx, snd (emit_insn (Body (cc0_compare op0 op1)) st)))"

definition jump_if :: "rtx \<Rightarrow> nat \<Rightarrow> rtx" where
  "jump_if test label = gen_rtx_fmt_ee SET VOIDmode pc_rtx
     (gen_rtx_IF_THEN_ELSE VOIDmode test (gen_rtx_LABEL_REF VOIDmode label) pc_rtx)"

definition subtract_with_carry :: "rtx \<Rightarrow> rtx \<Rightarrow> rtx" where
  "subtract_with_carry op0 op1 = gen_rtx_fmt_ee SET VOIDmode op0
     (gen_rtx_fmt_ee MINUS HImode (gen_rtx_fmt_ee MINUS HImode (gen_rtx_REG HImode 14) op0) op1)"

definition emit_branch :: "rtx \<Rightarrow> nat \<Rightarrow> emit_state \<Rightarrow> emit_state" where
  "emit_branch test label st = snd (emit_jump_insn (Body (jump_if test label)) st)"

definition swaps :: "rtx_code \<Rightarrow> bool" where
  "swaps code \<longleftrightarrow> code = GT \<or> code = LE \<or> code = GTU \<or> code = LEU"

definition compared_mode :: "rtx \<Rightarrow> rtx \<Rightarrow> machine_mode" where
  "compared_mode op0 op1 = GET_MODE (if GET_CODE op0 = CONST_INT then op1 else op0)"

text \<open>The cases \<open>QImode\<close> and \<open>HImode\<close>; \<open>isout\<close> is 1 for a whole comparison, 0 for the
  comparison of the low parts and 2 for that of the high parts of longer operands. The first
  definition is the code for operands in registers.\<close>

definition compare_registers :: "rtx_code \<Rightarrow> rtx \<Rightarrow> rtx \<Rightarrow> nat \<Rightarrow> int \<Rightarrow> emit_state \<Rightarrow> emit_state option" where
  "compare_registers code op0 op1 label isout st =
     (if isout = 1 then do {
        (test, st) \<leftarrow> z80_expand_compare code op0 op1 st;
        Some (emit_branch test label st)
      } else if isout = 0 then do {
        (test, st) \<leftarrow> z80_expand_compare code op0 op1 st;
        Some (if code = EQ \<or> code = NE then emit_branch test label st else st)
      } else if isout = 2 then
        (let st = snd (emit_insn (Body (subtract_with_carry op0 op1)) st)
         in Some (emit_branch (gen_rtx_fmt_ee code VOIDmode cc0_rtx const0_rtx) label st))
      else Some st)"

definition compare_words :: "move_env \<Rightarrow> rtx_code \<Rightarrow> rtx \<Rightarrow> rtx \<Rightarrow> nat \<Rightarrow> int \<Rightarrow> emit_state \<Rightarrow> emit_state option" where
  "compare_words env code op0 op1 label isout st =
     (let mode = compared_mode op0 op1
      in if mode = QImode \<or> mode = HImode then do {
           (op0, op1, code) \<leftarrow> (if swaps code then map_option (\<lambda>code. (op1, op0, code)) (swap_condition code)
                               else Some (op0, op1, code));
           (op0, st) \<leftarrow> (if GET_CODE op0 \<noteq> REG then force_reg env mode op0 st else Some (op0, st));
           (op1, st) \<leftarrow> (if GET_CODE op1 \<noteq> REG then force_reg env mode op1 st else Some (op1, st));
           compare_registers code op0 op1 label isout st
         }
         else None)"

text \<open>The parts of 4-byte operands are words, so the recursion of the source is one level deep.\<close>

definition compare_longs :: "move_env \<Rightarrow> rtx_code \<Rightarrow> rtx \<Rightarrow> rtx \<Rightarrow> nat \<Rightarrow> emit_state \<Rightarrow> emit_state option" where
  "compare_longs env code op0 op1 label st = do {
     lo0 \<leftarrow> z80_gen_lowpart (mv_parts env) HImode op0;
     lo1 \<leftarrow> z80_gen_lowpart (mv_parts env) HImode op1;
     hi0 \<leftarrow> z80_gen_highpart (mv_parts env) HImode op0;
     hi1 \<leftarrow> z80_gen_highpart (mv_parts env) HImode op1;
     (label2, st) \<leftarrow> Some (gen_label_rtx st);
     code1 \<leftarrow> (if code = EQ \<or> code = NE then reverse_condition code else Some code);
     st \<leftarrow> compare_words env code1 lo0 lo1 label2 0 st;
     st \<leftarrow> compare_words env code hi0 hi1 label 2 st;
     Some (if code = EQ \<or> code = NE then snd (emit_label label2 st) else st)
   }"

definition z80_expand_compare_and_branch :: "move_env \<Rightarrow> rtx_code \<Rightarrow> rtx \<Rightarrow> rtx \<Rightarrow> nat \<Rightarrow> int \<Rightarrow> emit_state \<Rightarrow> emit_state option" where
  "z80_expand_compare_and_branch env code op0 op1 label isout st =
     (if compared_mode op0 op1 = SImode then compare_longs env code op0 op1 label st
      else compare_words env code op0 op1 label isout st)"

section \<open>Flags and jumps\<close>

text \<open>The patterns \<open>*beq\<close> to \<open>*bleu\<close>: the flag that the jump tests.\<close>

record flags =
  carry :: bool
  zero :: bool
  sign :: bool

definition jump_taken :: "rtx_code \<Rightarrow> flags \<Rightarrow> bool" where
  "jump_taken code f =
     (if code = EQ then zero f
      else if code = NE then \<not> zero f
      else if code = GT then \<not> sign f
      else if code = GTU then \<not> carry f
      else if code = LT then sign f
      else if code = LTU then carry f
      else if code = GE then \<not> sign f
      else if code = GEU then \<not> carry f
      else if code = LE then sign f
      else code = LEU \<and> carry f)"

text \<open>Subtraction with borrow, and the flags that it sets.\<close>

definition sub_flags :: "'a::len word \<Rightarrow> 'a word \<Rightarrow> bool \<Rightarrow> flags" where
  "sub_flags a b c = (let d = a - b - (if c then 1 else 0)
     in \<lparr>carry = uint a < uint b + (if c then 1 else 0), zero = (d = 0), sign = bit d (LENGTH('a) - 1)\<rparr>)"

text \<open>The state of the machine before register allocation: the registers by number as words,
  of which a byte register uses the low half, the 4-byte pseudo registers, and the flags.\<close>

record machine =
  mc_rtl :: rtl_state
  mc_long :: "int \<Rightarrow> 32 word"
  mc_flags :: flags

definition word_operand :: "machine \<Rightarrow> rtx \<Rightarrow> 16 word option" where
  "word_operand s x =
     (if GET_CODE x = SUBREG then
        (if GET_MODE x = HImode \<and> GET_CODE (SUBREG_REG x) = REG \<and> GET_MODE (SUBREG_REG x) = SImode then
           (if SUBREG_WORD x = 0 then Some (ucast (mc_long s (REGNO (SUBREG_REG x))))
            else if SUBREG_WORD x = 1 then Some (ucast (drop_bit 16 (mc_long s (REGNO (SUBREG_REG x)))))
            else None)
         else None)
      else rtx_value (mc_rtl s) x)"

definition byte_operand :: "machine \<Rightarrow> rtx \<Rightarrow> 8 word option" where
  "byte_operand s x =
     (if GET_CODE x = CONST_INT then Some (word_of_int (INTVAL x))
      else if GET_MODE x \<noteq> QImode then None
      else if GET_CODE x = REG then Some (ucast (rs_regs (mc_rtl s) (REGNO x)))
      else if GET_CODE x = MEM then map_option (rs_mem (mc_rtl s)) (rtx_value (mc_rtl s) (XEXP x 0))
      else None)"

definition set_word :: "int \<Rightarrow> 16 word \<Rightarrow> machine \<Rightarrow> machine" where
  "set_word r v s = s\<lparr>mc_rtl := set_reg r v (mc_rtl s)\<rparr>"

definition word_reg :: "machine \<Rightarrow> rtx \<Rightarrow> 16 word" where
  "word_reg s x = rs_regs (mc_rtl s) (REGNO x)"

definition byte_reg :: "machine \<Rightarrow> rtx \<Rightarrow> 8 word" where
  "byte_reg s x = ucast (rs_regs (mc_rtl s) (REGNO x))"

text \<open>\<open>cmphi_1\<close> puts out \<open>or a,a\<close> and \<open>sbc op0,op1\<close>: the carry is cleared and the difference
  replaces the first operand. \<open>cmpqi_1\<close> is \<open>cp\<close>, and \<open>*subchi3\<close> is \<open>sbc\<close>.\<close>

definition subtract :: "rtx \<Rightarrow> rtx \<Rightarrow> bool \<Rightarrow> machine \<Rightarrow> machine" where
  "subtract x y c s =
     (set_word (REGNO x) (word_reg s x - word_reg s y - (if c then 1 else 0)) s)
       \<lparr>mc_flags := sub_flags (word_reg s x) (word_reg s y) c\<rparr>"

definition exec_cmphi_1 :: "rtx \<Rightarrow> rtx \<Rightarrow> machine \<Rightarrow> machine" where
  "exec_cmphi_1 op0 op1 = subtract op0 op1 False"

definition exec_cmpqi_1 :: "rtx \<Rightarrow> rtx \<Rightarrow> machine \<Rightarrow> machine" where
  "exec_cmpqi_1 op0 op1 s = s\<lparr>mc_flags := sub_flags (byte_reg s op0) (byte_reg s op1) False\<rparr>"

definition exec_subchi3 :: "rtx \<Rightarrow> rtx \<Rightarrow> machine \<Rightarrow> machine" where
  "exec_subchi3 op0 op1 s = subtract op0 op1 (carry (mc_flags s)) s"

text \<open>A load; it leaves the flags alone.\<close>

definition exec_load :: "rtx \<Rightarrow> rtx \<Rightarrow> machine \<Rightarrow> machine option" where
  "exec_load x y s =
     (if GET_CODE x \<noteq> REG then None
      else if GET_MODE x = HImode then map_option (\<lambda>v. set_word (REGNO x) v s) (word_operand s y)
      else if GET_MODE x = QImode then map_option (\<lambda>v. set_word (REGNO x) (ucast v) s) (byte_operand s y)
      else None)"

definition exec_pattern :: "rtx \<Rightarrow> machine \<Rightarrow> machine option" where
  "exec_pattern p s =
     (if GET_CODE p = PARALLEL then
        (case XVEC p 0 of [y, _] \<Rightarrow> exec_load (SET_DEST y) (SET_SRC y) s | _ \<Rightarrow> None)
      else if GET_CODE p \<noteq> SET then None
      else let x = SET_DEST p; y = SET_SRC p in
        if GET_CODE x = CC0 \<and> GET_CODE y = COMPARE then
          (if GET_CODE (XEXP y 0) \<noteq> REG \<or> GET_CODE (XEXP y 1) \<noteq> REG then None
           else if GET_MODE (XEXP y 0) = HImode then Some (exec_cmphi_1 (XEXP y 0) (XEXP y 1) s)
           else if GET_MODE (XEXP y 0) = QImode then Some (exec_cmpqi_1 (XEXP y 0) (XEXP y 1) s)
           else None)
        else if GET_CODE y = MINUS then
          (if p = subtract_with_carry x (XEXP y 1) \<and> GET_CODE x = REG \<and> GET_CODE (XEXP y 1) = REG
           then Some (exec_subchi3 x (XEXP y 1) s) else None)
        else exec_load x y s)"

text \<open>Running a list of items. A jump to a label of the list continues there; \<open>Some l\<close> says that
  the code was left by a jump to the label \<open>l\<close> outside, \<open>None\<close> that it ran to its end.\<close>

fun after_label :: "nat \<Rightarrow> item list \<Rightarrow> item list option" where
  "after_label l [] = None"
| "after_label l (i # is) = (if i = It_label l then Some is else after_label l is)"

lemma after_label_shorter [termination_simp]: "after_label l is = Some js \<Longrightarrow> length js < Suc (length is)"
  by (induction l "is" rule: after_label.induct) (auto split: if_splits)

fun jump_parts :: "rtx \<Rightarrow> (rtx_code \<times> nat) option" where
  "jump_parts p = map_option (Pair (GET_CODE (XEXP (SET_SRC p) 0))) (XINSN (XEXP (SET_SRC p) 1) 0)"

fun run_items :: "item list \<Rightarrow> machine \<Rightarrow> (nat option \<times> machine) option" where
  "run_items [] s = Some (None, s)"
| "run_items (It_insn p # is) s = Option.bind (exec_pattern p s) (run_items is)"
| "run_items (It_jump p # is) s =
     (case jump_parts p of
        None \<Rightarrow> None
      | Some (code, l) \<Rightarrow>
          if \<not> jump_taken code (mc_flags s) then run_items is s
          else case after_label l is of Some js \<Rightarrow> run_items js s | None \<Rightarrow> Some (Some l, s))"
| "run_items (It_label l # is) s = run_items is s"
| "run_items (It_call p # is) s = None"
| "run_items (It_other c # is) s = None"

section \<open>What is emitted\<close>

abbreviation cc0_test :: "rtx_code \<Rightarrow> rtx" where "cc0_test code \<equiv> gen_rtx_fmt_ee code VOIDmode cc0_rtx const0_rtx"

definition forced :: "reload_state \<Rightarrow> int \<Rightarrow> machine_mode \<Rightarrow> rtx \<Rightarrow> rtx \<times> item list \<times> int" where
  "forced rs n mode x =
     (if GET_CODE x = REG then (x, [], n)
      else (gen_rtx_REG mode n, [It_insn (load_pattern rs (gen_rtx_REG mode n) x)], n + 1))"

definition compare_order :: "rtx_code \<Rightarrow> rtx \<Rightarrow> rtx \<Rightarrow> rtx \<times> rtx \<times> rtx_code" where
  "compare_order code op0 op1 = (if swaps code then (op1, op0, the (swap_condition code)) else (op0, op1, code))"

definition compare_items :: "rtx_code \<Rightarrow> rtx \<Rightarrow> rtx \<Rightarrow> nat \<Rightarrow> int \<Rightarrow> item list" where
  "compare_items code x y label isout =
     (if isout = 1 then [It_insn (cc0_compare x y), It_jump (jump_if (cc0_test code) label)]
      else if isout = 0 then It_insn (cc0_compare x y) #
        (if code = EQ \<or> code = NE then [It_jump (jump_if (cc0_test code) label)] else [])
      else if isout = 2 then [It_insn (subtract_with_carry x y), It_jump (jump_if (cc0_test code) label)]
      else [])"

definition word_items :: "reload_state \<Rightarrow> int \<Rightarrow> rtx_code \<Rightarrow> rtx \<Rightarrow> rtx \<Rightarrow> nat \<Rightarrow> int \<Rightarrow> item list \<times> int" where
  "word_items rs n code op0 op1 label isout =
     (let mode = compared_mode op0 op1; (op0, op1, code) = compare_order code op0 op1;
          (x, is0, n) = forced rs n mode op0; (y, is1, n) = forced rs n mode op1
      in (is0 @ is1 @ compare_items code x y label isout, n))"

definition readable :: "move_env \<Rightarrow> machine_mode \<Rightarrow> rtx \<Rightarrow> bool" where
  "readable env mode x \<longleftrightarrow> (GET_MODE x = mode \<or> (GET_MODE x = VOIDmode \<and> GET_CODE x \<noteq> REG)) \<and> valid_reference env False x"

text \<open>The state a step of the emission leaves.\<close>

definition produces :: "emit_state \<Rightarrow> item list \<Rightarrow> int \<Rightarrow> emit_state \<Rightarrow> bool" where
  "produces st is n st' \<longleftrightarrow> emits st is st' \<and> well_formed st' \<and> \<not> no_new_pseudos st' \<and> reg_rtx_no st' = n
     \<and> (\<forall>l. label_ready st l \<longrightarrow> label_ready st' l)"

lemma produces_trans:
  "produces st is n st1 \<Longrightarrow> produces st1 js m st2 \<Longrightarrow> produces st (is @ js) m st2"
  unfolding produces_def using emits_trans by blast

lemma produces_emit:
  assumes "well_formed st" "\<not> no_new_pseudos st" "emits st is st'" "calm st st'"
  shows "produces st is (reg_rtx_no st) st'"
  using assms well_formed_emits unfolding produces_def calm_def by blast

lemma produces_insn:
  "well_formed st \<Longrightarrow> \<not> no_new_pseudos st \<Longrightarrow> produces st [It_insn p] (reg_rtx_no st) (snd (emit_insn (Body p) st))"
  by (rule produces_emit [OF _ _ emits_insn calm_emit_insn])

lemma produces_branch:
  "well_formed st \<Longrightarrow> \<not> no_new_pseudos st \<Longrightarrow> produces st [It_jump (jump_if test label)] (reg_rtx_no st) (emit_branch test label st)"
  unfolding emit_branch_def by (rule produces_emit [OF _ _ emits_jump calm_emit_jump])

lemma produces_forced:
  assumes r: "has_move mode" "readable env mode x" and w: "well_formed st" "\<not> no_new_pseudos st"
  shows "\<exists>st'. (if GET_CODE x \<noteq> REG then force_reg env mode x st else Some (x, st))
      = Some (fst (forced (mv_reload env) (reg_rtx_no st) mode x), st')
    \<and> produces st (fst (snd (forced (mv_reload env) (reg_rtx_no st) mode x))) (snd (snd (forced (mv_reload env) (reg_rtx_no st) mode x))) st'"
proof (cases "GET_CODE x = REG")
  case True
  then show ?thesis using w emits_refl by (auto simp: forced_def produces_def)
next
  case False
  have "GET_MODE x = mode \<or> GET_MODE x = VOIDmode" "valid_reference env False x" using r(2) by (auto simp: readable_def)
  from force_emits [OF r(1) this False w] obtain st' where
    f: "force_reg env mode x st = Some (gen_rtx_REG mode (reg_rtx_no st), st')"
    "emits st [It_insn (load_pattern (mv_reload env) (gen_rtx_REG mode (reg_rtx_no st)) x)] st'"
    "calm (st\<lparr>reg_rtx_no := reg_rtx_no st + 1\<rparr>) st'" by blast
  have l: "label_ready (st\<lparr>reg_rtx_no := reg_rtx_no st + 1\<rparr>) l = label_ready st l" for l by (simp add: label_ready_def)
  have "produces st [It_insn (load_pattern (mv_reload env) (gen_rtx_REG mode (reg_rtx_no st)) x)] (reg_rtx_no st + 1) st'"
    unfolding produces_def using f(2,3) w well_formed_emits by (simp add: calm_def l)
  then show ?thesis using f(1) False by (simp add: forced_def)
qed

lemma produces_compare:
  assumes w: "well_formed st" "\<not> no_new_pseudos st" and f: "GET_MODE_CLASS (GET_MODE x) \<noteq> MODE_FLOAT" and i: "isout \<in> {0, 1, 2}"
  shows "\<exists>st'. compare_registers code x y label isout st = Some st'
    \<and> produces st (compare_items code x y label isout) (reg_rtx_no st) st'"
proof -
  have s: "\<exists>st'. st' = emit_branch (cc0_test code) label (snd (emit_insn (Body p) st))
      \<and> produces st ([It_insn p] @ [It_jump (jump_if (cc0_test code) label)]) (reg_rtx_no st) st'" for p
  proof -
    have p: "produces st [It_insn p] (reg_rtx_no st) (snd (emit_insn (Body p) st))" by (rule produces_insn [OF w])
    then have "well_formed (snd (emit_insn (Body p) st))" "\<not> no_new_pseudos (snd (emit_insn (Body p) st))"
      and r: "reg_rtx_no (snd (emit_insn (Body p) st)) = reg_rtx_no st" unfolding produces_def by blast+
    from produces_trans [OF p produces_branch [OF this(1,2)]] show ?thesis unfolding r by blast
  qed
  then show ?thesis
    using i f produces_insn [OF w] by (auto simp: compare_registers_def compare_items_def z80_expand_compare_def Let_def)
qed

lemma compare_words_emits:
  assumes m: "compared_mode op0 op1 = QImode \<or> compared_mode op0 op1 = HImode"
    and r: "readable env (compared_mode op0 op1) op0" "readable env (compared_mode op0 op1) op1"
    and w: "well_formed st" "\<not> no_new_pseudos st" and i: "isout \<in> {0, 1, 2}"
  shows "\<exists>st'. compare_words env code op0 op1 label isout st = Some st'
    \<and> produces st (fst (word_items (mv_reload env) (reg_rtx_no st) code op0 op1 label isout))
        (snd (word_items (mv_reload env) (reg_rtx_no st) code op0 op1 label isout)) st'"
proof -
  let ?m = "compared_mode op0 op1" and ?rs = "mv_reload env"
  obtain a b c where o: "compare_order code op0 op1 = (a, b, c)" by (cases "compare_order code op0 op1")
  have o': "(if swaps code then map_option (\<lambda>code. (op1, op0, code)) (swap_condition code) else Some (op0, op1, code)) = Some (a, b, c)"
    using o by (auto simp: compare_order_def swaps_def)
  have hm: "has_move ?m" using m by (auto simp: has_move_def)
  have ra: "readable env ?m a" "readable env ?m b" using o r by (auto simp: compare_order_def split: if_splits)
  obtain x is0 n0 where fa: "forced ?rs (reg_rtx_no st) ?m a = (x, is0, n0)" by (cases "forced ?rs (reg_rtx_no st) ?m a")
  from produces_forced [OF hm ra(1) w] obtain st1 where s1: "(if GET_CODE a \<noteq> REG then force_reg env ?m a st else Some (a, st)) = Some (x, st1)"
    "produces st is0 n0 st1" unfolding fa by auto
  then have w1: "well_formed st1" "\<not> no_new_pseudos st1" "reg_rtx_no st1 = n0" by (auto simp: produces_def)
  obtain y is1 n1 where fb: "forced ?rs n0 ?m b = (y, is1, n1)" by (cases "forced ?rs n0 ?m b")
  from produces_forced [OF hm ra(2) w1(1,2)] obtain st2 where s2: "(if GET_CODE b \<noteq> REG then force_reg env ?m b st1 else Some (b, st1)) = Some (y, st2)"
    "produces st1 is1 n1 st2" unfolding w1(3) fb by auto
  then have w2: "well_formed st2" "\<not> no_new_pseudos st2" "reg_rtx_no st2 = n1" by (auto simp: produces_def)
  have "GET_MODE x = ?m" using fa ra(1) by (auto simp: forced_def readable_def split: if_splits)
  then have "GET_MODE_CLASS (GET_MODE x) \<noteq> MODE_FLOAT" using m by auto
  from produces_compare [OF w2(1,2) this i, of c y label] obtain st3 where s3:
    "compare_registers c x y label isout st2 = Some st3"
    "produces st2 (compare_items c x y label isout) n1 st3" unfolding w2(3) by blast
  have "produces st (is0 @ is1 @ compare_items c x y label isout) n1 st3"
    using produces_trans [OF s1(2) produces_trans [OF s2(2) s3(2)]] .
  moreover have "compare_words env code op0 op1 label isout st = Some st3"
    unfolding compare_words_def Let_def using m o' s1(1) s2(1) s3(1) by simp
  ultimately show ?thesis by (simp add: word_items_def Let_def o fa fb)
qed

end
