(* ===== verification/Z80_Branches.thy ===== *)
theory Z80_Branches
  imports Z80_Compare
begin

text \<open>
  What the comparisons and branches of the Z80 port do: the code that
  \<open>z80_expand_compare_and_branch\<close> appends, run on the machine of \<open>Z80_Compare\<close>, against the
  reference semantics of the condition codes. Byte and word operands share one proof, over
  what a width provides; 4-byte operands are compared half by half.
\<close>

section \<open>Flags and conditions\<close>

definition signed_code :: "rtx_code \<Rightarrow> bool" where
  "signed_code code \<longleftrightarrow> code = LT \<or> code = GE \<or> code = GT \<or> code = LE"

text \<open>Whether the subtraction of the comparison overflows.\<close>

definition overflows :: "rtx_code \<Rightarrow> 'a::len word \<Rightarrow> 'a word \<Rightarrow> bool" where
  "overflows code a b = (if swaps code then sint (b - a) \<noteq> sint b - sint a else sint (a - b) \<noteq> sint a - sint b)"

lemma sub_flags_exact:
  "carry (sub_flags a b False) = (a < b)" "zero (sub_flags a b False) = (a = b)"
  by (simp_all add: sub_flags_def Let_def word_less_def)

lemma sign_flag: "sign (sub_flags a b False) = ((a <s b) \<noteq> (sint (a - b) \<noteq> sint a - sint b))" for a :: "'a::len word"
proof -
  let ?L = "2 ^ (LENGTH('a) - 1) :: int"
  have two: "2 ^ LENGTH('a) = 2 * ?L" by (simp flip: power_Suc)
  have s: "sign (sub_flags a b False) = (sint (a - b) < 0)"
    by (simp add: sub_flags_def Let_def sint_neg_bit)
  have r: "- ?L \<le> sint a" "sint a < ?L" "- ?L \<le> sint b" "sint b < ?L" "- ?L \<le> sint (a - b)" "sint (a - b) < ?L"
    using sint_ge [of a] sint_lt [of a] sint_ge [of b] sint_lt [of b] sint_ge [of "a - b"] sint_lt [of "a - b"] by auto
  have "sint (a - b) = signed_take_bit (LENGTH('a) - 1) (sint a - sint b)" by (simp only: sint_word_ariths)
  also have "\<dots> = (sint a - sint b + ?L) mod (2 * ?L) - ?L"
    using two by (simp add: signed_take_bit_eq_take_bit_shift take_bit_eq_mod)
  finally have "sint (a - b) - (sint a - sint b) = 2 * ?L * (- ((sint a - sint b + ?L) div (2 * ?L)))"
    using mult_div_mod_eq [of "2 * ?L" "sint a - sint b + ?L"] by (simp only: mult_minus_right)
  then obtain k where k: "sint (a - b) - (sint a - sint b) = 2 * ?L * k" by blast
  have "k = 0 \<or> k = 1 \<or> k = - 1"
  proof (rule ccontr)
    assume "\<not> ?thesis"
    then have "k \<ge> 2 \<or> k \<le> - 2" by arith
    moreover have "2 * ?L * k \<ge> 2 * ?L * 2" if "k \<ge> 2" using that by (intro mult_left_mono) simp_all
    moreover have "2 * ?L * k \<le> 2 * ?L * (- 2)" if "k \<le> - 2" using that by (intro mult_left_mono) simp_all
    ultimately have "2 * ?L * k \<ge> 2 * ?L * 2 \<or> 2 * ?L * k \<le> 2 * ?L * (- 2)" by blast
    then show False using r k by linarith
  qed
  then show ?thesis unfolding s using k r by (auto simp: word_sless_alt)
qed

lemma branch_decides:
  fixes a b :: "'a::len word"
  assumes "reverse_condition code \<noteq> None"
  shows "cond_holds code a b = Some (jump_taken (snd (snd (compare_order code x y)))
      (if swaps code then sub_flags b a False else sub_flags a b False) \<noteq> (signed_code code \<and> overflows code a b))"
proof -
  have c: "code \<in> {EQ, NE, GT, GE, LT, LE, GTU, GEU, LTU, LEU}" using assms by (auto split: if_splits)
  have n: "(a \<le>s b) = (\<not> b <s a)" "(a \<le> b) = (\<not> b < a)" for a b :: "'a word"
    using sless_not by auto
  from c show ?thesis
    by (elim insertE emptyE)
      (auto simp: compare_order_def swaps_def cond_holds_def jump_taken_def sub_flags_exact sign_flag signed_code_def overflows_def n)
qed

section \<open>Running the code\<close>

lemma set_parts [simp]:
  "SET_DEST (gen_rtx_fmt_ee SET m x y) = x" "SET_SRC (gen_rtx_fmt_ee SET m x y) = y"
  "XEXP (gen_rtx_fmt_ee c m x y) 0 = x" "XEXP (gen_rtx_fmt_ee c m x y) 1 = y" "XEXP (gen_rtx_fmt_ee c m x y) (Suc 0) = y"
  by (simp_all add: gen_rtx_fmt_ee_def SET_DEST_def SET_SRC_def fld_access)

lemma set_word_fields [simp]:
  "mc_long (set_word r v s) = mc_long s" "mc_flags (set_word r v s) = mc_flags s"
  "rs_regs (mc_rtl (set_word r v s)) = (rs_regs (mc_rtl s))(r := v)" "rs_mem (mc_rtl (set_word r v s)) = rs_mem (mc_rtl s)"
  by (simp_all add: set_word_def set_reg_def)

lemma fresh_value: "\<not> refers_to_regno_p n (n + 1) x \<Longrightarrow> rtx_value (mc_rtl (set_word n v s)) x = rtx_value (mc_rtl s) x"
  by (rule not_refers_value(1) [where r = n and e = "n + 1"]) (auto simp: agree_outside_def set_word_def set_reg_def)

lemma fresh_word: "\<not> refers_to_regno_p n (n + 1) x \<Longrightarrow> word_operand (set_word n v s) x = word_operand s x"
  by (simp add: word_operand_def fresh_value)

lemma fresh_regno:
  assumes "\<not> refers_to_regno_p n (n + 1) x" "GET_CODE x = REG" "GET_MODE x = HImode \<or> GET_MODE x = QImode"
  shows "REGNO x \<noteq> n"
proof -
  have "1 \<le> HARD_REGNO_NREGS (REGNO x) (GET_MODE x)" using assms(3) by (auto simp: HARD_REGNO_NREGS_def)
  then show ?thesis using assms(1,2) by (cases x) (auto simp: Let_def split: if_splits)
qed


text \<open>An operand of a comparison: its value can be loaded, and it does not depend on the register
  that is allocated next.\<close>

definition ready :: "machine_mode \<Rightarrow> int \<Rightarrow> rtx \<Rightarrow> bool" where
  "ready mode n x \<longleftrightarrow> GET_CODE x \<noteq> MINUS \<and> (GET_CODE x = REG \<longrightarrow> GET_MODE x = mode) \<and> \<not> refers_to_regno_p n (n + 1) x"

lemma jump_parts_if: "jump_parts (jump_if (cc0_test c) l) = Some (c, l)"
  by (simp add: jump_if_def gen_rtx_IF_THEN_ELSE_def gen_rtx_LABEL_REF_def XINSN_def fld_access gen_rtx_fmt_ee_def SET_SRC_def)

text \<open>What the comparisons need of the operands of one width: \<open>read\<close> is the value of an operand,
  \<open>reg\<close> that of a register, and \<open>put\<close> the word that a load writes for a value.\<close>

locale compared_width =
  fixes mode :: machine_mode and read :: "machine \<Rightarrow> rtx \<Rightarrow> 'a::len word option"
    and reg :: "machine \<Rightarrow> rtx \<Rightarrow> 'a word" and put :: "'a word \<Rightarrow> 16 word"
  assumes mode: "mode = QImode \<or> mode = HImode"
    and load: "read s x = Some v \<Longrightarrow> GET_CODE x \<noteq> MINUS
      \<Longrightarrow> exec_pattern (load_pattern rs (gen_rtx_REG mode n) x) s = Some (set_word n (put v) s)"
    and read_reg: "GET_CODE x = REG \<Longrightarrow> GET_MODE x = mode \<Longrightarrow> read s x = Some v \<Longrightarrow> reg s x = v"
    and reg_put: "reg (set_word (REGNO x) (put v) s) x = v"
    and reg_other: "REGNO x \<noteq> n \<Longrightarrow> reg (set_word n w s) x = reg s x"
    and read_fresh: "\<not> refers_to_regno_p n (n + 1) x \<Longrightarrow> read (set_word n w s) x = read s x"
    and compare: "GET_CODE x = REG \<Longrightarrow> GET_MODE x = mode \<Longrightarrow> GET_CODE y = REG \<Longrightarrow> GET_MODE y = mode
      \<Longrightarrow> \<exists>s'. exec_pattern (cc0_compare x y) s = Some s' \<and> mc_flags s' = sub_flags (reg s x) (reg s y) False"
begin

lemma run_forced:
  assumes v: "read s x = Some v" and r: "ready mode n x" and f: "forced rs n mode x = (y, is, n')"
  obtains s' where "\<And>js. run_items (is @ js) s = run_items js s'" "reg s' y = v" "GET_CODE y = REG" "GET_MODE y = mode"
    "s' = (if GET_CODE x = REG then s else set_word n (put v) s)"
proof (cases "GET_CODE x = REG")
  case True
  then show thesis using that [of s] f r read_reg [OF True _ v] by (simp add: forced_def ready_def)
next
  case False
  have "run_items (is @ js) s = run_items js (set_word n (put v) s)" for js
    using f False load [OF v] r by (auto simp: forced_def ready_def)
  moreover have "reg (set_word n (put v) s) y = v" using f False reg_put [of y v s] by (auto simp: forced_def)
  ultimately show thesis using that [of "set_word n (put v) s"] False f by (auto simp: forced_def)
qed

lemma run_both:
  assumes v: "read s a = Some va" "read s b = Some vb" and r: "ready mode n a" "ready mode n b"
    and f: "forced rs n mode a = (x, is0, n0)" "forced rs n0 mode b = (y, is1, n1)"
  obtains s2 where "\<And>js. run_items (is0 @ is1 @ js) s = run_items js s2" "reg s2 x = va" "reg s2 y = vb"
    "GET_CODE x = REG" "GET_MODE x = mode" "GET_CODE y = REG" "GET_MODE y = mode"
    "mc_flags s2 = mc_flags s" "mc_long s2 = mc_long s" "\<And>z. z < n \<Longrightarrow> rs_regs (mc_rtl s2) z = rs_regs (mc_rtl s) z"
    "n \<le> n1"
proof -
  obtain s1 where s1: "\<And>js. run_items (is0 @ js) s = run_items js s1" "reg s1 x = va" "GET_CODE x = REG" "GET_MODE x = mode"
    "s1 = (if GET_CODE a = REG then s else set_word n (put va) s)"
    using run_forced [OF v(1) r(1) f(1)] by metis
  have n0: "n0 = (if GET_CODE a = REG then n else n + 1)" using f(1) by (auto simp: forced_def)
  have b1: "read s1 b = Some vb" using v(2) r(2) read_fresh s1(5) by (simp add: ready_def)
  have "n0 = n \<or> (n0 = n + 1 \<and> GET_CODE a \<noteq> REG)" using n0 by auto
  have fb: "GET_CODE b \<noteq> REG \<Longrightarrow> REGNO y = n0 \<and> n1 = n0 + 1" "GET_CODE b = REG \<Longrightarrow> n1 = n0 \<and> is1 = [] \<and> y = b"
    using f(2) by (auto simp: forced_def)
  define s2 where "s2 = (if GET_CODE b = REG then s1 else set_word n0 (put vb) s1)"
  have l: "run_items (is1 @ js) s1 = run_items js s2" for js
    using f(2) load [OF b1] r(2) by (auto simp: forced_def ready_def s2_def split: if_splits)
  have y: "GET_CODE y = REG" "GET_MODE y = mode" using f(2) r(2) by (auto simp: forced_def ready_def split: if_splits)
  have vy: "reg s2 y = vb"
    using fb y read_reg [OF _ _ b1] reg_put [of y vb s1] r(2) by (auto simp: s2_def ready_def)
  have "REGNO x \<noteq> n0" if "GET_CODE b \<noteq> REG"
  proof (cases "GET_CODE a = REG")
    case True
    then show ?thesis using f(1) n0 fresh_regno [of n a] r(1) mode by (auto simp: ready_def forced_def)
  next
    case False
    then show ?thesis using f(1) by (auto simp: forced_def)
  qed
  then have x2: "reg s2 x = va" using s1(2) reg_other by (auto simp: s2_def)
  show thesis
  proof (rule that [of s2])
    show "run_items (is0 @ is1 @ js) s = run_items js s2" for js using s1(1) l by simp
    show "rs_regs (mc_rtl s2) z = rs_regs (mc_rtl s) z" if "z < n" for z using that n0 by (simp add: s2_def s1(5))
    show "n \<le> n1" using n0 fb by (cases "GET_CODE b = REG") auto
    show "mc_flags s2 = mc_flags s" "mc_long s2 = mc_long s" by (simp_all add: s2_def s1(5))
  qed (fact x2 vy s1(3,4) y)+
qed

lemma branch_runs:
  assumes m: "compared_mode op0 op1 = mode" and c: "reverse_condition code \<noteq> None"
    and v: "read s op0 = Some a" "read s op1 = Some b" and r: "ready mode n op0" "ready mode n op1"
  shows "\<exists>s' t. run_items (fst (word_items rs n code op0 op1 label 1)) s = Some (if t then Some label else None, s')
    \<and> cond_holds code a b = Some (t \<noteq> (signed_code code \<and> overflows code a b))"
proof -
  obtain p q c' where o: "compare_order code op0 op1 = (p, q, c')" by (cases "compare_order code op0 op1")
  obtain x is0 n0 where fp: "forced rs n mode p = (x, is0, n0)" by (cases "forced rs n mode p")
  obtain y is1 n1 where fq: "forced rs n0 mode q = (y, is1, n1)" by (cases "forced rs n0 mode q")
  let ?a = "if swaps code then b else a" and ?b = "if swaps code then a else b"
  have "read s p = Some ?a" "read s q = Some ?b" "ready mode n p" "ready mode n q"
    using o v r by (auto simp: compare_order_def split: if_splits)
  from run_both [OF this fp fq] obtain s2 where s2: "\<And>js. run_items (is0 @ is1 @ js) s = run_items js s2"
    "reg s2 x = ?a" "reg s2 y = ?b" "GET_CODE x = REG" "GET_MODE x = mode" "GET_CODE y = REG" "GET_MODE y = mode" by blast
  obtain s3 where s3: "exec_pattern (cc0_compare x y) s2 = Some s3" "mc_flags s3 = sub_flags (reg s2 x) (reg s2 y) False"
    using compare [OF s2(4-7)] by metis
  have i: "fst (word_items rs n code op0 op1 label 1) = is0 @ is1 @ [It_insn (cc0_compare x y), It_jump (jump_if (cc0_test c') label)]"
    by (simp add: word_items_def Let_def o fp fq m compare_items_def)
  have "run_items (fst (word_items rs n code op0 op1 label 1)) s
      = Some (if jump_taken c' (sub_flags ?a ?b False) then Some label else None, s3)"
    unfolding i s2(1) using s3(1) by (simp add: jump_parts_if s3(2) s2(2,3) del: jump_parts.simps)
  moreover have "cond_holds code a b = Some (jump_taken c' (sub_flags ?a ?b False) \<noteq> (signed_code code \<and> overflows code a b))"
    using branch_decides [OF c, of a b op0 op1] o by (simp split: if_splits)
  ultimately show ?thesis by blast
qed

end

lemma byte_fresh: "\<not> refers_to_regno_p n (n + 1) x \<Longrightarrow> byte_operand (set_word n v s) x = byte_operand s x"
proof (cases "GET_CODE x = REG \<and> GET_MODE x = QImode")
  case True
  assume "\<not> refers_to_regno_p n (n + 1) x"
  then show ?thesis using True fresh_regno [of n x] by (simp add: byte_operand_def)
next
  case False
  assume r: "\<not> refers_to_regno_p n (n + 1) x"
  have "GET_CODE x = MEM \<Longrightarrow> \<not> refers_to_regno_p n (n + 1) (XEXP x 0)"
  proof (cases x)
    case (Rtx c m f fs)
    then show "GET_CODE x = MEM \<Longrightarrow> \<not> refers_to_regno_p n (n + 1) (XEXP x 0)"
      using r by (cases fs; cases "hd fs") (auto simp: Let_def fld_access)
  qed simp
  then show ?thesis using False by (auto simp: byte_operand_def fresh_value)
qed

interpretation words: compared_width HImode word_operand word_reg "\<lambda>v. v"
proof
  show "exec_pattern (load_pattern rs (gen_rtx_REG HImode n) x) s = Some (set_word n v s)"
    if "word_operand s x = Some v" "GET_CODE x \<noteq> MINUS" for s x v rs n
    using that by (simp add: load_pattern_def exec_pattern_def gen_move_set_def exec_load_def)
  show "word_reg s x = v" if "GET_CODE x = REG" "GET_MODE x = HImode" "word_operand s x = Some v" for s x v
    using that by (cases x) (auto simp: word_operand_def word_reg_def)
qed (auto simp: word_reg_def fresh_word exec_pattern_def cc0_compare_def exec_cmphi_1_def subtract_def)

interpretation bytes: compared_width QImode byte_operand byte_reg ucast
proof
  show "exec_pattern (load_pattern rs (gen_rtx_REG QImode n) x) s = Some (set_word n (ucast v) s)"
    if "byte_operand s x = Some v" "GET_CODE x \<noteq> MINUS" for s x v rs n
    using that by (auto simp: exec_pattern_def gen_move_set_def exec_load_def load_pattern_def gen_storeqi_def
        gen_scratch_move_def XVEC_def fld_access SET_DEST_def SET_SRC_def gen_rtx_fmt_ee_def)
  show "byte_reg s x = v" if "GET_CODE x = REG" "GET_MODE x = QImode" "byte_operand s x = Some v" for s x v
    using that by (simp add: byte_operand_def byte_reg_def)
  show "byte_reg (set_word (REGNO x) (ucast v) s) x = v" for x v s
    by (simp add: byte_reg_def ucast_up_ucast_id is_up)
qed (auto simp: byte_reg_def byte_fresh exec_pattern_def cc0_compare_def exec_cmpqi_1_def)

section \<open>Byte and word branches\<close>

definition branches_exactly :: "(machine \<Rightarrow> rtx \<Rightarrow> 'a::len word option) \<Rightarrow> rtx_code \<Rightarrow> rtx \<Rightarrow> rtx \<Rightarrow> nat \<Rightarrow> item list \<Rightarrow> bool" where
  "branches_exactly read code op0 op1 label is \<longleftrightarrow>
     (\<forall>s a b. read s op0 = Some a \<and> read s op1 = Some b \<longrightarrow>
       (\<exists>s' t. run_items is s = Some (if t then Some label else None, s')
          \<and> cond_holds code a b = Some (t \<noteq> (signed_code code \<and> overflows code a b))))"

lemma expand_emits:
  assumes m: "compared_mode op0 op1 = mode" "mode = QImode \<or> mode = HImode"
    and r: "readable env mode op0" "readable env mode op1" and w: "well_formed st" "\<not> no_new_pseudos st"
  shows "\<exists>st'. z80_expand_compare_and_branch env code op0 op1 label 1 st = Some st'
    \<and> emits st (fst (word_items (mv_reload env) (reg_rtx_no st) code op0 op1 label 1)) st'"
proof -
  have "compared_mode op0 op1 \<noteq> SImode" using m by auto
  then show ?thesis
    using compare_words_emits [of op0 op1 env st 1 code label] m r w
    by (auto simp: z80_expand_compare_and_branch_def produces_def)
qed

text \<open>C22. The comparison and branch of two bytes or words takes the branch exactly when the condition holds,
  except for a signed condition whose subtraction overflows, where it takes the opposite
  decision. For every comparison code, operands that can be loaded and pseudo registers
  allowed, the function succeeds, and the code that it appends to the current sequence, run
  with the flags and jumps of the machine description on any state that gives the operands
  values, leaves by the label or falls through accordingly; conditions without a jump of
  their own are compared in the opposite order.\<close>

theorem branch_correct:
  assumes "compared_mode op0 op1 = mode" "mode = QImode \<or> mode = HImode" "reverse_condition code \<noteq> None"
    and "readable env mode op0" "readable env mode op1" and "well_formed st" "\<not> no_new_pseudos st"
    and "ready mode (reg_rtx_no st) op0" "ready mode (reg_rtx_no st) op1"
  shows "\<exists>st' is. z80_expand_compare_and_branch env code op0 op1 label 1 st = Some st' \<and> emits st is st'
    \<and> (mode = HImode \<longrightarrow> branches_exactly word_operand code op0 op1 label is)
    \<and> (mode = QImode \<longrightarrow> branches_exactly byte_operand code op0 op1 label is)"
proof -
  from expand_emits [OF assms(1,2,4-7)] obtain st' where e: "z80_expand_compare_and_branch env code op0 op1 label 1 st = Some st'"
    "emits st (fst (word_items (mv_reload env) (reg_rtx_no st) code op0 op1 label 1)) st'" by blast
  have "mode = HImode \<Longrightarrow> branches_exactly word_operand code op0 op1 label (fst (word_items (mv_reload env) (reg_rtx_no st) code op0 op1 label 1))"
    using words.branch_runs [OF _ assms(3)] assms(1,8,9) by (auto simp: branches_exactly_def)
  moreover have "mode = QImode \<Longrightarrow> branches_exactly byte_operand code op0 op1 label (fst (word_items (mv_reload env) (reg_rtx_no st) code op0 op1 label 1))"
    using bytes.branch_runs [OF _ assms(3)] assms(1,8,9) by (auto simp: branches_exactly_def)
  ultimately show ?thesis using e by blast
qed

text \<open>A word in a pseudo register against a constant.\<close>

definition after_some_registers :: emit_state where
  "after_some_registers = (init_emit empty_emit)\<lparr>reg_rtx_no := 30\<rparr>"

lemma some_registers: "well_formed after_some_registers" "\<not> no_new_pseudos after_some_registers" "reg_rtx_no after_some_registers = 30"
  using well_formed_new_reg wf_empty unfolding after_some_registers_def well_formed_def [of "init_emit empty_emit"]
  by (metis well_formed_def) (simp_all add: init_emit_def empty_emit_def)

lemma pseudo_operand:
  "24 \<le> r \<Longrightarrow> r < n \<Longrightarrow> ready m n (gen_rtx_REG m r)" "ready m n (GEN_INT i)"
  "readable env m (gen_rtx_REG m r)" "readable env m (GEN_INT i)"
  by (simp_all add: ready_def readable_def valid_reference_def, simp_all add: gen_rtx_REG_def GEN_INT_def Let_def REGNO_def fld_access)

theorem branch_correct_witness:
  "\<exists>st' is. z80_expand_compare_and_branch before_reload GTU (gen_rtx_REG HImode 25) (GEN_INT 1000) 7 1 after_some_registers = Some st'
    \<and> emits after_some_registers is st' \<and> (HImode = HImode \<longrightarrow> branches_exactly word_operand GTU (gen_rtx_REG HImode 25) (GEN_INT 1000) 7 is)
    \<and> (HImode = QImode \<longrightarrow> branches_exactly byte_operand GTU (gen_rtx_REG HImode 25) (GEN_INT 1000) 7 is)"
  by (rule branch_correct) (simp_all add: compared_mode_def pseudo_operand some_registers)

text \<open>A comparison of words destroys its first operand: the port has no comparison of words that
  only sets flags, and \<open>cmphi_1\<close> subtracts in place although its pattern sets nothing but
  the condition code. When the first operand of a condition that is not swapped is a word
  register, it holds the difference after the branch, on either way.\<close>

theorem compare_destroys_operand:
  assumes "\<not> swaps code" "GET_CODE op0 = REG" "compared_mode op0 op1 = HImode" "reverse_condition code \<noteq> None"
    and "readable env HImode op0" "readable env HImode op1" and "well_formed st" "\<not> no_new_pseudos st"
    and "ready HImode (reg_rtx_no st) op0" "ready HImode (reg_rtx_no st) op1"
  shows "\<exists>st' is. z80_expand_compare_and_branch env code op0 op1 label 1 st = Some st' \<and> emits st is st'
    \<and> (\<forall>s a b. word_operand s op0 = Some a \<and> word_operand s op1 = Some b \<longrightarrow>
         (\<exists>j s'. run_items is s = Some (j, s') \<and> word_operand s' op0 = Some (a - b)))"
proof -
  let ?is = "fst (word_items (mv_reload env) (reg_rtx_no st) code op0 op1 label 1)" and ?n = "reg_rtx_no st"
  from expand_emits [OF assms(3) _ assms(5-8)] obtain st' where e: "z80_expand_compare_and_branch env code op0 op1 label 1 st = Some st'"
    "emits st ?is st'" by blast
  have "\<exists>j s'. run_items ?is s = Some (j, s') \<and> word_operand s' op0 = Some (a - b)"
    if v: "word_operand s op0 = Some a" "word_operand s op1 = Some b" for s a b
  proof -
    obtain y is1 n1 where f: "forced (mv_reload env) ?n HImode op1 = (y, is1, n1)" by (cases "forced (mv_reload env) ?n HImode op1")
    have f0: "forced (mv_reload env) ?n HImode op0 = (op0, [], ?n)" using assms(2) by (simp add: forced_def)
    from words.run_both [OF v assms(9,10) f0 f] obtain s2 where s2: "\<And>js. run_items ([] @ is1 @ js) s = run_items js s2"
      "word_reg s2 op0 = a" "word_reg s2 y = b" "GET_CODE y = REG" "GET_MODE y = HImode" "GET_MODE op0 = HImode" by blast
    have o: "compare_order code op0 op1 = (op0, op1, code)" using assms(1) by (simp add: compare_order_def)
    have i: "?is = is1 @ [It_insn (cc0_compare op0 y), It_jump (jump_if (cc0_test code) label)]"
      by (simp add: word_items_def Let_def o f0 f assms(3) compare_items_def)
    have x: "exec_pattern (cc0_compare op0 y) s2 = Some (exec_cmphi_1 op0 y s2)"
      using s2(4-6) assms(2) by (simp add: exec_pattern_def cc0_compare_def)
    have "\<exists>j. run_items ?is s = Some (j, exec_cmphi_1 op0 y s2)"
      unfolding i using s2(1) x by (simp add: jump_parts_if del: jump_parts.simps)
    moreover have "word_operand (exec_cmphi_1 op0 y s2) op0 = Some (a - b)"
      using assms(2) s2(2,3,6) by (cases op0) (auto simp: word_operand_def exec_cmphi_1_def subtract_def set_word_def set_reg_def)
    ultimately show ?thesis by blast
  qed
  then show ?thesis using e by blast
qed

theorem compare_destroys_operand_witness:
  "\<exists>st' is. z80_expand_compare_and_branch before_reload LTU (gen_rtx_REG HImode 25) (GEN_INT 1000) 7 1 after_some_registers = Some st'
    \<and> emits after_some_registers is st'
    \<and> (\<forall>s a b. word_operand s (gen_rtx_REG HImode 25) = Some a \<and> word_operand s (GEN_INT 1000) = Some b \<longrightarrow>
         (\<exists>j s'. run_items is s = Some (j, s') \<and> word_operand s' (gen_rtx_REG HImode 25) = Some (a - b)))"
  by (rule compare_destroys_operand) (simp_all add: compared_mode_def pseudo_operand some_registers swaps_def)

section \<open>Branches on 4-byte operands\<close>

definition long_operand :: "machine \<Rightarrow> rtx \<Rightarrow> 32 word option" where
  "long_operand s x =
     (if GET_CODE x = CONST_INT then Some (word_of_int (INTVAL x))
      else if GET_CODE x = REG \<and> GET_MODE x = SImode then Some (mc_long s (REGNO x))
      else None)"

definition low16 :: "32 word \<Rightarrow> 16 word" where "low16 a = ucast a"
definition high16 :: "32 word \<Rightarrow> 16 word" where "high16 a = ucast (drop_bit 16 a)"

lemma word_halves: "uint a = uint (high16 a) * 65536 + uint (low16 a)"
proof -
  have "uint (high16 a) = uint a div 65536"
  proof -
    have "uint a div 65536 < 65536" "0 \<le> uint a div 65536" using uint_lt2p [of a] by (auto simp: pos_imp_zdiv_nonneg_iff)
    then show ?thesis by (simp add: high16_def unsigned_ucast_eq unsigned_drop_bit_eq take_bit_eq_mod drop_bit_eq_div uint_div)
  qed
  moreover have "uint (low16 a) = uint a mod 65536"
    by (simp add: low16_def unsigned_ucast_eq take_bit_eq_mod)
  ultimately show ?thesis by simp
qed

lemma halves_eq: "a = b \<longleftrightarrow> high16 a = high16 b \<and> low16 a = low16 b"
  using word_halves [of a] word_halves [of b] by (metis word_uint_eqI)

lemma borrow_carry: "carry (sub_flags (high16 a) (high16 b) (low16 a < low16 b)) = (a < b)"
proof -
  have "uint (low16 a) < 65536" "uint (low16 b) < 65536" using uint_lt2p [of "low16 a"] uint_lt2p [of "low16 b"] by simp_all
  moreover have "(ha < hb + (if la < lb then 1 else 0)) = (ha * 65536 + la < hb * 65536 + lb)"
    if "la < 65536" "lb < 65536" "0 \<le> la" "0 \<le> lb" for ha hb la lb :: int using that by auto
  ultimately have "(uint (high16 a) < uint (high16 b) + (if uint (low16 a) < uint (low16 b) then 1 else 0)) = (uint a < uint b)"
    unfolding word_halves [symmetric] by (metis uint_ge_0 word_halves)
  then show ?thesis by (simp add: sub_flags_def Let_def word_less_def)
qed

lemma borrow_div: "(la - lb) div 65536 = (if la < lb then - 1 else 0)" if "la < 65536" "lb < 65536" "0 \<le> la" "0 \<le> lb" for la lb :: int
proof (cases "la < lb")
  case True
  have "(la - lb) div 65536 = (la - lb + 65536 + (- 1) * 65536) div 65536" by simp
  also have "\<dots> = - 1 + (la - lb + 65536) div 65536" by (rule div_mult_self1) simp
  also have "(la - lb + 65536) div 65536 = 0" using that True by (intro div_pos_pos_trivial) auto
  finally show ?thesis using True by simp
qed (use that in \<open>simp add: div_pos_pos_trivial\<close>)

lemma high_difference: "high16 (a - b) = high16 a - high16 b - (if low16 a < low16 b then 1 else 0)"
proof -
  have l: "uint (low16 a) < 65536" "uint (low16 b) < 65536" "0 \<le> uint (low16 a)" "0 \<le> uint (low16 b)"
    using uint_lt2p [of "low16 a"] uint_lt2p [of "low16 b"] by simp_all
  have "uint (high16 (a - b)) = uint (a - b) div 65536"
    using word_halves [of "a - b"] uint_lt2p [of "low16 (a - b)"] by simp
  also have "uint (a - b) = (uint a - uint b) mod (65536 * 65536)"
    by (simp add: uint_word_ariths)
  also have "(uint a - uint b) mod (65536 * 65536) div 65536 = ((uint a - uint b) div 65536) mod 65536"
    by (subst zmod_zmult2_eq) simp_all
  also have "(uint a - uint b) div 65536 = uint (high16 a) - uint (high16 b) - (if low16 a < low16 b then 1 else 0)"
  proof -
    have "(ha * 65536 + la - (hb * 65536 + lb)) div 65536 = ha - hb - (if la < lb then 1 else 0)"
      if "la < 65536" "lb < 65536" "0 \<le> la" "0 \<le> lb" for ha hb la lb :: int
    proof -
      have "ha * 65536 + la - (hb * 65536 + lb) = (la - lb) + (ha - hb) * 65536" by simp
      then have "(ha * 65536 + la - (hb * 65536 + lb)) div 65536 = (ha - hb) + (la - lb) div 65536" by simp
      moreover note borrow_div [OF that]
      ultimately show ?thesis by simp
    qed
    from this [OF l] have "(uint (high16 a) * 65536 + uint (low16 a) - (uint (high16 b) * 65536 + uint (low16 b))) div 65536
        = uint (high16 a) - uint (high16 b) - (if low16 a < low16 b then 1 else 0)" by (simp only: word_less_def)
    moreover have "uint a - uint b = uint (high16 a) * 65536 + uint (low16 a) - (uint (high16 b) * 65536 + uint (low16 b))"
      using word_halves [of a] word_halves [of b] by linarith
    ultimately show ?thesis by (simp only:)
  qed
  finally show ?thesis
    by (intro word_uint_eqI) (simp add: uint_word_ariths mod_simps)
qed

lemma borrow_sign: "sign (sub_flags (high16 a) (high16 b) (low16 a < low16 b)) = sign (sub_flags a b False)"
proof -
  have "sign (sub_flags (high16 a) (high16 b) (low16 a < low16 b)) = bit (high16 (a - b)) 15"
    by (simp add: sub_flags_def Let_def high_difference)
  also have "\<dots> = bit (a - b) 31" by (simp add: high16_def bit_simps)
  finally show ?thesis by (simp add: sub_flags_def Let_def)
qed

text \<open>The code for two 4-byte operands: the parts of the operands are compared one after the other.\<close>

definition skip_code :: "rtx_code \<Rightarrow> rtx_code" where
  "skip_code code = (if code = EQ then NE else if code = NE then EQ else code)"

definition long_items :: "reload_state \<Rightarrow> int \<Rightarrow> rtx_code \<Rightarrow> rtx \<times> rtx \<Rightarrow> rtx \<times> rtx \<Rightarrow> nat \<Rightarrow> nat \<Rightarrow> item list" where
  "long_items rs n code op0 op1 label label2 =
     (let (is0, n) = word_items rs n (skip_code code) (fst op0) (fst op1) label2 0;
          (is1, n) = word_items rs n code (snd op0) (snd op1) label 2
      in is0 @ is1 @ (if code = EQ \<or> code = NE then [It_label label2] else []))"

lemma produces_new_label:
  assumes "well_formed st" "\<not> no_new_pseudos st"
  shows "produces st [] (reg_rtx_no st) (snd (gen_label_rtx st))"
    "label_ready (snd (gen_label_rtx st)) (next_address st)" "fst (gen_label_rtx st) = next_address st"
    "reg_rtx_no (snd (gen_label_rtx st)) = reg_rtx_no st"
proof -
  have a: "0 < next_address st" using assms(1) wf_chainD(2) unfolding well_formed_def by blast
  show "fst (gen_label_rtx st) = next_address st" and r: "reg_rtx_no (snd (gen_label_rtx st)) = reg_rtx_no st"
    by (simp_all add: gen_label_rtx_def rtx_alloc_def Let_def)
  then show "label_ready (snd (gen_label_rtx st)) (next_address st)" using label_ready_new [OF a] by simp
  have "calm st (snd (gen_label_rtx st))"
    by (auto simp: calm_def label_ready_def gen_label_rtx_def rtx_alloc_def Let_def)
  then show "produces st [] (reg_rtx_no st) (snd (gen_label_rtx st))"
    by (rule produces_emit [OF assms emits_new_label])
qed

lemma compare_longs_emits:
  assumes p: "z80_gen_lowpart (mv_parts env) HImode op0 = Some lo0" "z80_gen_lowpart (mv_parts env) HImode op1 = Some lo1"
      "z80_gen_highpart (mv_parts env) HImode op0 = Some hi0" "z80_gen_highpart (mv_parts env) HImode op1 = Some hi1"
    and m: "compared_mode lo0 lo1 = HImode" "compared_mode hi0 hi1 = HImode"
    and r: "readable env HImode lo0" "readable env HImode lo1" "readable env HImode hi0" "readable env HImode hi1"
    and w: "well_formed st" "\<not> no_new_pseudos st" and c: "reverse_condition code \<noteq> None"
  shows "\<exists>st'. compare_longs env code op0 op1 label st = Some st'
    \<and> emits st (long_items (mv_reload env) (reg_rtx_no st) code (lo0, hi0) (lo1, hi1) label (next_address st)) st'"
proof -
  let ?l = "next_address st" and ?rs = "mv_reload env" and ?st1 = "snd (gen_label_rtx st)"
  note l = produces_new_label [OF w]
  have w1: "well_formed ?st1" "\<not> no_new_pseudos ?st1" using l(1) by (auto simp: produces_def)
  obtain is0 n0 where i0: "word_items ?rs (reg_rtx_no st) (skip_code code) lo0 lo1 ?l 0 = (is0, n0)" by (meson surj_pair)
  have "\<exists>st2. compare_words env (skip_code code) lo0 lo1 ?l 0 ?st1 = Some st2 \<and> produces ?st1 is0 n0 st2"
    using compare_words_emits [of lo0 lo1 env ?st1 0 "skip_code code" ?l] m r w1 by (simp add: l(4) i0)
  then obtain st2 where s2: "compare_words env (skip_code code) lo0 lo1 ?l 0 ?st1 = Some st2" "produces ?st1 is0 n0 st2" by blast
  have w2: "well_formed st2" "\<not> no_new_pseudos st2" "reg_rtx_no st2 = n0" using s2(2) by (auto simp: produces_def)
  obtain is1 n1 where i1: "word_items ?rs n0 code hi0 hi1 label 2 = (is1, n1)" by (meson surj_pair)
  have "\<exists>st3. compare_words env code hi0 hi1 label 2 st2 = Some st3 \<and> produces st2 is1 n1 st3"
    using compare_words_emits [of hi0 hi1 env st2 2 code label] m r w2 by (simp add: i1)
  then obtain st3 where s3: "compare_words env code hi0 hi1 label 2 st2 = Some st3" "produces st2 is1 n1 st3" by blast
  have all: "produces st ([] @ is0 @ is1) n1 st3" by (rule produces_trans [OF l(1) produces_trans [OF s2(2) s3(2)]])
  have "label_ready st3 ?l" using l(2) s2(2) s3(2) by (simp add: produces_def)
  then have "emits st3 [It_label ?l] (snd (emit_label ?l st3))" by (rule emits_label)
  then have "emits st (long_items ?rs (reg_rtx_no st) code (lo0, hi0) (lo1, hi1) label ?l)
      (if code = EQ \<or> code = NE then snd (emit_label ?l st3) else st3)"
    using all emits_trans by (fastforce simp: long_items_def i0 i1 produces_def)
  moreover have "(if code = EQ \<or> code = NE then reverse_condition code else Some code) = Some (skip_code code)"
    by (simp add: skip_code_def)
  then have "compare_longs env code op0 op1 label st = Some (if code = EQ \<or> code = NE then snd (emit_label ?l st3) else st3)"
    using p s2(1) s3(1) l(3) by (simp add: compare_longs_def case_prod_beta)
  ultimately show ?thesis by blast
qed

subsection \<open>The parts of the operands\<close>

definition long_parts_of :: "emit_env \<Rightarrow> rtx \<Rightarrow> rtx \<times> rtx" where
  "long_parts_of env x = (the (z80_gen_lowpart env HImode x), the (z80_gen_highpart env HImode x))"

text \<open>A pseudo register or a constant.\<close>

definition long_ready :: "int \<Rightarrow> rtx \<Rightarrow> bool" where
  "long_ready n x \<longleftrightarrow> (\<exists>r. x = gen_rtx_REG SImode r \<and> FIRST_PSEUDO_REGISTER \<le> r \<and> r < n) \<or> (\<exists>i. x = GEN_INT i)"

lemma pseudo_parts:
  assumes "FIRST_PSEUDO_REGISTER \<le> r"
  shows "z80_gen_lowpart env HImode (gen_rtx_REG SImode r) = Some (gen_rtx_SUBREG HImode (gen_rtx_REG SImode r) 0)"
    "z80_gen_highpart env HImode (gen_rtx_REG SImode r) = Some (gen_rtx_SUBREG HImode (gen_rtx_REG SImode r) 1)"
proof -
  let ?x = "gen_rtx_REG SImode r"
  have "lowpart_reg env HImode ?x = Some (gen_rtx_SUBREG HImode ?x 0)" using assms by (simp add: lowpart_reg_def)
  then have "gen_lowpart_common env HImode ?x = Some (gen_rtx_SUBREG HImode ?x 0)"
    by (subst gen_lowpart_common.simps) (simp add: mode_words_def)
  then have "gen_lowpart env HImode ?x = Some (gen_rtx_SUBREG HImode ?x 0)" by (subst gen_lowpart.simps) simp
  then show "z80_gen_lowpart env HImode ?x = Some (gen_rtx_SUBREG HImode ?x 0)"
    using assms by (simp add: z80_gen_lowpart_def target_simps)
  have "gen_highpart env HImode ?x = Some (gen_rtx_SUBREG HImode ?x 1)"
    using assms by (subst gen_highpart.simps) (simp add: highpart_word_def)
  then show "z80_gen_highpart env HImode ?x = Some (gen_rtx_SUBREG HImode ?x 1)"
    using assms by (simp add: z80_gen_highpart_def target_simps)
qed

lemma const_parts:
  "z80_gen_lowpart env HImode (GEN_INT i) = Some (GEN_INT (sign_extend_host 16 i))"
  "z80_gen_highpart env HImode (GEN_INT i) = Some (GEN_INT (drop_bit 16 i))"
proof -
  have "lowpart_const HImode (GEN_INT i) = Some (GEN_INT (sign_extend_host 16 i))"
    by (simp add: lowpart_const_def mode_bits_def Let_def)
  then have "gen_lowpart_common env HImode (GEN_INT i) = Some (GEN_INT (sign_extend_host 16 i))"
    by (subst gen_lowpart_common.simps) (simp add: int_mode_def)
  then have "gen_lowpart env HImode (GEN_INT i) = Some (GEN_INT (sign_extend_host 16 i))" by (subst gen_lowpart.simps) simp
  then show "z80_gen_lowpart env HImode (GEN_INT i) = Some (GEN_INT (sign_extend_host 16 i))"
    by (simp add: z80_gen_lowpart_def target_simps REG_P_def)
  show "z80_gen_highpart env HImode (GEN_INT i) = Some (GEN_INT (drop_bit 16 i))"
    by (simp add: z80_gen_highpart_def)
qed

lemma long_parts_ok:
  assumes "long_ready n x"
  shows "z80_gen_lowpart env HImode x = Some (fst (long_parts_of env x))" "z80_gen_highpart env HImode x = Some (snd (long_parts_of env x))"
    and "readable e HImode (fst (long_parts_of env x))" "readable e HImode (snd (long_parts_of env x))"
    and "n \<le> m \<Longrightarrow> ready HImode m (fst (long_parts_of env x))" "n \<le> m \<Longrightarrow> ready HImode m (snd (long_parts_of env x))"
    and "long_operand s x = Some v \<Longrightarrow> word_operand s (fst (long_parts_of env x)) = Some (low16 v)"
    and "long_operand s x = Some v \<Longrightarrow> word_operand s (snd (long_parts_of env x)) = Some (high16 v)"
proof -
  consider (reg) r where "x = gen_rtx_REG SImode r" "FIRST_PSEUDO_REGISTER \<le> r" "r < n" | (const) i where "x = GEN_INT i"
    using assms unfolding long_ready_def by blast
  note cases = this
  show "z80_gen_lowpart env HImode x = Some (fst (long_parts_of env x))" "z80_gen_highpart env HImode x = Some (snd (long_parts_of env x))"
    using cases by (cases; simp add: long_parts_of_def pseudo_parts const_parts)+
  show "readable e HImode (fst (long_parts_of env x))" "readable e HImode (snd (long_parts_of env x))"
    using cases by (cases; simp add: long_parts_of_def pseudo_parts const_parts readable_def valid_reference_def)+
  have sub: "ready HImode m (gen_rtx_SUBREG HImode (gen_rtx_REG SImode r) w)" if "FIRST_PSEUDO_REGISTER \<le> r" "r < m" for r m w
    using that by (simp add: ready_def) (simp add: gen_rtx_SUBREG_def gen_rtx_REG_def Let_def fld_access SUBREG_REG_def REGNO_def)
  show "ready HImode m (fst (long_parts_of env x))" "ready HImode m (snd (long_parts_of env x))" if "n \<le> m"
    using cases by (cases; use that in \<open>simp add: long_parts_of_def pseudo_parts const_parts pseudo_operand sub\<close>)+
  have c: "word_operand s (GEN_INT j) = Some (word_of_int j)" for j by (simp add: word_operand_def value_CONST_INT)
  have r: "word_operand s (gen_rtx_SUBREG HImode (gen_rtx_REG SImode r) 0) = Some (low16 (mc_long s r))"
    "word_operand s (gen_rtx_SUBREG HImode (gen_rtx_REG SImode r) 1) = Some (high16 (mc_long s r))" for r
    by (simp_all add: word_operand_def low16_def high16_def)
  have l: "low16 (word_of_int i) = word_of_int (sign_extend_host 16 i)" "high16 (word_of_int i) = word_of_int (drop_bit 16 i)" for i
    by (simp_all add: low16_def high16_def sign_extend_host_16) (rule bit_word_eqI; auto simp: bit_simps)+
  show "word_operand s (fst (long_parts_of env x)) = Some (low16 v)" "word_operand s (snd (long_parts_of env x)) = Some (high16 v)"
    if "long_operand s x = Some v"
    using cases by (cases; use that in \<open>auto simp: long_parts_of_def pseudo_parts const_parts long_operand_def c l r\<close>)+
qed

subsection \<open>Running the two comparisons\<close>

lemma after_label_insns: "list_all (\<lambda>i. \<exists>p. i = It_insn p) is \<Longrightarrow> after_label l (is @ js) = after_label l js"
  by (induction "is") auto

lemma forced_insns: "forced rs n m x = (y, is, k) \<Longrightarrow> list_all (\<lambda>i. \<exists>p. i = It_insn p) is"
  by (auto simp: forced_def split: if_splits)

definition jump_to :: "nat \<Rightarrow> item list \<Rightarrow> machine \<Rightarrow> (nat option \<times> machine) option" where
  "jump_to l js s = (case after_label l js of Some ks \<Rightarrow> run_items ks s | None \<Rightarrow> Some (Some l, s))"

lemma run_jump_if:
  "run_items (It_jump (jump_if (cc0_test c) l) # js) s = (if jump_taken c (mc_flags s) then jump_to l js s else run_items js s)"
  by (simp add: jump_parts_if jump_to_def del: jump_parts.simps)

declare run_items.simps(3) [simp del] run_jump_if [simp]

text \<open>The operands of the subtraction, in order.\<close>

definition ordered :: "rtx_code \<Rightarrow> 'a \<times> 'a \<Rightarrow> 'a \<times> 'a" where
  "ordered code ab = (if swaps code then (snd ab, fst ab) else ab)"

definition final_code :: "rtx_code \<Rightarrow> rtx_code" where
  "final_code code = (if swaps code then the (swap_condition code) else code)"

lemma run_words_part:
  assumes m: "compared_mode op0 op1 = HImode" and v: "word_operand s op0 = Some a" "word_operand s op1 = Some b"
    and r: "ready HImode n op0" "ready HImode n op1"
  obtains is0 x y s2 k where "\<And>l isout. word_items rs n code op0 op1 l isout = (is0 @ compare_items (final_code code) x y l isout, k)"
    "list_all (\<lambda>i. \<exists>p. i = It_insn p) is0" "n \<le> k" "\<And>js. run_items (is0 @ js) s = run_items js s2"
    "word_reg s2 x = fst (ordered code (a, b))" "word_reg s2 y = snd (ordered code (a, b))"
    "GET_CODE x = REG" "GET_MODE x = HImode" "GET_CODE y = REG" "GET_MODE y = HImode"
    "mc_flags s2 = mc_flags s" "mc_long s2 = mc_long s"
proof -
  obtain p q c' where o: "compare_order code op0 op1 = (p, q, c')" by (cases "compare_order code op0 op1")
  obtain x is0 n0 where fp: "forced rs n HImode p = (x, is0, n0)" by (cases "forced rs n HImode p")
  obtain y is1 n1 where fq: "forced rs n0 HImode q = (y, is1, n1)" by (cases "forced rs n0 HImode q")
  have vp: "word_operand s p = Some (fst (ordered code (a, b)))" "word_operand s q = Some (snd (ordered code (a, b)))"
    "ready HImode n p" "ready HImode n q"
    using o v r by (auto simp: compare_order_def ordered_def split: if_splits)
  from words.run_both [OF vp fp fq] obtain s2 where s2: "\<And>js. run_items (is0 @ is1 @ js) s = run_items js s2"
    "word_reg s2 x = fst (ordered code (a, b))" "word_reg s2 y = snd (ordered code (a, b))"
    "GET_CODE x = REG" "GET_MODE x = HImode" "GET_CODE y = REG" "GET_MODE y = HImode"
    "mc_flags s2 = mc_flags s" "mc_long s2 = mc_long s" "n \<le> n1" by metis
  have c: "c' = final_code code" using o by (auto simp: compare_order_def final_code_def split: if_splits)
  have i: "word_items rs n code op0 op1 l isout = ((is0 @ is1) @ compare_items (final_code code) x y l isout, n1)" for l isout
    by (simp add: word_items_def Let_def o fp fq m c)
  show thesis
    by (rule that [of "is0 @ is1" x y n1 s2, OF i]) (use forced_insns [OF fp] forced_insns [OF fq] s2 in simp_all)
qed

lemma exec_cmp: "GET_CODE x = REG \<Longrightarrow> GET_MODE x = HImode \<Longrightarrow> GET_CODE y = REG \<Longrightarrow> exec_pattern (cc0_compare x y) s = Some (exec_cmphi_1 x y s)"
  by (simp add: exec_pattern_def cc0_compare_def)

lemma exec_sbc: "GET_CODE x = REG \<Longrightarrow> GET_CODE y = REG \<Longrightarrow> exec_pattern (subtract_with_carry x y) s = Some (exec_subchi3 x y s)"
  by (simp add: exec_pattern_def subtract_with_carry_def Let_def)

text \<open>The flags after the subtraction of the high parts.\<close>

definition long_flags :: "rtx_code \<Rightarrow> 32 word \<Rightarrow> 32 word \<Rightarrow> flags" where
  "long_flags code a b = (let (x, y) = ordered code (a, b) in sub_flags (high16 x) (high16 y) (low16 x < low16 y))"

definition long_taken :: "rtx_code \<Rightarrow> 32 word \<Rightarrow> 32 word \<Rightarrow> bool" where
  "long_taken code a b =
     (if code = EQ then low16 a = low16 b \<and> zero (long_flags code a b)
      else if code = NE then low16 a \<noteq> low16 b \<and> \<not> zero (long_flags code a b)
      else jump_taken (final_code code) (long_flags code a b))"

lemma run_long:
  assumes v: "long_operand s op0 = Some a" "long_operand s op1 = Some b" and r: "long_ready n op0" "long_ready n op1"
    and m: "compared_mode (fst (long_parts_of env op0)) (fst (long_parts_of env op1)) = HImode"
      "compared_mode (snd (long_parts_of env op0)) (snd (long_parts_of env op1)) = HImode"
    and l: "label \<noteq> label2"
  shows "\<exists>s'. run_items (long_items rs n code (long_parts_of env op0) (long_parts_of env op1) label label2) s
    = Some (if long_taken code a b then Some label else None, s')"
proof -
  note p0 = long_parts_ok [OF r(1), where env = env] and p1 = long_parts_ok [OF r(2), where env = env]
  let ?lo0 = "fst (long_parts_of env op0)" and ?lo1 = "fst (long_parts_of env op1)"
    and ?hi0 = "snd (long_parts_of env op0)" and ?hi1 = "snd (long_parts_of env op1)"
  have sw: "swaps (skip_code code) = swaps code" "ordered (skip_code code) = (ordered code :: 16 word \<times> 16 word \<Rightarrow> 16 word \<times> 16 word)"
    by (auto simp: skip_code_def swaps_def ordered_def fun_eq_iff)
  obtain is0 x y s1 k where lo: "\<And>l isout. word_items rs n (skip_code code) ?lo0 ?lo1 l isout = (is0 @ compare_items (final_code (skip_code code)) x y l isout, k)"
    "n \<le> k" "\<And>js. run_items (is0 @ js) s = run_items js s1"
    "word_reg s1 x = fst (ordered code (low16 a, low16 b))" "word_reg s1 y = snd (ordered code (low16 a, low16 b))"
    "GET_CODE x = REG" "GET_MODE x = HImode" "GET_CODE y = REG" "mc_long s1 = mc_long s"
    by (rule run_words_part [OF m(1) p0(7) p1(7) p0(5) p1(5), OF v order_refl order_refl, where code = "skip_code code" and rs = rs])
      (simp only: sw)
  define s2 where "s2 = exec_cmphi_1 x y s1"
  have f2: "mc_flags s2 = sub_flags (fst (ordered code (low16 a, low16 b))) (snd (ordered code (low16 a, low16 b))) False"
    "mc_long s2 = mc_long s"
    using lo(4,5,9) by (simp_all add: s2_def exec_cmphi_1_def subtract_def)
  have v2: "long_operand s2 op0 = Some a" "long_operand s2 op1 = Some b"
    using v f2(2) by (auto simp: long_operand_def split: if_splits)
  obtain is1 x' y' s3 k' where hi: "\<And>l isout. word_items rs k code ?hi0 ?hi1 l isout = (is1 @ compare_items (final_code code) x' y' l isout, k')"
    "list_all (\<lambda>i. \<exists>p. i = It_insn p) is1" "\<And>js. run_items (is1 @ js) s2 = run_items js s3"
    "word_reg s3 x' = fst (ordered code (high16 a, high16 b))" "word_reg s3 y' = snd (ordered code (high16 a, high16 b))"
    "GET_CODE x' = REG" "GET_CODE y' = REG" "mc_flags s3 = mc_flags s2"
    by (rule run_words_part [OF m(2) p0(8) p1(8) p0(6) p1(6), OF v2 lo(2) lo(2), where code = code and rs = rs]) (rule that)
  define s4 where "s4 = exec_subchi3 x' y' s3"
  have c: "carry (mc_flags s2) = (fst (ordered code (low16 a, low16 b)) < snd (ordered code (low16 a, low16 b)))"
    "zero (mc_flags s2) = (low16 a = low16 b)"
    unfolding f2 sub_flags_exact by (auto simp: ordered_def)
  have f4: "mc_flags s4 = long_flags code a b"
    using hi(4,5,8) c(1) by (auto simp: s4_def exec_subchi3_def subtract_def long_flags_def ordered_def Let_def)
  let ?tail = "if code = EQ \<or> code = NE then [It_label label2] else []"
  let ?hi = "is1 @ [It_insn (subtract_with_carry x' y'), It_jump (jump_if (cc0_test (final_code code)) label)] @ ?tail"
  define H where "H = ?hi"
  have i: "long_items rs n code (long_parts_of env op0) (long_parts_of env op1) label label2
      = is0 @ It_insn (cc0_compare x y) # (if code = EQ \<or> code = NE then [It_jump (jump_if (cc0_test (skip_code code)) label2)] else []) @ H"
    unfolding long_items_def lo(1) hi(1) prod.case Let_def H_def
    by (auto simp: compare_items_def skip_code_def final_code_def swaps_def)
  have jump_out: "jump_to label ?tail s4 = Some (Some label, s4)" using l by (simp add: jump_to_def)
  have run_hi: "run_items H s2 = Some (if jump_taken (final_code code) (long_flags code a b) then Some label else None, s4)"
    unfolding H_def using hi(3) exec_sbc [OF hi(6,7)] jump_out
    by (simp add: s4_def [symmetric] f4)
  have skip: "jump_to label2 H s2 = Some (None, s2)" if "code = EQ \<or> code = NE"
    using that by (simp add: H_def jump_to_def after_label_insns [OF hi(2)])
  show ?thesis
  proof (cases "code = EQ \<or> code = NE")
    case True
    have "run_items (long_items rs n code (long_parts_of env op0) (long_parts_of env op1) label label2) s
        = (if jump_taken (skip_code code) (mc_flags s2) then Some (None, s2) else run_items H s2)"
      unfolding i lo(3) if_P [OF True]
      by (simp only: run_items.simps(2) exec_cmp [OF lo(6-8)] s2_def [symmetric] Option.bind.bind_lunit append.simps run_jump_if skip [OF True])
    moreover have "long_taken code a b = (\<not> jump_taken (skip_code code) (mc_flags s2) \<and> jump_taken (final_code code) (long_flags code a b))"
      using True by (elim disjE) (simp_all add: c(2) long_taken_def jump_taken_def skip_code_def final_code_def swaps_def)
    ultimately show ?thesis unfolding run_hi by simp
  next
    case False
    have "run_items (long_items rs n code (long_parts_of env op0) (long_parts_of env op1) label label2) s = run_items H s2"
      unfolding i lo(3) if_not_P [OF False]
      by (simp only: run_items.simps(2) exec_cmp [OF lo(6-8)] s2_def [symmetric] Option.bind.bind_lunit append.simps)
    then show ?thesis unfolding run_hi using False by (simp add: long_taken_def)
  qed
qed

lemma long_taken_correct:
  assumes "reverse_condition code \<noteq> None" "code \<noteq> NE"
  shows "cond_holds code a b = Some (long_taken code a b \<noteq> (signed_code code \<and> overflows code a b))"
proof (cases "code = EQ")
  case True
  then show ?thesis
    by (auto simp: long_taken_def long_flags_def ordered_def swaps_def cond_holds_def sub_flags_exact signed_code_def halves_eq)
next
  case False
  let ?x = "fst (ordered code (a, b))" and ?y = "snd (ordered code (a, b))"
  have "carry (long_flags code a b) = carry (sub_flags ?x ?y False)" "sign (long_flags code a b) = sign (sub_flags ?x ?y False)"
    by (simp_all add: long_flags_def case_prod_beta Let_def borrow_carry borrow_sign sub_flags_exact(1))
  moreover have "final_code code \<noteq> EQ" "final_code code \<noteq> NE"
    using assms False by (auto simp: final_code_def swaps_def split: if_splits)
  ultimately have "jump_taken (final_code code) (long_flags code a b) = jump_taken (final_code code) (sub_flags ?x ?y False)"
    by (simp add: jump_taken_def)
  then show ?thesis
    using branch_decides [OF assms(1), of a b undefined undefined] assms(2) False
    by (auto simp: long_taken_def ordered_def final_code_def compare_order_def split: if_splits)
qed

lemma long_mode:
  assumes "long_ready n op0" "long_ready n op1" "compared_mode op0 op1 = SImode"
  shows "compared_mode (fst (long_parts_of env op0)) (fst (long_parts_of env op1)) = HImode"
    "compared_mode (snd (long_parts_of env op0)) (snd (long_parts_of env op1)) = HImode"
  using assms by (auto simp: long_ready_def compared_mode_def long_parts_of_def pseudo_parts const_parts)

lemma expand_long:
  assumes m: "compared_mode op0 op1 = SImode" and r: "long_ready (reg_rtx_no st) op0" "long_ready (reg_rtx_no st) op1"
    and w: "well_formed st" "\<not> no_new_pseudos st" and c: "reverse_condition code \<noteq> None" and l: "label < next_address st"
  obtains st' "is" where "z80_expand_compare_and_branch env code op0 op1 label isout st = Some st'" "emits st is st'"
    "\<And>s a b. long_operand s op0 = Some a \<Longrightarrow> long_operand s op1 = Some b
      \<Longrightarrow> \<exists>s'. run_items is s = Some (if long_taken code a b then Some label else None, s')"
proof -
  let ?P = "long_parts_of (mv_parts env)"
  note p0 = long_parts_ok [OF r(1), where env = "mv_parts env"] and p1 = long_parts_ok [OF r(2), where env = "mv_parts env"]
  note modes = long_mode [OF r m, where env = "mv_parts env"]
  from compare_longs_emits [OF p0(1) p1(1) p0(2) p1(2) modes p0(3) p1(3) p0(4) p1(4) w c] obtain st' where
    "compare_longs env code op0 op1 label st = Some st'"
    "emits st (long_items (mv_reload env) (reg_rtx_no st) code (?P op0) (?P op1) label (next_address st)) st'"
    by (auto simp only: prod.collapse)
  note e = this
  show thesis
  proof (rule that [OF _ e(2)])
    show "z80_expand_compare_and_branch env code op0 op1 label isout st = Some st'"
      using e(1) m by (simp add: z80_expand_compare_and_branch_def)
    show "\<exists>s'. run_items (long_items (mv_reload env) (reg_rtx_no st) code (?P op0) (?P op1) label (next_address st)) s
        = Some (if long_taken code a b then Some label else None, s')"
      if "long_operand s op0 = Some a" "long_operand s op1 = Some b" for s a b
      by (rule run_long [OF that r modes]) (use l in simp)
  qed
qed

text \<open>C23. The comparison and branch of two 4-byte operands, in pseudo registers or constants, is exact for every
  condition but \<open>NE\<close>: the function succeeds, and the code it appends, which compares the low
  words, subtracts the high words with the borrow and tests the flags, takes the branch
  exactly when the condition holds of the 4-byte values, except for a signed condition whose
  subtraction overflows, where it decides the opposite way.\<close>

theorem long_branch_correct:
  assumes "compared_mode op0 op1 = SImode" "long_ready (reg_rtx_no st) op0" "long_ready (reg_rtx_no st) op1"
    and "well_formed st" "\<not> no_new_pseudos st" and "reverse_condition code \<noteq> None" "code \<noteq> NE" and "label < next_address st"
  shows "\<exists>st' is. z80_expand_compare_and_branch env code op0 op1 label isout st = Some st' \<and> emits st is st'
    \<and> branches_exactly long_operand code op0 op1 label is"
proof -
  obtain st' "is" where e: "z80_expand_compare_and_branch env code op0 op1 label isout st = Some st'" "emits st is st'"
    "\<And>s a b. long_operand s op0 = Some a \<Longrightarrow> long_operand s op1 = Some b
      \<Longrightarrow> \<exists>s'. run_items is s = Some (if long_taken code a b then Some label else None, s')"
    using expand_long [OF assms(1-6,8)] by metis
  have "branches_exactly long_operand code op0 op1 label is"
    unfolding branches_exactly_def using e(3) long_taken_correct [OF assms(6,7)] by metis
  then show ?thesis using e(1,2) by blast
qed

definition after_a_label :: emit_state where
  "after_a_label = snd (gen_label_rtx after_some_registers)"

lemma a_label: "well_formed after_a_label" "\<not> no_new_pseudos after_a_label" "reg_rtx_no after_a_label = 30" "1 < next_address after_a_label"
  using produces_new_label(1) [OF some_registers(1,2)] some_registers(3)
  by (simp_all add: after_a_label_def produces_def)
    (simp add: gen_label_rtx_def rtx_alloc_def Let_def after_some_registers_def init_emit_def empty_emit_def)

lemma ready_examples: "long_ready 30 (gen_rtx_REG SImode 25)" "long_ready 30 (GEN_INT i)"
  by (auto simp: long_ready_def)

theorem long_branch_correct_witness:
  "\<exists>st' is. z80_expand_compare_and_branch before_reload GE (gen_rtx_REG SImode 25) (GEN_INT 100000) 1 1 after_a_label = Some st'
    \<and> emits after_a_label is st' \<and> branches_exactly long_operand GE (gen_rtx_REG SImode 25) (GEN_INT 100000) 1 is"
  by (rule long_branch_correct) (auto simp: a_label a_label(4) [simplified] compared_mode_def ready_examples)

text \<open>C24. Inequality of 4-byte operands is decided wrongly: the branch for \<open>NE\<close> leaves the comparison when
  the low words are equal and then tests the difference of the high words less the borrow, so
  it is taken exactly when both differ in this sense. Two different values with equal low
  words fall through, and so do values whose high words differ by the borrow.\<close>

theorem long_ne_branch_wrong:
  assumes "compared_mode op0 op1 = SImode" "long_ready (reg_rtx_no st) op0" "long_ready (reg_rtx_no st) op1"
    and "well_formed st" "\<not> no_new_pseudos st" and "label < next_address st"
  shows "\<exists>st' is. z80_expand_compare_and_branch env NE op0 op1 label isout st = Some st' \<and> emits st is st'
    \<and> (\<forall>s a b. long_operand s op0 = Some a \<and> long_operand s op1 = Some b \<longrightarrow>
         (\<exists>s' t. run_items is s = Some (if t then Some label else None, s')
            \<and> t = (low16 a \<noteq> low16 b \<and> high16 a - high16 b \<noteq> (if low16 a < low16 b then 1 else 0))))"
proof -
  have c: "reverse_condition NE \<noteq> None" by simp
  obtain st' "is" where e: "z80_expand_compare_and_branch env NE op0 op1 label isout st = Some st'" "emits st is st'"
    "\<And>s a b. long_operand s op0 = Some a \<Longrightarrow> long_operand s op1 = Some b
      \<Longrightarrow> \<exists>s'. run_items is s = Some (if long_taken NE a b then Some label else None, s')"
    using expand_long [OF assms(1-5) c assms(6)] by metis
  have "long_taken NE a b = (low16 a \<noteq> low16 b \<and> high16 a - high16 b \<noteq> (if low16 a < low16 b then 1 else 0))" for a b
    by (auto simp: long_taken_def long_flags_def ordered_def swaps_def sub_flags_def Let_def)
  then have "\<exists>s' t. run_items is s = Some (if t then Some label else None, s')
      \<and> t = (low16 a \<noteq> low16 b \<and> high16 a - high16 b \<noteq> (if low16 a < low16 b then 1 else 0))"
    if "long_operand s op0 = Some a" "long_operand s op1 = Some b" for s a b
    using e(3) [OF that] by blast
  then show ?thesis using e(1,2) by blast
qed

theorem long_ne_branch_wrong_witness:
  "\<exists>st' is. z80_expand_compare_and_branch before_reload NE (gen_rtx_REG SImode 25) (GEN_INT 0) 1 1 after_a_label = Some st'
    \<and> emits after_a_label is st'
    \<and> (\<forall>s a b. long_operand s (gen_rtx_REG SImode 25) = Some a \<and> long_operand s (GEN_INT 0) = Some b \<longrightarrow>
         (\<exists>s' t. run_items is s = Some (if t then Some 1 else None, s')
            \<and> t = (low16 a \<noteq> low16 b \<and> high16 a - high16 b \<noteq> (if low16 a < low16 b then 1 else 0))))"
  by (rule long_ne_branch_wrong) (auto simp: a_label a_label(4) [simplified] compared_mode_def ready_examples)

end
