(* ===== verification/Spec2Isabelle.thy ===== *)
theory Spec2Isabelle
  imports Asm_Templates Cc_Status Cse_Fold Dominators Fold_Division Rtl_Traverse Z80_Branches
begin

text \<open>
  A verification development for the GCC 2.95.2 compiler with its back end for the Z80.

  The program.  GCC turns a function into a chain of insns whose patterns are expressions of the
  register transfer language (RTL).  The expander emits insns through emit-rtl.c, asking the
  machine description and the port (gcc/config/z80) for the expansion of moves, comparisons and
  branches; the passes analyse expressions (rtlanal.c), fold constants (fold-const.c) and move
  computations over the flow graph (flow.c, sbitmap.c, lcm.c); recog.c checks operands against
  predicates of the port; the port lays out stack frames, splits long moves and prints operands.
  All paths below are under src/gcc-2.95.2_z80/gcc.

  Theories and sources.  Definitions keep the names of the C functions and macros.
  - Prelude: facts on lists, options and words that the others share.
  - Rtl (rtl.h, rtl.c, rtl.def, machmode.def, emit-rtl.c): modes, codes with their formats,
    expressions, accessors, constructors, copying.  An rtx is a tree; a node carries its code,
    mode, flags and fields, and NULL_RTX is the null pointer.  Sharing is not represented.
  - Rtlanal, Rtl_Effects, Rtl_Notes (rtlanal.c): equality, occurrence and overlap of registers;
    stability, traps, side effects, replacement; notes and stores of insns.  Their semantics is
    rtx_value, the value of a 16-bit expression in a state of registers and memory.
  - Rtl_Constants (varasm.c, explow.c): integer constants and sums with constants.
  - Jump_Conditions (jump.c): reversal, swapping and domination of condition codes.
  - Fold_Const, Fold_Division (fold-const.c): the two-word integers of the constant folder.  A
    HOST_WIDE_INT is a 32-bit word, signed views are sint, and undefined shifts are None.
  - Insn_Chain (emit-rtl.c): the insns in a store from addresses to cells, with the null pointer 0,
    the chain and the stack of pending sequences.  Insn_Lists states what the store means
    (disjoint doubly linked lists), Insn_Emission proves that every operation keeps it,
    and Emission_Items gives the clients a view of an emission as the items it appends.
  - Recog (recog.c): operand predicates and offsettable addresses, over the address recogniser
    of a port.  Emit_Parts (emit-rtl.c): low and high parts of values.
  - Move_Expand (expr.c, explow.c, z80.md): the expansion of moves.
  - Z80_Regs, Z80_Address, Z80_Operands, Z80_Moves, Z80_Compare, Z80_Branches, Z80_Frame
    (config/z80/z80.h, z80.c, z80.md): the port.  The emitted insns are run on a machine with
    registers, flags and memory, so that the properties speak of what the code does.
  - Z80_Output, Asm_Templates (final.c, varasm.c, config/z80): the assembler text of operands and
    of insns from their templates, and how an assembler reads it back.
  - Cc_Status (final.c, conditions.h, config/z80): what is known of the flags during final output,
    which comparisons are left out, and how jumps are altered for nonstandard flags.
  - Cse_Fold (cse.c, toplev.c): folding of operations, comparisons and bit fields on integer constants,
    against the operations on words of the width of the mode.
  - Rtl_Between, Rtl_Traverse (rtlanal.c): what the insns between two points may change, the last value of
    a register, replacement of registers, computed jumps, traversal with a callback.
  - Sbitmap (sbitmap.c), Block_Iteration and Vector_Passes (the loops that dataflow passes
    share), Lcm and Lcm_Solutions (lcm.c), Code_Motion (what lazy code motion promises),
    Flow_Graph and Dominators (flow.c).

  Interfaces.  Recog states what it needs of a port as locales (the contract of an address
  recogniser), interpreted in Z80_Operands on the recogniser of the port.  Block_Iteration
  states what a dataflow loop needs of the visit of one block; Vector_Passes proves it for every
  pass on two vectors, and Lcm_Solutions interprets it on each loop of lcm.c.

  What is shown.  Invariants: an emission keeps the chain well linked.  Refinement: emission
  appends to lists, bitmaps are sets, address recognition accepts what the processor encodes.
  Functional results: arithmetic of the folder against integers, branches against the
  comparison they stand for, long moves, dominators against paths.  Safety: an analysis that
  answers no is right on every state, lazy code motion neither loses nor adds a computation on
  a path.  Termination and liveness: searches and dataflow loops end.  Error theorems pin down
  where the code does not do what its comments promise; they are listed in the manifest.

  Bounds.  Loops over chains are recursions with fuel from the length of the chain or partial
  functions whose result is proved to exist; dataflow loops are while_option, and the results
  show that they end.  The host has 32-bit words and a 16-bit target address space; numbers
  of registers, blocks and insns are far below 2^31 and are int or nat.

  Not modelled.  The front ends (C, C++, Fortran, Java, Chill, Objective C), trees, the passes
  combine, cse but for constants, loop, reload, register allocation, scheduling and debugging output, the
  generators that read the machine description, the other back ends, and the libraries: the
  development covers the port and the core it stands on, and the manifest lists every other
  part with the reason.  Assembler text outside of operands, dumps and storage management
  (obstacks, free) are left out.
\<close>

end
